(* ===== verification/Prelude.thy ===== *)
theory Prelude
  imports Main "HOL-Library.Word" "HOL-Library.Monad_Syntax"
begin

text \<open>
  Shared ground of the development: the machine integer types of Go, arithmetic of a
  position in a ring of \<open>2 ^ n\<close> cells, list facts about overwriting a region, and the
  generic notion of a reachable state of a transition system with its invariant rule.

  A Go run-time panic is the value \<^term>\<open>None\<close> of an option throughout; a Go \<open>error\<close>
  result is an ordinary value of the component's error datatype.
\<close>

unbundle bit_operations_syntax

type_synonym u8 = "8 word"
type_synonym u16 = "16 word"
type_synonym u32 = "32 word"
type_synonym u64 = "64 word"
  \<comment> \<open>\<open>int32\<close> and \<open>int64\<close> are words read with \<^const>\<open>sint\<close>\<close>
type_synonym i32 = "32 word"
type_synonym i64 = "64 word"

named_theorems slice_simps "evaluation of slice expressions"
named_theorems codec_simps "decoding what an encoder has written"

section \<open>States of the components, \<open>util/state.go\<close>\<close>

definition StateDie :: u32 where "StateDie = 1"
definition StateWork :: u32 where "StateWork = 2"
definition StatePause :: u32 where "StatePause = 3"
definition StateCircuitBreakerClosed :: u32 where "StateCircuitBreakerClosed = 4"
definition StateCircuitBreakerOpen :: u32 where "StateCircuitBreakerOpen = 5"
definition StateCircuitBreakerHalfOpen :: u32 where "StateCircuitBreakerHalfOpen = 6"

lemmas state_defs = StateDie_def StateWork_def StatePause_def
  StateCircuitBreakerClosed_def StateCircuitBreakerOpen_def StateCircuitBreakerHalfOpen_def

section \<open>Positions in a ring\<close>

lemma mod_offset_inj:
  fixes a :: nat
  assumes ij: "i < N" "j < N" and eq: "(a + i) mod N = (a + j) mod N"
  shows "i = j"
proof -
  have le: "i = j" if "i \<le> j" "j < N" "(a + i) mod N = (a + j) mod N" for i j
  proof -
    from that have "N dvd (a + j) - (a + i)"
      by (metis add_le_cancel_left mod_eq_dvd_iff_nat)
    then have "N dvd j - i" by simp
    with that show "i = j" by (auto dest: dvd_imp_le)
  qed
  show ?thesis
    using le [of i j] le [of j i] ij eq by linarith
qed

text \<open>A cursor of width 64 is reduced to a ring position with a bit mask.\<close>

lemma unat_and_mask: "unat ((x :: 64 word) AND (2 ^ n - 1)) = unat x mod 2 ^ n"
  by (metis mask_eq_exp_minus_1 take_bit_eq_mask unsigned_take_bit_eq take_bit_eq_mod)

lemma unat_add_nowrap: "unat (a :: 'a::len word) + unat b < 2 ^ LENGTH('a) \<Longrightarrow> unat (a + b) = unat a + unat b"
  by (simp add: unat_word_ariths)

lemma unat_diff_nowrap: "unat (b :: 'a::len word) \<le> unat a \<Longrightarrow> unat (a - b) = unat a - unat b"
  by (simp add: unat_sub word_le_nat_alt)

lemma unat_bound: "unat (x :: 'a::len word) < 2 ^ LENGTH('a)"
  by (rule unsigned_less)

lemma unat_of_nat_small: "n < 2 ^ LENGTH('a::len) \<Longrightarrow> unat (of_nat n :: 'a word) = n"
  by (simp add: unat_of_nat)

lemma unat_pow2: "n < LENGTH('a) \<Longrightarrow> unat ((2 :: 'a::len word) ^ n) = 2 ^ n"
proof -
  assume "n < LENGTH('a)"
  then have "(2 :: nat) ^ n < 2 ^ LENGTH('a)" by simp
  then have "unat (of_nat (2 ^ n) :: 'a word) = 2 ^ n" by (rule unat_of_nat_small)
  then show ?thesis by (metis of_nat_numeral of_nat_power)
qed

section \<open>Overwriting a region of a list\<close>

text \<open>\<open>overwrite xs i ys\<close>: \<open>xs\<close> with \<open>ys\<close> stored from index \<open>i\<close> on.\<close>

definition overwrite :: "'a list \<Rightarrow> nat \<Rightarrow> 'a list \<Rightarrow> 'a list" where
  "overwrite xs i ys = take i xs @ ys @ drop (i + length ys) xs"

lemma length_overwrite [simp]:
  "i + length ys \<le> length xs \<Longrightarrow> length (overwrite xs i ys) = length xs"
  by (simp add: overwrite_def)

lemma nth_overwrite:
  assumes "i + length ys \<le> length xs" "j < length xs"
  shows "overwrite xs i ys ! j = (if i \<le> j \<and> j < i + length ys then ys ! (j - i) else xs ! j)"
  using assms by (auto simp: overwrite_def nth_append)

lemma take_overwrite: "i + length ys \<le> length xs \<Longrightarrow> take (i + length ys) (overwrite xs i ys) = take i xs @ ys"
  by (simp add: overwrite_def)

lemma overwrite_Nil [simp]: "overwrite xs i [] = xs"
  by (simp add: overwrite_def)

section \<open>Transition systems\<close>

inductive reach :: "('s \<Rightarrow> bool) \<Rightarrow> ('s \<Rightarrow> 's \<Rightarrow> bool) \<Rightarrow> 's \<Rightarrow> bool"
  for init :: "'s \<Rightarrow> bool" and step :: "'s \<Rightarrow> 's \<Rightarrow> bool" where
  reach_init [intro]: "init s \<Longrightarrow> reach init step s"
| reach_step: "reach init step s \<Longrightarrow> step s t \<Longrightarrow> reach init step t"

text \<open>An inductive invariant of a system holds in every reachable state.\<close>

locale step_invariant =
  fixes init :: "'s \<Rightarrow> bool" and step :: "'s \<Rightarrow> 's \<Rightarrow> bool" and inv :: "'s \<Rightarrow> bool"
  assumes init_inv: "init s \<Longrightarrow> inv s"
    and step_inv: "inv s \<Longrightarrow> step s t \<Longrightarrow> inv t"
begin

lemma reach_inv: "reach init step s \<Longrightarrow> inv s"
  by (induction rule: reach.induct) (auto intro: init_inv step_inv)

end

text \<open>The deterministic case: a step function run over a list of events.\<close>

locale run_invariant =
  fixes step :: "'s \<Rightarrow> 'e \<Rightarrow> 's" and inv :: "'s \<Rightarrow> bool" and ok :: "'e \<Rightarrow> bool"
  assumes step_inv: "inv s \<Longrightarrow> ok e \<Longrightarrow> inv (step s e)"
begin

lemma run_inv: "inv s \<Longrightarrow> list_all ok es \<Longrightarrow> inv (foldl step s es)"
  by (induction es arbitrary: s) (auto intro: step_inv)

end

end
