(* ===== verification/GoSlice.thy ===== *)
theory GoSlice
  imports Prelude
begin

text \<open>
  Go slices. A slice value is the list of elements from its first one up to its
  \<^emph>\<open>capacity\<close> together with its length: reslicing and \<open>append\<close> may reach up to the
  capacity, indexing only up to the length. Slices are values here: the model copies where
  Go shares the backing array, and the components write out where sharing matters.
  \<^const>\<open>None\<close> is the run-time panic of an index or a slice expression out of range.
\<close>

datatype 'a slice = Slice (backing: "'a list") (slen: nat)

definition wf_slice :: "'a slice \<Rightarrow> bool" where
  "wf_slice s \<longleftrightarrow> slen s \<le> length (backing s)"

definition elems :: "'a slice \<Rightarrow> 'a list" where
  "elems s = take (slen s) (backing s)"

text \<open>A slice made by \<open>make\<close> or by a composite literal: capacity and length agree.\<close>

definition of_list :: "'a list \<Rightarrow> 'a slice" where
  "of_list xs = Slice xs (length xs)"

text \<open>\<open>s[i]\<close> for a read.\<close>

definition sl_at :: "'a slice \<Rightarrow> nat \<Rightarrow> 'a option" where
  "sl_at s i = (if i < slen s then Some (backing s ! i) else None)"

text \<open>\<open>s[lo:hi]\<close>: the bounds are Go \<open>int\<close>s, checked against the capacity.\<close>

definition reslice :: "'a slice \<Rightarrow> int \<Rightarrow> int \<Rightarrow> 'a slice option" where
  "reslice s lo hi =
     (if 0 \<le> lo \<and> lo \<le> hi \<and> hi \<le> int (length (backing s))
      then Some (Slice (drop (nat lo) (backing s)) (nat (hi - lo))) else None)"

text \<open>\<open>copy(dst, src)\<close> on whole slices: the new content of \<open>dst\<close>.\<close>

definition gocopy :: "'a list \<Rightarrow> 'a list \<Rightarrow> 'a list" where
  "gocopy dst src = take (length dst) src @ drop (length src) dst"

text \<open>Run an update on the sub-slice \<open>xs[lo:hi]\<close> of an array and see its effect on the array.\<close>

definition upd_sub :: "'a list \<Rightarrow> nat \<Rightarrow> nat \<Rightarrow> ('a list \<Rightarrow> 'a list) \<Rightarrow> 'a list option" where
  "upd_sub xs lo hi f =
     (if lo \<le> hi \<and> hi \<le> length xs
      then Some (take lo xs @ f (take (hi - lo) (drop lo xs)) @ drop hi xs) else None)"

text \<open>\<open>xs[i]\<close> and \<open>xs[i] = v\<close> on an array or on a slice of full capacity.\<close>

definition arr_get :: "'a list \<Rightarrow> nat \<Rightarrow> 'a option" where
  "arr_get xs i = (if i < length xs then Some (xs ! i) else None)"

definition arr_set :: "'a list \<Rightarrow> nat \<Rightarrow> 'a \<Rightarrow> 'a list option" where
  "arr_set xs i v = (if i < length xs then Some (xs[i := v]) else None)"

section \<open>Evaluation\<close>

lemma wf_of_list [simp, intro]: "wf_slice (of_list xs)"
  by (simp add: wf_slice_def of_list_def)

lemma elems_of_list [simp]: "elems (of_list xs) = xs"
  by (simp add: elems_def of_list_def)

lemma slen_of_list [simp]: "slen (of_list xs) = length xs"
  by (simp add: of_list_def)

lemma backing_of_list [simp]: "backing (of_list xs) = xs"
  by (simp add: of_list_def)

lemma length_elems [simp]: "wf_slice s \<Longrightarrow> length (elems s) = slen s"
  by (simp add: wf_slice_def elems_def)

lemma elems_Slice [slice_simps]: "elems (Slice xs n) = take n xs"
  by (simp add: elems_def)

lemma sl_at_elems: "wf_slice s \<Longrightarrow> sl_at s i = (if i < slen s then Some (elems s ! i) else None)"
  by (auto simp: sl_at_def wf_slice_def elems_def)

lemma sl_at_none [simp]: "slen s \<le> i \<Longrightarrow> sl_at s i = None"
  by (simp add: sl_at_def)

lemma reslice_SomeD:
  assumes "reslice s lo hi = Some t"
  shows "wf_slice t" "slen t = nat (hi - lo)" "elems t = take (nat (hi - lo)) (drop (nat lo) (backing s))"
    "backing t = drop (nat lo) (backing s)"
  using assms by (auto simp: reslice_def wf_slice_def elems_def split: if_splits)

lemma reslice_nat [slice_simps]:
  "reslice (Slice xs n) (int lo) (int hi) =
     (if lo \<le> hi \<and> hi \<le> length xs then Some (Slice (drop lo xs) (hi - lo)) else None)"
  by (auto simp: reslice_def)

lemma reslice_wf_within:
  assumes "wf_slice s" "lo \<le> hi" "hi \<le> slen s"
  shows "\<exists>t. reslice s (int lo) (int hi) = Some t \<and> wf_slice t \<and> slen t = hi - lo
           \<and> elems t = take (hi - lo) (drop lo (elems s))"
  using assms by (cases s) (auto simp: slice_simps wf_slice_def elems_def take_drop min_def)

lemma reslice_None_iff:
  "reslice s lo hi = None \<longleftrightarrow> \<not> (0 \<le> lo \<and> lo \<le> hi \<and> hi \<le> int (length (backing s)))"
  by (simp add: reslice_def)

lemma length_gocopy [simp]: "length (gocopy dst src) = length dst"
  by (simp add: gocopy_def)

lemma gocopy_exact [simp]: "length src = length dst \<Longrightarrow> gocopy dst src = src"
  by (simp add: gocopy_def)

lemma gocopy_fits: "length src \<le> length dst \<Longrightarrow> gocopy dst src = src @ drop (length src) dst"
  by (simp add: gocopy_def)

lemma upd_sub_overwrite:
  "lo + length ys = hi \<Longrightarrow> hi \<le> length xs \<Longrightarrow> upd_sub xs lo hi (\<lambda>d. gocopy d ys) = Some (overwrite xs lo ys)"
  by (auto simp: upd_sub_def overwrite_def)

lemma length_upd_sub:
  assumes "upd_sub xs lo hi f = Some zs" "\<And>d. length (f d) = length d"
  shows "length zs = length xs"
  using assms by (auto simp: upd_sub_def split: if_splits)

end
