(* ===== verification/Conver.thy ===== *)
theory Conver
  imports GoSlice
begin

text \<open>
  \<open>util/conver.go\<close>: little-endian integers in byte slices, decimal printing, comparison of
  \<open>uint16\<close> slices, and the header casts between strings and byte slices. The codecs are
  presented through the interface \<open>byte_codec\<close>, interpreted for the three widths.
\<close>

section \<open>Decimal printing\<close>

definition DIGITS :: string where
  "DIGITS = ''0123456789''"

text \<open>
  The loop \<open>for j := top; j >= 0 && d > 0; j--\<close> of both printers. Its first argument is
  \<open>j + 1\<close>, the number of cells still free; the width of the digit type is that of \<open>d\<close>.
\<close>

fun digits_loop :: "nat \<Rightarrow> 'a::len word \<Rightarrow> string \<Rightarrow> nat \<Rightarrow> string \<times> nat" where
  "digits_loop 0 d b n = (b, n)"
| "digits_loop (Suc j) d b n =
     (if d > 0 then digits_loop j (d div 10) (b[j := DIGITS ! unat (d mod 10)]) (Suc n) else (b, n))"

definition Uint32ToString :: "u32 \<Rightarrow> string" where
  "Uint32ToString d =
     (if d = 0 then ''0''
      else let (b, n) = digits_loop 10 d (replicate 10 (CHR 0x00)) 0 in drop (10 - n) b)"

definition Uint64ToString :: "u64 \<Rightarrow> string" where
  "Uint64ToString d =
     (if d = 0 then ''0''
      else let (b, n) = digits_loop 20 d (replicate 20 (CHR 0x00)) 0 in drop (20 - n) b)"

text \<open>Reference: the decimal digits of a number, most significant first, and their value.\<close>

fun dec_digits :: "nat \<Rightarrow> string" where
  "dec_digits n = (if n = 0 then [] else dec_digits (n div 10) @ [DIGITS ! (n mod 10)])"

declare dec_digits.simps [simp del]

definition dec_show :: "nat \<Rightarrow> string" where
  "dec_show n = (if n = 0 then ''0'' else dec_digits n)"

definition dec_value :: "string \<Rightarrow> nat" where
  "dec_value s = foldl (\<lambda>a c. 10 * a + (of_char c - 48)) 0 s"

lemma dec_digits_0 [simp]: "dec_digits 0 = []"
  by (simp add: dec_digits.simps)

lemma dec_digits_pos: "n > 0 \<Longrightarrow> dec_digits n = dec_digits (n div 10) @ [DIGITS ! (n mod 10)]"
  by (simp add: dec_digits.simps [of n])

lemma of_char_DIGITS: "k < 10 \<Longrightarrow> of_char (DIGITS ! k) = (48 + k :: nat)"
proof -
  assume "k < 10"
  then have "k \<in> set [0, 1, 2, 3, 4, 5, 6, 7, 8, 9]" by auto
  then show ?thesis by (auto simp: DIGITS_def)
qed

lemma dec_value_snoc: "dec_value (s @ [c]) = 10 * dec_value s + (of_char c - 48)"
  by (simp add: dec_value_def)

lemma dec_value_digits: "dec_value (dec_digits n) = n"
proof (induction n rule: less_induct)
  case (less n)
  show ?case
  proof (cases "n = 0")
    case True
    then show ?thesis by (simp add: dec_value_def)
  next
    case False
    with less [of "n div 10"] show ?thesis
      by (simp add: dec_digits_pos dec_value_snoc of_char_DIGITS)
  qed
qed

lemma length_dec_digits: "n < 10 ^ k \<Longrightarrow> length (dec_digits n) \<le> k"
proof (induction k arbitrary: n)
  case 0
  then show ?case by simp
next
  case (Suc k)
  then have "n div 10 < 10 ^ k" by (simp add: less_mult_imp_div_less mult.commute)
  with Suc.IH [of "n div 10"] show ?case
    by (cases "n = 0") (simp_all add: dec_digits_pos)
qed

lemma dec_digits_hd: "n > 0 \<Longrightarrow> dec_digits n \<noteq> [] \<and> hd (dec_digits n) \<noteq> CHR ''0''"
proof (induction n rule: less_induct)
  case (less n)
  show ?case
  proof (cases "n < 10")
    case True
    with less.prems have "n div 10 = 0" and "DIGITS ! n \<noteq> CHR ''0''"
      using of_char_DIGITS [of n] by auto
    with less.prems show ?thesis by (simp add: dec_digits_pos \<open>n < 10\<close>)
  next
    case False
    with less.IH [of "n div 10"] less.prems show ?thesis
      by (simp add: dec_digits_pos [of n])
  qed
qed

text \<open>
  The loop writes the digits from the right end of the buffer. With \<open>d < 10 ^ j\<close> it stops
  because \<open>d\<close> is used up, never because the buffer is.
\<close>

lemma digits_loop_correct:
  fixes d :: "'a::len word"
  assumes "10 < (2::nat) ^ LENGTH('a)" "unat d < 10 ^ j" "j + n = length b"
  shows "\<exists>b' n'. digits_loop j d b n = (b', n') \<and> length b' = length b \<and> n' \<le> length b \<and>
           drop (length b - n') b' = dec_digits (unat d) @ drop (length b - n) b"
  using assms(2,3)
proof (induction j arbitrary: d b n)
  case 0
  then show ?case by simp
next
  case (Suc j)
  have ten: "unat (10 :: 'a word) = 10"
    using assms(1) by (metis unat_of_nat_small of_nat_numeral)
  show ?case
  proof (cases "d > 0")
    case False
    with Suc.prems show ?thesis by (simp add: word_neq_0_conv [symmetric])
  next
    case True
    let ?c = "DIGITS ! (unat d mod 10)"
    from True have pos: "unat d > 0" by (simp add: word_greater_zero_iff unat_gt_0)
    have d10: "unat (d div 10) = unat d div 10" and m10: "unat (d mod 10) = unat d mod 10"
      by (simp_all only: unat_div unat_mod ten)
    have "unat (d div 10) < 10 ^ j"
      using Suc.prems(1) by (simp add: d10 less_mult_imp_div_less mult.commute)
    moreover have "j + Suc n = length (b[j := ?c])"
      using Suc.prems(2) by simp
    ultimately obtain b' n' where
      *: "digits_loop j (d div 10) (b[j := ?c]) (Suc n) = (b', n')" "length b' = length b" "n' \<le> length b"
        "drop (length b - n') b' = dec_digits (unat (d div 10)) @ drop (length b - Suc n) (b[j := ?c])"
      using Suc.IH [of "d div 10" "Suc n" "b[j := ?c]"] by auto
    have "length b - Suc n = j" and "length b - n = Suc j" and "j < length b"
      using Suc.prems(2) by auto
    then have "drop (length b - Suc n) (b[j := ?c]) = ?c # drop (length b - n) b"
      by (metis Cons_nth_drop_Suc drop_update_cancel length_list_update lessI nth_list_update_eq)
    with * pos True show ?thesis
      by (auto simp: d10 m10 dec_digits_pos [of "unat d"])
  qed
qed

lemma Uint32ToString_show: "Uint32ToString d = dec_show (unat d)"
proof (cases "d = 0")
  case False
  have "unat d < 2 ^ 32" using unsigned_less [of d] by simp
  then have "unat d < 10 ^ 10" by simp
  then obtain b' n' where "digits_loop 10 d (replicate 10 (CHR 0x00)) 0 = (b', n')"
    "drop (10 - n') b' = dec_digits (unat d)"
    using digits_loop_correct [of d 10 0 "replicate 10 (CHR 0x00)"] by auto
  with False show ?thesis by (simp add: Uint32ToString_def dec_show_def unat_eq_zero)
qed (simp add: Uint32ToString_def dec_show_def)

lemma Uint64ToString_show: "Uint64ToString d = dec_show (unat d)"
proof (cases "d = 0")
  case False
  have "unat d < 2 ^ 64" using unsigned_less [of d] by simp
  then have "unat d < 10 ^ 20" by simp
  then obtain b' n' where "digits_loop 20 d (replicate 20 (CHR 0x00)) 0 = (b', n')"
    "drop (20 - n') b' = dec_digits (unat d)"
    using digits_loop_correct [of d 20 0 "replicate 20 (CHR 0x00)"] by auto
  with False show ?thesis by (simp add: Uint64ToString_def dec_show_def unat_eq_zero)
qed (simp add: Uint64ToString_def dec_show_def)

lemma dec_value_show: "dec_value (dec_show n) = n"
  by (simp add: dec_show_def dec_value_digits) (simp add: dec_value_def)

section \<open>Little-endian integers in byte slices\<close>

definition BytesToUint32 :: "u8 slice \<Rightarrow> u32 option" where
  "BytesToUint32 b = do {
     _ \<leftarrow> sl_at b 3;
     b0 \<leftarrow> sl_at b 0; b1 \<leftarrow> sl_at b 1; b2 \<leftarrow> sl_at b 2; b3 \<leftarrow> sl_at b 3;
     Some (ucast b0 OR push_bit 8 (ucast b1) OR push_bit 16 (ucast b2) OR push_bit 24 (ucast b3)) }"

definition bytes32 :: "u32 \<Rightarrow> u8 list" where
  "bytes32 n = [ucast n, ucast (drop_bit 8 n), ucast (drop_bit 16 n), ucast (drop_bit 24 n)]"

definition CopyUint32 :: "u8 list \<Rightarrow> u32 \<Rightarrow> u8 list" where
  "CopyUint32 dst n = gocopy dst (bytes32 n)"

definition BytesToUint16 :: "u8 slice \<Rightarrow> u16 option" where
  "BytesToUint16 b = do {
     _ \<leftarrow> sl_at b 1;
     b0 \<leftarrow> sl_at b 0; b1 \<leftarrow> sl_at b 1;
     Some (ucast b0 OR push_bit 8 (ucast b1)) }"

definition bytes16 :: "u16 \<Rightarrow> u8 list" where
  "bytes16 n = [ucast n, ucast (drop_bit 8 n)]"

definition CopyUint16 :: "u8 list \<Rightarrow> u16 \<Rightarrow> u8 list" where
  "CopyUint16 dst n = gocopy dst (bytes16 n)"

definition BytesToInt64 :: "u8 slice \<Rightarrow> i64 option" where
  "BytesToInt64 b = do {
     _ \<leftarrow> sl_at b 7;
     b0 \<leftarrow> sl_at b 0; b1 \<leftarrow> sl_at b 1; b2 \<leftarrow> sl_at b 2; b3 \<leftarrow> sl_at b 3;
     b4 \<leftarrow> sl_at b 4; b5 \<leftarrow> sl_at b 5; b6 \<leftarrow> sl_at b 6; b7 \<leftarrow> sl_at b 7;
     Some (ucast b0 OR push_bit 8 (ucast b1) OR push_bit 16 (ucast b2) OR push_bit 24 (ucast b3)
           OR push_bit 32 (ucast b4) OR push_bit 40 (ucast b5) OR push_bit 48 (ucast b6)
           OR push_bit 56 (ucast b7)) }"

text \<open>\<open>n >> k\<close> on an \<open>int64\<close> keeps the sign.\<close>

definition bytes64 :: "i64 \<Rightarrow> u8 list" where
  "bytes64 n = [ucast n, ucast (signed_drop_bit 8 n), ucast (signed_drop_bit 16 n),
     ucast (signed_drop_bit 24 n), ucast (signed_drop_bit 32 n), ucast (signed_drop_bit 40 n),
     ucast (signed_drop_bit 48 n), ucast (signed_drop_bit 56 n)]"

definition CopyInt64 :: "u8 list \<Rightarrow> i64 \<Rightarrow> u8 list" where
  "CopyInt64 dst n = gocopy dst (bytes64 n)"

subsection \<open>The interface of a fixed-width codec\<close>

locale byte_codec =
  fixes width :: nat and enc :: "'a \<Rightarrow> u8 list" and dec :: "u8 slice \<Rightarrow> 'a option"
  assumes enc_width: "length (enc x) = width"
    and dec_short: "slen b < width \<Longrightarrow> dec b = None"
    and dec_total: "wf_slice b \<Longrightarrow> width \<le> slen b \<Longrightarrow> \<exists>x. dec b = Some x \<and> enc x = take width (elems b)"
    and enc_inj: "enc x = enc y \<Longrightarrow> x = y"
begin

text \<open>A decoder reads the first \<open>width\<close> bytes and nothing else.\<close>

lemma dec_enc: "wf_slice b \<Longrightarrow> take width (elems b) = enc x \<Longrightarrow> dec b = Some x"
proof -
  assume wf: "wf_slice b" and tk: "take width (elems b) = enc x"
  then have "min (slen b) width = width" by (metis enc_width length_elems length_take min.commute)
  then have "width \<le> slen b" by linarith
  with wf tk show "dec b = Some x" using dec_total enc_inj by metis
qed

lemma dec_eq_None_iff: "wf_slice b \<Longrightarrow> dec b = None \<longleftrightarrow> slen b < width"
  using dec_short dec_total by (metis not_le option.distinct(1))

text \<open>Store at an offset of an array, then load from there.\<close>

lemma store_load:
  assumes "lo + width \<le> length xs"
  shows "\<exists>ys b. upd_sub xs lo (lo + width) (\<lambda>d. gocopy d (enc x)) = Some ys \<and> length ys = length xs
          \<and> reslice (of_list ys) (int lo) (int (lo + width)) = Some b \<and> dec b = Some x"
proof -
  let ?ys = "overwrite xs lo (enc x)"
  have up: "upd_sub xs lo (lo + width) (\<lambda>d. gocopy d (enc x)) = Some ?ys" and len: "length ?ys = length xs"
    using assms by (simp_all add: upd_sub_overwrite enc_width)
  obtain b where b: "reslice (of_list ?ys) (int lo) (int (lo + width)) = Some b" "wf_slice b"
    "elems b = take width (drop lo ?ys)"
    using reslice_wf_within [of "of_list ?ys" lo "lo + width"] assms len by auto
  have "take width (drop lo ?ys) = enc x"
    using assms by (simp add: overwrite_def enc_width min_def)
  with b have "dec b = Some x" by (simp add: dec_enc enc_width)
  with up len b(1) show ?thesis by blast
qed

end

subsection \<open>The three codecs\<close>

lemma byte_bit_high: "8 \<le> n \<Longrightarrow> \<not> bit (x :: u8) n"
  using bit_imp_le_length by force

lemma elems_nth: "wf_slice b \<Longrightarrow> i < slen b \<Longrightarrow> backing b ! i = elems b ! i"
  by (simp add: elems_def)

lemma take_nths2: "2 \<le> length xs \<Longrightarrow> take 2 xs = [xs ! 0, xs ! 1]"
  by (rule nth_equalityI) (auto simp: less_Suc_eq numeral_eq_Suc)

lemma take_nths4: "4 \<le> length xs \<Longrightarrow> take 4 xs = [xs ! 0, xs ! 1, xs ! 2, xs ! 3]"
  by (rule nth_equalityI) (auto simp: less_Suc_eq numeral_eq_Suc)

lemma take_nths8: "8 \<le> length xs \<Longrightarrow>
    take 8 xs = [xs ! 0, xs ! 1, xs ! 2, xs ! 3, xs ! 4, xs ! 5, xs ! 6, xs ! 7]"
  by (rule nth_equalityI) (auto simp: less_Suc_eq numeral_eq_Suc)

lemma bytes16_join: "bytes16 (ucast a OR push_bit 8 (ucast b)) = [a, b]"
  by (auto simp: bytes16_def bit_or_iff bit_push_bit_iff bit_ucast_iff bit_drop_bit_eq byte_bit_high
      intro!: bit_word_eqI)

lemma bytes32_join:
  "bytes32 (ucast a OR push_bit 8 (ucast b) OR push_bit 16 (ucast c) OR push_bit 24 (ucast d)) = [a, b, c, d]"
  by (auto simp: bytes32_def bit_or_iff bit_push_bit_iff bit_ucast_iff bit_drop_bit_eq byte_bit_high
      intro!: bit_word_eqI)

lemma bytes64_join:
  "bytes64 (ucast a OR push_bit 8 (ucast b) OR push_bit 16 (ucast c) OR push_bit 24 (ucast d)
    OR push_bit 32 (ucast e) OR push_bit 40 (ucast f) OR push_bit 48 (ucast g) OR push_bit 56 (ucast h))
   = [a, b, c, d, e, f, g, h]"
  by (auto simp: bytes64_def bit_or_iff bit_push_bit_iff bit_ucast_iff bit_signed_drop_bit_iff byte_bit_high
      intro!: bit_word_eqI)

text \<open>A byte of an integer holds the bits of its position, so equal bytes are equal integers.\<close>

lemma byte_index: "k < 8 * m \<Longrightarrow> \<exists>q r. q < m \<and> r < 8 \<and> k = 8 * q + (r::nat)"
  by (rule exI [of _ "k div 8"], rule exI [of _ "k mod 8"]) auto

lemma bit_bytes16: "r < 8 \<Longrightarrow> q < 2 \<Longrightarrow> bit (bytes16 n ! q) r = bit n (8 * q + r)"
  by (auto simp: bytes16_def bit_ucast_iff bit_drop_bit_eq less_Suc_eq numeral_eq_Suc)

lemma bit_bytes32: "r < 8 \<Longrightarrow> q < 4 \<Longrightarrow> bit (bytes32 n ! q) r = bit n (8 * q + r)"
proof -
  assume "r < 8" "q < 4"
  then have "q \<in> set [0, 1, 2, 3]" by auto
  with \<open>r < 8\<close> show ?thesis by (auto simp: bytes32_def bit_ucast_iff bit_drop_bit_eq)
qed

lemma bit_bytes64: "r < 8 \<Longrightarrow> q < 8 \<Longrightarrow> bit (bytes64 n ! q) r = bit n (8 * q + r)"
proof -
  assume "r < 8" "q < 8"
  then have "q \<in> set [0, 1, 2, 3, 4, 5, 6, 7]" by auto
  with \<open>r < 8\<close> show ?thesis by (auto simp: bytes64_def bit_ucast_iff bit_signed_drop_bit_iff)
qed

lemma word_eq_by_bytes:
  fixes x y :: "'a::len word"
  assumes "LENGTH('a) = 8 * m" "\<And>q r n. q < m \<Longrightarrow> r < 8 \<Longrightarrow> bit (bs n ! q) r = bit (n :: 'a word) (8 * q + r)"
    and "bs x = bs y"
  shows "x = y"
proof (rule bit_word_eqI)
  fix k
  assume "k < LENGTH('a)"
  then obtain q r where "q < m" "r < 8" "k = 8 * q + r" using byte_index [of k m] assms(1) by auto
  with assms(2) [of q r x] assms(2) [of q r y] assms(3) show "bit x k = bit y k" by simp
qed

lemma BytesToUint16_eval:
  "wf_slice b \<Longrightarrow> 2 \<le> slen b \<Longrightarrow>
   BytesToUint16 b = Some (ucast (elems b ! 0) OR push_bit 8 (ucast (elems b ! 1)))"
  by (simp add: BytesToUint16_def sl_at_elems)

lemma BytesToUint32_eval:
  "wf_slice b \<Longrightarrow> 4 \<le> slen b \<Longrightarrow>
   BytesToUint32 b = Some (ucast (elems b ! 0) OR push_bit 8 (ucast (elems b ! 1))
     OR push_bit 16 (ucast (elems b ! 2)) OR push_bit 24 (ucast (elems b ! 3)))"
  by (simp add: BytesToUint32_def sl_at_elems)

lemma BytesToInt64_eval:
  "wf_slice b \<Longrightarrow> 8 \<le> slen b \<Longrightarrow>
   BytesToInt64 b = Some (ucast (elems b ! 0) OR push_bit 8 (ucast (elems b ! 1))
     OR push_bit 16 (ucast (elems b ! 2)) OR push_bit 24 (ucast (elems b ! 3))
     OR push_bit 32 (ucast (elems b ! 4)) OR push_bit 40 (ucast (elems b ! 5))
     OR push_bit 48 (ucast (elems b ! 6)) OR push_bit 56 (ucast (elems b ! 7)))"
  by (simp add: BytesToInt64_def sl_at_elems)

interpretation u16: byte_codec 2 bytes16 BytesToUint16
proof
  show "length (bytes16 x) = 2" for x by (simp add: bytes16_def)
  show "slen b < 2 \<Longrightarrow> BytesToUint16 b = None" for b by (simp add: BytesToUint16_def)
  show "\<exists>x. BytesToUint16 b = Some x \<and> bytes16 x = take 2 (elems b)" if "wf_slice b" "2 \<le> slen b" for b
    using that by (simp add: BytesToUint16_eval bytes16_join take_nths2)
  show "x = y" if "bytes16 x = bytes16 y" for x y
    by (rule word_eq_by_bytes [of 2 bytes16, OF _ _ that]) (simp_all add: bit_bytes16)
qed

interpretation u32: byte_codec 4 bytes32 BytesToUint32
proof
  show "length (bytes32 x) = 4" for x by (simp add: bytes32_def)
  show "slen b < 4 \<Longrightarrow> BytesToUint32 b = None" for b by (simp add: BytesToUint32_def)
  show "\<exists>x. BytesToUint32 b = Some x \<and> bytes32 x = take 4 (elems b)" if "wf_slice b" "4 \<le> slen b" for b
    using that by (simp add: BytesToUint32_eval bytes32_join take_nths4)
  show "x = y" if "bytes32 x = bytes32 y" for x y
    by (rule word_eq_by_bytes [of 4 bytes32, OF _ _ that]) (simp_all add: bit_bytes32)
qed

interpretation i64: byte_codec 8 bytes64 BytesToInt64
proof
  show "length (bytes64 x) = 8" for x by (simp add: bytes64_def)
  show "slen b < 8 \<Longrightarrow> BytesToInt64 b = None" for b by (simp add: BytesToInt64_def)
  show "\<exists>x. BytesToInt64 b = Some x \<and> bytes64 x = take 8 (elems b)" if "wf_slice b" "8 \<le> slen b" for b
    using that by (simp add: BytesToInt64_eval bytes64_join take_nths8)
  show "x = y" if "bytes64 x = bytes64 y" for x y
    by (rule word_eq_by_bytes [of 8 bytes64, OF _ _ that]) (simp_all add: bit_bytes64)
qed

lemmas enc_widths [simp] = u16.enc_width u32.enc_width i64.enc_width
lemmas [codec_simps] = u16.dec_enc u32.dec_enc i64.dec_enc

lemma length_CopyUint [simp]:
  "length (CopyUint16 d n) = length d" "length (CopyUint32 d m) = length d" "length (CopyInt64 d k) = length d"
  by (simp_all add: CopyUint16_def CopyUint32_def CopyInt64_def)

section \<open>Comparison of \<open>uint16\<close> slices\<close>

text \<open>The loop \<open>for i := 0; i < len(a); i++\<close> with its early return.\<close>

function uint16_equal_loop :: "u16 list \<Rightarrow> u16 list \<Rightarrow> nat \<Rightarrow> bool" where
  "uint16_equal_loop a b i =
     (if i < length a then (if a ! i \<noteq> b ! i then False else uint16_equal_loop a b (Suc i)) else True)"
  by pat_completeness auto
termination
  by (relation "measure (\<lambda>(a, b, i). length a - i)") auto

declare uint16_equal_loop.simps [simp del]

definition Uint16Equal :: "u16 list \<Rightarrow> u16 list \<Rightarrow> bool" where
  "Uint16Equal a b = (if length a \<noteq> length b then False else uint16_equal_loop a b 0)"

lemma uint16_equal_loop_iff:
  "uint16_equal_loop a b i \<longleftrightarrow> (\<forall>k. i \<le> k \<and> k < length a \<longrightarrow> a ! k = b ! k)"
proof (induction a b i rule: uint16_equal_loop.induct)
  case (1 a b i)
  show ?case
  proof (cases "i < length a \<and> a ! i = b ! i")
    case True
    then have "uint16_equal_loop a b i = uint16_equal_loop a b (Suc i)"
      by (simp add: uint16_equal_loop.simps [of a b i])
    with 1 True show ?thesis by (auto simp: Suc_le_eq) (metis le_neq_implies_less)
  next
    case False
    then show ?thesis by (auto simp: uint16_equal_loop.simps [of a b i])
  qed
qed

section \<open>Casts between string and slice headers\<close>

text \<open>
  The header of a string is a pointer and a length, the header of a slice a pointer, a length
  and a capacity: \<open>StringToBytes\<close> reuses the length as the capacity, \<open>BytesToString\<close> drops it.
\<close>

record string_header =
  str_ptr :: u64
  str_len :: u64

record slice_header =
  sl_ptr :: u64
  sl_len :: u64
  sl_cap :: u64

definition StringToBytes :: "string_header \<Rightarrow> slice_header" where
  "StringToBytes s = \<lparr>sl_ptr = str_ptr s, sl_len = str_len s, sl_cap = str_len s\<rparr>"

definition BytesToString :: "slice_header \<Rightarrow> string_header" where
  "BytesToString b = \<lparr>str_ptr = sl_ptr b, str_len = sl_len b\<rparr>"

lemma BytesToString_StringToBytes: "BytesToString (StringToBytes s) = s"
  by (simp add: BytesToString_def StringToBytes_def)


section \<open>Properties\<close>

lemma dec_show_hd: "0 < n \<Longrightarrow> hd (dec_show n) \<noteq> CHR ''0''"
  using dec_digits_hd [of n] by (simp add: dec_show_def)

lemma length_dec_show: "n < 10 ^ k \<Longrightarrow> 0 < k \<Longrightarrow> length (dec_show n) \<le> k"
  using length_dec_digits [of n k] by (simp add: dec_show_def)

text \<open>
  The fast decimal printers are right on every input: \<open>Uint32ToString\<close> and \<open>Uint64ToString\<close>
  print a number whose value is the argument, in at most 10 and 20 characters (the size of their
  buffers), and with no leading zero but for the number 0 itself.
\<close>

theorem decimal_printing:
  "dec_value (Uint32ToString d) = unat d \<and> length (Uint32ToString d) \<le> 10
   \<and> dec_value (Uint64ToString e) = unat e \<and> length (Uint64ToString e) \<le> 20
   \<and> Uint32ToString 0 = ''0'' \<and> Uint64ToString 0 = ''0''
   \<and> (0 < d \<longrightarrow> hd (Uint32ToString d) \<noteq> CHR ''0'') \<and> (0 < e \<longrightarrow> hd (Uint64ToString e) \<noteq> CHR ''0'')"
proof -
  have "unat d < 10 ^ 10" using unat_bound [of d] by simp
  then have d: "length (dec_show (unat d)) \<le> 10" by (rule length_dec_show) simp
  have "unat e < 10 ^ 20" using unat_bound [of e] by simp
  then have e: "length (dec_show (unat e)) \<le> 20" by (rule length_dec_show) simp
  have "0 < d \<longrightarrow> 0 < unat d" "0 < e \<longrightarrow> 0 < unat e" by (simp_all add: word_less_nat_alt)
  then show ?thesis
    using d e dec_show_hd by (simp add: Uint32ToString_show Uint64ToString_show dec_value_show) (simp add: dec_show_def)
qed

lemma decimal_printing_witness:
  "dec_value (Uint32ToString 4294967295) = unat (4294967295 :: u32) \<and> hd (Uint64ToString 1024) \<noteq> CHR ''0''"
  using decimal_printing [of 4294967295 1024] by simp

text \<open>
  The byte codecs are inverse to each other at every width and never touch a neighbour: what
  \<open>CopyUint16\<close>, \<open>CopyUint32\<close> and \<open>CopyInt64\<close> store into a long enough slice is what \<open>BytesTo...\<close>
  reads back, whatever follows in the slice; each reader panics exactly on a slice that is too short.
\<close>

theorem codec_roundtrip:
  "(2 \<le> length d \<longrightarrow> BytesToUint16 (of_list (CopyUint16 d m)) = Some m \<and> drop 2 (CopyUint16 d m) = drop 2 d)
   \<and> (4 \<le> length d \<longrightarrow> BytesToUint32 (of_list (CopyUint32 d n)) = Some n \<and> drop 4 (CopyUint32 d n) = drop 4 d)
   \<and> (8 \<le> length d \<longrightarrow> BytesToInt64 (of_list (CopyInt64 d k)) = Some k \<and> drop 8 (CopyInt64 d k) = drop 8 d)
   \<and> (BytesToUint16 (of_list d) = None \<longleftrightarrow> length d < 2)
   \<and> (BytesToUint32 (of_list d) = None \<longleftrightarrow> length d < 4)
   \<and> (BytesToInt64 (of_list d) = None \<longleftrightarrow> length d < 8)"
  by (simp add: CopyUint16_def CopyUint32_def CopyInt64_def gocopy_fits codec_simps
      u16.dec_eq_None_iff u32.dec_eq_None_iff i64.dec_eq_None_iff)

lemma codec_roundtrip_witness:
  "BytesToUint32 (of_list (CopyUint32 [9, 9, 9, 9, 7] 70000)) = Some 70000"
  using codec_roundtrip [of "[9, 9, 9, 9, 7]" 0 70000 0] by simp

text \<open>
  \<open>Uint16Equal\<close> returns true exactly for equal slices: same length, same elements.
\<close>

theorem Uint16Equal_correct: "Uint16Equal a b \<longleftrightarrow> a = b"
  by (simp add: Uint16Equal_def uint16_equal_loop_iff list_eq_iff_nth_eq)

end
