(* ===== verification/Ring.thy ===== *)
theory Ring
  imports Conver
begin

text \<open>
  \<open>util/ring.go\<close>: the byte ring of a \<open>Serial\<close>, written by the receiving goroutines and read by
  one consumer. A cursor counts bytes since the start; its position in the ring is the cursor
  masked with \<open>size - 1\<close>. This theory takes one call at a time; \<open>RingConc\<close> interleaves them.
\<close>

section \<open>State and operations\<close>

datatype ring_error = ErrRingBufferOverflow | ErrRingBufferClose | ErrWriteToRingBufferData

record RingBuffer =
  ringBufferShift :: u64
  ringBufferSize :: u64
  rbState :: u32
  ring :: "u8 list"
  submitRing :: "u8 list"
  askCursor :: u64
  availableCursor :: u64

text \<open>The smear of the highest bit to the right, then plus one.\<close>

definition minQuantity :: "u64 \<Rightarrow> u64" where
  "minQuantity v =
     (let v = v - 1;
          v = v OR drop_bit 1 v;
          v = v OR drop_bit 2 v;
          v = v OR drop_bit 4 v;
          v = v OR drop_bit 8 v;
          v = v OR drop_bit 16 v;
          v = v OR drop_bit 32 v
      in v + 1)"

definition InitRingBuffer :: "RingBuffer \<Rightarrow> u64 \<Rightarrow> RingBuffer" where
  "InitRingBuffer r n =
     (let size = minQuantity n in
      r\<lparr>ringBufferSize := size, ringBufferShift := size - 1,
        ring := replicate (unat size) 0, submitRing := replicate (unat size) 0\<rparr>)"

definition SetState :: "RingBuffer \<Rightarrow> u32 \<Rightarrow> RingBuffer" where
  "SetState r s = r\<lparr>rbState := s\<rparr>"

definition HasWork :: "RingBuffer \<Rightarrow> bool" where
  "HasWork r \<longleftrightarrow> rbState r = StateWork"

definition ReleaseRingBuffer :: "RingBuffer \<Rightarrow> RingBuffer" where
  "ReleaseRingBuffer r = (SetState r StateDie)\<lparr>ring := [], submitRing := []\<rparr>"

text \<open>The copy of \<open>data\<close> into the ring so that it ends at cursor \<open>e\<close>, in one or two pieces.\<close>

definition store_ring :: "RingBuffer \<Rightarrow> u64 \<Rightarrow> u8 list \<Rightarrow> u8 list option" where
  "store_ring r e data =
     (let l = of_nat (length data); cut = e AND ringBufferShift r in
      if cut \<ge> l then upd_sub (ring r) (unat (cut - l)) (unat cut) (\<lambda>d. gocopy d data)
      else do {
        ring1 \<leftarrow> upd_sub (ring r) 0 (unat cut) (\<lambda>d. gocopy d (drop (unat (l - cut)) data));
        upd_sub ring1 (unat (ringBufferSize r + cut - l)) (length ring1)
          (\<lambda>d. gocopy d (take (unat (l - cut)) data)) })"

definition WriteToRingBuffer :: "RingBuffer \<Rightarrow> u8 list \<Rightarrow> (ring_error option \<times> RingBuffer) option" where
  "WriteToRingBuffer r data =
     (if \<not> HasWork r then Some (Some ErrRingBufferClose, r)
      else if length data < 4 then Some (Some ErrWriteToRingBufferData, r)
      else let l = of_nat (length data); ask = askCursor r; e = ask + l in
        if e - availableCursor r \<ge> ringBufferSize r then Some (Some ErrRingBufferOverflow, r)
        else do {
          let r1 = r\<lparr>askCursor := e\<rparr>;
          ring' \<leftarrow> store_ring r1 e data;
          submit' \<leftarrow> arr_set (submitRing r1) (unat (e AND ringBufferShift r1)) 1;
          Some (None, r1\<lparr>ring := ring', submitRing := submit'\<rparr>) })"

definition getBytes :: "RingBuffer \<Rightarrow> u64 \<Rightarrow> u64 \<Rightarrow> u8 slice option" where
  "getBytes r start end' =
     (let s = start AND ringBufferShift r; e = end' AND ringBufferShift r in
      if e \<ge> s then reslice (of_list (ring r)) (int (unat s)) (int (unat e))
      else let l = end' - start in do {
        src1 \<leftarrow> reslice (of_list (ring r)) (int (unat s)) (int (length (ring r)));
        buf1 \<leftarrow> upd_sub (replicate (unat l) 0) 0 (unat (l - e)) (\<lambda>d. gocopy d (elems src1));
        src2 \<leftarrow> reslice (of_list (ring r)) 0 (int (unat e));
        buf2 \<leftarrow> upd_sub buf1 (unat (l - e)) (unat l) (\<lambda>d. gocopy d (elems src2));
        Some (of_list buf2) })"

text \<open>The result \<open>nil, 0\<close> is \<^term>\<open>(None, 0)\<close>.\<close>

definition ReadFromRingBuffer :: "RingBuffer \<Rightarrow> (u8 slice option \<times> u64) option" where
  "ReadFromRingBuffer r =
     (let available = availableCursor r in
      if askCursor r > available then do {
        hdr \<leftarrow> getBytes r available (available + 4);
        n \<leftarrow> BytesToUint32 hdr;
        let e = available + ucast n;
        flag \<leftarrow> arr_get (submitRing r) (unat (e AND ringBufferShift r));
        if flag = 1 then do { b \<leftarrow> getBytes r available e; Some (Some b, e) }
        else Some (None, 0) }
      else Some (None, 0))"

definition SetAvailableCursor :: "RingBuffer \<Rightarrow> u64 \<Rightarrow> RingBuffer option" where
  "SetAvailableCursor r val = do {
     submit' \<leftarrow> arr_set (submitRing r) (unat (val AND ringBufferShift r)) 0;
     Some (r\<lparr>submitRing := submit', availableCursor := val\<rparr>) }"

section \<open>The window of a ring\<close>

text \<open>\<open>k\<close> cells from cursor \<open>a\<close> on, around the end of the ring.\<close>

definition window :: "'a list \<Rightarrow> nat \<Rightarrow> nat \<Rightarrow> 'a list" where
  "window xs a k = map (\<lambda>i. xs ! ((a + i) mod length xs)) [0..<k]"

lemma length_window [simp]: "length (window xs a k) = k"
  by (simp add: window_def)

lemma nth_window [simp]: "i < k \<Longrightarrow> window xs a k ! i = xs ! ((a + i) mod length xs)"
  by (simp add: window_def)

lemma window_0 [simp]: "window xs a 0 = []"
  by (simp add: window_def)

lemma window_add: "window xs a (k + l) = window xs a k @ window xs (a + k) l"
  by (rule nth_equalityI) (auto simp: nth_append add.assoc)

lemma take_window: "k \<le> l \<Longrightarrow> take k (window xs a l) = window xs a k"
  by (rule nth_equalityI) auto

lemma drop_window: "k \<le> l \<Longrightarrow> drop k (window xs a l) = window xs (a + k) (l - k)"
  by (rule nth_equalityI) (auto simp: add.assoc)

text \<open>The position of a cursor, with at most one turn around the ring.\<close>

lemma ring_pos:
  fixes a :: nat
  assumes "i < N"
  shows "(a + i) mod N = (if a mod N + i < N then a mod N + i else a mod N + i - N)"
proof -
  define p where "p = a mod N"
  have p: "p < N" unfolding p_def by (rule mod_less_divisor) (use assms in linarith)
  have "(a + i) mod N = (p + i) mod N" unfolding p_def by (rule mod_add_left_eq [symmetric])
  also have "\<dots> = (if p + i < N then p + i else p + i - N)"
  proof (cases "p + i < N")
    case False
    then have "(p + i) mod N = (p + i - N) mod N" by (simp add: le_mod_geq)
    also have "\<dots> = p + i - N" by (rule mod_less) (use p assms in linarith)
    finally show ?thesis using False by simp
  qed simp
  finally show ?thesis unfolding p_def .
qed

lemma window_take_drop:
  assumes "k < length xs"
  shows "window xs a k = (let p = a mod length xs in
     if p + k < length xs then take k (drop p xs) else drop p xs @ take (p + k - length xs) xs)"
proof -
  have p: "a mod length xs < length xs" by (rule mod_less_divisor) (use assms in linarith)
  show ?thesis
    using assms p
    by (auto simp: Let_def nth_append ring_pos intro!: nth_equalityI arg_cong [where f = "(!) xs"])
qed

section \<open>Well-formed rings\<close>

text \<open>The sizes that \<open>InitRingBuffer\<close> sets up.\<close>

definition ring_sized :: "RingBuffer \<Rightarrow> bool" where
  "ring_sized r \<longleftrightarrow> (\<exists>n<64. ringBufferSize r = 2 ^ n) \<and> ringBufferShift r = ringBufferSize r - 1
     \<and> length (ring r) = unat (ringBufferSize r) \<and> length (submitRing r) = unat (ringBufferSize r)"

lemma ring_sized_mask:
  assumes "ring_sized r"
  shows "unat (x AND ringBufferShift r) = unat x mod length (ring r)"
  using assms unat_and_mask [of x] by (auto simp: ring_sized_def unat_pow2)

lemma ring_sized_len:
  assumes "ring_sized r"
  shows "length (ring r) > 0" "length (submitRing r) = length (ring r)"
    "unat (ringBufferSize r) = length (ring r)" "length (ring r) < 2 ^ 64"
proof -
  show "unat (ringBufferSize r) = length (ring r)" "length (submitRing r) = length (ring r)"
    using assms by (simp_all add: ring_sized_def)
  then show "length (ring r) < 2 ^ 64" using unat_bound [of "ringBufferSize r"] by simp
  show "length (ring r) > 0" using assms by (auto simp: ring_sized_def unat_pow2)
qed

text \<open>\<open>store_ring\<close> fills the window that ends at its cursor and leaves the other cells alone.\<close>

lemma store_ring_window:
  assumes r: "ring_sized r" and l: "length data < length (ring r)"
    and e: "unat e = a + length data"
  shows "\<exists>xs. store_ring r e data = Some xs \<and> length xs = length (ring r)
           \<and> window xs a (length xs) = data @ window (ring r) (a + length data) (length xs - length data)"
proof -
  let ?N = "length (ring r)" and ?l = "length data" and ?p = "a mod length (ring r)"
  have N: "?N > 0" "?N < 2 ^ 64" and size: "unat (ringBufferSize r) = ?N" using ring_sized_len [OF r] by auto
  have p: "?p < ?N" using N by simp
  define cut where "cut = e AND ringBufferShift r"
  define lw where "lw = (of_nat ?l :: u64)"
  have cut: "unat cut = (if ?p + ?l < ?N then ?p + ?l else ?p + ?l - ?N)"
    using ring_pos [OF l, of a] by (simp add: cut_def ring_sized_mask [OF r] e)
  have lw: "unat lw = ?l" using l N by (simp add: lw_def unat_of_nat_small)
  show ?thesis
  proof (cases "?p + ?l < ?N")
    case True
    then have ge: "lw \<le> cut" using cut lw by (simp add: word_le_nat_alt)
    then have st: "store_ring r e data = Some (overwrite (ring r) ?p data)"
      using True cut lw unat_diff_nowrap [of lw cut]
      by (simp add: store_ring_def Let_def cut_def [symmetric] lw_def [symmetric] word_le_nat_alt upd_sub_overwrite)
    have "window (overwrite (ring r) ?p data) a ?N = data @ window (ring r) (a + ?l) (?N - ?l)"
      using True l p by (intro nth_equalityI) (auto simp: nth_append nth_overwrite ring_pos add.assoc)
    with st True show ?thesis by (intro exI [of _ "overwrite (ring r) ?p data"]) simp
  next
    case False
    then have lt: "\<not> lw \<le> cut" using cut lw p by (simp add: word_le_nat_alt)
    define k where "k = ?l - unat cut"
    have k: "unat (lw - cut) = k" using lt lw unat_diff_nowrap [of cut lw] by (simp add: k_def word_le_nat_alt)
    have kp: "k = ?N - ?p" "k \<le> ?l" "unat cut = ?l - k" using False cut l p by (auto simp: k_def)
    have at: "unat (ringBufferSize r + cut - lw) = ?p"
    proof -
      have "ringBufferSize r + cut - lw = ringBufferSize r - (lw - cut)" by simp
      moreover have "unat (lw - cut) \<le> unat (ringBufferSize r)" using k kp size by simp
      moreover have "unat (ringBufferSize r - (lw - cut)) = ?p"
        using calculation(2) k kp size p unat_diff_nowrap [of "lw - cut" "ringBufferSize r"] by linarith
      ultimately show ?thesis by metis
    qed
    define xs1 where "xs1 = overwrite (ring r) 0 (drop k data)"
    define xs where "xs = overwrite xs1 ?p (take k data)"
    have len1: "length xs1 = ?N" using l by (simp add: xs1_def)
    have len: "length xs = ?N" using len1 kp p by (simp add: xs_def)
    have "store_ring r e data = Some xs"
      using lt k kp at l p len1
      by (simp add: store_ring_def Let_def cut_def [symmetric] lw_def [symmetric] word_le_nat_alt
          upd_sub_overwrite xs1_def [symmetric] xs_def)
        (simp add: xs1_def upd_sub_overwrite)
    moreover have "window xs a ?N = data @ window (ring r) (a + ?l) (?N - ?l)"
    proof (rule nth_equalityI)
      fix i
      assume "i < length (window xs a ?N)"
      then have i: "i < ?N" by simp
      then have "window xs a ?N ! i = (if i < ?l then data ! i else ring r ! ((a + i) mod ?N))"
        using kp l p len len1
        by (auto simp: xs_def xs1_def nth_overwrite ring_pos)
      then show "window xs a ?N ! i = (data @ window (ring r) (a + ?l) (?N - ?l)) ! i"
        using i l by (auto simp: nth_append)
    qed (use l in simp)
    ultimately show ?thesis using len by auto
  qed
qed

text \<open>\<open>getBytes\<close> reads the window between its cursors.\<close>

lemma getBytes_window:
  assumes r: "ring_sized r" and k: "k < length (ring r)" and e: "unat e = unat s + k"
  shows "\<exists>b. getBytes r s e = Some b \<and> wf_slice b \<and> slen b = k \<and> elems b = window (ring r) (unat s) k"
proof -
  let ?N = "length (ring r)" and ?p = "unat s mod length (ring r)"
  have p: "?p < ?N" using ring_sized_len [OF r] by simp
  define sw where "sw = s AND ringBufferShift r"
  define ew where "ew = e AND ringBufferShift r"
  have sw: "unat sw = ?p" and ew: "unat ew = (if ?p + k < ?N then ?p + k else ?p + k - ?N)"
    using ring_pos [OF k, of "unat s"] by (simp_all add: sw_def ew_def ring_sized_mask [OF r] e)
  show ?thesis
  proof (cases "?p + k < ?N")
    case True
    then have "getBytes r s e = Some (Slice (drop ?p (ring r)) k)"
      using sw ew by (simp add: getBytes_def Let_def sw_def [symmetric] ew_def [symmetric] word_le_nat_alt
          reslice_def)
    with True show ?thesis
      by (simp add: wf_slice_def slice_simps window_take_drop [OF k] Let_def)
  next
    case False
    then have lt: "\<not> sw \<le> ew" using sw ew k by (simp add: word_le_nat_alt)
    have l: "unat (e - s) = k" using e unat_diff_nowrap [of s e] by simp
    have le: "unat (e - s - ew) = ?N - ?p"
      using False l ew p unat_diff_nowrap [of ew "e - s"] k by auto
    have "getBytes r s e = Some (of_list (drop ?p (ring r) @ take (unat ew) (ring r)))"
      using lt sw ew l le False p k
      by (simp add: getBytes_def Let_def sw_def [symmetric] ew_def [symmetric] of_list_def slice_simps
          upd_sub_def reslice_def gocopy_def add.commute)
    moreover have "window (ring r) (unat s) k = drop ?p (ring r) @ take (unat ew) (ring r)"
      using False ew by (simp add: window_take_drop [OF k] Let_def)
    ultimately show ?thesis
      using False ew p k by (simp add: min_def)
  qed
qed

section \<open>The size: a power of two\<close>

text \<open>\<open>smeared m v x\<close>: bit \<open>i\<close> of \<open>x\<close> collects the bits \<open>i, \<dots>, i + m - 1\<close> of \<open>v\<close>.\<close>

definition smeared :: "nat \<Rightarrow> u64 \<Rightarrow> u64 \<Rightarrow> bool" where
  "smeared m v x \<longleftrightarrow> (\<forall>i. bit x i \<longleftrightarrow> (\<exists>j<m. bit v (i + j)))"

lemma smeared_start: "smeared 1 v v"
  by (simp add: smeared_def)

lemma smeared_step: "smeared m v x \<Longrightarrow> n = m + m \<Longrightarrow> smeared n v (x OR drop_bit m x)"
proof -
  assume x: "smeared m v x" and n: "n = m + m"
  have "(\<exists>j<m. bit v (i + j)) \<or> (\<exists>j<m. bit v (m + i + j)) \<longleftrightarrow> (\<exists>j<m + m. bit v (i + j))" for i
  proof safe
    fix j assume "j < m" "bit v (m + i + j)"
    then show "\<exists>j<m + m. bit v (i + j)" by (intro exI [of _ "m + j"]) (simp add: ac_simps)
  next
    fix j assume j: "j < m + m" "bit v (i + j)" "\<not> (\<exists>j<m. bit v (m + i + j))"
    then have "\<not> (m \<le> j)"
      by (metis add_less_cancel_left le_add_diff_inverse add.assoc add.commute)
    with j show "\<exists>j<m. bit v (i + j)" by (intro exI [of _ j]) simp
  qed (blast intro: trans_less_add1)
  with x n show ?thesis by (simp add: smeared_def bit_or_iff bit_drop_bit_eq)
qed

lemma minQuantity_smeared: "\<exists>x. smeared 64 (v - 1) x \<and> minQuantity v = x + 1"
proof -
  define x0 where "x0 = v - 1"
  define x1 where "x1 = x0 OR drop_bit 1 x0"
  define x2 where "x2 = x1 OR drop_bit 2 x1"
  define x3 where "x3 = x2 OR drop_bit 4 x2"
  define x4 where "x4 = x3 OR drop_bit 8 x3"
  define x5 where "x5 = x4 OR drop_bit 16 x4"
  define x6 where "x6 = x5 OR drop_bit 32 x5"
  have "smeared 2 x0 x1" unfolding x1_def by (rule smeared_step [OF smeared_start]) simp
  then have "smeared 4 x0 x2" unfolding x2_def by (rule smeared_step) simp
  then have "smeared 8 x0 x3" unfolding x3_def by (rule smeared_step) simp
  then have "smeared 16 x0 x4" unfolding x4_def by (rule smeared_step) simp
  then have "smeared 32 x0 x5" unfolding x5_def by (rule smeared_step) simp
  then have "smeared 64 x0 x6" unfolding x6_def by (rule smeared_step) simp
  moreover have "minQuantity v = x6 + 1"
    by (simp only: minQuantity_def Let_def x0_def x1_def x2_def x3_def x4_def x5_def x6_def)
  ultimately show ?thesis unfolding x0_def by blast
qed

lemma smeared_mask:
  assumes x: "smeared 64 u x" and k: "unat u < 2 ^ k" "k = 0 \<or> 2 ^ (k - 1) \<le> unat u"
  shows "x = mask k"
proof (rule bit_word_eqI)
  fix i
  assume i: "i < LENGTH(64)"
  have high: "\<not> bit u j" if "k \<le> j" for j
  proof
    assume "bit u j"
    then have "bit (unat u) j" by (simp add: bit_unsigned_iff bit_imp_possible_bit)
    then have "2 ^ j \<le> unat u" by (metis bit_iff_odd div_less not_le even_zero)
    moreover have "(2 :: nat) ^ k \<le> 2 ^ j" using that by simp
    ultimately show False using k(1) by linarith
  qed
  have top: "bit u (k - 1)" if "k > 0"
  proof -
    have "unat u div 2 ^ (k - 1) = 1"
    proof (rule div_nat_eqI)
      show "2 ^ (k - 1) * 1 \<le> unat u" using that k(2) by simp
      show "unat u < 2 ^ (k - 1) * Suc 1" using that k(1) by (cases k) auto
    qed
    then have "bit (unat u) (k - 1)" by (simp add: bit_iff_odd)
    then show ?thesis by (simp add: bit_unsigned_iff)
  qed
  have "(\<exists>j<64. bit u (i + j)) \<longleftrightarrow> i < k"
  proof
    assume "i < k"
    moreover have "k - 1 < 64" using top calculation bit_imp_le_length [of u "k - 1"] by auto
    ultimately show "\<exists>j<64. bit u (i + j)" using top by (intro exI [of _ "k - 1 - i"]) auto
  qed (metis high le_add1 not_less order.trans)
  with x i show "bit x i \<longleftrightarrow> bit (mask k :: u64) i"
    by (simp add: smeared_def bit_mask_iff)
qed

lemma minQuantity_pow2:
  assumes "0 < unat v" "unat v \<le> 2 ^ 63"
  shows "\<exists>k\<le>63. minQuantity v = 2 ^ k \<and> unat v \<le> 2 ^ k \<and> (\<forall>m. unat v \<le> 2 ^ m \<longrightarrow> k \<le> m)"
proof -
  let ?u = "v - 1"
  have u: "unat ?u = unat v - 1" using assms unat_diff_nowrap [of 1 v] by simp
  define k where "k = (LEAST k. unat ?u < 2 ^ k)"
  have "unat ?u < 2 ^ 63" using assms u by simp
  then have k1: "unat ?u < 2 ^ k" "k \<le> 63" unfolding k_def by (rule LeastI, rule Least_le)
  have least: "k \<le> m" if "unat ?u < 2 ^ m" for m using that unfolding k_def by (rule Least_le)
  have k2: "k = 0 \<or> 2 ^ (k - 1) \<le> unat ?u"
    using least [of "k - 1"] by (cases "k = 0") (auto simp: not_less [symmetric])
  obtain x where x: "smeared 64 ?u x" "minQuantity v = x + 1" using minQuantity_smeared by blast
  have "x = mask k" using smeared_mask [OF x(1) k1(1) k2] .
  then have "minQuantity v = 2 ^ k" using x(2) by (simp add: mask_eq_exp_minus_1)
  moreover have "unat v \<le> 2 ^ k" using k1 u assms by linarith
  moreover have "k \<le> m" if "unat v \<le> 2 ^ m" for m using that u assms by (intro least) linarith
  ultimately show ?thesis using k1(2) by blast
qed

section \<open>The messages in a ring\<close>

text \<open>
  A message starts with its own length in four bytes, as \<open>ReadFromRingBuffer\<close> requires of its
  writers; \<open>ends a fs\<close> are the cursors at which the messages \<open>fs\<close> end when the first starts at \<open>a\<close>.
\<close>

definition valid_msg :: "u8 list \<Rightarrow> bool" where
  "valid_msg f \<longleftrightarrow> 4 \<le> length f \<and> length f < 2 ^ 32 \<and> take 4 f = bytes32 (of_nat (length f))"

fun ends :: "nat \<Rightarrow> 'a list list \<Rightarrow> nat list" where
  "ends a [] = []"
| "ends a (f # fs) = (a + length f) # ends (a + length f) fs"

text \<open>
  \<open>ring_inv r fs\<close>: the unread messages of \<open>r\<close> are \<open>fs\<close>, oldest first. The bytes between the
  cursors are theirs, and the submit flags are set exactly where one of them ends.
\<close>

definition ring_inv :: "RingBuffer \<Rightarrow> u8 list list \<Rightarrow> bool" where
  "ring_inv r fs \<longleftrightarrow>
     ring_sized r \<and> list_all valid_msg fs
     \<and> unat (askCursor r) = unat (availableCursor r) + length (concat fs)
     \<and> length (concat fs) < length (ring r)
     \<and> window (ring r) (unat (availableCursor r)) (length (concat fs)) = concat fs
     \<and> (\<forall>j<length (ring r). submitRing r ! j =
          (if j \<in> (\<lambda>e. e mod length (ring r)) ` set (ends (unat (availableCursor r)) fs) then 1 else 0))"

lemma ring_invD:
  assumes "ring_inv r fs"
  shows "ring_sized r" "list_all valid_msg fs"
    "unat (askCursor r) = unat (availableCursor r) + length (concat fs)"
    "length (concat fs) < length (ring r)"
    "window (ring r) (unat (availableCursor r)) (length (concat fs)) = concat fs"
    "\<And>j. j < length (ring r) \<Longrightarrow> submitRing r ! j =
          (if j \<in> (\<lambda>e. e mod length (ring r)) ` set (ends (unat (availableCursor r)) fs) then 1 else 0)"
  using assms by (simp_all add: ring_inv_def)

lemma ends_append: "ends a (fs @ gs) = ends a fs @ ends (a + length (concat fs)) gs"
  by (induction a fs rule: ends.induct) (simp_all add: add.assoc)

lemma ends_bounds:
  "list_all valid_msg fs \<Longrightarrow> e \<in> set (ends a fs) \<Longrightarrow> a < e \<and> e \<le> a + length (concat fs)"
  by (induction a fs rule: ends.induct) (fastforce simp: valid_msg_def)+

lemma mod_eq_within:
  fixes a :: nat
  assumes "x mod N = y mod N" "a \<le> x" "x < a + N" "a \<le> y" "y < a + N"
  shows "x = y"
proof -
  have "x - a = y - a" by (rule mod_offset_inj [of _ N _ a]) (use assms in auto)
  with assms show ?thesis by simp
qed

lemma valid_msg_length:
  assumes "valid_msg f" shows "unat (of_nat (length f) :: u32) = length f" "unat (of_nat (length f) :: u64) = length f"
  using assms by (simp_all add: valid_msg_def unat_of_nat_small)

lemma ring_new:
  assumes "ring_sized r" "askCursor r = availableCursor r" "\<forall>j<length (ring r). submitRing r ! j = 0"
  shows "ring_inv r []"
  using assms ring_sized_len [OF assms(1)] by (simp add: ring_inv_def)

text \<open>Writing appends, unless the unread bytes would fill the ring.\<close>

lemma write_room_word:
  assumes "ring_inv r fs" "length d < 2 ^ 32"
  shows "unat (askCursor r + of_nat (length d) - availableCursor r) = length (concat fs) + length d"
    "unat (of_nat (length d) :: u64) = length d"
proof -
  have N: "length (ring r) \<le> 2 ^ 63"
  proof -
    obtain n where "n < 64" "ringBufferSize r = 2 ^ n" using ring_invD(1) [OF assms(1)] by (auto simp: ring_sized_def)
    moreover from \<open>n < 64\<close> have "(2 :: nat) ^ n \<le> 2 ^ 63" by (intro power_increasing) auto
    ultimately show ?thesis using ring_sized_len(3) [OF ring_invD(1) [OF assms(1)]] by (simp add: unat_pow2)
  qed
  note inv = ring_invD [OF assms(1)]
  have "askCursor r = availableCursor r + of_nat (length (concat fs))"
    using arg_cong [OF inv(3), of "of_nat :: nat \<Rightarrow> u64"] by simp
  then have "askCursor r + of_nat (length d) - availableCursor r = of_nat (length (concat fs) + length d)"
    by simp
  then have "unat (askCursor r + of_nat (length d) - availableCursor r)
      = unat (of_nat (length (concat fs) + length d) :: u64)" by (rule arg_cong)
  also have "\<dots> = length (concat fs) + length d"
    by (rule unat_of_nat_small) (use N inv(4) assms(2) in simp)
  finally show "unat (askCursor r + of_nat (length d) - availableCursor r) = length (concat fs) + length d" .
  show "unat (of_nat (length d) :: u64) = length d" using assms(2) by (simp add: unat_of_nat)
qed

lemma write_overflow:
  assumes "HasWork r" "ring_inv r fs" "valid_msg d" "length (ring r) \<le> length (concat fs) + length d"
  shows "WriteToRingBuffer r d = Some (Some ErrRingBufferOverflow, r)"
proof -
  have d: "4 \<le> length d" "length d < 2 ^ 32" using assms(3) by (simp_all add: valid_msg_def)
  have "ringBufferSize r \<le> askCursor r + of_nat (length d) - availableCursor r"
    using write_room_word(1) [OF assms(2) d(2)] assms(4) ring_sized_len(3) [OF ring_invD(1) [OF assms(2)]]
    by (simp add: word_le_nat_alt)
  with assms(1) d show ?thesis by (simp add: WriteToRingBuffer_def Let_def)
qed

lemma write_appends:
  assumes work: "HasWork r" and inv: "ring_inv r fs" and d: "valid_msg d"
    and room: "length (concat fs) + length d < length (ring r)"
    and nowrap: "unat (askCursor r) + length d < 2 ^ 64"
  shows "\<exists>r'. WriteToRingBuffer r d = Some (None, r') \<and> ring_inv r' (fs @ [d]) \<and> HasWork r'
           \<and> unat (askCursor r') = unat (askCursor r) + length d \<and> length (ring r') = length (ring r)"
proof -
  let ?N = "length (ring r)" and ?a = "unat (availableCursor r)" and ?l = "length d"
  note I = ring_invD [OF inv]
  note L = ring_sized_len [OF I(1)]
  have d': "4 \<le> ?l" "?l < 2 ^ 32" using d by (simp_all add: valid_msg_def)
  note R = write_room_word [OF inv d'(2)]
  define e where "e = askCursor r + of_nat ?l"
  have e: "unat e = ?a + length (concat fs) + ?l"
    using unat_add_nowrap [of "askCursor r" "of_nat ?l"] nowrap R(2) I(3) by (simp add: e_def)
  have fits: "\<not> ringBufferSize r \<le> e - availableCursor r"
    using R(1) room L(3) by (simp add: word_le_nat_alt e_def)
  define r1 where "r1 = r\<lparr>askCursor := e\<rparr>"
  have r1: "ring_sized r1" "ring r1 = ring r" "submitRing r1 = submitRing r" "ringBufferShift r1 = ringBufferShift r"
    using I(1) by (simp_all add: r1_def ring_sized_def)
  obtain xs where xs: "store_ring r1 e d = Some xs" "length xs = ?N"
    "window xs (?a + length (concat fs)) ?N = d @ window (ring r) (?a + length (concat fs) + ?l) (?N - ?l)"
    using store_ring_window [OF r1(1), of d e "?a + length (concat fs)"] room e r1(2) by auto
  define p where "p = unat (e AND ringBufferShift r)"
  have p: "p = (?a + length (concat fs) + ?l) mod ?N" "p < ?N"
    using ring_sized_mask [OF I(1)] e L(1) by (simp_all add: p_def)
  define r2 where "r2 = r1\<lparr>ring := xs, submitRing := (submitRing r)[p := 1]\<rparr>"
  have "WriteToRingBuffer r d = Some (None, r2)"
    using work d' fits xs(1) p L(2) r1
    by (simp add: WriteToRingBuffer_def Let_def e_def [symmetric] r1_def [symmetric] arr_set_def
        p_def [symmetric] r2_def)
  moreover have "ring_inv r2 (fs @ [d])"
  proof -
    have old: "window xs ?a (length (concat fs)) = concat fs"
    proof (rule nth_equalityI)
      fix i assume i: "i < length (window xs ?a (length (concat fs)))"
      then have i: "i < length (concat fs)" by simp
      define j where "j = ?N + i - length (concat fs)"
      have j: "j < ?N" "?l \<le> j" using i room I(4) by (auto simp: j_def)
      have sh: "(?a + length (concat fs) + j) mod ?N = (?a + i) mod ?N"
      proof -
        have "?a + length (concat fs) + j = ?a + i + ?N" using i I(4) by (simp add: j_def)
        then show ?thesis by (simp only: mod_add_self2)
      qed
      have "xs ! ((?a + i) mod ?N) = window xs (?a + length (concat fs)) ?N ! j"
        using j xs(2) sh by simp
      also have "\<dots> = ring r ! ((?a + i) mod ?N)"
        using j xs(3) sh by (simp add: nth_append add.assoc)
      also have "\<dots> = concat fs ! i" using I(5) i by (metis nth_window)
      finally show "window xs ?a (length (concat fs)) ! i = concat fs ! i" using i xs(2) by simp
    qed simp
    have new: "window xs (?a + length (concat fs)) ?l = d"
      using arg_cong [OF xs(3), of "take ?l"] room by (simp add: take_window)
    have "window xs ?a (length (concat (fs @ [d]))) = concat (fs @ [d])"
      using old new by (simp add: window_add)
    then show ?thesis
      using I r1 d room e xs(2) p L(2)
      by (auto simp: ring_inv_def r2_def ring_sized_def r1_def ends_append nth_list_update add.assoc)
  qed
  moreover have "HasWork r2" "unat (askCursor r2) = unat (askCursor r) + ?l" "length (ring r2) = ?N"
    using work e I(3) xs(2) by (simp_all add: HasWork_def r2_def r1_def)
  ultimately show ?thesis by blast
qed

text \<open>Reading returns the oldest message and where it ends.\<close>

lemma read_nothing: "ring_inv r [] \<Longrightarrow> ReadFromRingBuffer r = Some (None, 0)"
  using ring_invD(3) [of r "[]"] by (simp add: ReadFromRingBuffer_def Let_def word_less_nat_alt)

text \<open>What a read answers depends on the bytes at the consumed cursor and on one flag.\<close>

lemma read_window:
  assumes r: "ring_sized r" and f: "valid_msg f" "length f < length (ring r)"
    and ask: "availableCursor r < askCursor r" "unat (availableCursor r) + length f < 2 ^ 64"
    and win: "window (ring r) (unat (availableCursor r)) (length f) = f"
  shows "unat (availableCursor r + of_nat (length f)) = unat (availableCursor r) + length f"
    and "\<exists>b. wf_slice b \<and> slen b = length f \<and> elems b = f \<and> ReadFromRingBuffer r =
      Some (if submitRing r ! ((unat (availableCursor r) + length f) mod length (ring r)) = 1
        then (Some b, availableCursor r + of_nat (length f)) else (None, 0))"
proof -
  let ?N = "length (ring r)" and ?a = "unat (availableCursor r)" and ?l = "length f"
  note L = ring_sized_len [OF r]
  have f': "4 \<le> ?l" "?l < 2 ^ 32" "take 4 f = bytes32 (of_nat ?l)" using f(1) by (simp_all add: valid_msg_def)
  have e: "unat (availableCursor r + of_nat ?l) = ?a + ?l"
    using unat_add_nowrap [of "availableCursor r" "of_nat ?l"] ask(2) valid_msg_length(2) [OF f(1)] by simp
  then show "unat (availableCursor r + of_nat ?l) = ?a + ?l" .
  have e4: "unat (availableCursor r + 4) = ?a + 4"
    using unat_add_nowrap [of "availableCursor r" 4] ask(2) f'(1) by simp
  have win4: "window (ring r) ?a 4 = take 4 f"
    using arg_cong [OF win, of "take 4"] f'(1) by (simp add: take_window)
  obtain h where h: "getBytes r (availableCursor r) (availableCursor r + 4) = Some h" "wf_slice h"
    "elems h = bytes32 (of_nat ?l)"
    using getBytes_window [OF r _ e4] f' f(2) win4 by auto
  have n: "BytesToUint32 h = Some (of_nat ?l)" using h by (intro u32.dec_enc) simp_all
  have uc: "availableCursor r + ucast (of_nat ?l :: u32) = availableCursor r + of_nat ?l"
    using valid_msg_length(1) [OF f(1)] by (metis of_nat_unat)
  obtain b where b: "getBytes r (availableCursor r) (availableCursor r + of_nat ?l) = Some b"
    "wf_slice b" "slen b = ?l" "elems b = f"
    using getBytes_window [OF r f(2) e] win by auto
  have pos: "unat ((availableCursor r + of_nat ?l) AND ringBufferShift r) = (?a + ?l) mod ?N"
    using ring_sized_mask [OF r] e by simp
  have "arr_get (submitRing r) ((?a + ?l) mod ?N) = Some (submitRing r ! ((?a + ?l) mod ?N))"
    using L by (simp add: arr_get_def)
  then have "ReadFromRingBuffer r = Some (if submitRing r ! ((?a + ?l) mod ?N) = 1 then (Some b, availableCursor r + of_nat ?l) else (None, 0))"
    using ask(1) h(1) n uc b(1) pos by (simp add: ReadFromRingBuffer_def Let_def)
  then show "\<exists>b. wf_slice b \<and> slen b = ?l \<and> elems b = f \<and> ReadFromRingBuffer r =
      Some (if submitRing r ! ((?a + ?l) mod ?N) = 1 then (Some b, availableCursor r + of_nat ?l) else (None, 0))"
    using b by blast
qed

lemma read_oldest:
  assumes inv: "ring_inv r (f # fs)"
  shows "\<exists>b. ReadFromRingBuffer r = Some (Some b, availableCursor r + of_nat (length f))
           \<and> wf_slice b \<and> slen b = length f \<and> elems b = f"
    and "unat (availableCursor r + of_nat (length f)) = unat (availableCursor r) + length f"
proof -
  let ?N = "length (ring r)" and ?a = "unat (availableCursor r)" and ?l = "length f"
  note I = ring_invD [OF inv]
  have f: "valid_msg f" "4 \<le> ?l" using I(2) by (simp_all add: valid_msg_def)
  have room: "?l < ?N" "?a + ?l < 2 ^ 64" using I(3,4) unat_bound [of "askCursor r"] by simp_all
  have lt: "availableCursor r < askCursor r" using I(3) f(2) by (cases f) (auto simp: word_less_nat_alt)
  have win: "window (ring r) ?a ?l = f"
    using arg_cong [OF I(5), of "take ?l"] by (simp add: take_window)
  note R = read_window [OF I(1) f(1) room(1) lt room(2) win]
  have "submitRing r ! ((?a + ?l) mod ?N) = 1"
    using I(6) [of "(?a + ?l) mod ?N"] ring_sized_len [OF I(1)] by simp
  with R(2) show "\<exists>b. ReadFromRingBuffer r = Some (Some b, availableCursor r + of_nat ?l)
           \<and> wf_slice b \<and> slen b = ?l \<and> elems b = f" by auto
  show "unat (availableCursor r + of_nat ?l) = ?a + ?l" by (rule R(1))
qed

text \<open>Moving the consumed cursor there drops it.\<close>

lemma advance_drops:
  assumes inv: "ring_inv r (f # fs)"
  shows "\<exists>r'. SetAvailableCursor r (availableCursor r + of_nat (length f)) = Some r' \<and> ring_inv r' fs
           \<and> (HasWork r' \<longleftrightarrow> HasWork r) \<and> length (ring r') = length (ring r) \<and> askCursor r' = askCursor r"
proof -
  let ?N = "length (ring r)" and ?a = "unat (availableCursor r)" and ?l = "length f"
  note I = ring_invD [OF inv]
  note L = ring_sized_len [OF I(1)]
  note e = read_oldest(2) [OF inv]
  define p where "p = (?a + ?l) mod ?N"
  have p: "p < ?N" using L by (simp add: p_def)
  have pos: "unat ((availableCursor r + of_nat ?l) AND ringBufferShift r) = p"
    using ring_sized_mask [OF I(1)] e by (simp add: p_def)
  define r' where "r' = r\<lparr>submitRing := (submitRing r)[p := 0], availableCursor := availableCursor r + of_nat ?l\<rparr>"
  have "SetAvailableCursor r (availableCursor r + of_nat ?l) = Some r'"
    using p L pos by (simp add: SetAvailableCursor_def arr_set_def r'_def)
  moreover have "ring_inv r' fs"
  proof -
    have fs: "list_all valid_msg fs" using I(2) by simp
    have later: "e mod ?N \<noteq> p" if "e \<in> set (ends (?a + ?l) fs)" for e
    proof
      assume eq: "e mod ?N = p"
      have "?a + ?l < e" "e \<le> ?a + ?l + length (concat fs)" using ends_bounds [OF fs that] by auto
      moreover from this have "e = ?a + ?l"
        using mod_eq_within [of e ?N "?a + ?l" ?a] eq I(4) by (simp add: p_def)
      ultimately show False by simp
    qed
    then have later': "p \<notin> (\<lambda>e. e mod ?N) ` set (ends (?a + ?l) fs)" by auto
    have "window (ring r) (?a + ?l) (length (concat fs)) = concat fs"
      using arg_cong [OF I(5), of "drop ?l"] by (simp add: drop_window)
    then show ?thesis
      using I L e p later'
      by (auto simp: ring_inv_def r'_def ring_sized_def nth_list_update p_def [symmetric])
  qed
  moreover have "HasWork r' \<longleftrightarrow> HasWork r" "length (ring r') = ?N" "askCursor r' = askCursor r"
    by (simp_all add: HasWork_def r'_def)
  ultimately show ?thesis by blast
qed

end
