(* ===== verification/RingFifo.thy ===== *)
theory RingFifo
  imports Ring
begin

text \<open>
  The interface that the consumer of a ring relies on, a bounded first-in-first-out queue of
  messages, and the ring of \<open>util/ring.go\<close> as an instance of it. The loop of \<open>Serial\<close> over its
  ring is proved against this interface.
\<close>

section \<open>The queue a ring promises\<close>

datatype fifo_op = Put "u8 list" | Get

datatype fifo_out = Stored | Rejected | Got "u8 list" | Empty

text \<open>
  Operations in sequence on an implementation: a put calls \<open>write\<close>; a get calls \<open>read\<close> and, when
  there is a message, moves the consumed cursor past it.
\<close>

fun fifo_run ::
  "('q \<Rightarrow> u8 list \<Rightarrow> ('e option \<times> 'q) option) \<Rightarrow> ('q \<Rightarrow> (u8 slice option \<times> u64) option)
    \<Rightarrow> ('q \<Rightarrow> u64 \<Rightarrow> 'q option) \<Rightarrow> 'q \<Rightarrow> fifo_op list \<Rightarrow> (fifo_out list \<times> 'q) option" where
  "fifo_run wr rd adv q [] = Some ([], q)"
| "fifo_run wr rd adv q (Put d # ops) = do {
     (e, q1) \<leftarrow> wr q d;
     (outs, q2) \<leftarrow> fifo_run wr rd adv q1 ops;
     Some ((if e = None then Stored else Rejected) # outs, q2) }"
| "fifo_run wr rd adv q (Get # ops) = do {
     (b, c) \<leftarrow> rd q;
     case b of
       None \<Rightarrow> do { (outs, q2) \<leftarrow> fifo_run wr rd adv q ops; Some (Empty # outs, q2) }
     | Some d \<Rightarrow> do { q1 \<leftarrow> adv q c;
                   (outs, q2) \<leftarrow> fifo_run wr rd adv q1 ops; Some (Got (elems d) # outs, q2) } }"

text \<open>The abstract queue: a list of messages of fewer than \<open>cap\<close> bytes together.\<close>

fun spec_run :: "nat \<Rightarrow> u8 list list \<Rightarrow> fifo_op list \<Rightarrow> fifo_out list \<times> u8 list list" where
  "spec_run cap fs [] = ([], fs)"
| "spec_run cap fs (Put d # ops) =
     (if length (concat fs) + length d < cap
      then (let (outs, gs) = spec_run cap (fs @ [d]) ops in (Stored # outs, gs))
      else (let (outs, gs) = spec_run cap fs ops in (Rejected # outs, gs)))"
| "spec_run cap [] (Get # ops) = (let (outs, gs) = spec_run cap [] ops in (Empty # outs, gs))"
| "spec_run cap (f # fs) (Get # ops) = (let (outs, gs) = spec_run cap fs ops in (Got f # outs, gs))"

fun op_valid :: "fifo_op \<Rightarrow> bool" where
  "op_valid (Put d) = valid_msg d"
| "op_valid Get = True"

fun put_bytes :: "fifo_op list \<Rightarrow> nat" where
  "put_bytes [] = 0"
| "put_bytes (Put d # ops) = length d + put_bytes ops"
| "put_bytes (Get # ops) = put_bytes ops"

locale message_fifo =
  fixes holds :: "'q \<Rightarrow> u8 list list \<Rightarrow> bool"
    and cap :: "'q \<Rightarrow> nat"
    and written :: "'q \<Rightarrow> nat"
    and wr :: "'q \<Rightarrow> u8 list \<Rightarrow> ('e option \<times> 'q) option"
    and rd :: "'q \<Rightarrow> (u8 slice option \<times> u64) option"
    and adv :: "'q \<Rightarrow> u64 \<Rightarrow> 'q option"
  assumes write_room: "holds q fs \<Longrightarrow> valid_msg d \<Longrightarrow> length (concat fs) + length d < cap q
      \<Longrightarrow> written q + length d < 2 ^ 64
      \<Longrightarrow> \<exists>q'. wr q d = Some (None, q') \<and> holds q' (fs @ [d]) \<and> cap q' = cap q
             \<and> written q' = written q + length d"
    and write_full: "holds q fs \<Longrightarrow> valid_msg d \<Longrightarrow> cap q \<le> length (concat fs) + length d
      \<Longrightarrow> \<exists>e. wr q d = Some (Some e, q)"
    and read_empty: "holds q [] \<Longrightarrow> rd q = Some (None, 0)"
    and read_head: "holds q (f # fs)
      \<Longrightarrow> \<exists>b c q'. rd q = Some (Some b, c) \<and> wf_slice b \<and> elems b = f \<and> c \<noteq> 0
             \<and> adv q c = Some q' \<and> holds q' fs \<and> cap q' = cap q \<and> written q' = written q"
begin

text \<open>Every sequence of operations answers as the abstract queue does.\<close>

lemma run_spec:
  "holds q fs \<Longrightarrow> list_all op_valid ops \<Longrightarrow> written q + put_bytes ops < 2 ^ 64 \<Longrightarrow>
   \<exists>q'. fifo_run wr rd adv q ops = Some (fst (spec_run (cap q) fs ops), q')
      \<and> holds q' (snd (spec_run (cap q) fs ops))"
proof (induction ops arbitrary: q fs)
  case Nil
  then show ?case by simp
next
  case (Cons x ops)
  show ?case
  proof (cases x)
    case (Put d)
    show ?thesis
    proof (cases "length (concat fs) + length d < cap q")
      case True
      then obtain q' where q': "wr q d = Some (None, q')" "holds q' (fs @ [d])" "cap q' = cap q"
        "written q' = written q + length d"
        using write_room [of q fs d] Cons.prems Put by auto
      then show ?thesis
        using Cons.IH [of q' "fs @ [d]"] Cons.prems Put True by (auto simp: split_beta)
    next
      case False
      then obtain e where "wr q d = Some (Some e, q)"
        using write_full [of q fs d] Cons.prems Put by auto
      then show ?thesis
        using Cons.IH [of q fs] Cons.prems Put False by (auto simp: split_beta)
    qed
  next
    case Get
    show ?thesis
    proof (cases fs)
      case Nil
      then show ?thesis
        using Cons.IH [of q fs] Cons.prems Get read_empty [of q] by (auto simp: split_beta)
    next
      case (Cons f gs)
      then obtain b c q' where "rd q = Some (Some b, c)" "elems b = f" "adv q c = Some q'"
        "holds q' gs" "cap q' = cap q" "written q' = written q"
        using read_head [of q f gs] Cons.prems by auto
      then show ?thesis
        using Cons.IH [of q' gs] Cons.prems Get Cons by (auto simp: split_beta)
    qed
  qed
qed

end

section \<open>The ring is such a queue\<close>

definition ring_holds :: "RingBuffer \<Rightarrow> u8 list list \<Rightarrow> bool" where
  "ring_holds r fs \<longleftrightarrow> HasWork r \<and> ring_inv r fs"

interpretation ring_fifo: message_fifo ring_holds "\<lambda>r. length (ring r)" "\<lambda>r. unat (askCursor r)"
  WriteToRingBuffer ReadFromRingBuffer SetAvailableCursor
proof
  fix r fs d
  assume h: "ring_holds r fs" and v: "valid_msg d"
  show "\<exists>r'. WriteToRingBuffer r d = Some (None, r') \<and> ring_holds r' (fs @ [d])
      \<and> length (ring r') = length (ring r) \<and> unat (askCursor r') = unat (askCursor r) + length d"
    if "length (concat fs) + length d < length (ring r)" "unat (askCursor r) + length d < 2 ^ 64"
    using write_appends [of r fs d] h v that by (auto simp: ring_holds_def)
  show "\<exists>e. WriteToRingBuffer r d = Some (Some e, r)"
    if "length (ring r) \<le> length (concat fs) + length d"
    using write_overflow [of r fs d] h v that by (auto simp: ring_holds_def)
next
  show "ring_holds r [] \<Longrightarrow> ReadFromRingBuffer r = Some (None, 0)" for r
    by (simp add: ring_holds_def read_nothing)
next
  fix r f fs
  assume "ring_holds r (f # fs)"
  then have inv: "ring_inv r (f # fs)" and work: "HasWork r" by (simp_all add: ring_holds_def)
  let ?c = "availableCursor r + of_nat (length f)"
  have "4 \<le> length f" using ring_invD(2) [OF inv] by (simp add: valid_msg_def)
  with read_oldest(2) [OF inv] have c: "?c \<noteq> 0" by (metis add_eq_0_iff_both_eq_0 not_numeral_le_zero unat_0)
  obtain b where b: "ReadFromRingBuffer r = Some (Some b, ?c)" "wf_slice b" "elems b = f"
    using read_oldest(1) [OF inv] by blast
  obtain r' where r': "SetAvailableCursor r ?c = Some r'" "ring_inv r' fs" "HasWork r'"
    "length (ring r') = length (ring r)" "askCursor r' = askCursor r"
    using advance_drops [OF inv] work by blast
  show "\<exists>b c r'. ReadFromRingBuffer r = Some (Some b, c) \<and> wf_slice b \<and> elems b = f \<and> c \<noteq> 0
      \<and> SetAvailableCursor r c = Some r' \<and> ring_holds r' fs \<and> length (ring r') = length (ring r)
      \<and> unat (askCursor r') = unat (askCursor r)"
    by (intro exI [of _ b] exI [of _ ?c] exI [of _ r']) (use b c r' in \<open>simp add: ring_holds_def\<close>)
qed

text \<open>A freshly initialised ring.\<close>

lemma ring_fresh:
  assumes "0 < unat n" "unat n \<le> 2 ^ 63" "askCursor r = availableCursor r"
  shows "ring_holds (SetState (InitRingBuffer r n) StateWork) []"
    "length (ring (InitRingBuffer r n)) = unat (minQuantity n)"
proof -
  obtain k where "k \<le> 63" "minQuantity n = 2 ^ k" using minQuantity_pow2 [OF assms(1,2)] by blast
  then have "ring_sized (SetState (InitRingBuffer r n) StateWork)"
    unfolding ring_sized_def by (auto simp: InitRingBuffer_def SetState_def Let_def intro: exI [of _ k])
  then show "ring_holds (SetState (InitRingBuffer r n) StateWork) []"
    unfolding ring_holds_def using assms(3)
    by (auto intro!: ring_new simp: InitRingBuffer_def SetState_def Let_def HasWork_def)
  show "length (ring (InitRingBuffer r n)) = unat (minQuantity n)"
    by (simp add: InitRingBuffer_def Let_def)
qed

section \<open>Properties\<close>

text \<open>
  C4: From a fresh ring, every sequence of writes and reads of well-formed messages behaves as a
  first-in-first-out queue of total size below \<open>minQuantity n\<close> bytes: each write is stored or
  refused and each read answers exactly as the queue's, nothing panics, and the unread messages of
  the ring at the end are those of the queue. The bound is the 64-bit cursor, which counts the
  bytes ever written.
\<close>

theorem ring_run_fifo:
  assumes "0 < unat n" "unat n \<le> 2 ^ 63" "askCursor r = 0" "availableCursor r = 0"
    and "list_all op_valid ops" "put_bytes ops < 2 ^ 64"
  shows "\<exists>r'. fifo_run WriteToRingBuffer ReadFromRingBuffer SetAvailableCursor
            (SetState (InitRingBuffer r n) StateWork) ops
          = Some (fst (spec_run (unat (minQuantity n)) [] ops), r')
        \<and> ring_inv r' (snd (spec_run (unat (minQuantity n)) [] ops))"
proof -
  let ?r = "SetState (InitRingBuffer r n) StateWork"
  have "ring_holds ?r []" and len: "length (ring ?r) = unat (minQuantity n)"
    using ring_fresh [of n r] assms by (simp_all add: SetState_def)
  moreover have "unat (askCursor ?r) = 0" using assms by (simp add: SetState_def InitRingBuffer_def Let_def)
  ultimately show ?thesis
    using ring_fifo.run_spec [of ?r "[]" ops] assms(5,6) by (auto simp: ring_holds_def)
qed

definition ring0 :: RingBuffer where
  "ring0 = \<lparr>ringBufferShift = 0, ringBufferSize = 0, rbState = 0, ring = [], submitRing = [],
     askCursor = 0, availableCursor = 0\<rparr>"

lemma minQuantity_16: "minQuantity 16 = 16"
  by (simp add: minQuantity_def)

lemma ring_run_fifo_witness:
  "\<exists>r'. fifo_run WriteToRingBuffer ReadFromRingBuffer SetAvailableCursor
      (SetState (InitRingBuffer ring0 16) StateWork)
      [Put [6, 0, 0, 0, 97, 98], Put [10, 0, 0, 0, 97, 45, 45, 45, 45, 122], Get, Get,
       Put [10, 0, 0, 0, 97, 45, 45, 45, 45, 122], Get]
    = Some ([Stored, Rejected, Got [6, 0, 0, 0, 97, 98], Empty, Stored,
        Got [10, 0, 0, 0, 97, 45, 45, 45, 45, 122]], r')"
  using ring_run_fifo [of 16 ring0 "[Put [6, 0, 0, 0, 97, 98], Put [10, 0, 0, 0, 97, 45, 45, 45, 45, 122],
      Get, Get, Put [10, 0, 0, 0, 97, 45, 45, 45, 45, 122], Get]"]
  by (auto simp: minQuantity_16 ring0_def valid_msg_def bytes32_def)

text \<open>
  The size of the ring is the least power of two that is not below the requested size, for
  every request from 1 to \<open>2 ^ 63\<close>.
\<close>

theorem minQuantity_least_power:
  assumes "0 < unat n" "unat n \<le> 2 ^ 63"
  shows "\<exists>k\<le>63. unat (minQuantity n) = 2 ^ k \<and> unat n \<le> 2 ^ k \<and> (\<forall>m<k. 2 ^ m < unat n)"
proof -
  obtain k where k: "k \<le> 63" "minQuantity n = 2 ^ k" "unat n \<le> 2 ^ k" "\<And>m. unat n \<le> 2 ^ m \<Longrightarrow> k \<le> m"
    using minQuantity_pow2 [OF assms] by blast
  then have "unat (minQuantity n) = 2 ^ k" by (simp add: unat_pow2)
  moreover have "2 ^ m < unat n" if "m < k" for m using k(4) [of m] that by linarith
  ultimately show ?thesis using k by blast
qed

lemma minQuantity_least_power_witness: "\<exists>k\<le>63. unat (minQuantity 100) = 2 ^ k \<and> (100::nat) \<le> 2 ^ k"
  using minQuantity_least_power [of 100] by auto

end
