(* ===== verification/Regions.thy ===== *)
theory Regions
  imports Prelude
begin

text \<open>
  Regions of a buffer that were given out one behind the other, oldest first: each with a mark, how far its owner
  is, and the data that belongs there. Shared by the ring and by the slots of a session.
\<close>

section \<open>Where a region starts\<close>

text \<open>\<open>at_cursor a q k\<close> is where region \<open>k\<close> starts when the first one starts at \<open>a\<close>.\<close>

definition at_cursor :: "nat \<Rightarrow> ('st \<times> 'b list) list \<Rightarrow> nat \<Rightarrow> nat" where
  "at_cursor a q k = a + length (concat (map snd (take k q)))"

lemma at_cursor_0 [simp]: "at_cursor a q 0 = a"
  by (simp add: at_cursor_def)

lemma at_cursor_Suc: "k < length q \<Longrightarrow> at_cursor a q (Suc k) = at_cursor a q k + length (snd (q ! k))"
  by (simp add: at_cursor_def take_Suc_conv_app_nth)

lemma at_cursor_mono: "j \<le> k \<Longrightarrow> at_cursor a q j \<le> at_cursor a q k"
proof -
  assume "j \<le> k"
  then have "take k q = take j q @ take (k - j) (drop j q)" by (metis le_add_diff_inverse take_add)
  then show ?thesis by (simp add: at_cursor_def)
qed

lemma at_cursor_all: "length q \<le> k \<Longrightarrow> at_cursor a q k = a + length (concat (map snd q))"
  by (simp add: at_cursor_def)

lemma at_cursor_append: "k \<le> length q \<Longrightarrow> at_cursor a (q @ p) k = at_cursor a q k"
  by (simp add: at_cursor_def)

lemma at_cursor_Cons: "at_cursor a (x # q) (Suc k) = at_cursor (a + length (snd x)) q k"
  by (simp add: at_cursor_def)

lemma at_cursor_update: "at_cursor a (q[k := (st, snd (q ! k))]) j = at_cursor a q j"
proof -
  have "map snd (q[k := (st, snd (q ! k))]) = map snd q"
    by (cases "k < length q"; rule nth_equalityI) (simp_all add: nth_list_update)
  then show ?thesis by (metis at_cursor_def take_map)
qed

lemma at_cursor_strict:
  assumes "\<forall>x\<in>set q. snd x \<noteq> []" "j < k" "k \<le> length q"
  shows "at_cursor a q j < at_cursor a q k"
proof -
  have "snd (q ! j) \<noteq> []" using assms by simp
  then have "at_cursor a q j < at_cursor a q (Suc j)" using assms at_cursor_Suc [of j q a] by simp
  then show ?thesis using at_cursor_mono [of "Suc j" k a q] assms by simp
qed

lemma at_cursor_strict_inj:
  "\<forall>x\<in>set q. snd x \<noteq> [] \<Longrightarrow> j \<le> length q \<Longrightarrow> k \<le> length q \<Longrightarrow> at_cursor a q j = at_cursor a q k \<Longrightarrow> j = k"
  using at_cursor_strict [of q j k a] at_cursor_strict [of q k j a] by (cases j k rule: linorder_cases) auto

lemma ex_snoc:
  "(\<exists>k<length (q @ [x]). P ((q @ [x]) ! k) (at_cursor a (q @ [x]) (Suc k)))
    = ((\<exists>k<length q. P (q ! k) (at_cursor a q (Suc k))) \<or> P x (at_cursor a q (length q) + length (snd x)))" (is "?l = ?r")
proof
  have last: "at_cursor a (q @ [x]) (Suc (length q)) = at_cursor a q (length q) + length (snd x)" by (simp add: at_cursor_def)
  have old: "(q @ [x]) ! k = q ! k" "at_cursor a (q @ [x]) (Suc k) = at_cursor a q (Suc k)" if "k < length q" for k
    using that by (simp_all add: nth_append at_cursor_append)
  show ?r if l: ?l
  proof -
    from l obtain k where k: "k < Suc (length q)" "P ((q @ [x]) ! k) (at_cursor a (q @ [x]) (Suc k))" by auto
    show ?r
    proof (cases "k = length q")
      case True
      then show ?thesis using k(2) last by simp
    next
      case False
      then have "k < length q" using k(1) by simp
      then show ?thesis using k(2) old by auto
    qed
  qed
  show ?l if ?r
    using that
  proof
    assume "\<exists>k<length q. P (q ! k) (at_cursor a q (Suc k))"
    then obtain k where "k < length q" "P (q ! k) (at_cursor a q (Suc k))" by blast
    then show ?l using old [of k] by (intro exI [of _ k]) simp
  next
    assume "P x (at_cursor a q (length q) + length (snd x))"
    then show ?l using last by (intro exI [of _ "length q"]) simp
  qed
qed

section \<open>Counting in a list\<close>

definition num :: "('a \<Rightarrow> bool) \<Rightarrow> 'a list \<Rightarrow> nat" where
  "num P xs = length (filter P xs)"

lemma num_simps [simp]:
  "num P [] = 0" "num P (x # xs) = (if P x then 1 else 0) + num P xs" "num P (xs @ ys) = num P xs + num P ys"
  by (simp_all add: num_def)

lemma num_update:
  assumes "k < length xs"
  shows "int (num P (xs[k := x])) = int (num P xs) - (if P (xs ! k) then 1 else 0) + (if P x then 1 else 0)"
proof -
  have "num P xs = num P (take k xs @ xs ! k # drop (Suc k) xs)" using assms by (simp only: id_take_nth_drop [symmetric])
  moreover have "num P (xs[k := x]) = num P (take k xs @ x # drop (Suc k) xs)" using assms by (simp add: upd_conv_take_nth_drop)
  ultimately show ?thesis by simp
qed

lemma num_le: "num P xs \<le> length xs"
  by (simp add: num_def)

lemma num_0: "num P xs = 0 \<longleftrightarrow> (\<forall>x\<in>set xs. \<not> P x)"
  by (auto simp: num_def filter_empty_conv)

end
