(* ===== verification/RingConc.thy ===== *)
theory RingConc
  imports RingFifo Regions
begin

text \<open>
  The ring of \<open>util/ring.go\<close> with several producers at once. A write is three steps: the compare-and-swap that
  reserves the space, the copy of the bytes, the store of the commit flag; the steps of different producers and
  of the consumer mix in any order.
\<close>

section \<open>Steps\<close>

text \<open>A producer between the steps of \<open>WriteToRingBuffer\<close>: the end of its region and its data.\<close>

datatype in_flight = Reserved u64 "u8 list" | Copied u64

record ring_system =
  shared :: RingBuffer
  producers :: "nat \<rightharpoonup> in_flight"
  taken :: "u8 list list"

datatype ring_action = Reserve nat "u8 list" | CopyData nat | CommitFlag nat | Consume

definition ring_reserve :: "RingBuffer \<Rightarrow> u8 list \<Rightarrow> (u64 \<times> RingBuffer) option" where
  "ring_reserve r data =
     (if \<not> HasWork r \<or> length data < 4 then None
      else let e = askCursor r + of_nat (length data) in
        if e - availableCursor r \<ge> ringBufferSize r then None else Some (e, r\<lparr>askCursor := e\<rparr>))"

definition ring_copy :: "RingBuffer \<Rightarrow> u64 \<Rightarrow> u8 list \<Rightarrow> RingBuffer option" where
  "ring_copy r e data = do { xs \<leftarrow> store_ring r e data; Some (r\<lparr>ring := xs\<rparr>) }"

definition ring_commit :: "RingBuffer \<Rightarrow> u64 \<Rightarrow> RingBuffer option" where
  "ring_commit r e = do {
     xs \<leftarrow> arr_set (submitRing r) (unat (e AND ringBufferShift r)) 1;
     Some (r\<lparr>submitRing := xs\<rparr>) }"

text \<open>An action that is not enabled changes nothing; \<^const>\<open>None\<close> is a panic.\<close>

fun ring_act :: "ring_system \<Rightarrow> ring_action \<Rightarrow> ring_system option" where
  "ring_act s (Reserve i data) =
     (if producers s i \<noteq> None then Some s
      else case ring_reserve (shared s) data of
          None \<Rightarrow> Some s
        | Some (e, r) \<Rightarrow> Some (s\<lparr>shared := r, producers := (producers s)(i \<mapsto> Reserved e data)\<rparr>))"
| "ring_act s (CopyData i) =
     (case producers s i of
        Some (Reserved e data) \<Rightarrow> do {
          r \<leftarrow> ring_copy (shared s) e data;
          Some (s\<lparr>shared := r, producers := (producers s)(i \<mapsto> Copied e)\<rparr>) }
      | _ \<Rightarrow> Some s)"
| "ring_act s (CommitFlag i) =
     (case producers s i of
        Some (Copied e) \<Rightarrow> do {
          r \<leftarrow> ring_commit (shared s) e;
          Some (s\<lparr>shared := r, producers := (producers s)(i := None)\<rparr>) }
      | _ \<Rightarrow> Some s)"
| "ring_act s Consume = do {
     (b, c) \<leftarrow> ReadFromRingBuffer (shared s);
     case b of
       None \<Rightarrow> Some s
     | Some m \<Rightarrow> do { r \<leftarrow> SetAvailableCursor (shared s) c; Some (s\<lparr>shared := r, taken := taken s @ [elems m]\<rparr>) } }"

fun ring_acts :: "ring_system \<Rightarrow> ring_action list \<Rightarrow> ring_system option" where
  "ring_acts s [] = Some s"
| "ring_acts s (a # as) = do { s \<leftarrow> ring_act s a; ring_acts s as }"

text \<open>The three steps in a row are the write of the sequential model.\<close>

lemma three_steps_write:
  "WriteToRingBuffer r data =
     (if \<not> HasWork r then Some (Some ErrRingBufferClose, r)
      else if length data < 4 then Some (Some ErrWriteToRingBufferData, r)
      else case ring_reserve r data of
          None \<Rightarrow> Some (Some ErrRingBufferOverflow, r)
        | Some (e, r) \<Rightarrow> do { r \<leftarrow> ring_copy r e data; r \<leftarrow> ring_commit r e; Some (None, r) })"
  by (simp add: WriteToRingBuffer_def ring_reserve_def ring_copy_def ring_commit_def Let_def
      split: Option.bind_split)

definition new_system :: "u64 \<Rightarrow> ring_system" where
  "new_system n = \<lparr>shared = SetState (InitRingBuffer ring0 n) StateWork, producers = Map.empty, taken = []\<rparr>"

fun requested :: "ring_action list \<Rightarrow> u8 list set" where
  "requested [] = {}"
| "requested (Reserve i data # as) = insert data (requested as)"
| "requested (_ # as) = requested as"

section \<open>The regions of the ring\<close>

text \<open>What the producers have reserved and the consumer has not taken, oldest first, each with how far its
  producer is.\<close>

datatype stage = InReserve nat | InCopy nat | Committed

type_synonym regions = "(stage \<times> u8 list) list"

text \<open>Two regions end at different cursors.\<close>

definition regions_valid :: "regions \<Rightarrow> bool" where
  "regions_valid q \<longleftrightarrow> (\<forall>x\<in>set q. valid_msg (snd x))"

lemma regions_valid_update: "regions_valid q \<Longrightarrow> k < length q \<Longrightarrow> regions_valid (q[k := (st, snd (q ! k))])"
  by (auto simp: regions_valid_def dest!: set_update_subset_insert [THEN subsetD] intro: nth_mem)

lemma at_cursor_less:
  assumes "regions_valid q" "j < k" "k \<le> length q"
  shows "at_cursor a q j < at_cursor a q k"
  using assms by (intro at_cursor_strict) (auto simp: regions_valid_def valid_msg_def)

lemma at_cursor_inj:
  "regions_valid q \<Longrightarrow> j \<le> length q \<Longrightarrow> k \<le> length q \<Longrightarrow> at_cursor a q j = at_cursor a q k \<Longrightarrow> j = k"
  using at_cursor_less [of q j k a] at_cursor_less [of q k j a] by (cases j k rule: linorder_cases) auto

section \<open>Invariant\<close>

definition cursors_ok :: "RingBuffer \<Rightarrow> regions \<Rightarrow> bool" where
  "cursors_ok r q \<longleftrightarrow> ring_sized r \<and> HasWork r \<and> regions_valid q
     \<and> unat (askCursor r) = at_cursor (unat (availableCursor r)) q (length q)
     \<and> length (concat (map snd q)) < length (ring r)"

definition bytes_ok :: "RingBuffer \<Rightarrow> regions \<Rightarrow> bool" where
  "bytes_ok r q \<longleftrightarrow> (\<forall>k<length q. (\<forall>i. fst (q ! k) \<noteq> InReserve i) \<longrightarrow>
     window (ring r) (at_cursor (unat (availableCursor r)) q k) (length (snd (q ! k))) = snd (q ! k))"

definition flags_ok :: "RingBuffer \<Rightarrow> regions \<Rightarrow> bool" where
  "flags_ok r q \<longleftrightarrow> (\<forall>j<length (ring r). submitRing r ! j =
     (if \<exists>k<length q. fst (q ! k) = Committed \<and> at_cursor (unat (availableCursor r)) q (Suc k) mod length (ring r) = j then 1 else 0))"

definition owners_ok :: "ring_system \<Rightarrow> regions \<Rightarrow> bool" where
  "owners_ok s q \<longleftrightarrow> (\<forall>i x. producers s i = Some x \<longleftrightarrow> (\<exists>k<length q.
     let e = of_nat (at_cursor (unat (availableCursor (shared s))) q (Suc k))
     in fst (q ! k) = InReserve i \<and> x = Reserved e (snd (q ! k)) \<or> fst (q ! k) = InCopy i \<and> x = Copied e))"

definition conc_inv :: "ring_system \<Rightarrow> regions \<Rightarrow> bool" where
  "conc_inv s q \<longleftrightarrow> cursors_ok (shared s) q \<and> bytes_ok (shared s) q \<and> flags_ok (shared s) q \<and> owners_ok s q"

lemma cursors_okD:
  assumes "cursors_ok r q"
  shows "ring_sized r" "HasWork r" "regions_valid q"
    "unat (askCursor r) = unat (availableCursor r) + length (concat (map snd q))"
    "length (concat (map snd q)) < length (ring r)"
    "k \<le> length q \<Longrightarrow> at_cursor (unat (availableCursor r)) q k < 2 ^ 64"
    "k \<le> length q \<Longrightarrow> at_cursor (unat (availableCursor r)) q k \<le> unat (availableCursor r) + length (concat (map snd q))"
proof -
  note C = assms [unfolded cursors_ok_def]
  show "ring_sized r" "HasWork r" "regions_valid q" "length (concat (map snd q)) < length (ring r)" using C by auto
  show ask: "unat (askCursor r) = unat (availableCursor r) + length (concat (map snd q))" using C by (simp add: at_cursor_all)
  assume "k \<le> length q"
  then show le: "at_cursor (unat (availableCursor r)) q k \<le> unat (availableCursor r) + length (concat (map snd q))"
    using at_cursor_mono [of k "length q" "unat (availableCursor r)" q] by (simp add: at_cursor_all)
  then show "at_cursor (unat (availableCursor r)) q k < 2 ^ 64" using ask unat_bound [of "askCursor r"] by simp
qed

text \<open>Ends of two regions differ also as words and as positions of the ring.\<close>

lemma ends_differ:
  assumes "cursors_ok r q" "j < length q" "k < length q" "j \<noteq> k"
  shows "(of_nat (at_cursor (unat (availableCursor r)) q (Suc j)) :: u64) \<noteq> of_nat (at_cursor (unat (availableCursor r)) q (Suc k))"
    "at_cursor (unat (availableCursor r)) q (Suc j) mod length (ring r) \<noteq> at_cursor (unat (availableCursor r)) q (Suc k) mod length (ring r)"
proof -
  let ?a = "unat (availableCursor r)"
  note C = cursors_okD [OF assms(1)]
  have ne: "at_cursor ?a q (Suc j) \<noteq> at_cursor ?a q (Suc k)"
    using at_cursor_inj [OF C(3), of "Suc j" "Suc k" ?a] assms(2-4) by auto
  have b: "at_cursor ?a q (Suc j) < 2 ^ 64" "at_cursor ?a q (Suc k) < 2 ^ 64" using C(6) assms(2,3) by simp_all
  show "(of_nat (at_cursor ?a q (Suc j)) :: u64) \<noteq> of_nat (at_cursor ?a q (Suc k))"
  proof
    assume "(of_nat (at_cursor ?a q (Suc j)) :: u64) = of_nat (at_cursor ?a q (Suc k))"
    from arg_cong [OF this, of unat] show False using ne b by (simp add: unat_of_nat_small)
  qed
  have in_lap: "?a \<le> at_cursor ?a q (Suc m)" "at_cursor ?a q (Suc m) < ?a + length (ring r)" if "m < length q" for m
    using C(7) [of "Suc m"] C(5) that by (auto simp: at_cursor_def)
  show "at_cursor ?a q (Suc j) mod length (ring r) \<noteq> at_cursor ?a q (Suc k) mod length (ring r)"
    using mod_eq_within [OF _ in_lap [OF assms(2)] in_lap [OF assms(3)]] ne by blast
qed

section \<open>Each step keeps it\<close>

lemma reserve_step:
  assumes inv: "conc_inv s q" and d: "valid_msg d" and nowrap: "unat (askCursor (shared s)) + length d < 2 ^ 64"
    and free: "producers s i = None"
  shows "case ring_reserve (shared s) d of
      None \<Rightarrow> length (ring (shared s)) \<le> length (concat (map snd q)) + length d
    | Some (e, r) \<Rightarrow> conc_inv (s\<lparr>shared := r, producers := (producers s)(i \<mapsto> Reserved e d)\<rparr>) (q @ [(InReserve i, d)])
        \<and> unat (askCursor r) = unat (askCursor (shared s)) + length d"
proof -
  define r where "r = shared s"
  let ?a = "unat (availableCursor r)" and ?t = "length (concat (map snd q))" and ?l = "length d"
  note I = inv [unfolded conc_inv_def, folded r_def]
  note C = cursors_okD [OF conjunct1 [OF I]]
  note L = ring_sized_len [OF C(1)]
  have d': "4 \<le> ?l" "?l < 2 ^ 32" using d by (simp_all add: valid_msg_def)
  have l: "unat (of_nat ?l :: u64) = ?l" using d'(2) by (simp add: unat_of_nat)
  have e: "unat (askCursor r + of_nat ?l) = ?a + ?t + ?l"
    using unat_add_nowrap [of "askCursor r" "of_nat ?l"] nowrap l C(4) by (simp add: r_def)
  then have used: "unat (askCursor r + of_nat ?l - availableCursor r) = ?t + ?l"
    by (subst unat_diff_nowrap) simp_all
  show ?thesis
  proof (cases "length (ring r) \<le> ?t + ?l")
    case True
    then show ?thesis using used L(3) by (simp add: ring_reserve_def r_def [symmetric] word_le_nat_alt Let_def)
  next
    case False
    define e' where "e' = askCursor r + of_nat ?l"
    define r' where "r' = r\<lparr>askCursor := e'\<rparr>"
    have res: "ring_reserve r d = Some (e', r')"
      using False used L(3) C(2) d'(1) by (simp add: ring_reserve_def Let_def word_le_nat_alt e'_def r'_def)
    let ?q = "q @ [(InReserve i, d)]" and ?s = "s\<lparr>shared := r', producers := (producers s)(i \<mapsto> Reserved e' d)\<rparr>"
    have end': "of_nat (at_cursor ?a ?q (Suc (length q))) = e'"
    proof -
      have "at_cursor ?a ?q (Suc (length q)) = ?a + ?t + ?l" by (simp add: at_cursor_def)
      moreover have "of_nat (?a + ?t + ?l) = e'"
        unfolding e'_def e [symmetric] by (simp only: of_nat_unat ucast_id)
      ultimately show ?thesis by (simp only:)
    qed
    have "cursors_ok r' ?q"
      using I C d e False by (auto simp: cursors_ok_def r'_def ring_sized_def HasWork_def regions_valid_def e'_def at_cursor_def)
    moreover have "bytes_ok r' ?q"
      using I by (auto simp: bytes_ok_def r'_def nth_append at_cursor_append less_Suc_eq)
    moreover have "flags_ok r' ?q"
    proof -
      have "(\<exists>k<length ?q. fst (?q ! k) = Committed \<and> at_cursor ?a ?q (Suc k) mod length (ring r) = j)
          = (\<exists>k<length q. fst (q ! k) = Committed \<and> at_cursor ?a q (Suc k) mod length (ring r) = j)" for j
        using ex_snoc [of q "(InReserve i, d)" "\<lambda>y c. fst y = Committed \<and> c mod length (ring r) = j" ?a] by (simp only: fst_conv stage.simps simp_thms)
      then show ?thesis using I by (simp only: flags_ok_def r'_def RingBuffer.simps) simp
    qed
    moreover have "owners_ok ?s ?q"
      unfolding owners_ok_def
    proof (intro allI)
      fix j x
      let ?P = "\<lambda>y c. let e = of_nat c in fst y = InReserve j \<and> x = Reserved e (snd y) \<or> fst y = InCopy j \<and> x = Copied e"
      have old: "producers s j = Some x \<longleftrightarrow> (\<exists>k<length q. ?P (q ! k) (at_cursor ?a q (Suc k)))"
        using I by (simp add: owners_ok_def r_def [symmetric])
      have new: "?P (InReserve i, d) (at_cursor ?a q (length q) + length d) \<longleftrightarrow> j = i \<and> x = Reserved e' d"
        using end' by (auto simp: Let_def at_cursor_def)
      have "producers ?s j = Some x \<longleftrightarrow> (\<exists>k<length q. ?P (q ! k) (at_cursor ?a q (Suc k))) \<or> j = i \<and> x = Reserved e' d"
        using old [symmetric] free by (cases "j = i") auto
      then show "producers ?s j = Some x \<longleftrightarrow> (\<exists>k<length ?q. ?P (?q ! k) (at_cursor (unat (availableCursor (shared ?s))) ?q (Suc k)))"
        using ex_snoc [of q "(InReserve i, d)" ?P ?a] new by (simp add: r'_def del: length_append)
    qed
    moreover have "unat (askCursor r') = unat (askCursor r) + ?l" using e C(4) by (simp add: r'_def e'_def)
    ultimately show ?thesis using res by (simp add: conc_inv_def r_def [symmetric])
  qed
qed

text \<open>A region changes its stage; everything else stays.\<close>

lemma ex_update:
  assumes "k < length q"
  shows "(\<exists>j<length q. P (q[k := (st, snd (q ! k))] ! j) (at_cursor a q (Suc j)))
    = (P (st, snd (q ! k)) (at_cursor a q (Suc k)) \<or> (\<exists>j<length q. j \<noteq> k \<and> P (q ! j) (at_cursor a q (Suc j))))"
  using assms by (metis nth_list_update_eq nth_list_update_neq)

lemma owners_unique:
  assumes "cursors_ok (shared s) q" "owners_ok s q" "k < length q" "j < length q" "j \<noteq> k"
    and "fst (q ! k) = InReserve i \<or> fst (q ! k) = InCopy i"
  shows "fst (q ! j) \<noteq> InReserve i \<and> fst (q ! j) \<noteq> InCopy i"
proof -
  let ?e = "\<lambda>k. of_nat (at_cursor (unat (availableCursor (shared s))) q (Suc k)) :: u64"
  have own: "producers s i = Some (Reserved (?e m) (snd (q ! m)))" if "m < length q" "fst (q ! m) = InReserve i" for m
    using assms(2) that by (auto simp: owners_ok_def Let_def)
  have own': "producers s i = Some (Copied (?e m))" if "m < length q" "fst (q ! m) = InCopy i" for m
    using assms(2) that by (auto simp: owners_ok_def Let_def)
  note D = ends_differ(1) [OF assms(1,4,3,5)]
  show ?thesis using own [OF assms(3)] own' [OF assms(3)] own [OF assms(4)] own' [OF assms(4)] D assms(6) by auto
qed

lemma owners_replace:
  assumes "cursors_ok (shared s) q" "owners_ok s q" "k < length q" "fst (q ! k) = InReserve i \<or> fst (q ! k) = InCopy i"
    and "availableCursor r = availableCursor (shared s)"
    and new: "(st = InCopy i \<and> p = Some (Copied (of_nat (at_cursor (unat (availableCursor r)) q (Suc k))))) \<or> (st = Committed \<and> p = None)"
  shows "owners_ok (s\<lparr>shared := r, producers := (producers s)(i := p)\<rparr>) (q[k := (st, snd (q ! k))])"
  unfolding owners_ok_def
proof (intro allI)
  fix m x
  let ?a = "unat (availableCursor r)" and ?q = "q[k := (st, snd (q ! k))]"
  let ?P = "\<lambda>y c. let e = of_nat c in fst y = InReserve m \<and> x = Reserved e (snd y) \<or> fst y = InCopy m \<and> x = Copied e"
  have old: "producers s m = Some x \<longleftrightarrow> (\<exists>j<length q. ?P (q ! j) (at_cursor ?a q (Suc j)))"
    using assms(2,5) by (simp add: owners_ok_def)
  have "((producers s)(i := p)) m = Some x \<longleftrightarrow> ?P (st, snd (q ! k)) (at_cursor ?a q (Suc k)) \<or> (\<exists>j<length q. j \<noteq> k \<and> ?P (q ! j) (at_cursor ?a q (Suc j)))"
  proof (cases "m = i")
    case True
    have "\<not> ?P (q ! j) c" if "j < length q" "j \<noteq> k" for j c
      using owners_unique [OF assms(1-3) that assms(4)] True by (simp add: Let_def)
    then show ?thesis using new True by (auto simp: Let_def)
  next
    case False
    then have "\<not> ?P (q ! k) c" "\<not> ?P (st, snd (q ! k)) c" for c using assms(4) new by (auto simp: Let_def)
    then show ?thesis using old False by (metis fun_upd_other)
  qed
  then show "producers (s\<lparr>shared := r, producers := (producers s)(i := p)\<rparr>) m = Some x \<longleftrightarrow>
     (\<exists>j<length ?q. ?P (?q ! j) (at_cursor (unat (availableCursor (shared (s\<lparr>shared := r, producers := (producers s)(i := p)\<rparr>)))) ?q (Suc j)))"
    using ex_update [OF assms(3), of ?P st ?a] by (simp add: at_cursor_update)
qed

lemma outside_same:
  assumes "window xs b N = d @ window ys (b + length d) (N - length d)" "length xs = N" "length ys = N" "length d \<le> N"
    and "b + length d \<le> x \<and> x < b + N \<or> b + length d \<le> x + N \<and> x < b"
  shows "xs ! (x mod N) = ys ! (x mod N)"
proof -
  have "xs ! (y mod N) = ys ! (y mod N)" if "b + length d \<le> y" "y < b + N" for y
  proof -
    have "window xs b N ! (y - b) = (d @ window ys (b + length d) (N - length d)) ! (y - b)" using assms(1) by simp
    moreover have "\<not> y - b < length d" using that by linarith
    ultimately show ?thesis using that assms(2-4) by (simp add: nth_append)
  qed
  from this [of x] this [of "x + N"] show ?thesis using assms(5) by auto
qed

lemma copy_step:
  assumes inv: "conc_inv s q" and p: "producers s i = Some (Reserved e d)"
  shows "\<exists>r q'. ring_copy (shared s) e d = Some r \<and> conc_inv (s\<lparr>shared := r, producers := (producers s)(i \<mapsto> Copied e)\<rparr>) q'
    \<and> map snd q' = map snd q \<and> askCursor r = askCursor (shared s)"
proof -
  define r where "r = shared s"
  let ?a = "unat (availableCursor r)" and ?N = "length (ring r)"
  note I = inv [unfolded conc_inv_def, folded r_def]
  note C = cursors_okD [OF conjunct1 [OF I]]
  obtain k where k: "k < length q" "fst (q ! k) = InReserve i" "d = snd (q ! k)" "e = of_nat (at_cursor ?a q (Suc k))"
    using p I by (auto simp: owners_ok_def r_def Let_def)
  let ?b = "at_cursor ?a q k" and ?l = "length d"
  have "unat e = at_cursor ?a q (Suc k)" unfolding k(4) by (rule unat_of_nat_small) (use C(6) [of "Suc k"] k(1) in simp)
  then have e: "unat e = ?b + ?l" using at_cursor_Suc [OF k(1)] k(3) by simp
  have tot: "?b + ?l \<le> ?a + length (concat (map snd q))" using C(7) [of "Suc k"] at_cursor_Suc [OF k(1)] k by simp
  have ab: "?a \<le> ?b" by (simp add: at_cursor_def)
  have l: "?l < ?N" using tot ab C(5) by linarith
  obtain xs where xs: "store_ring r e d = Some xs" "length xs = ?N" "window xs ?b ?N = d @ window (ring r) (?b + ?l) (?N - ?l)"
    using store_ring_window [OF C(1) l e] by auto
  define r' where "r' = r\<lparr>ring := xs\<rparr>"
  let ?q = "q[k := (InCopy i, snd (q ! k))]"
  have "ring_copy r e d = Some r'" using xs(1) by (simp add: ring_copy_def r'_def)
  moreover have snds: "map snd ?q = map snd q" by (rule nth_equalityI) (use k in \<open>simp_all add: nth_list_update\<close>)
  moreover have "cursors_ok r' ?q"
    using I C(1,3) xs(2) snds k(1)
    by (auto simp: cursors_ok_def r'_def ring_sized_def HasWork_def at_cursor_update regions_valid_update)
  moreover have "bytes_ok r' ?q"
    unfolding bytes_ok_def
  proof (intro allI impI)
    fix j
    assume j: "j < length ?q" "\<forall>i. fst (?q ! j) \<noteq> InReserve i"
    let ?c = "at_cursor ?a q j" and ?m = "length (snd (q ! j))"
    have "window xs ?c ?m = snd (q ! j)"
    proof (cases "j = k")
      case True
      then show ?thesis using arg_cong [OF xs(3), of "take ?l"] l k(3) by (simp add: take_window)
    next
      case False
      then have old: "window (ring r) ?c ?m = snd (q ! j)" using I j by (simp add: bytes_ok_def)
      have "xs ! ((?c + n) mod ?N) = ring r ! ((?c + n) mod ?N)" if n: "n < ?m" for n
      proof (rule outside_same [OF xs(3,2) refl])
        show "?l \<le> ?N" using l by simp
        have c: "?c + n < at_cursor ?a q (Suc j)" using at_cursor_Suc [of j q ?a] j n by simp
        show "?b + ?l \<le> ?c + n \<and> ?c + n < ?b + ?N \<or> ?b + ?l \<le> ?c + n + ?N \<and> ?c + n < ?b"
        proof (cases "j < k")
          case True
          then have "?c + n < ?b" using at_cursor_mono [of "Suc j" k ?a q] c by simp
          then show ?thesis using tot C(5) by (simp add: at_cursor_def [of ?a q j])
        next
          case False
          then have "?b + ?l \<le> ?c" using \<open>j \<noteq> k\<close> at_cursor_mono [of "Suc k" j ?a q] at_cursor_Suc [OF k(1), of ?a] k(3) by simp
          moreover have "?c + n < ?a + ?N" using c C(7) [of "Suc j"] C(5) j by simp
          ultimately show ?thesis using ab by simp
        qed
      qed
      then have "window xs ?c ?m = window (ring r) ?c ?m" using xs(2) by (intro nth_equalityI) simp_all
      then show ?thesis using old by simp
    qed
    then show "window (ring r') (at_cursor (unat (availableCursor r')) ?q j) (length (snd (?q ! j))) = snd (?q ! j)"
      using j k(1) by (simp add: r'_def at_cursor_update nth_list_update)
  qed
  moreover have "flags_ok r' ?q"
  proof -
    have "(\<exists>m<length q. fst (?q ! m) = Committed \<and> at_cursor ?a q (Suc m) mod ?N = j)
        = (\<exists>m<length q. fst (q ! m) = Committed \<and> at_cursor ?a q (Suc m) mod ?N = j)" for j
      using ex_update [OF k(1), of "\<lambda>y c. fst y = Committed \<and> c mod ?N = j" "InCopy i" ?a] k(2) by auto
    then show ?thesis using I xs(2) by (simp add: flags_ok_def r'_def at_cursor_update)
  qed
  moreover have "owners_ok (s\<lparr>shared := r', producers := (producers s)(i \<mapsto> Copied e)\<rparr>) ?q"
    by (rule owners_replace) (use I k in \<open>simp_all add: r'_def r_def\<close>)
  ultimately show ?thesis
    by (intro exI [of _ r'] exI [of _ ?q]) (simp add: conc_inv_def r'_def r_def)
qed

lemma commit_step:
  assumes inv: "conc_inv s q" and p: "producers s i = Some (Copied e)"
  shows "\<exists>r q'. ring_commit (shared s) e = Some r \<and> conc_inv (s\<lparr>shared := r, producers := (producers s)(i := None)\<rparr>) q'
    \<and> map snd q' = map snd q \<and> askCursor r = askCursor (shared s)"
proof -
  define r where "r = shared s"
  let ?a = "unat (availableCursor r)" and ?N = "length (ring r)"
  note I = inv [unfolded conc_inv_def, folded r_def]
  note C = cursors_okD [OF conjunct1 [OF I]]
  note L = ring_sized_len [OF C(1)]
  obtain k where k: "k < length q" "fst (q ! k) = InCopy i" "e = of_nat (at_cursor ?a q (Suc k))"
    using p I by (auto simp: owners_ok_def r_def Let_def)
  define c where "c = at_cursor ?a q (Suc k)"
  have pos: "unat (e AND ringBufferShift r) = c mod ?N"
    using ring_sized_mask [OF C(1), of e] k C(6) [of "Suc k"] by (simp add: unat_of_nat_small c_def)
  define r' where "r' = r\<lparr>submitRing := (submitRing r)[c mod ?N := 1]\<rparr>"
  let ?q = "q[k := (Committed, snd (q ! k))]"
  have "ring_commit r e = Some r'" using L pos by (simp add: ring_commit_def arr_set_def r'_def)
  moreover have snds: "map snd ?q = map snd q" by (rule nth_equalityI) (use k in \<open>simp_all add: nth_list_update\<close>)
  moreover have "cursors_ok r' ?q"
    using I C(1,3) snds k(1)
    by (auto simp: cursors_ok_def r'_def ring_sized_def HasWork_def at_cursor_update regions_valid_update)
  moreover have "bytes_ok r' ?q"
    using I k by (auto simp: bytes_ok_def r'_def at_cursor_update nth_list_update)
  moreover have "flags_ok r' ?q"
  proof -
    have "(\<exists>m<length q. fst (?q ! m) = Committed \<and> at_cursor ?a q (Suc m) mod ?N = j)
        = (c mod ?N = j \<or> (\<exists>m<length q. fst (q ! m) = Committed \<and> at_cursor ?a q (Suc m) mod ?N = j))" for j
      using ex_update [OF k(1), of "\<lambda>y c. fst y = Committed \<and> c mod ?N = j" Committed ?a] k(2) by (auto simp: c_def)
    then show ?thesis using I L by (auto simp: flags_ok_def r'_def at_cursor_update nth_list_update)
  qed
  moreover have "owners_ok (s\<lparr>shared := r', producers := (producers s)(i := None)\<rparr>) ?q"
    by (rule owners_replace) (use I k in \<open>simp_all add: r'_def r_def\<close>)
  ultimately show ?thesis
    by (intro exI [of _ r'] exI [of _ ?q]) (simp add: conc_inv_def r'_def r_def)
qed

text \<open>The oldest region is not one that is merely reserved.\<close>

definition head_written :: "ring_system \<Rightarrow> bool" where
  "head_written s \<longleftrightarrow> (\<forall>i e d. producers s i = Some (Reserved e d) \<longrightarrow> e - of_nat (length d) \<noteq> availableCursor (shared s))"

text \<open>What a read finds at the oldest region, once its producer has written it.\<close>

lemma read_oldest_region:
  assumes inv: "conc_inv s q" and head: "head_written s" and q: "q = (st, d) # q1" and r_def: "r = shared s"
  obtains b where "elems b = d" "unat (availableCursor r + of_nat (length d)) = unat (availableCursor r) + length d"
    "ReadFromRingBuffer r = Some (if st = Committed then (Some b, availableCursor r + of_nat (length d)) else (None, 0))"
proof -
  let ?a = "unat (availableCursor r)" and ?N = "length (ring r)"
  note I = inv [unfolded conc_inv_def, folded r_def]
  note C = cursors_okD [OF conjunct1 [OF I]]
  note L = ring_sized_len [OF C(1)]
  let ?l = "length d"
  have d: "valid_msg d" "4 \<le> ?l" using C(3) q by (auto simp: regions_valid_def valid_msg_def)
  have room: "?l < ?N" "?a + ?l < 2 ^ 64" using C(4,5) q unat_bound [of "askCursor r"] by simp_all
  have lt: "availableCursor r < askCursor r" using C(4) q d(2) by (cases d) (auto simp: word_less_nat_alt)
  have own: "producers s i = Some (Reserved (availableCursor r + of_nat ?l) d)" if "st = InReserve i" for i
    using I q that by (auto simp: owners_ok_def r_def [symmetric] Let_def at_cursor_def intro!: exI [of _ 0])
  have written: "st \<noteq> InReserve i" for i
    using head own [of i] by (fastforce simp: head_written_def r_def)
  then have win: "window (ring r) ?a ?l = d" using I q by (auto simp: bytes_ok_def)
  note R = read_window [OF C(1) d(1) room(1) lt room(2) win]
  define p where "p = (?a + ?l) mod ?N"
  have flag: "submitRing r ! p = 1 \<longleftrightarrow> st = Committed"
  proof -
    have "(\<exists>k<length q. fst (q ! k) = Committed \<and> at_cursor ?a q (Suc k) mod ?N = p) \<longleftrightarrow> st = Committed"
    proof
      assume "\<exists>k<length q. fst (q ! k) = Committed \<and> at_cursor ?a q (Suc k) mod ?N = p"
      then obtain k where k: "k < length q" "fst (q ! k) = Committed" "at_cursor ?a q (Suc k) mod ?N = p" by blast
      have "k = 0" using ends_differ(2) [OF conjunct1 [OF I] k(1), of 0] k(3) q by (auto simp: p_def at_cursor_def)
      then show "st = Committed" using k(2) q by simp
    qed (use q in \<open>auto simp: p_def at_cursor_def intro!: exI [of _ 0]\<close>)
    moreover have "p < ?N" using L(1) by (simp add: p_def)
    ultimately show ?thesis using I by (simp add: flags_ok_def)
  qed
  obtain b where b: "elems b = d"
    "ReadFromRingBuffer r = Some (if submitRing r ! p = 1 then (Some b, availableCursor r + of_nat ?l) else (None, 0))"
    using R(2) unfolding p_def by blast
  then show ?thesis using that R(1) flag by simp
qed

text \<open>Taking the oldest region out, when it is committed.\<close>

lemma consume_inv:
  assumes inv: "conc_inv s ((Committed, d) # q1)" and r_def: "r = shared s"
    and r': "r' = r\<lparr>submitRing := (submitRing r)[(unat (availableCursor r) + length d) mod length (ring r) := 0],
      availableCursor := availableCursor r + of_nat (length d)\<rparr>"
    and next': "unat (availableCursor r + of_nat (length d)) = unat (availableCursor r) + length d"
  shows "conc_inv (s\<lparr>shared := r', taken := ts\<rparr>) q1"
proof -
  let ?a = "unat (availableCursor r)" and ?N = "length (ring r)"
  note I = inv [unfolded conc_inv_def, folded r_def]
  note C = cursors_okD [OF conjunct1 [OF I]]
  note L = ring_sized_len [OF C(1)]
  define q where "q = (Committed, d) # q1"
  define p where "p = (?a + length d) mod ?N"
  note I = I [folded q_def] and C = C [folded q_def] and r'_def = r' [folded p_def]
  have Q: "cursors_ok r q" using I by blast
  have a': "unat (availableCursor r') = ?a + length d" using next' by (simp add: r'_def)
  have cur: "at_cursor (?a + length d) q1 k = at_cursor ?a q (Suc k)" for k by (simp add: q_def at_cursor_Cons)
  have ex: "(\<exists>k<length q. P (q ! k) (at_cursor ?a q (Suc k)))
      = (P (Committed, d) (?a + length d) \<or> (\<exists>k<length q1. P (q1 ! k) (at_cursor (?a + length d) q1 (Suc k))))" for P
    unfolding q_def length_Cons Ex_less_Suc2 by (simp only: nth_Cons_0 nth_Cons_Suc at_cursor_Cons at_cursor_0 snd_conv)
  have "cursors_ok r' q1"
    using I C a' by (auto simp: q_def cursors_ok_def r'_def ring_sized_def HasWork_def regions_valid_def cur)
  moreover have "bytes_ok r' q1"
    unfolding bytes_ok_def
  proof (intro allI impI)
    fix k
    assume k: "k < length q1" "\<forall>i. fst (q1 ! k) \<noteq> InReserve i"
    have "bytes_ok r q" using I by blast
    then have "window (ring r) (at_cursor ?a q (Suc k)) (length (snd (q ! Suc k))) = snd (q ! Suc k)"
      using spec [of _ "Suc k", OF \<open>bytes_ok r q\<close> [unfolded bytes_ok_def]] k by (simp add: q_def)
    then show "window (ring r') (at_cursor (unat (availableCursor r')) q1 k) (length (snd (q1 ! k))) = snd (q1 ! k)"
      using a' cur by (simp add: r'_def q_def)
  qed
  moreover have "flags_ok r' q1"
    unfolding flags_ok_def
  proof (intro allI impI)
    fix j
    assume j: "j < length (ring r')"
    let ?P = "\<lambda>y c. fst y = Committed \<and> c mod ?N = j"
    have old: "submitRing r ! j = (if ?P (Committed, d) (?a + length d) \<or> (\<exists>k<length q1. ?P (q1 ! k) (at_cursor (?a + length d) q1 (Suc k))) then 1 else 0)"
      using I j ex [of ?P] by (simp add: flags_ok_def r'_def)
    have "\<not> (\<exists>k<length q1. ?P (q1 ! k) (at_cursor (?a + length d) q1 (Suc k)))" if "j = p"
      using ends_differ(2) [OF Q, of _ 0] that cur by (fastforce simp: q_def p_def at_cursor_def [of ?a "(Committed, d) # q1" "Suc 0"])
    then show "submitRing r' ! j = (if \<exists>k<length q1. fst (q1 ! k) = Committed
        \<and> at_cursor (unat (availableCursor r')) q1 (Suc k) mod length (ring r') = j then 1 else 0)"
      using old j L a' by (cases "j = p") (simp_all add: r'_def p_def [symmetric])
  qed
  moreover have "owners_ok (s\<lparr>shared := r', taken := ts\<rparr>) q1"
    unfolding owners_ok_def
  proof (intro allI)
    fix i x
    let ?P = "\<lambda>y c. let e = of_nat c in fst y = InReserve i \<and> x = Reserved e (snd y) \<or> fst y = InCopy i \<and> x = Copied e"
    have "producers s i = Some x \<longleftrightarrow> ?P (Committed, d) (?a + length d) \<or> (\<exists>k<length q1. ?P (q1 ! k) (at_cursor (?a + length d) q1 (Suc k)))"
      using I ex [of ?P] by (simp add: owners_ok_def r_def [symmetric])
    then show "producers (s\<lparr>shared := r', taken := ts\<rparr>) i = Some x \<longleftrightarrow>
        (\<exists>k<length q1. ?P (q1 ! k) (at_cursor (unat (availableCursor (shared (s\<lparr>shared := r', taken := ts\<rparr>)))) q1 (Suc k)))"
      using a' by (simp add: Let_def)
  qed
  ultimately show ?thesis by (simp add: conc_inv_def)
qed

lemma consume_step:
  assumes inv: "conc_inv s q" and head: "head_written s"
  shows "ring_act s Consume = Some s
    \<or> (\<exists>d q' r. q = (Committed, d) # q' \<and> ring_act s Consume = Some (s\<lparr>shared := r, taken := taken s @ [d]\<rparr>)
        \<and> conc_inv (s\<lparr>shared := r, taken := taken s @ [d]\<rparr>) q' \<and> askCursor r = askCursor (shared s))"
proof -
  define r where "r = shared s"
  note C = cursors_okD [OF conjunct1 [OF inv [unfolded conc_inv_def, folded r_def]]]
  show ?thesis
  proof (cases q)
    case Nil
    then have "\<not> availableCursor r < askCursor r" using C(4) by (simp add: word_less_nat_alt)
    then show ?thesis by (simp add: ReadFromRingBuffer_def r_def Let_def)
  next
    case (Cons x q1)
    obtain st d where x: "x = (st, d)" by (cases x)
    have q: "q = (st, d) # q1" using Cons x by simp
    obtain b where b: "elems b = d" "unat (availableCursor r + of_nat (length d)) = unat (availableCursor r) + length d"
      "ReadFromRingBuffer r = Some (if st = Committed then (Some b, availableCursor r + of_nat (length d)) else (None, 0))"
      by (rule read_oldest_region [OF inv head q r_def])
    show ?thesis
    proof (cases "st = Committed")
      case False
      then show ?thesis using b(3) by (simp add: r_def)
    next
      case True
      let ?p = "(unat (availableCursor r) + length d) mod length (ring r)"
      define r' where "r' = r\<lparr>submitRing := (submitRing r)[?p := 0], availableCursor := availableCursor r + of_nat (length d)\<rparr>"
      have pos: "unat ((availableCursor r + of_nat (length d)) AND ringBufferShift r) = ?p" using ring_sized_mask [OF C(1)] b(2) by simp
      then have "SetAvailableCursor r (availableCursor r + of_nat (length d)) = Some r'"
        using ring_sized_len [OF C(1)] by (simp add: SetAvailableCursor_def arr_set_def r'_def)
      then have act: "ring_act s Consume = Some (s\<lparr>shared := r', taken := taken s @ [d]\<rparr>)" using b True unfolding r_def by simp
      have "conc_inv s ((Committed, d) # q1)" using inv q True by simp
      then have "conc_inv (s\<lparr>shared := r', taken := taken s @ [d]\<rparr>) q1" by (rule consume_inv [OF _ r_def r'_def b(2)])
      then show ?thesis using act q True by (auto simp: r'_def r_def)
    qed
  qed
qed

section \<open>Runs\<close>

text \<open>What the producers were granted, in the order of their reservations, and the runs in which the consumer only
  looks at the ring when the oldest region is more than reserved.\<close>

fun granted :: "ring_system \<Rightarrow> ring_action list \<Rightarrow> u8 list list" where
  "granted s [] = []"
| "granted s (a # as) =
     (case a of
        Reserve i d \<Rightarrow> (if producers s i = None \<and> ring_reserve (shared s) d \<noteq> None then [d] else [])
      | _ \<Rightarrow> []) @ (case ring_act s a of None \<Rightarrow> [] | Some t \<Rightarrow> granted t as)"

fun careful :: "ring_system \<Rightarrow> ring_action list \<Rightarrow> bool" where
  "careful s [] = True"
| "careful s (a # as) = ((a = Consume \<longrightarrow> head_written s) \<and> (case ring_act s a of None \<Rightarrow> True | Some t \<Rightarrow> careful t as))"

fun reserve_ok :: "ring_action \<Rightarrow> bool" where
  "reserve_ok (Reserve i d) = valid_msg d"
| "reserve_ok _ = True"

fun reserve_bytes :: "ring_action list \<Rightarrow> nat" where
  "reserve_bytes [] = 0"
| "reserve_bytes (Reserve i d # as) = length d + reserve_bytes as"
| "reserve_bytes (_ # as) = reserve_bytes as"

lemma act_step:
  assumes inv: "conc_inv s q" and ok: "reserve_ok a" "a = Consume \<longrightarrow> head_written s"
    and room: "unat (askCursor (shared s)) + reserve_bytes (a # as) < 2 ^ 64"
  shows "\<exists>t q'. ring_act s a = Some t \<and> conc_inv t q' \<and> unat (askCursor (shared t)) + reserve_bytes as < 2 ^ 64
    \<and> taken t @ map snd q' = taken s @ map snd q
        @ (case a of Reserve i d \<Rightarrow> (if producers s i = None \<and> ring_reserve (shared s) d \<noteq> None then [d] else []) | _ \<Rightarrow> [])"
proof (cases a)
  case (Reserve i d)
  show ?thesis
  proof (cases "producers s i = None \<and> ring_reserve (shared s) d \<noteq> None")
    case True
    then obtain e r where r: "ring_reserve (shared s) d = Some (e, r)" by auto
    have "conc_inv (s\<lparr>shared := r, producers := (producers s)(i \<mapsto> Reserved e d)\<rparr>) (q @ [(InReserve i, d)])"
      "unat (askCursor r) = unat (askCursor (shared s)) + length d"
      using reserve_step [OF inv, of d i] r True ok room Reserve by simp_all
    then show ?thesis using r True room Reserve
      by (intro exI [of _ "s\<lparr>shared := r, producers := (producers s)(i \<mapsto> Reserved e d)\<rparr>"] exI [of _ "q @ [(InReserve i, d)]"]) simp
  next
    case False
    then have "ring_act s a = Some s" using Reserve by (auto split: option.splits)
    then show ?thesis using inv room Reserve False by (intro exI [of _ s] exI [of _ q]) simp
  qed
next
  case (CopyData i)
  show ?thesis
  proof (cases "\<exists>e d. producers s i = Some (Reserved e d)")
    case True
    then obtain e d where p: "producers s i = Some (Reserved e d)" by blast
    from copy_step [OF inv p] obtain r q' where "ring_copy (shared s) e d = Some r"
      "conc_inv (s\<lparr>shared := r, producers := (producers s)(i \<mapsto> Copied e)\<rparr>) q'" "map snd q' = map snd q" "askCursor r = askCursor (shared s)" by blast
    then show ?thesis using p room CopyData
      by (intro exI [of _ "s\<lparr>shared := r, producers := (producers s)(i \<mapsto> Copied e)\<rparr>"] exI [of _ q']) simp
  next
    case False
    then have "ring_act s a = Some s" using CopyData by (auto split: option.splits in_flight.splits)
    then show ?thesis using inv room CopyData by (intro exI [of _ s] exI [of _ q]) simp
  qed
next
  case (CommitFlag i)
  show ?thesis
  proof (cases "\<exists>e. producers s i = Some (Copied e)")
    case True
    then obtain e where p: "producers s i = Some (Copied e)" by blast
    from commit_step [OF inv p] obtain r q' where "ring_commit (shared s) e = Some r"
      "conc_inv (s\<lparr>shared := r, producers := (producers s)(i := None)\<rparr>) q'" "map snd q' = map snd q" "askCursor r = askCursor (shared s)" by blast
    then show ?thesis using p room CommitFlag
      by (intro exI [of _ "s\<lparr>shared := r, producers := (producers s)(i := None)\<rparr>"] exI [of _ q']) simp
  next
    case False
    then have "ring_act s a = Some s" using CommitFlag by (auto split: option.splits in_flight.splits)
    then show ?thesis using inv room CommitFlag by (intro exI [of _ s] exI [of _ q]) simp
  qed
next
  case Consume
  have head: "head_written s" using ok Consume by simp
  from consume_step [OF inv head] show ?thesis
  proof
    assume "ring_act s Consume = Some s"
    then show ?thesis using inv room Consume by (intro exI [of _ s] exI [of _ q]) (simp del: ring_act.simps)
  next
    assume "\<exists>d q' r. q = (Committed, d) # q' \<and> ring_act s Consume = Some (s\<lparr>shared := r, taken := taken s @ [d]\<rparr>)
        \<and> conc_inv (s\<lparr>shared := r, taken := taken s @ [d]\<rparr>) q' \<and> askCursor r = askCursor (shared s)"
    then obtain d q' r where c: "q = (Committed, d) # q'" "ring_act s Consume = Some (s\<lparr>shared := r, taken := taken s @ [d]\<rparr>)"
      "conc_inv (s\<lparr>shared := r, taken := taken s @ [d]\<rparr>) q'" "askCursor r = askCursor (shared s)" by blast
    then show ?thesis using room Consume
      by (intro exI [of _ "s\<lparr>shared := r, taken := taken s @ [d]\<rparr>"] exI [of _ q']) (simp del: ring_act.simps)
  qed
qed

lemma acts_run:
  assumes "conc_inv s q" "list_all reserve_ok as" "careful s as" "unat (askCursor (shared s)) + reserve_bytes as < 2 ^ 64"
  shows "\<exists>t q'. ring_acts s as = Some t \<and> conc_inv t q' \<and> taken t @ map snd q' = taken s @ map snd q @ granted s as"
  using assms
proof (induction as arbitrary: s q)
  case (Cons a as)
  from act_step [OF Cons.prems(1) _ _ Cons.prems(4)] Cons.prems(2,3) obtain t1 q1 where
    t1: "ring_act s a = Some t1" "conc_inv t1 q1" "unat (askCursor (shared t1)) + reserve_bytes as < 2 ^ 64"
    "taken t1 @ map snd q1 = taken s @ map snd q
        @ (case a of Reserve i d \<Rightarrow> (if producers s i = None \<and> ring_reserve (shared s) d \<noteq> None then [d] else []) | _ \<Rightarrow> [])" by auto
  moreover have "careful t1 as" "list_all reserve_ok as" using Cons.prems(2,3) t1(1) by simp_all
  ultimately obtain t q' where "ring_acts t1 as = Some t" "conc_inv t q'" "taken t @ map snd q' = taken t1 @ map snd q1 @ granted t1 as"
    using Cons.IH [of t1 q1] by blast
  then show ?case using t1(1,4) by (intro exI [of _ t] exI [of _ q']) simp
qed auto

lemma new_system_inv:
  assumes "0 < unat n" "unat n \<le> 2 ^ 63"
  shows "conc_inv (new_system n) []"
proof -
  have h: "ring_holds (SetState (InitRingBuffer ring0 n) StateWork) []" using ring_fresh(1) [OF assms, of ring0] by (simp add: ring0_def)
  then show ?thesis
    by (auto simp: conc_inv_def new_system_def ring_holds_def ring_inv_def cursors_ok_def bytes_ok_def flags_ok_def owners_ok_def regions_valid_def)
qed

section \<open>Properties\<close>

text \<open>C5: with any number of producers, whose reservations, copies and commits mix in any order with the reads, the
  consumer gets exactly the messages that were granted space, whole, once and in the order of the reservations,
  and nothing panics: provided that the consumer looks at the ring only while the producer of the oldest region has
  copied its bytes, that messages carry their length and that the cursors do not wrap.\<close>

theorem producers_fifo:
  assumes "0 < unat n" "unat n \<le> 2 ^ 63" "list_all reserve_ok as" "reserve_bytes as < 2 ^ 64" "careful (new_system n) as"
  shows "\<exists>s rest. ring_acts (new_system n) as = Some s \<and> granted (new_system n) as = taken s @ rest"
proof -
  have "unat (askCursor (shared (new_system n))) = 0" "taken (new_system n) = []"
    by (simp_all add: new_system_def SetState_def InitRingBuffer_def ring0_def Let_def)
  then have "\<exists>t q'. ring_acts (new_system n) as = Some t \<and> taken t @ map snd (q' :: regions) = granted (new_system n) as"
    using acts_run [OF new_system_inv [OF assms(1,2)] assms(3,5)] assms(4) by simp blast
  then show ?thesis by metis
qed

section \<open>A message nobody wrote\<close>

definition first_lap :: "ring_action list" where
  "first_lap = [Reserve 1 ([20, 0, 0, 0] @ replicate 16 65), CopyData 1, CommitFlag 1, Consume,
                Reserve 1 ([12, 0, 0, 0] @ replicate 8 66), CopyData 1, CommitFlag 1, Consume]"

definition second_lap :: "ring_action list" where
  "second_lap = [Reserve 1 ([8, 0, 0, 0] @ replicate 4 67), Reserve 2 ([12, 0, 0, 0] @ replicate 8 68),
                 CopyData 2, CommitFlag 2, Consume]"

text \<open>when the consumer does look at the ring after the oldest region was reserved and before its producer has
  copied the data, it can take the length of an overwritten message and the flag of a later one for a complete
  message. Here the last message taken is one that nobody ever asked to write.\<close>

theorem torn_message:
  "\<exists>s. ring_acts (new_system 32) (first_lap @ second_lap) = Some s \<and> taken s \<noteq> []
     \<and> last (taken s) \<notin> requested (first_lap @ second_lap)"
proof -
  have "map_option taken (ring_acts (new_system 32) (first_lap @ second_lap))
      = Some [[20,0,0,0] @ replicate 16 65, [12,0,0,0] @ replicate 8 66, [20,0,0,0] @ replicate 4 65 @ [12,0,0,0] @ replicate 8 68]"
    by code_simp
  then obtain s where "ring_acts (new_system 32) (first_lap @ second_lap) = Some s"
    "taken s = [[20,0,0,0] @ replicate 16 65, [12,0,0,0] @ replicate 8 66, [20,0,0,0] @ replicate 4 65 @ [12,0,0,0] @ replicate 8 68]"
    by auto
  moreover have "[20,0,0,0] @ replicate 4 65 @ [12,0,0,0] @ replicate 8 68 \<notin> requested (first_lap @ second_lap)"
    by code_simp
  ultimately show ?thesis by auto
qed

text \<open>Whether a run is careful can be computed when the producers are numbered below a bound.\<close>

definition head_written_below :: "nat \<Rightarrow> ring_system \<Rightarrow> bool" where
  "head_written_below m s \<longleftrightarrow> list_all (\<lambda>i. case producers s i of
     Some (Reserved e d) \<Rightarrow> e - of_nat (length d) \<noteq> availableCursor (shared s) | _ \<Rightarrow> True) [0..<m]"

fun careful_below :: "nat \<Rightarrow> ring_system \<Rightarrow> ring_action list \<Rightarrow> bool" where
  "careful_below m s [] = True"
| "careful_below m s (a # as) = ((case a of Reserve i d \<Rightarrow> i < m | Consume \<Rightarrow> head_written_below m s | _ \<Rightarrow> True)
     \<and> (case ring_act s a of None \<Rightarrow> True | Some t \<Rightarrow> careful_below m t as))"

lemma producers_below:
  assumes "ring_act s a = Some t" "dom (producers s) \<subseteq> {..<m}" "case a of Reserve i d \<Rightarrow> i < m | _ \<Rightarrow> True"
  shows "dom (producers t) \<subseteq> {..<m}"
  using assms by (cases a) (force split: if_splits option.splits in_flight.splits bind_splits)+

lemma careful_below:
  "careful_below m s as \<Longrightarrow> dom (producers s) \<subseteq> {..<m} \<Longrightarrow> careful s as"
proof (induction as arbitrary: s)
  case (Cons a as)
  have "head_written s" if "a = Consume"
    using Cons.prems that by (force simp: head_written_def head_written_below_def list_all_iff)
  moreover have "careful t as" if "ring_act s a = Some t" for t
    using Cons.IH [of t] Cons.prems producers_below [OF that Cons.prems(2)] that by (auto split: ring_action.splits)
  ultimately show ?case by (auto split: option.splits)
qed simp

text \<open>Two producers whose writes overlap, the second one finishing first.\<close>

definition overlapping :: "ring_action list" where
  "overlapping = [Reserve 1 [5, 0, 0, 0, 7], Reserve 2 [4, 0, 0, 0], CopyData 2, CopyData 1, CommitFlag 2, Consume, CommitFlag 1, Consume, Consume]"

lemma producers_fifo_witness:
  "(\<exists>s rest. ring_acts (new_system 16) overlapping = Some s \<and> granted (new_system 16) overlapping = taken s @ rest)
   \<and> granted (new_system 16) overlapping = [[5, 0, 0, 0, 7], [4, 0, 0, 0]]"
proof
  have below: "careful_below 3 (new_system 16) overlapping" "list_all reserve_ok overlapping" by (code_simp, simp add: overlapping_def valid_msg_def, code_simp)
  have "reserve_bytes overlapping < 2 ^ 64" by (simp add: overlapping_def)
  moreover have "careful (new_system 16) overlapping" using careful_below [OF below(1)] by (simp add: new_system_def)
  ultimately show "\<exists>s rest. ring_acts (new_system 16) overlapping = Some s \<and> granted (new_system 16) overlapping = taken s @ rest"
    using below(2) producers_fifo [of 16 overlapping] by simp
  show "granted (new_system 16) overlapping = [[5, 0, 0, 0, 7], [4, 0, 0, 0]]" by code_simp
qed

end
