(* ===== verification/Frame.thy ===== *)
theory Frame
  imports Conver
begin

text \<open>
  \<open>transport/frame.go\<close>: a frame is a length of four bytes, an extension size and a type of two
  bytes each, then data and extension. The length counts the whole frame; where the data ends is
  computed from the frame length and the extension size.
\<close>

section \<open>Frame types and the frames set up by \<open>init\<close>\<close>

definition FrameHeadLength :: nat where "FrameHeadLength = 8"

definition FrameTypeNil :: u16 where "FrameTypeNil = 65500"
definition FrameTypeHeartbeatC :: u16 where "FrameTypeHeartbeatC = 65501"
definition FrameTypeHeartbeatS :: u16 where "FrameTypeHeartbeatS = 65502"
definition FrameTypeExit :: u16 where "FrameTypeExit = 65503"
definition FrameTypePing :: u16 where "FrameTypePing = 65504"
definition FrameTypePong :: u16 where "FrameTypePong = 65505"
definition FrameTypeNodeName :: u16 where "FrameTypeNodeName = 65510"

lemmas frame_type_defs = FrameTypeNil_def FrameTypeHeartbeatC_def FrameTypeHeartbeatS_def
  FrameTypeExit_def FrameTypePing_def FrameTypePong_def FrameTypeNodeName_def

record FrameSlice =
  splitLength :: int
  base :: "u8 slice"

text \<open>The five copies into the fresh slice \<open>tmp\<close>.\<close>

definition NewFrameSlice :: "u16 \<Rightarrow> u8 list \<Rightarrow> u8 list \<Rightarrow> FrameSlice option" where
  "NewFrameSlice ft d ex =
     (let l = FrameHeadLength + length d + length ex;
          dl = FrameHeadLength + length d
      in do {
        tmp \<leftarrow> upd_sub (replicate l 0) 0 4 (\<lambda>s. CopyUint32 s (of_nat l));
        tmp \<leftarrow> upd_sub tmp 4 6 (\<lambda>s. CopyUint16 s (of_nat (length ex)));
        tmp \<leftarrow> upd_sub tmp 6 8 (\<lambda>s. CopyUint16 s ft);
        tmp \<leftarrow> upd_sub tmp FrameHeadLength dl (\<lambda>s. gocopy s d);
        tmp \<leftarrow> upd_sub tmp dl (length tmp) (\<lambda>s. gocopy s ex);
        Some \<lparr>splitLength = int dl, base = of_list tmp\<rparr> })"

definition DecodeByBytes :: "u8 slice \<Rightarrow> FrameSlice option" where
  "DecodeByBytes b = do {
     e \<leftarrow> reslice b 4 6;
     n \<leftarrow> BytesToUint16 e;
     Some \<lparr>splitLength = int (slen b) - int (unat n), base = b\<rparr> }"

definition GetFrameLength :: "FrameSlice \<Rightarrow> nat" where
  "GetFrameLength f = slen (base f)"

definition GetData :: "FrameSlice \<Rightarrow> u8 slice option" where
  "GetData f = reslice (base f) (int FrameHeadLength) (splitLength f)"

definition GetExtend :: "FrameSlice \<Rightarrow> u8 slice option" where
  "GetExtend f = reslice (base f) (splitLength f) (int (slen (base f)))"

definition GetAll :: "FrameSlice \<Rightarrow> u8 slice" where
  "GetAll f = base f"

definition GetFrameType :: "FrameSlice \<Rightarrow> u16 option" where
  "GetFrameType f = do { b \<leftarrow> reslice (base f) 6 8; BytesToUint16 b }"

text \<open>The number of bytes written and the new content of the target.\<close>

definition WriteToBytes :: "FrameSlice \<Rightarrow> u8 list \<Rightarrow> nat \<times> u8 list" where
  "WriteToBytes f b =
     (if slen (base f) > length b then (0, b)
      else (slen (base f), overwrite b 0 (elems (base f))))"

text \<open>The array of \<open>init\<close> and the six frames that share it.\<close>

definition frame_buf :: "u8 list" where
  "frame_buf = [8, 0, 0, 0, 0, 0, 220, 255, 8, 0, 0, 0, 0, 0, 221, 255, 8, 0, 0, 0, 0, 0, 222, 255,
     8, 0, 0, 0, 0, 0, 223, 255, 12, 0, 0, 0, 0, 0, 224, 255, 112, 105, 110, 103,
     12, 0, 0, 0, 0, 0, 225, 255, 112, 111, 110, 103]"

definition FrameNil :: FrameSlice where
  "FrameNil = \<lparr>splitLength = 8, base = Slice frame_buf 8\<rparr>"
definition FrameHeartbeatC :: FrameSlice where
  "FrameHeartbeatC = \<lparr>splitLength = 8, base = Slice (drop 8 frame_buf) 8\<rparr>"
definition FrameHeartbeatS :: FrameSlice where
  "FrameHeartbeatS = \<lparr>splitLength = 8, base = Slice (drop 16 frame_buf) 8\<rparr>"
definition FrameExit :: FrameSlice where
  "FrameExit = \<lparr>splitLength = 8, base = Slice (drop 24 frame_buf) 8\<rparr>"
definition FramePing :: FrameSlice where
  "FramePing = \<lparr>splitLength = 12, base = Slice (drop 32 frame_buf) 12\<rparr>"
definition FramePong :: FrameSlice where
  "FramePong = \<lparr>splitLength = 12, base = Slice (drop 44 frame_buf) 12\<rparr>"

lemmas init_frame_defs = FrameNil_def FrameHeartbeatC_def FrameHeartbeatS_def FrameExit_def
  FramePing_def FramePong_def

text \<open>\<open>init\<close> decodes them out of the array.\<close>

definition init_frame :: "nat \<Rightarrow> nat \<Rightarrow> FrameSlice option" where
  "init_frame lo hi = do { b \<leftarrow> reslice (of_list frame_buf) (int lo) (int hi); DecodeByBytes b }"

section \<open>The bytes of a frame\<close>

definition frame_bytes :: "u16 \<Rightarrow> u8 list \<Rightarrow> u8 list \<Rightarrow> u8 list" where
  "frame_bytes ft d ex =
     bytes32 (of_nat (8 + length d + length ex)) @ bytes16 (of_nat (length ex)) @ bytes16 ft @ d @ ex"

lemma length_frame_bytes [simp]: "length (frame_bytes ft d ex) = 8 + length d + length ex"
  by (simp add: frame_bytes_def)

lemma gocopy_CopyUint: "length s = 4 \<Longrightarrow> CopyUint32 s n = bytes32 n" "length s = 2 \<Longrightarrow> CopyUint16 s m = bytes16 m"
  by (simp_all add: CopyUint32_def CopyUint16_def)

lemma NewFrameSlice_bytes:
  "NewFrameSlice ft d ex = Some \<lparr>splitLength = int (8 + length d), base = of_list (frame_bytes ft d ex)\<rparr>"
  by (simp add: NewFrameSlice_def Let_def FrameHeadLength_def upd_sub_def gocopy_CopyUint frame_bytes_def
      min_def numeral_eq_Suc)

lemma DecodeByBytes_base: "DecodeByBytes b = Some g \<Longrightarrow> base g = b"
  by (auto simp: DecodeByBytes_def split: bind_splits)

text \<open>Decoding a frame whose extension size fits its field.\<close>

lemma DecodeByBytes_frame:
  assumes "wf_slice b" "elems b = frame_bytes ft d ex" "length ex < 2 ^ 16"
  shows "DecodeByBytes b = Some \<lparr>splitLength = int (8 + length d), base = b\<rparr>"
proof -
  have len: "slen b = 8 + length d + length ex" using length_elems [OF assms(1)] assms(2) by simp
  obtain e where e: "reslice b 4 6 = Some e" "wf_slice e" "elems e = take 2 (drop 4 (elems b))"
    using reslice_wf_within [OF assms(1), of 4 6] len by auto
  have "take 2 (drop 4 (elems b)) = bytes16 (of_nat (length ex))"
    using assms(2) by (simp add: frame_bytes_def)
  then have "BytesToUint16 e = Some (of_nat (length ex))" using e by (simp add: u16.dec_enc)
  moreover have "uint (of_nat (length ex) :: u16) = int (length ex)"
    using unat_of_nat_small [where 'a = 16, of "length ex"] assms(3) by (simp only: uint_nat) simp
  ultimately show ?thesis using e(1) len by (simp add: DecodeByBytes_def)
qed

lemma frame_parts:
  assumes "wf_slice b" "elems b = frame_bytes ft d ex" "length ex < 2 ^ 16"
  shows "\<exists>f x y. DecodeByBytes b = Some f \<and> GetFrameType f = Some ft
     \<and> GetData f = Some x \<and> wf_slice x \<and> elems x = d \<and> slen x = length d
     \<and> GetExtend f = Some y \<and> wf_slice y \<and> elems y = ex \<and> slen y = length ex
     \<and> GetFrameLength f = length (frame_bytes ft d ex) \<and> GetAll f = b"
proof -
  let ?f = "\<lparr>splitLength = int (8 + length d), base = b\<rparr>"
  have len: "slen b = 8 + length d + length ex" using length_elems [OF assms(1)] assms(2) by simp
  obtain t where t: "reslice b 6 8 = Some t" "wf_slice t" "elems t = take 2 (drop 6 (elems b))"
    using reslice_wf_within [OF assms(1), of 6 8] len by auto
  have "take 2 (drop 6 (elems b)) = bytes16 ft" using assms(2) by (simp add: frame_bytes_def)
  then have ty: "GetFrameType ?f = Some ft" using t by (simp add: GetFrameType_def u16.dec_enc)
  obtain x where x: "GetData ?f = Some x" "wf_slice x" "slen x = length d" "elems x = take (length d) (drop 8 (elems b))"
    using reslice_wf_within [OF assms(1), of 8 "8 + length d"] len by (auto simp: GetData_def FrameHeadLength_def)
  obtain y where y: "GetExtend ?f = Some y" "wf_slice y" "slen y = length ex"
    "elems y = take (length ex) (drop (8 + length d) (elems b))"
    using reslice_wf_within [OF assms(1), of "8 + length d" "slen b"] len by (auto simp: GetExtend_def)
  have "take (length d) (drop 8 (elems b)) = d" "take (length ex) (drop (8 + length d) (elems b)) = ex"
    using assms(2) by (simp_all add: frame_bytes_def)
  with DecodeByBytes_frame [OF assms] ty x y len show ?thesis
    by (auto simp: GetFrameLength_def GetAll_def)
qed

text \<open>Every complete frame on the wire is the frame of its parts.\<close>

definition wf_frame :: "u8 list \<Rightarrow> bool" where
  "wf_frame bs \<longleftrightarrow> (\<exists>ft d ex. length ex < 2 ^ 16 \<and> 8 + length d + length ex < 2 ^ 32
     \<and> bs = frame_bytes ft d ex)"

text \<open>The executable form: the length field is right and the extension fits.\<close>

lemma wf_frame_iff:
  "wf_frame bs \<longleftrightarrow> 8 \<le> length bs \<and> length bs < 2 ^ 32 \<and> take 4 bs = bytes32 (of_nat (length bs))
     \<and> (\<exists>n. take 2 (drop 4 bs) = bytes16 n \<and> unat n \<le> length bs - 8)"
proof
  assume "wf_frame bs"
  then obtain ft d ex where f: "length ex < 2 ^ 16" "8 + length d + length ex < 2 ^ 32" "bs = frame_bytes ft d ex"
    by (auto simp: wf_frame_def)
  then have "take 2 (drop 4 bs) = bytes16 (of_nat (length ex))" by (simp add: frame_bytes_def)
  moreover have "unat (of_nat (length ex) :: u16) \<le> length bs - 8" using f by (simp add: unat_of_nat_small)
  ultimately show "8 \<le> length bs \<and> length bs < 2 ^ 32 \<and> take 4 bs = bytes32 (of_nat (length bs))
     \<and> (\<exists>n. take 2 (drop 4 bs) = bytes16 n \<and> unat n \<le> length bs - 8)"
    using f by (auto simp: frame_bytes_def add.assoc)
next
  assume r: "8 \<le> length bs \<and> length bs < 2 ^ 32 \<and> take 4 bs = bytes32 (of_nat (length bs))
     \<and> (\<exists>n. take 2 (drop 4 bs) = bytes16 n \<and> unat n \<le> length bs - 8)"
  then obtain n where n: "take 2 (drop 4 bs) = bytes16 n" "unat n \<le> length bs - 8" by blast
  define dl where "dl = length bs - unat n"
  define d where "d = take (dl - 8) (drop 8 bs)"
  define ex where "ex = drop dl bs"
  have dl: "8 \<le> dl" "dl \<le> length bs" using n r by (auto simp: dl_def)
  obtain t where t: "BytesToUint16 (of_list (take 2 (drop 6 bs))) = Some t" "bytes16 t = take 2 (take 2 (drop 6 bs))"
  proof -
    have "2 \<le> slen (of_list (take 2 (drop 6 bs)))" using r by auto
    from u16.dec_total [OF wf_of_list this] that show thesis by auto
  qed
  have ex: "length ex = unat n" using dl n r by (auto simp: ex_def dl_def)
  have "length ex < 2 ^ 16" using ex unat_bound [of n] by simp
  moreover have parts: "8 + length d + length ex = length bs" using dl by (simp add: d_def ex_def)
  moreover have "bs = frame_bytes t d ex"
  proof -
    have "bs = take 4 bs @ take 2 (drop 4 bs) @ take 2 (drop 6 bs) @ drop 8 bs"
      using append_take_drop_id [of 4 bs] append_take_drop_id [of 2 "drop 4 bs"]
        append_take_drop_id [of 2 "drop 6 bs"] by simp
    moreover have "drop 8 bs = d @ ex"
      using dl append_take_drop_id [of "dl - 8" "drop 8 bs"] by (simp add: d_def ex_def)
    moreover have "bytes16 n = bytes16 (of_nat (length ex))" by (simp add: ex)
    ultimately show ?thesis using r n(1) t(2) parts by (simp add: frame_bytes_def)
  qed
  ultimately show "wf_frame bs" using r by (auto simp: wf_frame_def)
qed

lemma wf_frame_length: "wf_frame bs \<Longrightarrow> 8 \<le> length bs \<and> length bs < 2 ^ 32"
  by (simp add: wf_frame_iff)

definition frame_type :: "u8 list \<Rightarrow> u16" where
  "frame_type bs = (case BytesToUint16 (of_list (take 2 (drop 6 bs))) of None \<Rightarrow> 0 | Some t \<Rightarrow> t)"

lemma frame_type_bytes [simp]: "frame_type (frame_bytes ft d ex) = ft"
  by (simp add: frame_type_def frame_bytes_def u16.dec_enc)

section \<open>Properties\<close>

lemma init_frames:
  "init_frame 0 8 = Some FrameNil" "init_frame 8 16 = Some FrameHeartbeatC"
  "init_frame 16 24 = Some FrameHeartbeatS" "init_frame 24 32 = Some FrameExit"
  "init_frame 32 44 = Some FramePing" "init_frame 44 56 = Some FramePong"
  by (simp_all add: init_frame_def frame_buf_def of_list_def reslice_def DecodeByBytes_def BytesToUint16_def
      sl_at_def init_frame_defs)

text \<open>
  C28: A frame built by \<open>NewFrameSlice\<close> and sent as its bytes is decoded into the same type, data and
  extension, provided the extension is shorter than \<open>2 ^ 16\<close> bytes; this holds for every slice that
  holds these bytes, whatever lies behind them up to its capacity.
\<close>

theorem frame_roundtrip:
  assumes "NewFrameSlice ft d ex = Some f" "length ex < 2 ^ 16"
    and "wf_slice b" "elems b = elems (GetAll f)"
  shows "\<exists>g x y. DecodeByBytes b = Some g \<and> GetFrameType g = Some ft \<and> GetFrameLength g = GetFrameLength f
    \<and> GetData g = Some x \<and> elems x = d \<and> GetExtend g = Some y \<and> elems y = ex \<and> splitLength g = splitLength f"
proof -
  have f: "f = \<lparr>splitLength = int (8 + length d), base = of_list (frame_bytes ft d ex)\<rparr>"
    using assms(1) by (simp add: NewFrameSlice_bytes)
  then have b: "elems b = frame_bytes ft d ex" using assms(4) by (simp add: GetAll_def)
  obtain g x y where g: "DecodeByBytes b = Some g" "GetFrameType g = Some ft" "GetData g = Some x" "elems x = d"
    "GetExtend g = Some y" "elems y = ex" "GetFrameLength g = length (frame_bytes ft d ex)"
    using frame_parts [OF assms(3) b assms(2)] by blast
  moreover have "splitLength g = splitLength f"
    using DecodeByBytes_frame [OF assms(3) b assms(2)] g(1) f by simp
  ultimately show ?thesis using f by (auto simp: GetFrameLength_def)
qed

lemma frame_roundtrip_witness:
  "\<exists>f g x y. NewFrameSlice 56 [1, 2, 3] [7] = Some f \<and> DecodeByBytes (Slice (elems (GetAll f) @ [99]) 12) = Some g
     \<and> GetData g = Some x \<and> elems x = [1, 2, 3] \<and> GetExtend g = Some y \<and> elems y = [7]"
proof -
  let ?f = "\<lparr>splitLength = int (8 + length [1, 2, 3 :: u8]), base = of_list (frame_bytes 56 [1, 2, 3] [7])\<rparr>"
  let ?b = "Slice (elems (GetAll ?f) @ [99]) 12"
  have f: "NewFrameSlice 56 [1, 2, 3] [7] = Some ?f" by (rule NewFrameSlice_bytes)
  have b: "wf_slice ?b" "elems ?b = elems (GetAll ?f)" by (simp_all add: wf_slice_def GetAll_def elems_Slice)
  show ?thesis using frame_roundtrip [OF f _ b] f by auto
qed

text \<open>
  The extension size is a field of 16 bits that \<open>NewFrameSlice\<close> fills without a check: with an
  extension of exactly \<open>2 ^ 16\<close> bytes the decoded frame has an empty extension and the whole
  extension is read as data.
\<close>

theorem long_extension_lost:
  assumes "NewFrameSlice ft d ex = Some f" "length ex = 2 ^ 16"
  shows "\<exists>g x y. DecodeByBytes (GetAll f) = Some g \<and> GetData g = Some x \<and> elems x = d @ ex
    \<and> GetExtend g = Some y \<and> elems y = []"
proof -
  have f: "f = \<lparr>splitLength = int (8 + length d), base = of_list (frame_bytes ft d ex)\<rparr>"
    using assms(1) by (simp add: NewFrameSlice_bytes)
  have "(of_nat (length ex) :: u16) = of_nat (length ([] :: u8 list))"
    using assms(2) by (simp only: word_unat_eq_iff unat_of_nat) simp
  then have "frame_bytes ft d ex = frame_bytes ft (d @ ex) []"
    by (simp add: frame_bytes_def add.assoc)
  then have "elems (GetAll f) = frame_bytes ft (d @ ex) []" using f by (simp add: GetAll_def)
  then show ?thesis
    using frame_parts [of "GetAll f" ft "d @ ex" "[]"] f by (auto simp: GetAll_def)
qed

lemma long_extension_lost_witness:
  "\<exists>f g x. NewFrameSlice 5 [1] (replicate 65536 0) = Some f \<and> DecodeByBytes (GetAll f) = Some g
    \<and> GetData g = Some x \<and> elems x = [1] @ replicate 65536 0"
proof -
  have "length (replicate 65536 (0 :: u8)) = 2 ^ 16" by (simp only: length_replicate) simp
  from long_extension_lost [OF NewFrameSlice_bytes this] NewFrameSlice_bytes show ?thesis by blast
qed

end
