(* ===== verification/SlotConc.thy ===== *)
theory SlotConc
  imports Frame Regions "HOL-Library.Multiset"
begin

text \<open>
  \<open>WriteFrameDataToCache\<close> and \<open>WorkFunc\<close> of \<open>transport/tcp_session.go\<close> with any number of writers and workers at once, at
  the granularity of their atomic operations. A call is between two of these steps; the steps of all calls and
  of the workers mix in any order. The connection takes every write. Error functions, the breaker and the
  time-out, which one operation at a time shows as well (\<open>SessionWrite\<close>), are left out, and a new slot gets a
  buffer of its own, with any bytes in it (\<open>Pools\<close> shows when the pool does give such a buffer).
\<close>

section \<open>Steps\<close>

record conc_slot =
  cs_buf :: "u8 list"
  cs_allot :: u32
  cs_available :: u32
  cs_lock :: i32

text \<open>
  What a call has done last: loaded \<open>wSlot\<close>; taken the lock; found its slot full with \<open>busy\<close> used up, or full; released
  the lock to try again; been given its bytes; copied them; published them; released the lock. The number is where
  its bytes start.
\<close>

datatype call_step = Loaded | Locked | GaveUp | Over | Retry | Allotted u32 | Copied u32 | Published u32 | Unlocked u32

text \<open>The frame, \<open>busy\<close>, \<open>myslot\<close> and the last step.\<close>

type_synonym write_call = "u8 list \<times> u32 \<times> nat \<times> call_step"

text \<open>
  \<open>c_new\<close> are the bytes in the buffer that the next new slot gets; \<open>c_sent\<close> the writes to the connection, each with its slot;
  \<open>c_accepted\<close> the frames whose call has returned nil.
\<close>

record conc_session =
  c_limit :: u32
  c_new :: "u8 list"
  c_wslot :: nat
  c_slots :: "conc_slot list"
  c_calls :: "write_call option list"
  c_jobs :: "nat list"
  c_taken :: "nat list"
  c_sent :: "(nat \<times> u8 list) list"
  c_accepted :: "u8 list list"
  c_refused :: "u8 list list"

definition new_conc_slot :: "u8 list \<Rightarrow> conc_slot" where
  "new_conc_slot buf = \<lparr>cs_buf = buf, cs_allot = 0, cs_available = 0, cs_lock = 0\<rparr>"

definition on_slot :: "nat \<Rightarrow> (conc_slot \<Rightarrow> conc_slot) \<Rightarrow> conc_session \<Rightarrow> conc_session" where
  "on_slot a f s = s\<lparr>c_slots := (c_slots s)[a := f (c_slots s ! a)]\<rparr>"

definition set_call :: "nat \<Rightarrow> write_call option \<Rightarrow> conc_session \<Rightarrow> conc_session" where
  "set_call i c s = s\<lparr>c_calls := (c_calls s)[i := c]\<rparr>"

definition lock_add :: "i32 \<Rightarrow> conc_slot \<Rightarrow> conc_slot" where
  "lock_add n sl = sl\<lparr>cs_lock := cs_lock sl + n\<rparr>"

text \<open>The compare-and-swap of \<open>wSlot\<close> from \<open>a\<close> to a new slot.\<close>

definition swap_slot :: "nat \<Rightarrow> conc_session \<Rightarrow> conc_session" where
  "swap_slot a s =
     (if c_wslot s = a then s\<lparr>c_slots := c_slots s @ [new_conc_slot (c_new s)], c_wslot := length (c_slots s)\<rparr> else s)"

definition allot :: "u32 \<Rightarrow> nat \<Rightarrow> u8 list \<Rightarrow> u32 \<Rightarrow> nat \<Rightarrow> conc_session \<Rightarrow> conc_session" where
  "allot busyLimit i f busy a s =
     (let len = of_nat (length f);
          end' = cs_allot (c_slots s ! a) + len;
          start = end' - len;
          s = on_slot a (\<lambda>sl. sl\<lparr>cs_allot := end'\<rparr>) s
      in if end' > c_limit s then
           (if start > c_limit s then
              (if busy > busyLimit then set_call i (Some (f, busy, a, GaveUp)) s
               else set_call i (Some (f, busy + 1, a, Over)) s)
            else set_call i (Some (f, 0, a, Over)) (swap_slot a s))
         else set_call i (Some (f, busy, a, Allotted start)) s)"

fun advance :: "u32 \<Rightarrow> nat \<Rightarrow> write_call \<Rightarrow> conc_session \<Rightarrow> conc_session" where
  "advance bl i (f, busy, a, Loaded) s = set_call i (Some (f, busy, a, Locked)) (on_slot a (lock_add 1) s)"
| "advance bl i (f, busy, a, Locked) s = allot bl i f busy a s"
| "advance bl i (f, busy, a, GaveUp) s =
     (set_call i None (on_slot a (lock_add (-1)) s))\<lparr>c_refused := c_refused s @ [f]\<rparr>"
| "advance bl i (f, busy, a, Over) s = set_call i (Some (f, busy, a, Retry)) (on_slot a (lock_add (-1)) s)"
| "advance bl i (f, busy, a, Retry) s = set_call i (Some (f, busy, c_wslot s, Loaded)) s"
| "advance bl i (f, busy, a, Allotted start) s =
     set_call i (Some (f, busy, a, Copied start)) (on_slot a (\<lambda>sl. sl\<lparr>cs_buf := overwrite (cs_buf sl) (unat start) f\<rparr>) s)"
| "advance bl i (f, busy, a, Copied start) s =
     set_call i (Some (f, busy, a, Published start)) (on_slot a (\<lambda>sl. sl\<lparr>cs_available := cs_available sl + of_nat (length f)\<rparr>) s)"
| "advance bl i (f, busy, a, Published start) s = set_call i (Some (f, busy, a, Unlocked start)) (on_slot a (lock_add (-1)) s)"
| "advance bl i (f, busy, a, Unlocked start) s =
     (set_call i None s)\<lparr>c_accepted := c_accepted s @ [f], c_jobs := (if start = 0 then c_jobs s @ [a] else c_jobs s)\<rparr>"

text \<open>A call begins; it takes its next step; a worker takes a job and installs a new slot; it finds the lock free and sends.\<close>

datatype conc_action = Begin nat "u8 list" | Advance nat | TakeJob | SendSlot nat

fun conc_act :: "u32 \<Rightarrow> conc_session \<Rightarrow> conc_action \<Rightarrow> conc_session" where
  "conc_act bl s (Begin i f) =
     (if i < length (c_calls s) \<and> c_calls s ! i = None then set_call i (Some (f, 0, c_wslot s, Loaded)) s else s)"
| "conc_act bl s (Advance i) =
     (if i < length (c_calls s) then (case c_calls s ! i of None \<Rightarrow> s | Some c \<Rightarrow> advance bl i c s) else s)"
| "conc_act bl s TakeJob =
     (case c_jobs s of
        [] \<Rightarrow> s
      | a # js \<Rightarrow> swap_slot a (s\<lparr>c_jobs := js, c_taken := c_taken s @ [a]\<rparr>))"
| "conc_act bl s (SendSlot a) =
     (if a \<in> set (c_taken s) \<and> cs_lock (c_slots s ! a) = 0 then
        s\<lparr>c_taken := remove1 a (c_taken s),
          c_sent := (if cs_available (c_slots s ! a) \<ge> of_nat FrameHeadLength
            then c_sent s @ [(a, take (unat (cs_available (c_slots s ! a))) (cs_buf (c_slots s ! a)))] else c_sent s)\<rparr>
      else s)"

definition conc_run :: "u32 \<Rightarrow> conc_session \<Rightarrow> conc_action list \<Rightarrow> conc_session" where
  "conc_run bl = foldl (conc_act bl)"

text \<open>A session with room for \<open>k\<close> calls at a time.\<close>

definition conc_new :: "u8 list \<Rightarrow> u32 \<Rightarrow> nat \<Rightarrow> conc_session" where
  "conc_new buf n k = \<lparr>c_limit = n, c_new = buf, c_wslot = 0, c_slots = [new_conc_slot buf], c_calls = replicate k None, c_jobs = [],
     c_taken = [], c_sent = [], c_accepted = [], c_refused = []\<rparr>"

definition quiet :: "conc_session \<Rightarrow> bool" where
  "quiet s \<longleftrightarrow> (\<forall>c\<in>set (c_calls s). c = None) \<and> c_jobs s = [] \<and> c_taken s = []"

section \<open>One slot\<close>

text \<open>
  What a slot sees of the calls: those that work on it, with their frame. Its regions are the frames it has given
  bytes to, in that order, each with the call that still has it.
\<close>

type_synonym slot_view = "(u8 list \<times> call_step) option list"

type_synonym slot_regions = "(nat option \<times> u8 list) list"

fun view_call :: "nat \<Rightarrow> write_call option \<Rightarrow> (u8 list \<times> call_step) option" where
  "view_call a (Some (f, busy, b, p)) = (if b = a \<and> p \<noteq> Retry then Some (f, p) else None)"
| "view_call a None = None"

fun start_of :: "call_step \<Rightarrow> u32 option" where
  "start_of (Allotted st) = Some st" | "start_of (Copied st) = Some st" | "start_of (Published st) = Some st"
| "start_of (Unlocked st) = Some st" | "start_of _ = None"

definition no_region :: "(u8 list \<times> call_step) option \<Rightarrow> bool" where
  "no_region c \<longleftrightarrow> (\<forall>f p. c = Some (f, p) \<longrightarrow> start_of p = None)"

fun holding :: "(u8 list \<times> call_step) option \<Rightarrow> bool" where
  "holding (Some (f, Locked)) = True" | "holding (Some (f, GaveUp)) = True" | "holding (Some (f, Over)) = True"
| "holding (Some (f, Allotted st)) = True" | "holding (Some (f, Copied st)) = True" | "holding (Some (f, Published st)) = True"
| "holding _ = False"

text \<open>Whether the region of an owner has been copied, and published. \<^const>\<open>None\<close> is the owner that has returned.\<close>

fun copied :: "slot_view \<Rightarrow> nat option \<Rightarrow> bool" where
  "copied v None = True"
| "copied v (Some i) = (case v ! i of Some (f, Allotted st) \<Rightarrow> False | _ \<Rightarrow> True)"

fun published :: "slot_view \<Rightarrow> nat option \<Rightarrow> bool" where
  "published v None = True"
| "published v (Some i) = (case v ! i of Some (f, Allotted st) \<Rightarrow> False | Some (f, Copied st) \<Rightarrow> False | _ \<Rightarrow> True)"

definition published_len :: "slot_view \<Rightarrow> slot_regions \<Rightarrow> nat" where
  "published_len v q = sum_list (map (\<lambda>x. if published v (fst x) then length (snd x) else 0) q)"

definition sizes_ok :: "nat \<Rightarrow> conc_slot \<Rightarrow> slot_regions \<Rightarrow> bool" where
  "sizes_ok n sl q \<longleftrightarrow> length (cs_buf sl) = n \<and> n < 2 ^ 32 \<and> (\<forall>x\<in>set q. 8 \<le> length (snd x))
     \<and> at_cursor 0 q (length q) \<le> n \<and> (unat (cs_allot sl) = at_cursor 0 q (length q) \<or> n < unat (cs_allot sl))"

definition owners_agree :: "slot_view \<Rightarrow> slot_regions \<Rightarrow> bool" where
  "owners_agree v q \<longleftrightarrow>
     (\<forall>k<length q. \<forall>i. fst (q ! k) = Some i \<longrightarrow>
        i < length v \<and> (\<exists>p. v ! i = Some (snd (q ! k), p) \<and> start_of p = Some (of_nat (at_cursor 0 q k))))
   \<and> (\<forall>i<length v. \<forall>f p st. v ! i = Some (f, p) \<and> start_of p = Some st \<longrightarrow>
        (\<exists>k<length q. q ! k = (Some i, f) \<and> st = of_nat (at_cursor 0 q k)))"

definition copies_ok :: "conc_slot \<Rightarrow> slot_view \<Rightarrow> slot_regions \<Rightarrow> bool" where
  "copies_ok sl v q \<longleftrightarrow> (\<forall>k<length q. copied v (fst (q ! k)) \<longrightarrow>
     take (length (snd (q ! k))) (drop (at_cursor 0 q k) (cs_buf sl)) = snd (q ! k))"

definition slot_inv :: "nat \<Rightarrow> conc_slot \<Rightarrow> slot_view \<Rightarrow> slot_regions \<Rightarrow> bool" where
  "slot_inv n sl v q \<longleftrightarrow> sizes_ok n sl q \<and> owners_agree v q \<and> copies_ok sl v q
     \<and> unat (cs_available sl) = published_len v q \<and> cs_lock sl = of_int (int (num holding v))"

lemma owners_agreeD:
  assumes "owners_agree v q"
  shows "k < length q \<Longrightarrow> fst (q ! k) = Some i \<Longrightarrow>
      i < length v \<and> (\<exists>p. v ! i = Some (snd (q ! k), p) \<and> start_of p = Some (of_nat (at_cursor 0 q k)))"
    and "i < length v \<Longrightarrow> v ! i = Some (f, p) \<Longrightarrow> start_of p = Some st \<Longrightarrow> \<exists>k<length q. q ! k = (Some i, f) \<and> st = of_nat (at_cursor 0 q k)"
  using assms unfolding owners_agree_def by blast+

lemma sizes_cursor: "sizes_ok n sl q \<Longrightarrow> k \<le> length q \<Longrightarrow> at_cursor 0 q k \<le> n"
  using at_cursor_mono [of k "length q" 0 q] by (simp add: sizes_ok_def)

lemma sizes_nonempty: "sizes_ok n sl q \<Longrightarrow> \<forall>x\<in>set q. snd x \<noteq> []"
  by (auto simp: sizes_ok_def)

text \<open>The region of a call, and that there is only one.\<close>

lemma region_of:
  assumes "sizes_ok n sl q" "owners_agree v q" "i < length v" "v ! i = Some (f, p)" "start_of p = Some st"
  shows "\<exists>k<length q. q ! k = (Some i, f) \<and> unat st = at_cursor 0 q k \<and> at_cursor 0 q k + length f \<le> n
    \<and> (\<forall>j<length q. fst (q ! j) = Some i \<longrightarrow> j = k)"
proof -
  from assms(2-5) obtain k where k: "k < length q" "q ! k = (Some i, f)" "st = of_nat (at_cursor 0 q k)"
    unfolding owners_agree_def by blast
  have small: "at_cursor 0 q j < 2 ^ 32" if "j \<le> length q" for j
    using sizes_cursor [OF assms(1) that] assms(1) by (simp add: sizes_ok_def)
  have u: "unat (of_nat (at_cursor 0 q j) :: u32) = at_cursor 0 q j" if "j \<le> length q" for j
    using small [OF that] by (simp add: unat_of_nat_small)
  have "at_cursor 0 q k + length f = at_cursor 0 q (Suc k)" using k by (simp add: at_cursor_Suc)
  then have "at_cursor 0 q k + length f \<le> n" using sizes_cursor [OF assms(1), of "Suc k"] k(1) by simp
  moreover have "j = k" if j: "j < length q" "fst (q ! j) = Some i" for j
  proof -
    obtain p' where "v ! i = Some (snd (q ! j), p')" "start_of p' = Some (of_nat (at_cursor 0 q j))"
      using assms(2) j unfolding owners_agree_def by blast
    then have "st = of_nat (at_cursor 0 q j)" using assms(4,5) by simp
    then have "at_cursor 0 q j = at_cursor 0 q k" using k(1,3) u [of j] u [of k] j(1) by simp
    then show ?thesis using at_cursor_strict_inj [OF sizes_nonempty [OF assms(1)], of j k 0] j(1) k(1) by simp
  qed
  moreover have "unat st = at_cursor 0 q k" unfolding k(3) by (rule u) (use k(1) in simp)
  ultimately show ?thesis using k(1,2) by blast
qed

lemma no_region_free:
  assumes "owners_agree v q" "no_region (v ! i)" "k < length q"
  shows "fst (q ! k) \<noteq> Some i"
proof
  assume "fst (q ! k) = Some i"
  then obtain p where "v ! i = Some (snd (q ! k), p)" "start_of p = Some (of_nat (at_cursor 0 q k))"
    using assms(1,3) unfolding owners_agree_def by blast
  then show False using assms(2) by (simp add: no_region_def)
qed

lemma lock_update:
  assumes "i < length v" "l = (of_int (int (num holding v)) :: i32)"
  shows "of_int (int (num holding (v[i := c]))) = l - (if holding (v ! i) then 1 else 0) + (if holding c then 1 else 0)"
  using assms by (simp add: num_update del: of_int_of_nat_eq)

lemma copied_other: "o' \<noteq> Some i \<Longrightarrow> copied (v[i := c]) o' = copied v o'"
  by (cases o') auto

lemma published_other: "o' \<noteq> Some i \<Longrightarrow> published (v[i := c]) o' = published v o'"
  by (cases o') auto

lemma published_len_cong: "(\<And>k. k < length q \<Longrightarrow> published v' (fst (q ! k)) = published v (fst (q ! k))) \<Longrightarrow> published_len v' q = published_len v q"
  unfolding published_len_def by (intro arg_cong [of _ _ sum_list] map_cong refl) (metis in_set_conv_nth)

text \<open>A call that has no region in the slot before and after its step: only the lock changes.\<close>

lemma slot_inv_free:
  assumes "slot_inv n sl v q" "i < length v" "no_region (v ! i)" "no_region c"
    and "l = cs_lock sl - (if holding (v ! i) then 1 else 0) + (if holding c then 1 else 0)"
  shows "slot_inv n (sl\<lparr>cs_lock := l\<rparr>) (v[i := c]) q"
proof -
  note I = assms(1) [unfolded slot_inv_def]
  have free: "fst (q ! k) \<noteq> Some i" if "k < length q" for k using no_region_free [of v q i k] I assms(3) that by blast
  have "owners_agree (v[i := c]) q"
    unfolding owners_agree_def
  proof (intro conjI allI impI)
    fix k j assume k: "k < length q" "fst (q ! k) = Some j"
    then have "j \<noteq> i" using free by auto
    then show "j < length (v[i := c])" "\<exists>p. v[i := c] ! j = Some (snd (q ! k), p) \<and> start_of p = Some (of_nat (at_cursor 0 q k))"
      using I k unfolding owners_agree_def by auto
  next
    fix j f p st assume j: "j < length (v[i := c])" "v[i := c] ! j = Some (f, p) \<and> start_of p = Some st"
    then have "j \<noteq> i" using assms(2,4) by (auto simp: no_region_def)
    then show "\<exists>k<length q. q ! k = (Some j, f) \<and> st = of_nat (at_cursor 0 q k)"
      using I j unfolding owners_agree_def by auto
  qed
  moreover have "published_len (v[i := c]) q = published_len v q" using free by (intro published_len_cong published_other) auto
  moreover have "copies_ok (sl\<lparr>cs_lock := l\<rparr>) (v[i := c]) q" using I free by (auto simp: copies_ok_def copied_other)
  ultimately show ?thesis
    using I assms(5) lock_update [OF assms(2), of "cs_lock sl" c] by (simp add: slot_inv_def sizes_ok_def)
qed

lemma slot_inv_over: "slot_inv n sl v q \<Longrightarrow> n < unat e \<Longrightarrow> slot_inv n (sl\<lparr>cs_allot := e\<rparr>) v q"
  by (simp add: slot_inv_def sizes_ok_def copies_ok_def)

text \<open>A call is given its bytes.\<close>

lemma owners_snoc:
  assumes "owners_agree v q" "no_region (v ! i)" "i < length v" "start_of p = Some (of_nat (at_cursor 0 q (length q)))"
  shows "owners_agree (v[i := Some (f, p)]) (q @ [(Some i, f)])"
  unfolding owners_agree_def
proof (intro conjI allI impI)
  note free = no_region_free [OF assms(1,2)]
  fix k j assume k: "k < length (q @ [(Some i, f)])" "fst ((q @ [(Some i, f)]) ! k) = Some j"
  have "j < length v \<and> (\<exists>p'. v[i := Some (f, p)] ! j = Some (snd ((q @ [(Some i, f)]) ! k), p')
      \<and> start_of p' = Some (of_nat (at_cursor 0 (q @ [(Some i, f)]) k)))"
  proof (cases "k < length q")
    case True
    then have "fst (q ! k) = Some j" "j \<noteq> i" using k(2) free [of k] by (auto simp: nth_append)
    then show ?thesis using assms(1) True unfolding owners_agree_def by (simp add: nth_append at_cursor_append)
  next
    case False
    then have "k = length q" using k(1) by simp
    then show ?thesis using k(2) assms(3,4) by (simp add: at_cursor_append)
  qed
  then show "j < length (v[i := Some (f, p)])" "\<exists>p'. v[i := Some (f, p)] ! j = Some (snd ((q @ [(Some i, f)]) ! k), p')
      \<and> start_of p' = Some (of_nat (at_cursor 0 (q @ [(Some i, f)]) k))" by simp_all
next
  fix j g p' st
  assume j: "j < length (v[i := Some (f, p)])" "v[i := Some (f, p)] ! j = Some (g, p') \<and> start_of p' = Some st"
  show "\<exists>k<length (q @ [(Some i, f)]). (q @ [(Some i, f)]) ! k = (Some j, g) \<and> st = of_nat (at_cursor 0 (q @ [(Some i, f)]) k)"
  proof (cases "j = i")
    case True
    then show ?thesis using j assms(3,4) by (intro exI [of _ "length q"]) (simp add: at_cursor_append)
  next
    case False
    then have "j < length v" "v ! j = Some (g, p')" "start_of p' = Some st" using j by simp_all
    from owners_agreeD(2) [OF assms(1) this] obtain k where "k < length q" "q ! k = (Some j, g)" "st = of_nat (at_cursor 0 q k)"
      by blast
    then show ?thesis by (intro exI [of _ k]) (simp add: nth_append at_cursor_append)
  qed
qed

lemma slot_inv_allot:
  assumes "slot_inv n sl v q" "i < length v" "v ! i = Some (f, Locked)" "8 \<le> length f"
    and e: "e = cs_allot sl + of_nat (length f)" "unat (cs_allot sl) + length f < 2 ^ 32" "unat e \<le> n"
  shows "slot_inv n (sl\<lparr>cs_allot := e\<rparr>) (v[i := Some (f, Allotted (e - of_nat (length f)))]) (q @ [(Some i, f)])"
proof -
  note I = assms(1) [unfolded slot_inv_def]
  let ?v = "v[i := Some (f, Allotted (e - of_nat (length f)))]"
  have len: "unat (of_nat (length f) :: u32) = length f" using e(2) by (simp add: unat_of_nat_small)
  have ue: "unat e = unat (cs_allot sl) + length f" unfolding e(1) using e(2) len by (simp add: unat_add_nowrap)
  then have tot: "unat (cs_allot sl) = at_cursor 0 q (length q)" using I e(3) by (auto simp: sizes_ok_def)
  have none: "no_region (v ! i)" using assms(3) by (simp add: no_region_def)
  have free: "fst (q ! k) \<noteq> Some i" if "k < length q" for k using no_region_free [of v q i k] I none that by blast
  have "e - of_nat (length f) = cs_allot sl" unfolding e(1) by simp
  moreover have "cs_allot sl = of_nat (at_cursor 0 q (length q))" using tot by (metis of_nat_unat ucast_id)
  ultimately have st: "start_of (Allotted (e - of_nat (length f))) = Some (of_nat (at_cursor 0 q (length q)))" by simp
  have "sizes_ok n (sl\<lparr>cs_allot := e\<rparr>) (q @ [(Some i, f)])"
    using I assms(4) e(3) ue tot by (auto simp: sizes_ok_def at_cursor_def)
  moreover have "owners_agree ?v (q @ [(Some i, f)])" using owners_snoc [OF _ none assms(2) st] I by blast
  moreover have "copies_ok (sl\<lparr>cs_allot := e\<rparr>) ?v (q @ [(Some i, f)])"
    unfolding copies_ok_def
  proof (intro allI impI)
    fix k assume k: "k < length (q @ [(Some i, f)])" "copied ?v (fst ((q @ [(Some i, f)]) ! k))"
    have "k < length q"
    proof (rule ccontr)
      assume "\<not> k < length q"
      then have "k = length q" using k(1) by simp
      then show False using k(2) assms(2) by simp
    qed
    then show "take (length (snd ((q @ [(Some i, f)]) ! k))) (drop (at_cursor 0 (q @ [(Some i, f)]) k) (cs_buf (sl\<lparr>cs_allot := e\<rparr>)))
        = snd ((q @ [(Some i, f)]) ! k)"
      using I k(2) free [of k] by (simp add: copies_ok_def nth_append at_cursor_append copied_other)
  qed
  moreover have "published_len ?v (q @ [(Some i, f)]) = published_len v q"
  proof -
    have "published_len ?v q = published_len v q" using free by (intro published_len_cong published_other) auto
    then show ?thesis using assms(2) by (simp add: published_len_def)
  qed
  ultimately show ?thesis
    using I lock_update [OF assms(2), of "cs_lock sl" "Some (f, Allotted (e - of_nat (length f)))"] assms(3) by (simp add: slot_inv_def)
qed

text \<open>A call that has its bytes goes on.\<close>

lemma owners_move:
  assumes "owners_agree v q" "i < length v" "v ! i = Some (f, p)" "start_of p = Some st" "start_of p' = Some st"
  shows "owners_agree (v[i := Some (f, p')]) q"
  unfolding owners_agree_def
proof (intro conjI allI impI)
  fix k j assume k: "k < length q" "fst (q ! k) = Some j"
  then obtain r where r: "j < length v" "v ! j = Some (snd (q ! k), r)" "start_of r = Some (of_nat (at_cursor 0 q k))"
    using assms(1) unfolding owners_agree_def by blast
  then show "j < length (v[i := Some (f, p')])"
    "\<exists>r. v[i := Some (f, p')] ! j = Some (snd (q ! k), r) \<and> start_of r = Some (of_nat (at_cursor 0 q k))"
    using assms(2-5) by (cases "j = i"; auto)+
next
  fix j g r s assume j: "j < length (v[i := Some (f, p')])" "v[i := Some (f, p')] ! j = Some (g, r) \<and> start_of r = Some s"
  have "\<exists>r. v ! j = Some (g, r) \<and> start_of r = Some s" using j assms(2-5) by (cases "j = i") auto
  then show "\<exists>k<length q. q ! k = (Some j, g) \<and> s = of_nat (at_cursor 0 q k)"
    using assms(1) j(1) unfolding owners_agree_def by auto
qed

lemma published_len_step:
  assumes "k < length q" "q ! k = (Some i, f)" "\<forall>j<length q. fst (q ! j) = Some i \<longrightarrow> j = k"
  shows "published_len (v[i := c]) q + (if published v (Some i) then length f else 0)
    = published_len v q + (if published (v[i := c]) (Some i) then length f else 0)"
proof -
  have q: "q = take k q @ (Some i, f) # drop (Suc k) q" using assms(1,2) by (metis id_take_nth_drop)
  have "fst x \<noteq> Some i" if "x \<in> set (take k q)" for x
    using that assms(1,3) by (auto simp: in_set_conv_nth) (metis less_trans less_irrefl)
  then have a: "published_len (v[i := c]) (take k q) = published_len v (take k q)"
    by (intro published_len_cong published_other) (metis nth_mem)
  have "fst x \<noteq> Some i" if "x \<in> set (drop (Suc k) q)" for x
  proof -
    from that obtain m where "m < length (drop (Suc k) q)" "drop (Suc k) q ! m = x" unfolding in_set_conv_nth by blast
    then have m: "Suc k + m < length q" "x = q ! (Suc k + m)" by auto
    show ?thesis using assms(3) [rule_format, OF m(1)] m(2) by auto
  qed
  then have b: "published_len (v[i := c]) (drop (Suc k) q) = published_len v (drop (Suc k) q)"
    by (intro published_len_cong published_other) (metis nth_mem)
  have "published_len w q = published_len w (take k q) + (if published w (Some i) then length f else 0) + published_len w (drop (Suc k) q)" for w
    by (subst q) (simp add: published_len_def del: published.simps)
  then show ?thesis using a b by simp
qed

text \<open>The three steps of a call on its bytes, and its end.\<close>

lemma slot_inv_copy:
  assumes "slot_inv n sl v q" "i < length v" "v ! i = Some (f, Allotted st)"
  shows "slot_inv n (sl\<lparr>cs_buf := overwrite (cs_buf sl) (unat st) f\<rparr>) (v[i := Some (f, Copied st)]) q"
proof -
  note I = assms(1) [unfolded slot_inv_def]
  let ?v = "v[i := Some (f, Copied st)]" and ?b = "overwrite (cs_buf sl) (unat st) f"
  have so: "sizes_ok n sl q" "owners_agree v q" using I by blast+
  obtain k where k: "k < length q" "q ! k = (Some i, f)" "unat st = at_cursor 0 q k" "at_cursor 0 q k + length f \<le> n"
    "\<forall>j<length q. fst (q ! j) = Some i \<longrightarrow> j = k"
    using region_of [OF so assms(2,3) start_of.simps(1)] by blast
  have len: "length (cs_buf sl) = n" using I by (simp add: sizes_ok_def)
  have "copies_ok (sl\<lparr>cs_buf := ?b\<rparr>) ?v q"
    unfolding copies_ok_def
  proof (intro allI impI)
    fix j assume j: "j < length q" "copied ?v (fst (q ! j))"
    let ?at = "at_cursor 0 q j" and ?l = "length (snd (q ! j))"
    have end_j: "?at + ?l = at_cursor 0 q (Suc j)" using j(1) by (simp add: at_cursor_Suc)
    then have fit: "?at + ?l \<le> n" using sizes_cursor [of n sl q "Suc j"] I j(1) by simp
    show "take ?l (drop ?at (cs_buf (sl\<lparr>cs_buf := ?b\<rparr>))) = snd (q ! j)"
    proof (cases "j = k")
      case True
      then show ?thesis using k(2-4) len by (simp add: overwrite_def)
    next
      case False
      then have "copied v (fst (q ! j))" using j k(5) by (metis copied_other)
      then have old: "take ?l (drop ?at (cs_buf sl)) = snd (q ! j)" using I j(1) by (simp add: copies_ok_def)
      have end_k: "unat st + length f = at_cursor 0 q (Suc k)" using k(1-3) by (simp add: at_cursor_Suc)
      have apart: "?at + ?l \<le> unat st \<or> unat st + length f \<le> ?at"
        using False at_cursor_mono [of "Suc j" k 0 q] at_cursor_mono [of "Suc k" j 0 q] end_j end_k k(3)
        by (cases j k rule: linorder_cases) auto
      have "take ?l (drop ?at ?b) = take ?l (drop ?at (cs_buf sl))"
        using apart fit k(3,4) len by (intro nth_equalityI) (auto simp: nth_overwrite)
      then show ?thesis using old by simp
    qed
  qed
  moreover have "owners_agree ?v q" by (rule owners_move [where p = "Allotted st"]) (use I assms(2,3) in auto)
  moreover have "published_len ?v q = published_len v q"
    using published_len_step [OF k(1,2,5), of v "Some (f, Copied st)"] assms(2,3) by simp
  moreover have "sizes_ok n (sl\<lparr>cs_buf := ?b\<rparr>) q" using I k(3,4) by (simp add: sizes_ok_def)
  ultimately show ?thesis
    using I lock_update [OF assms(2), of "cs_lock sl" "Some (f, Copied st)"] assms(3) by (simp add: slot_inv_def)
qed

lemma copied_same: "(\<forall>f st. v ! i \<noteq> Some (f, Allotted st)) \<Longrightarrow> copied (v[i := c]) o' \<Longrightarrow> copied v o'"
  by (cases "o' = Some i") (auto simp: copied_other split: option.splits prod.splits call_step.splits)

lemma slot_inv_publish:
  assumes "slot_inv n sl v q" "i < length v" "v ! i = Some (f, Copied st)"
  shows "slot_inv n (sl\<lparr>cs_available := cs_available sl + of_nat (length f)\<rparr>) (v[i := Some (f, Published st)]) q"
proof -
  note I = assms(1) [unfolded slot_inv_def]
  let ?v = "v[i := Some (f, Published st)]"
  have so: "sizes_ok n sl q" "owners_agree v q" using I by blast+
  obtain k where k: "k < length q" "q ! k = (Some i, f)" "at_cursor 0 q k + length f \<le> n" "\<forall>j<length q. fst (q ! j) = Some i \<longrightarrow> j = k"
    using region_of [OF so assms(2,3) start_of.simps(2)] by blast
  have pub: "published_len ?v q = published_len v q + length f"
    using published_len_step [OF k(1,2,4), of v "Some (f, Published st)"] assms(2,3) by simp
  have "published_len ?v q \<le> length (concat (map snd q))"
    unfolding published_len_def by (induction q) auto
  then have "published_len ?v q \<le> n" using I by (simp add: sizes_ok_def at_cursor_def)
  then have "unat (cs_available sl + of_nat (length f)) = published_len ?v q"
    using I pub by (subst unat_add_nowrap) (simp_all add: sizes_ok_def unat_of_nat_small)
  moreover have "owners_agree ?v q" by (rule owners_move [where p = "Copied st"]) (use I assms(2,3) in auto)
  moreover have "copies_ok sl ?v q"
    using I copied_same [of v i "Some (f, Published st)"] assms(3) unfolding copies_ok_def by auto
  ultimately show ?thesis
    using I lock_update [OF assms(2), of "cs_lock sl" "Some (f, Published st)"] assms(3)
    by (simp add: slot_inv_def sizes_ok_def copies_ok_def)
qed

lemma slot_inv_unlock:
  assumes "slot_inv n sl v q" "i < length v" "v ! i = Some (f, Published st)"
  shows "slot_inv n (lock_add (-1) sl) (v[i := Some (f, Unlocked st)]) q"
proof -
  note I = assms(1) [unfolded slot_inv_def]
  let ?v = "v[i := Some (f, Unlocked st)]"
  have so: "sizes_ok n sl q" "owners_agree v q" using I by blast+
  obtain k where k: "k < length q" "q ! k = (Some i, f)" "\<forall>j<length q. fst (q ! j) = Some i \<longrightarrow> j = k"
    using region_of [OF so assms(2,3) start_of.simps(3)] by blast
  have "published_len ?v q = published_len v q"
    using published_len_step [OF k, of v "Some (f, Unlocked st)"] assms(2,3) by simp
  moreover have "owners_agree ?v q" by (rule owners_move [where p = "Published st"]) (use I assms(2,3) in auto)
  moreover have "copies_ok sl ?v q"
    using I copied_same [of v i "Some (f, Unlocked st)"] assms(3) unfolding copies_ok_def by auto
  ultimately show ?thesis
    using I lock_update [OF assms(2), of "cs_lock sl" "Some (f, Unlocked st)"] assms(3)
    by (simp add: slot_inv_def sizes_ok_def copies_ok_def lock_add_def)
qed

lemma slot_inv_finish:
  assumes "slot_inv n sl v q" "i < length v" "v ! i = Some (f, Unlocked st)"
  shows "\<exists>k<length q. q ! k = (Some i, f) \<and> unat st = at_cursor 0 q k \<and> slot_inv n sl (v[i := None]) (q[k := (None, f)])"
proof -
  note I = assms(1) [unfolded slot_inv_def]
  have so: "sizes_ok n sl q" "owners_agree v q" using I by blast+
  obtain k where k: "k < length q" "q ! k = (Some i, f)" "unat st = at_cursor 0 q k" "\<forall>j<length q. fst (q ! j) = Some i \<longrightarrow> j = k"
    using region_of [OF so assms(2,3) start_of.simps(4)] by blast
  let ?v = "v[i := None]" and ?q = "q[k := (None, f)]"
  have cur: "at_cursor 0 ?q j = at_cursor 0 q j" for j using at_cursor_update [of 0 q k None j] k(2) by simp
  have snd: "snd (?q ! j) = snd (q ! j)" if "j < length q" for j using that k(2) by (cases "j = k") simp_all
  have owner: "fst (?q ! j) = (if j = k then None else fst (q ! j))" if "j < length q" for j using that by simp
  have other: "fst (q ! j) \<noteq> Some i" if "j < length q" "j \<noteq> k" for j using k(4) that by blast
  have "sizes_ok n sl ?q"
  proof -
    have "(Some i, f) \<in> set q" using k(1,2) nth_mem [of k q] by simp
    then have "8 \<le> length f" "\<forall>x\<in>set q. 8 \<le> length (snd x)" using so(1) by (force simp: sizes_ok_def)+
    then have "8 \<le> length (snd x)" if "x \<in> set ?q" for x
      using set_update_subset_insert [of q k "(None, f)", THEN subsetD, OF that] by auto
    then show ?thesis using so(1) cur by (simp add: sizes_ok_def)
  qed
  moreover have "owners_agree ?v ?q"
    unfolding owners_agree_def
  proof (intro conjI allI impI)
    fix j m assume j: "j < length ?q" "fst (?q ! j) = Some m"
    then have "j \<noteq> k" "fst (q ! j) = Some m" "j < length q" "m \<noteq> i" using owner [of j] other [of j] by (auto split: if_splits)
    then show "m < length ?v" "\<exists>p. ?v ! m = Some (snd (?q ! j), p) \<and> start_of p = Some (of_nat (at_cursor 0 ?q j))"
      using owners_agreeD(1) [OF so(2), of j m] by (auto simp: cur)
  next
    fix m g p s assume m: "m < length ?v" "?v ! m = Some (g, p) \<and> start_of p = Some s"
    then have "m \<noteq> i" "v ! m = Some (g, p)" using assms(2) by (auto simp: nth_list_update split: if_splits)
    then obtain j where j: "j < length q" "q ! j = (Some m, g)" "s = of_nat (at_cursor 0 q j)"
      using owners_agreeD(2) [OF so(2), of m g p s] m by auto
    then have "j \<noteq> k" using k(2) \<open>m \<noteq> i\<close> by auto
    then show "\<exists>j<length ?q. ?q ! j = (Some m, g) \<and> s = of_nat (at_cursor 0 ?q j)"
      using j by (intro exI [of _ j]) (simp add: cur)
  qed
  moreover have "copies_ok sl ?v ?q"
    unfolding copies_ok_def
  proof (intro allI impI)
    fix j assume j: "j < length ?q" "copied ?v (fst (?q ! j))"
    have "copied v (fst (q ! j))"
    proof (cases "j = k")
      case True
      then show ?thesis using k(2) assms(3) by simp
    next
      case False
      then show ?thesis using j other [of j] by (simp add: copied_other)
    qed
    then show "take (length (snd (?q ! j))) (drop (at_cursor 0 ?q j) (cs_buf sl)) = snd (?q ! j)"
      using I j(1) snd [of j] by (simp add: copies_ok_def cur)
  qed
  moreover have "published_len ?v ?q = published_len v q"
    unfolding published_len_def
  proof (intro arg_cong [of _ _ sum_list] nth_equalityI)
    fix j assume "j < length (map (\<lambda>x. if published ?v (fst x) then length (snd x) else 0) ?q)"
    then have j: "j < length q" by simp
    have "published ?v (fst (?q ! j)) = published v (fst (q ! j))"
      using assms(3) k(2) other [of j] j by (cases "j = k") (simp_all add: published_other)
    then show "map (\<lambda>x. if published ?v (fst x) then length (snd x) else 0) ?q ! j
        = map (\<lambda>x. if published v (fst x) then length (snd x) else 0) q ! j"
      using j snd [OF j] by simp
  qed simp
  ultimately have "slot_inv n sl ?v ?q"
    using I lock_update [OF assms(2), of "cs_lock sl" None] assms(3) by (simp add: slot_inv_def)
  then show ?thesis using k(1-3) by blast
qed

text \<open>A slot whose lock is free holds whole frames only, all published.\<close>

lemma holding_free:
  assumes "slot_inv n sl v q" "cs_lock sl = 0" "length v < 2 ^ 32" "c \<in> set v"
  shows "\<not> holding c"
proof -
  have "(of_nat (num holding v) :: i32) = 0" using assms(1,2) by (simp add: slot_inv_def)
  moreover have "unat (of_nat (num holding v) :: i32) = num holding v"
    by (rule unat_of_nat_small) (use num_le [of holding v] assms(3) in simp)
  ultimately have "num holding v = 0" by simp
  then show ?thesis using assms(4) by (simp add: num_0)
qed

lemma copied_prefix:
  assumes "\<forall>k<length q. take (length (snd (q ! k))) (drop (at_cursor 0 q k) buf) = snd (q ! k)" "j \<le> length q"
  shows "take (at_cursor 0 q j) buf = concat (map snd (take j q))"
  using assms(2)
proof (induction j)
  case (Suc j)
  have "take (at_cursor 0 q (Suc j)) buf = take (at_cursor 0 q j) buf @ take (length (snd (q ! j))) (drop (at_cursor 0 q j) buf)"
    using Suc.prems by (simp add: at_cursor_Suc take_add)
  also have "\<dots> = concat (map snd (take (Suc j) q))"
    using Suc assms(1) by (simp add: take_Suc_conv_app_nth)
  finally show ?case .
qed simp

lemma slot_sendable:
  assumes inv: "slot_inv n sl v q" and free: "\<forall>c\<in>set v. \<not> holding c"
  shows "take (unat (cs_available sl)) (cs_buf sl) = concat (map snd q)" "unat (cs_available sl) = length (concat (map snd q))"
proof -
  note I = inv [unfolded slot_inv_def]
  have done': "copied v (fst (q ! k)) \<and> published v (fst (q ! k))" if k: "k < length q" for k
  proof (cases "fst (q ! k)")
    case (Some i)
    then obtain p where p: "i < length v" "v ! i = Some (snd (q ! k), p)" "start_of p = Some (of_nat (at_cursor 0 q k))"
      using owners_agreeD(1) [of v q k i] I k by blast
    then have "\<not> holding (Some (snd (q ! k), p))" using free by (metis nth_mem)
    then show ?thesis using Some p by (cases p) simp_all
  qed simp
  have "published_len v q = at_cursor 0 q (length q)"
  proof -
    have "map (\<lambda>x. if published v (fst x) then length (snd x) else 0) q = map (length \<circ> snd) q"
      using done' by (intro nth_equalityI) simp_all
    then have "published_len v q = sum_list (map (length \<circ> snd) q)" by (simp only: published_len_def)
    then show ?thesis by (simp add: at_cursor_def length_concat)
  qed
  then have len: "unat (cs_available sl) = at_cursor 0 q (length q)" using I by simp
  then show "unat (cs_available sl) = length (concat (map snd q))" by (simp add: at_cursor_def)
  have "\<forall>k<length q. take (length (snd (q ! k))) (drop (at_cursor 0 q k) (cs_buf sl)) = snd (q ! k)"
    using I done' unfolding copies_ok_def by blast
  from copied_prefix [OF this order_refl] show "take (unat (cs_available sl)) (cs_buf sl) = concat (map snd q)"
    by (simp add: len)
qed

section \<open>The session\<close>

definition view :: "nat \<Rightarrow> conc_session \<Rightarrow> slot_view" where
  "view a s = map (view_call a) (c_calls s)"

definition calls_ok :: "conc_session \<Rightarrow> bool" where
  "calls_ok s \<longleftrightarrow> (\<forall>f b a p. Some (f, b, a, p) \<in> set (c_calls s) \<longrightarrow> 8 \<le> length f \<and> a < length (c_slots s))"

definition slots_inv :: "conc_session \<Rightarrow> slot_regions list \<Rightarrow> bool" where
  "slots_inv s Q \<longleftrightarrow> length Q = length (c_slots s) \<and> Suc (c_wslot s) = length Q \<and> length (c_calls s) < 2 ^ 32 \<and> calls_ok s
     \<and> length (c_new s) = unat (c_limit s) \<and> (\<forall>a<length Q. slot_inv (unat (c_limit s)) (c_slots s ! a) (view a s) (Q ! a))"

definition started :: "slot_regions \<Rightarrow> bool" where
  "started q \<longleftrightarrow> q \<noteq> [] \<and> fst (hd q) = None"

definition finished :: "slot_regions \<Rightarrow> u8 list multiset" where
  "finished q = mset (map snd (filter (\<lambda>x. fst x = None) q))"

definition only_unlocked :: "slot_view \<Rightarrow> bool" where
  "only_unlocked v \<longleftrightarrow> (\<forall>f p. Some (f, p) \<in> set v \<longrightarrow> (\<exists>st. p = Unlocked st))"

definition jobs_inv :: "conc_session \<Rightarrow> slot_regions list \<Rightarrow> bool" where
  "jobs_inv s Q \<longleftrightarrow> distinct (c_jobs s @ c_taken s @ map fst (c_sent s))
     \<and> set (c_jobs s @ c_taken s @ map fst (c_sent s)) = {a. a < length Q \<and> started (Q ! a)}
     \<and> c_wslot s \<notin> set (c_taken s @ map fst (c_sent s))
     \<and> (\<forall>(a, bs)\<in>set (c_sent s). bs = concat (map snd (Q ! a)) \<and> only_unlocked (view a s))
     \<and> mset (c_accepted s) = sum_list (map finished Q)"

text \<open>A step of one call changes its slot's view in one place and no other view.\<close>

lemma view_update:
  "i < length (c_calls s) \<Longrightarrow> view a (s\<lparr>c_calls := (c_calls s)[i := c]\<rparr>) = (view a s)[i := view_call a c]"
  by (simp add: view_def map_update)

definition at_slot :: "nat \<Rightarrow> write_call option \<Rightarrow> bool" where
  "at_slot a c \<longleftrightarrow> (\<forall>b. b \<noteq> a \<longrightarrow> view_call b c = None)"

lemma at_slot_simps [simp]: "at_slot a None" "at_slot a (Some (f, b, a, p))" "at_slot a (Some (f, b, a', Retry))"
  by (auto simp: at_slot_def)

lemma slots_inv_step:
  assumes inv: "slots_inv s Q" and i: "i < length (c_calls s)" "at_slot a (c_calls s ! i)" "at_slot a c"
    and c: "\<And>f b a' p. c = Some (f, b, a', p) \<Longrightarrow> 8 \<le> length f \<and> a' < length Q"
    and a: "a < length Q" and sl: "slot_inv (unat (c_limit s)) sl ((view a s)[i := view_call a c]) q"
  shows "slots_inv (s\<lparr>c_slots := (c_slots s)[a := sl], c_calls := (c_calls s)[i := c]\<rparr>) (Q[a := q])"
    (is "slots_inv ?s ?Q")
proof -
  note I = inv [unfolded slots_inv_def]
  have view: "view b ?s = (view b s)[i := view_call b c]" for b using i(1) by (simp add: view_def map_update)
  have same: "view b ?s = view b s" if "b \<noteq> a" for b
  proof -
    have "view b s ! i = None" "view_call b c = None" using i that by (simp_all add: view_def at_slot_def)
    then show ?thesis using view [of b] by (metis list_update_id)
  qed
  have "calls_ok ?s"
    unfolding calls_ok_def
  proof (intro allI impI)
    fix f b a' p assume "Some (f, b, a', p) \<in> set (c_calls ?s)"
    then have "Some (f, b, a', p) = c \<or> Some (f, b, a', p) \<in> set (c_calls s)"
      using set_update_subset_insert [of "c_calls s" i c] by auto
    then show "8 \<le> length f \<and> a' < length (c_slots ?s)" using c [of f b a' p] I by (auto simp: calls_ok_def)
  qed
  moreover have "slot_inv (unat (c_limit ?s)) (c_slots ?s ! b) (view b ?s) (?Q ! b)" if b: "b < length ?Q" for b
  proof (cases "b = a")
    case True
    then show ?thesis using a sl I view [of a] by simp
  next
    case False
    then show ?thesis using b I same [OF False] by simp
  qed
  ultimately show ?thesis using I by (simp add: slots_inv_def)
qed

text \<open>What a step leaves of the jobs when its slot has not been sent.\<close>

lemma sum_list_replace:
  fixes Q :: "'b list" and g :: "'b \<Rightarrow> 'c multiset"
  assumes "a < length Q"
  shows "sum_list (map g (Q[a := q])) + g (Q ! a) = sum_list (map g Q) + g q"
proof -
  have "sum_list (map g Q) = sum_list (map g (take a Q)) + g (Q ! a) + sum_list (map g (drop (Suc a) Q))"
    using assms by (subst id_take_nth_drop [of a Q]) simp_all
  moreover have "sum_list (map g (Q[a := q])) = sum_list (map g (take a Q)) + g q + sum_list (map g (drop (Suc a) Q))"
    using assms by (simp add: upd_conv_take_nth_drop)
  ultimately show ?thesis by (simp add: ac_simps)
qed

lemma jobs_inv_step:
  assumes inv: "jobs_inv s Q" and i: "i < length (c_calls s)" "at_slot a (c_calls s ! i)" "at_slot a c"
    and a: "a < length Q" "a \<notin> fst ` set (c_sent s)" and q: "started q = started (Q ! a)" "finished q = finished (Q ! a)"
  shows "jobs_inv (s\<lparr>c_slots := (c_slots s)[a := sl], c_calls := (c_calls s)[i := c]\<rparr>) (Q[a := q])"
    (is "jobs_inv ?s ?Q")
proof -
  note I = inv [unfolded jobs_inv_def]
  have same: "view b ?s = view b s" if "b \<noteq> a" for b
  proof -
    have "view b s ! i = None" "view_call b c = None" using i that by (simp_all add: view_def at_slot_def)
    moreover have "view b ?s = (view b s)[i := view_call b c]" by (simp add: view_def map_update)
    ultimately show ?thesis by (metis list_update_id)
  qed
  have "sum_list (map finished ?Q) = sum_list (map finished Q)"
    using sum_list_replace [OF a(1), of finished q] q(2) by simp
  moreover have "{b. b < length ?Q \<and> started (?Q ! b)} = {b. b < length Q \<and> started (Q ! b)}"
  proof -
    have "started (?Q ! b) = started (Q ! b)" if "b < length Q" for b using q(1) that by (cases "b = a") simp_all
    then show ?thesis by auto
  qed
  moreover have "bs = concat (map snd (?Q ! b)) \<and> only_unlocked (view b ?s)" if "(b, bs) \<in> set (c_sent s)" for b bs
  proof -
    have "b \<noteq> a" using that a(2) by force
    then show ?thesis using that I same by auto
  qed
  ultimately show ?thesis using I by (auto simp: jobs_inv_def)
qed

definition session_inv :: "conc_session \<Rightarrow> slot_regions list \<Rightarrow> bool" where
  "session_inv s Q \<longleftrightarrow> slots_inv s Q \<and> jobs_inv s Q"

lemma session_step:
  assumes inv: "session_inv s Q" and i: "i < length (c_calls s)" "at_slot a (c_calls s ! i)" "at_slot a c"
    and c: "\<And>f b a' p. c = Some (f, b, a', p) \<Longrightarrow> 8 \<le> length f \<and> a' < length Q"
    and a: "a < length Q" "a \<notin> fst ` set (c_sent s)"
    and sl: "slot_inv (unat (c_limit s)) sl ((view a s)[i := view_call a c]) q"
    and q: "started q = started (Q ! a)" "finished q = finished (Q ! a)"
  shows "session_inv (s\<lparr>c_slots := (c_slots s)[a := sl], c_calls := (c_calls s)[i := c]\<rparr>) (Q[a := q])"
  using slots_inv_step [OF _ i c a(1) sl] jobs_inv_step [OF _ i a q] inv by (auto simp: session_inv_def)

text \<open>A new slot.\<close>

lemma view_fresh: "calls_ok s \<Longrightarrow> view (length (c_slots s)) s = replicate (length (c_calls s)) None"
proof (intro nth_equalityI)
  fix i assume ok: "calls_ok s" and "i < length (view (length (c_slots s)) s)"
  then have i: "i < length (c_calls s)" by (simp add: view_def)
  have "view_call (length (c_slots s)) (c_calls s ! i) = None"
  proof (cases "c_calls s ! i")
    case (Some c)
    obtain f b a p where c: "c = (f, b, a, p)" by (cases c)
    have "Some (f, b, a, p) \<in> set (c_calls s)" using Some c i by (metis nth_mem)
    then have "a < length (c_slots s)" using ok by (auto simp: calls_ok_def)
    then show ?thesis using Some c by simp
  qed simp
  then show "view (length (c_slots s)) s ! i = replicate (length (c_calls s)) None ! i" using i by (simp add: view_def)
qed (simp add: view_def)

lemma new_slot_inv: "length buf = unat (n :: u32) \<Longrightarrow> slot_inv (unat n) (new_conc_slot buf) (replicate k None) []"
proof -
  assume "length buf = unat n"
  moreover have "num holding (replicate k None) = 0" by (simp add: num_0)
  moreover have "unat n < 4294967296" using unat_bound [of n] by simp
  ultimately show "slot_inv (unat n) (new_conc_slot buf) (replicate k None) []"
    by (simp add: slot_inv_def sizes_ok_def owners_agree_def copies_ok_def published_len_def new_conc_slot_def)
qed

lemma swap_inv:
  assumes "session_inv s Q" "a < length Q"
  shows "\<exists>Q'. session_inv (swap_slot a s) Q' \<and> c_wslot (swap_slot a s) \<noteq> a \<and> length Q \<le> length Q'"
proof (cases "c_wslot s = a")
  case False
  then show ?thesis using assms by (intro exI [of _ Q]) (simp add: swap_slot_def)
next
  case True
  let ?s = "s\<lparr>c_slots := c_slots s @ [new_conc_slot (c_new s)], c_wslot := length (c_slots s)\<rparr>" and ?Q = "Q @ [[]]"
  note I = assms(1) [unfolded session_inv_def slots_inv_def]
  have len: "length Q = length (c_slots s)" using I by blast
  have view: "view b ?s = view b s" for b by (simp add: view_def)
  have "calls_ok ?s" using I by (auto simp: calls_ok_def less_SucI)
  moreover have "slot_inv (unat (c_limit ?s)) (c_slots ?s ! b) (view b ?s) (?Q ! b)" if b: "b < length ?Q" for b
  proof (cases "b < length Q")
    case True
    then show ?thesis using I len view by (simp add: nth_append)
  next
    case False
    then have "b = length Q" using b by simp
    then show ?thesis using I len view view_fresh [of s] new_slot_inv [of "c_new s" "c_limit s" "length (c_calls s)"] by (simp add: nth_append)
  qed
  ultimately have "slots_inv ?s ?Q" using I by (simp add: slots_inv_def)
  moreover have "jobs_inv ?s ?Q"
  proof -
    note J = assms(1) [unfolded session_inv_def jobs_inv_def]
    have "\<not> started []" "finished [] = {#}" by (simp_all add: started_def finished_def)
    then have set: "{b. b < length ?Q \<and> started (?Q ! b)} = {b. b < length Q \<and> started (Q ! b)}"
      by (auto simp: nth_append less_Suc_eq)
    have small: "b < length Q" if "b \<in> set (c_jobs s @ c_taken s @ map fst (c_sent s))" for b using J that by auto
    have "bs = concat (map snd (?Q ! b)) \<and> only_unlocked (view b ?s)" if "(b, bs) \<in> set (c_sent s)" for b bs
    proof -
      have "b < length Q" using small that by force
      then show ?thesis using J that view by (auto simp: nth_append)
    qed
    moreover have "length (c_slots s) \<notin> set (c_taken s @ map fst (c_sent s))" using small len by force
    ultimately show ?thesis using J set \<open>finished [] = {#}\<close> by (auto simp: jobs_inv_def)
  qed
  ultimately show ?thesis using True assms(2) len by (intro exI [of _ ?Q]) (simp add: swap_slot_def session_inv_def)
qed

section \<open>Every step keeps the invariant\<close>

lemma call_facts:
  assumes inv: "session_inv s Q" and i: "i < length (c_calls s)" "c_calls s ! i = Some (f, b, a, p)"
  shows "a < length Q" "8 \<le> length f" "p \<noteq> Retry \<Longrightarrow> view a s ! i = Some (f, p)"
    and "p \<noteq> Retry \<Longrightarrow> \<forall>st. p \<noteq> Unlocked st \<Longrightarrow> a \<notin> fst ` set (c_sent s)"
    and "a < length Q \<Longrightarrow> slot_inv (unat (c_limit s)) (c_slots s ! a) (view a s) (Q ! a)"
    and "i < length (view a s)"
proof -
  note I = inv [unfolded session_inv_def slots_inv_def jobs_inv_def]
  have mem: "Some (f, b, a, p) \<in> set (c_calls s)" using i by (metis nth_mem)
  then have "8 \<le> length f \<and> a < length (c_slots s)" using I unfolding calls_ok_def by blast
  then show "a < length Q" "8 \<le> length f" using I by simp_all
  show v: "view a s ! i = Some (f, p)" if "p \<noteq> Retry" using i that by (simp add: view_def)
  show l: "i < length (view a s)" using i(1) by (simp add: view_def)
  show "a \<notin> fst ` set (c_sent s)" if p: "p \<noteq> Retry" "\<forall>st. p \<noteq> Unlocked st"
  proof
    assume "a \<in> fst ` set (c_sent s)"
    then have "only_unlocked (view a s)" using I by auto
    moreover have "Some (f, p) \<in> set (view a s)" using v [OF p(1)] l by (metis nth_mem)
    ultimately show False using p(2) by (auto simp: only_unlocked_def)
  qed
  show "slot_inv (unat (c_limit s)) (c_slots s ! a) (view a s) (Q ! a)" if "a < length Q" using I that by blast
qed

text \<open>A step that stays in its slot and takes no region away.\<close>

lemma stay_inv:
  assumes inv: "session_inv s Q" and i: "i < length (c_calls s)" "c_calls s ! i = Some (f, b, a, p)" "p \<noteq> Retry" "\<forall>st. p \<noteq> Unlocked st"
    and at: "at_slot a c" and c: "\<And>f' b a' p. c = Some (f', b, a', p) \<Longrightarrow> f' = f \<and> a' = a"
    and sl: "slot_inv (unat (c_limit s)) sl ((view a s)[i := view_call a c]) q"
    and q: "started q = started (Q ! a)" "finished q = finished (Q ! a)"
  shows "session_inv (s\<lparr>c_slots := (c_slots s)[a := sl], c_calls := (c_calls s)[i := c]\<rparr>) (Q[a := q])"
proof (rule session_step [OF inv i(1) _ at _ call_facts(1) [OF inv i(1,2)] call_facts(4) [OF inv i] sl q])
  show "at_slot a (c_calls s ! i)" using i(2) by simp
  fix f' b a' p assume "c = Some (f', b, a', p)"
  then show "8 \<le> length f' \<and> a' < length Q" using c call_facts(1,2) [OF inv i(1,2)] by blast
qed

lemma set_on_slot: "set_call i c (on_slot a f s) = s\<lparr>c_slots := (c_slots s)[a := f (c_slots s ! a)], c_calls := (c_calls s)[i := c]\<rparr>"
  by (simp add: set_call_def on_slot_def)

text \<open>Steps around the lock and those on the bytes.\<close>

lemma lock_steps_inv:
  assumes inv: "session_inv s Q" and i: "i < length (c_calls s)" "c_calls s ! i = Some (f, b, a, p)"
    and p: "p \<in> {Loaded, GaveUp, Over} \<or> (\<exists>st. p = Allotted st \<or> p = Copied st \<or> p = Published st)"
  shows "\<exists>Q'. session_inv (advance bl i (f, b, a, p) s) Q'"
proof -
  note F = call_facts [OF inv i]
  have p': "p \<noteq> Retry" "\<forall>st. p \<noteq> Unlocked st" using p by auto
  note S = F(5) [OF F(1)] and V = F(3) [OF p'(1)] and stay = stay_inv [OF inv i p', of _ _ "Q ! a", OF _ _ _ refl refl]
  let ?n = "unat (c_limit s)" and ?sl = "c_slots s ! a"
  have free: "slot_inv ?n (lock_add k ?sl) ((view a s)[i := view_call a c]) (Q ! a)"
    if "start_of p = None" "no_region (view_call a c)" "k = (if holding (view_call a c) then 1 else 0) - (if holding (Some (f, p)) then 1 else 0)" for k c
    using slot_inv_free [OF S F(6), of "view_call a c" "cs_lock ?sl + k"] that V
    by (simp add: no_region_def lock_add_def split: if_splits)
  show ?thesis
  proof (cases p)
    case Loaded
    have "slot_inv ?n (lock_add 1 ?sl) ((view a s)[i := view_call a (Some (f, b, a, Locked))]) (Q ! a)"
      by (rule free) (simp_all add: Loaded no_region_def)
    then show ?thesis using stay [of "Some (f, b, a, Locked)"] Loaded by (auto simp: set_on_slot)
  next
    case GaveUp
    have "slot_inv ?n (lock_add (-1) ?sl) ((view a s)[i := view_call a None]) (Q ! a)"
      by (rule free) (simp_all add: GaveUp no_region_def)
    then have "session_inv (set_call i None (on_slot a (lock_add (-1)) s)) (Q[a := Q ! a])"
      using stay [of None] by (simp add: set_on_slot)
    moreover have "session_inv (t\<lparr>c_refused := r\<rparr>) Q'" if "session_inv t Q'" for t r Q'
      using that by (simp add: session_inv_def slots_inv_def jobs_inv_def calls_ok_def view_def)
    ultimately show ?thesis using GaveUp by auto
  next
    case Over
    have "slot_inv ?n (lock_add (-1) ?sl) ((view a s)[i := view_call a (Some (f, b, a, Retry))]) (Q ! a)"
      by (rule free) (simp_all add: Over no_region_def)
    then show ?thesis using stay [of "Some (f, b, a, Retry)"] Over by (auto simp: set_on_slot)
  next
    case (Allotted st)
    have "slot_inv ?n (?sl\<lparr>cs_buf := overwrite (cs_buf ?sl) (unat st) f\<rparr>) ((view a s)[i := view_call a (Some (f, b, a, Copied st))]) (Q ! a)"
      using slot_inv_copy [OF S F(6)] V Allotted by simp
    then show ?thesis using stay [of "Some (f, b, a, Copied st)"] Allotted by (auto simp: set_on_slot)
  next
    case (Copied st)
    have "slot_inv ?n (?sl\<lparr>cs_available := cs_available ?sl + of_nat (length f)\<rparr>) ((view a s)[i := view_call a (Some (f, b, a, Published st))]) (Q ! a)"
      using slot_inv_publish [OF S F(6)] V Copied by simp
    then show ?thesis using stay [of "Some (f, b, a, Published st)"] Copied by (auto simp: set_on_slot)
  next
    case (Published st)
    have "slot_inv ?n (lock_add (-1) ?sl) ((view a s)[i := view_call a (Some (f, b, a, Unlocked st))]) (Q ! a)"
      using slot_inv_unlock [OF S F(6)] V Published by simp
    then show ?thesis using stay [of "Some (f, b, a, Unlocked st)"] Published by (auto simp: set_on_slot)
  qed (use p in auto)
qed

lemma set_call_swap: "set_call i c (swap_slot a s) = swap_slot a (set_call i c s)"
  by (simp add: set_call_def swap_slot_def)

lemma allot_inv:
  assumes inv: "session_inv s Q" and i: "i < length (c_calls s)" "c_calls s ! i = Some (f, b, a, Locked)"
    and room: "unat (cs_allot (c_slots s ! a)) + length f < 2 ^ 32"
  shows "\<exists>Q'. session_inv (allot bl i f b a s) Q'"
proof -
  note F = call_facts [OF inv i]
  have p': "Locked \<noteq> Retry" "\<forall>st. Locked \<noteq> Unlocked st" by simp_all
  note S = F(5) [OF F(1)] and V = F(3) [OF p'(1)] and stay = stay_inv [OF inv i p']
  let ?n = "unat (c_limit s)" and ?sl = "c_slots s ! a"
  define e where "e = cs_allot ?sl + of_nat (length f)"
  have over: "session_inv (set_call i (Some (f, b', a, p)) (on_slot a (\<lambda>sl. sl\<lparr>cs_allot := e\<rparr>) s)) Q"
    if "c_limit s < e" "p = GaveUp \<or> p = Over" for b' p
  proof -
    have "slot_inv ?n (?sl\<lparr>cs_lock := cs_lock ?sl\<rparr>) ((view a s)[i := view_call a (Some (f, b', a, p))]) (Q ! a)"
      by (rule slot_inv_free [OF S F(6)]) (use V that(2) in \<open>auto simp: no_region_def\<close>)
    then have "slot_inv ?n (?sl\<lparr>cs_allot := e\<rparr>) ((view a s)[i := view_call a (Some (f, b', a, p))]) (Q ! a)"
      using slot_inv_over that(1) by (simp add: word_less_nat_alt)
    then show ?thesis using stay [of "Some (f, b', a, p)" _ "Q ! a"] that(2) by (auto simp: set_on_slot)
  qed
  show ?thesis
  proof (cases "c_limit s < e")
    case True
    let ?t = "set_call i (Some (f, 0, a, Over)) (on_slot a (\<lambda>sl. sl\<lparr>cs_allot := e\<rparr>) s)"
    have "\<exists>Q'. session_inv (swap_slot a ?t) Q'" using swap_inv [OF over [OF True, of Over 0]] F(1) by blast
    then show ?thesis
      using True over [OF True] by (auto simp: allot_def Let_def e_def [symmetric] set_call_swap on_slot_def)
  next
    case False
    have "slot_inv ?n (?sl\<lparr>cs_allot := e\<rparr>) ((view a s)[i := Some (f, Allotted (e - of_nat (length f)))]) (Q ! a @ [(Some i, f)])"
      using False by (intro slot_inv_allot [OF S F(6) V F(2) e_def room]) (simp add: word_less_nat_alt)
    moreover have "started (Q ! a @ [(Some i, f)]) = started (Q ! a)" "finished (Q ! a @ [(Some i, f)]) = finished (Q ! a)"
      by (cases "Q ! a"; simp add: started_def finished_def)+
    ultimately have "session_inv (set_call i (Some (f, b, a, Allotted (e - of_nat (length f)))) (on_slot a (\<lambda>sl. sl\<lparr>cs_allot := e\<rparr>) s))
        (Q[a := Q ! a @ [(Some i, f)]])"
      using stay [of "Some (f, b, a, Allotted (e - of_nat (length f)))" _ "Q ! a @ [(Some i, f)]"] by (auto simp: set_on_slot)
    then show ?thesis using False by (auto simp: allot_def Let_def e_def [symmetric] on_slot_def)
  qed
qed

text \<open>A call loads the current slot, at its beginning or after a full one.\<close>

lemma load_inv:
  assumes inv: "session_inv s Q" and i: "i < length (c_calls s)" "c_calls s ! i = None \<or> (\<exists>f b a. c_calls s ! i = Some (f, b, a, Retry))"
    and f: "8 \<le> length f"
  shows "session_inv (set_call i (Some (f, b, c_wslot s, Loaded)) s) Q"
proof -
  let ?a = "c_wslot s" and ?c = "Some (f, b, c_wslot s, Loaded)"
  note I = inv [unfolded session_inv_def slots_inv_def jobs_inv_def]
  have a: "?a < length Q" "?a \<notin> fst ` set (c_sent s)" using I by auto
  have S: "slot_inv (unat (c_limit s)) (c_slots s ! ?a) (view ?a s) (Q ! ?a)" using I a(1) by blast
  have v: "view ?a s ! i = None" using i by (auto simp: view_def)
  have "slot_inv (unat (c_limit s)) ((c_slots s ! ?a)\<lparr>cs_lock := cs_lock (c_slots s ! ?a)\<rparr>) ((view ?a s)[i := view_call ?a ?c]) (Q ! ?a)"
    by (rule slot_inv_free [OF S]) (use v i(1) in \<open>auto simp: no_region_def view_def\<close>)
  then have "slot_inv (unat (c_limit s)) (c_slots s ! ?a) ((view ?a s)[i := view_call ?a ?c]) (Q ! ?a)" by simp
  from session_step [OF inv i(1) _ _ _ a this refl refl] i(2) f a(1) show ?thesis
    by (auto simp: set_call_def)
qed

lemma finished_simps:
  "finished (p @ q) = finished p + finished q"
  "finished (x # q) = (if fst x = None then {#snd x#} else {#}) + finished q"
  by (simp_all add: finished_def)

lemma finished_update:
  assumes "k < length q" "q ! k = (Some i, f)"
  shows "finished (q[k := (None, f)]) = finished q + {#f#}"
proof -
  have "finished q = finished (take k q @ (Some i, f) # drop (Suc k) q)" using assms by (metis id_take_nth_drop)
  moreover have "finished (q[k := (None, f)]) = finished (take k q @ (None, f) # drop (Suc k) q)"
    using assms(1) by (simp add: upd_conv_take_nth_drop)
  ultimately show ?thesis by (simp add: finished_simps)
qed

text \<open>A call returns.\<close>

lemma finish_inv:
  assumes inv: "session_inv s Q" and i: "i < length (c_calls s)" "c_calls s ! i = Some (f, b, a, Unlocked st)"
  shows "\<exists>Q'. session_inv (advance bl i (f, b, a, Unlocked st) s) Q'"
proof -
  note F = call_facts [OF inv i]
  have V: "view a s ! i = Some (f, Unlocked st)" using F(3) by simp
  obtain k where k: "k < length (Q ! a)" "Q ! a ! k = (Some i, f)" "unat st = at_cursor 0 (Q ! a) k"
    "slot_inv (unat (c_limit s)) (c_slots s ! a) ((view a s)[i := None]) ((Q ! a)[k := (None, f)])"
    using slot_inv_finish [OF F(5) [OF F(1)] F(6) V] by blast
  let ?q = "(Q ! a)[k := (None, f)]" and ?t = "s\<lparr>c_calls := (c_calls s)[i := None]\<rparr>"
  note J = inv [unfolded session_inv_def jobs_inv_def]
  have slots: "slots_inv ?t (Q[a := ?q])"
    using slots_inv_step [of s Q i a None "c_slots s ! a" ?q] inv i F(1) k(4) by (simp add: session_inv_def)
  have "sizes_ok (unat (c_limit s)) (c_slots s ! a) (Q ! a)" using F(5) [OF F(1)] by (simp add: slot_inv_def)
  then have "at_cursor 0 (Q ! a) k = 0 \<longleftrightarrow> k = 0"
    using at_cursor_strict_inj [OF sizes_nonempty, of _ _ "Q ! a" k 0 0] k(1) by auto
  then have st: "st = 0 \<longleftrightarrow> k = 0" using k(3) by (metis unat_eq_zero)
  have snds: "map snd ?q = map snd (Q ! a)" using k(1,2) by (simp add: map_update list_update_same_conv)
  have "finished ?q = finished (Q ! a) + {#f#}" by (rule finished_update [OF k(1,2)])
  then have acc: "mset (c_accepted s @ [f]) = sum_list (map finished (Q[a := ?q]))"
    using sum_list_replace [OF F(1), of finished ?q] J by (simp add: ac_simps)
  have start: "started (Q ! a) \<longleftrightarrow> started ?q \<and> k \<noteq> 0" "k = 0 \<longrightarrow> started ?q"
    using k(1,2) by (cases "Q ! a"; cases k; simp add: started_def)+
  let ?js = "if st = 0 then c_jobs s @ [a] else c_jobs s"
  have mem: "set (c_jobs s @ c_taken s @ map fst (c_sent s)) = {b. b < length Q \<and> started (Q ! b)}" using J by blast
  have other: "started (Q[a := ?q] ! b) = started (Q ! b)" if "b \<noteq> a" for b using that by simp
  have "distinct (?js @ c_taken s @ map fst (c_sent s))
      \<and> set (?js @ c_taken s @ map fst (c_sent s)) = {b. b < length (Q[a := ?q]) \<and> started (Q[a := ?q] ! b)}"
  proof (cases "k = 0")
    case True
    then have "a \<notin> set (c_jobs s @ c_taken s @ map fst (c_sent s))" using mem start(1) by blast
    moreover have "{b. b < length (Q[a := ?q]) \<and> started (Q[a := ?q] ! b)} = insert a {b. b < length Q \<and> started (Q ! b)}"
      using start(2) True F(1) other by auto (metis nth_list_update_eq nth_list_update_neq)+
    ultimately show ?thesis using J mem st True by (simp only: if_True) auto
  next
    case False
    have "{b. b < length (Q[a := ?q]) \<and> started (Q[a := ?q] ! b)} = {b. b < length Q \<and> started (Q ! b)}"
      using start(1) False F(1) other by auto (metis nth_list_update_eq nth_list_update_neq)+
    then show ?thesis using J mem st False by simp
  qed
  moreover have "bs = concat (map snd (Q[a := ?q] ! b)) \<and> only_unlocked (view b ?t)" if "(b, bs) \<in> set (c_sent s)" for b bs
  proof -
    have old: "bs = concat (map snd (Q ! b))" "only_unlocked (view b s)" using J that by auto
    have "view b ?t = (view b s)[i := None]" using i(1) by (simp add: view_def map_update)
    then have "only_unlocked (view b ?t)"
      using old(2) set_update_subset_insert [of "view b s" i None] by (auto simp: only_unlocked_def)
    then show ?thesis using old(1) snds F(1) by (cases "b = a") simp_all
  qed
  ultimately have "jobs_inv (?t\<lparr>c_accepted := c_accepted s @ [f], c_jobs := ?js\<rparr>) (Q[a := ?q])"
    using J acc by (auto simp: jobs_inv_def view_def)
  moreover have "slots_inv (?t\<lparr>c_accepted := c_accepted s @ [f], c_jobs := ?js\<rparr>) (Q[a := ?q])"
    using slots by (simp add: slots_inv_def calls_ok_def view_def)
  ultimately show ?thesis by (intro exI [of _ "Q[a := ?q]"]) (simp add: session_inv_def set_call_def)
qed

text \<open>The workers.\<close>

lemma take_inv:
  assumes inv: "session_inv s Q" and jobs: "c_jobs s = a # js"
  shows "\<exists>Q'. session_inv (swap_slot a (s\<lparr>c_jobs := js, c_taken := c_taken s @ [a]\<rparr>)) Q'"
proof -
  have "a < length Q" using inv jobs by (auto simp: session_inv_def jobs_inv_def)
  then obtain Q' where Q': "session_inv (swap_slot a s) Q'" "c_wslot (swap_slot a s) \<noteq> a" using swap_inv [OF inv] by blast
  have eq: "swap_slot a (s\<lparr>c_jobs := js, c_taken := c_taken s @ [a]\<rparr>) = (swap_slot a s)\<lparr>c_jobs := js, c_taken := c_taken s @ [a]\<rparr>"
    by (simp add: swap_slot_def)
  have fields: "c_jobs (swap_slot a s) = a # js" "c_taken (swap_slot a s) = c_taken s" using jobs by (simp_all add: swap_slot_def)
  have "session_inv ((swap_slot a s)\<lparr>c_jobs := js, c_taken := c_taken s @ [a]\<rparr>) Q'"
    using Q' fields by (auto simp: session_inv_def slots_inv_def jobs_inv_def calls_ok_def view_def)
  then show ?thesis using eq by auto
qed

definition nobody_loaded :: "nat \<Rightarrow> conc_session \<Rightarrow> bool" where
  "nobody_loaded a s \<longleftrightarrow> list_all (\<lambda>c. case c of Some (f, b, a', Loaded) \<Rightarrow> a' \<noteq> a | _ \<Rightarrow> True) (c_calls s)"

text \<open>A slot whose lock is free: nobody holds it, and it has at least one frame.\<close>

lemma free_slot:
  assumes inv: "session_inv s Q" and a: "a \<in> set (c_taken s)" "cs_lock (c_slots s ! a) = 0"
  shows "a < length Q" "slot_inv (unat (c_limit s)) (c_slots s ! a) (view a s) (Q ! a)" "\<forall>c\<in>set (view a s). \<not> holding c"
    and "of_nat FrameHeadLength \<le> cs_available (c_slots s ! a)"
proof -
  note I = inv [unfolded session_inv_def slots_inv_def jobs_inv_def]
  have "a \<in> {a. a < length Q \<and> started (Q ! a)}" using I a(1) by (metis (no_types, lifting) Un_iff set_append)
  then have st: "a < length Q" "started (Q ! a)" by simp_all
  then have S: "slot_inv (unat (c_limit s)) (c_slots s ! a) (view a s) (Q ! a)" using I by blast
  have free: "\<forall>c\<in>set (view a s). \<not> holding c"
    using holding_free [OF S a(2)] I by (simp add: view_def)
  obtain x xs where q: "Q ! a = x # xs" using st(2) by (cases "Q ! a") (auto simp: started_def)
  then have "8 \<le> length (concat (map snd (Q ! a)))" using S by (auto simp: slot_inv_def sizes_ok_def)
  then have "of_nat FrameHeadLength \<le> cs_available (c_slots s ! a)"
    using slot_sendable(2) [OF S free] by (simp add: word_le_nat_alt FrameHeadLength_def)
  then show "a < length Q" "slot_inv (unat (c_limit s)) (c_slots s ! a) (view a s) (Q ! a)" "\<forall>c\<in>set (view a s). \<not> holding c"
    "of_nat FrameHeadLength \<le> cs_available (c_slots s ! a)" using st S free by simp_all
qed

lemma send_inv:
  assumes inv: "session_inv s Q" and a: "a \<in> set (c_taken s)" "cs_lock (c_slots s ! a) = 0" and nobody: "nobody_loaded a s"
  shows "\<exists>Q'. session_inv (conc_act bl s (SendSlot a)) Q'"
proof -
  note I = inv [unfolded session_inv_def slots_inv_def jobs_inv_def]
  let ?sl = "c_slots s ! a"
  note free = free_slot(3) [OF inv a] and send = slot_sendable [OF free_slot(2,3) [OF inv a]]
  have unlocked: "only_unlocked (view a s)"
    unfolding only_unlocked_def
  proof (intro allI impI)
    fix f p assume c: "Some (f, p) \<in> set (view a s)"
    then have h: "\<not> holding (Some (f, p))" using free by blast
    from c obtain d where d: "d \<in> set (c_calls s)" "view_call a d = Some (f, p)" by (auto simp: view_def)
    then obtain b where "d = Some (f, b, a, p)" "p \<noteq> Retry" by (cases "(a, d)" rule: view_call.cases) (auto split: if_splits)
    moreover from this have "p \<noteq> Loaded" using nobody d(1) by (auto simp: nobody_loaded_def list_all_iff)
    ultimately show "\<exists>st. p = Unlocked st" using h by (cases p) auto
  qed
  have dist: "distinct (c_jobs s @ remove1 a (c_taken s) @ map fst (c_sent s) @ [a])"
    using I a(1) by (auto simp: set_remove1_eq)
  have set: "set (remove1 a (c_taken s)) \<union> {a} = set (c_taken s)" using I a(1) by (auto simp: set_remove1_eq)
  have act: "conc_act bl s (SendSlot a) = s\<lparr>c_taken := remove1 a (c_taken s), c_sent := c_sent s @ [(a, concat (map snd (Q ! a)))]\<rparr>"
    using a free_slot(4) [OF inv a] send(1) by simp
  let ?t = "s\<lparr>c_taken := remove1 a (c_taken s), c_sent := c_sent s @ [(a, concat (map snd (Q ! a)))]\<rparr>"
  have "jobs_inv ?t Q"
    unfolding jobs_inv_def
  proof (intro conjI)
    show "distinct (c_jobs ?t @ c_taken ?t @ map fst (c_sent ?t))" using dist by simp
    have "set (c_jobs ?t @ c_taken ?t @ map fst (c_sent ?t)) = set (c_jobs s @ c_taken s @ map fst (c_sent s))"
      using set by auto
    also have "\<dots> = {a. a < length Q \<and> started (Q ! a)}" using I by blast
    finally show "set (c_jobs ?t @ c_taken ?t @ map fst (c_sent ?t)) = {a. a < length Q \<and> started (Q ! a)}" .
    have "set (c_taken ?t @ map fst (c_sent ?t)) = set (c_taken s @ map fst (c_sent s))" using set by auto
    then show "c_wslot ?t \<notin> set (c_taken ?t @ map fst (c_sent ?t))" using I by simp
    show "\<forall>(b, bs)\<in>set (c_sent ?t). bs = concat (map snd (Q ! b)) \<and> only_unlocked (view b ?t)"
      using I unlocked by (auto simp: view_def)
    show "mset (c_accepted ?t) = sum_list (map finished Q)" using I by simp
  qed
  then have "session_inv (conc_act bl s (SendSlot a)) Q"
    unfolding act using inv by (simp add: session_inv_def slots_inv_def calls_ok_def view_def)
  then show ?thesis by blast
qed

section \<open>Runs\<close>

text \<open>
  A run is careful when frames have at least their header, the cursor of a full slot does not wrap, and no call has loaded
  a slot, but not yet locked it, at the moment the slot is sent.
\<close>

fun careful_act :: "conc_session \<Rightarrow> conc_action \<Rightarrow> bool" where
  "careful_act s (Begin i f) = (8 \<le> length f)"
| "careful_act s (Advance i) =
     (i < length (c_calls s) \<longrightarrow> (case c_calls s ! i of
        Some (f, b, a, Locked) \<Rightarrow> uint (cs_allot (c_slots s ! a)) + int (length f) < 2 ^ 32 | _ \<Rightarrow> True))"
| "careful_act s TakeJob = True"
| "careful_act s (SendSlot a) = nobody_loaded a s"

fun careful_run :: "u32 \<Rightarrow> conc_session \<Rightarrow> conc_action list \<Rightarrow> bool" where
  "careful_run bl s [] = True"
| "careful_run bl s (x # xs) = (careful_act s x \<and> careful_run bl (conc_act bl s x) xs)"

lemma act_inv:
  assumes inv: "session_inv s Q" and ok: "careful_act s x"
  shows "\<exists>Q'. session_inv (conc_act bl s x) Q'"
proof (cases x)
  case (Begin i f)
  then show ?thesis using load_inv [OF inv, of i f 0] ok inv by auto
next
  case (Advance i)
  show ?thesis
  proof (cases "i < length (c_calls s) \<and> c_calls s ! i \<noteq> None")
    case False
    then show ?thesis using Advance inv by (auto split: option.splits)
  next
    case True
    then obtain f b a p where c: "c_calls s ! i = Some (f, b, a, p)" by (cases "c_calls s ! i") auto
    have i: "i < length (c_calls s)" using True by simp
    have "\<exists>Q'. session_inv (advance bl i (f, b, a, p) s) Q'"
    proof (cases p)
      case Locked
      then have "uint (cs_allot (c_slots s ! a)) + int (length f) < 2 ^ 32" using c ok Advance i by simp
      then have "unat (cs_allot (c_slots s ! a)) + length f < 2 ^ 32"
        unfolding unat_eq_nat_uint by (simp add: nat_less_iff nat_add_distrib less_diff_conv flip: of_nat_less_iff [where 'a = int])
      then show ?thesis using allot_inv [OF inv i, of f b a] c Locked by simp
    next
      case Retry
      then show ?thesis using load_inv [OF inv i, of f b] call_facts(2) [OF inv i c] c by auto
    next
      case (Unlocked st)
      then show ?thesis using finish_inv [OF inv i, of f b a st] c by (simp del: advance.simps)
    qed (use lock_steps_inv [OF inv i c] in \<open>simp_all del: advance.simps\<close>)
    then show ?thesis using Advance i c by (simp del: advance.simps)
  qed
next
  case TakeJob
  then show ?thesis using take_inv [OF inv] inv by (auto split: list.splits)
next
  case (SendSlot a)
  show ?thesis
  proof (cases "a \<in> set (c_taken s) \<and> cs_lock (c_slots s ! a) = 0")
    case True
    then show ?thesis using send_inv [OF inv, of a bl] ok SendSlot by (simp del: conc_act.simps)
  next
    case False
    then show ?thesis using SendSlot inv by auto
  qed
qed

lemma conc_run_inv: "session_inv s Q \<Longrightarrow> careful_run bl s xs \<Longrightarrow> \<exists>Q'. session_inv (conc_run bl s xs) Q'"
proof (induction xs arbitrary: s Q)
  case (Cons x xs)
  then have "careful_act s x" by simp
  then obtain Q1 where "session_inv (conc_act bl s x) Q1" using act_inv [OF Cons.prems(1)] by blast
  then show ?case using Cons.IH Cons.prems(2) by (auto simp: conc_run_def)
qed (auto simp: conc_run_def)

lemma new_inv: "k < 2 ^ 32 \<Longrightarrow> length buf = unat n \<Longrightarrow> session_inv (conc_new buf n k) [[]]"
  using new_slot_inv [of buf n k]
  by (auto simp: session_inv_def slots_inv_def jobs_inv_def calls_ok_def conc_new_def view_def started_def finished_def map_replicate)

text \<open>When no call is under way and no job is left, everything has been sent.\<close>

lemma quiet_sent:
  assumes inv: "session_inv s Q" and quiet: "quiet s"
  shows "\<exists>gss. map snd (c_sent s) = map concat gss \<and> mset (concat gss) = mset (c_accepted s)"
proof -
  note I = inv [unfolded session_inv_def slots_inv_def jobs_inv_def]
  have views: "c = None" if "c \<in> set (view a s)" for c a using quiet that by (auto simp: quiet_def view_def)
  have done': "fst x = None" if a: "a < length Q" and x: "x \<in> set (Q ! a)" for a x
  proof (cases "fst x")
    case (Some i)
    from x obtain k where k: "k < length (Q ! a)" "Q ! a ! k = x" by (auto simp: in_set_conv_nth)
    have "owners_agree (view a s) (Q ! a)" using I a by (auto simp: slot_inv_def)
    from owners_agreeD(1) [OF this k(1), of i] k(2) Some obtain p
      where "i < length (view a s)" "view a s ! i = Some (snd x, p)" by auto
    then show ?thesis using views [of "view a s ! i" a] nth_mem by fastforce
  qed simp
  have fin: "finished (Q ! a) = mset (map snd (Q ! a))" if "a < length Q" for a
    using done' [OF that] by (simp add: finished_def filter_id_conv cong: filter_cong)
  have slots: "set (map fst (c_sent s)) = {a. a < length Q \<and> started (Q ! a)}" "distinct (map fst (c_sent s))"
    using I quiet by (simp_all add: quiet_def)
  let ?gss = "map (\<lambda>x. map snd (Q ! fst x)) (c_sent s)"
  have "map snd (c_sent s) = map concat ?gss" using I by (auto intro!: map_cong)
  moreover have "mset (concat ?gss) = mset (c_accepted s)"
  proof -
    have "mset (concat ?gss) = sum_list (map (\<lambda>a. mset (map snd (Q ! a))) (map fst (c_sent s)))"
      by (simp add: mset_concat comp_def)
    also have "\<dots> = (\<Sum>a\<in>{a. a < length Q \<and> started (Q ! a)}. mset (map snd (Q ! a)))"
      using slots by (simp only: sum_list_distinct_conv_sum_set)
    also have "\<dots> = (\<Sum>a<length Q. mset (map snd (Q ! a)))"
    proof (rule sum.mono_neutral_left)
      show "\<forall>a\<in>{..<length Q} - {a. a < length Q \<and> started (Q ! a)}. mset (map snd (Q ! a)) = {#}"
      proof
        fix a assume "a \<in> {..<length Q} - {a. a < length Q \<and> started (Q ! a)}"
        then have a: "a < length Q" "\<not> started (Q ! a)" by auto
        then have "Q ! a = []" using done' [OF a(1)] by (cases "Q ! a") (auto simp: started_def)
        then show "mset (map snd (Q ! a)) = {#}" by simp
      qed
    qed auto
    also have "\<dots> = (\<Sum>a<length Q. finished (Q ! a))" using fin by (intro sum.cong) auto
    also have "\<dots> = sum_list (map finished Q)" by (simp add: sum_list_sum_nth atLeast0LessThan)
    finally show ?thesis using I by simp
  qed
  ultimately show ?thesis by blast
qed

section \<open>Properties\<close>

text \<open>C6: whatever the interleaving of any number of calls and workers, when no call is under way and no job is left every
  accepted frame has been sent, whole, exactly once and by one write together with its slot's other frames, and
  nothing else has been sent: provided that no slot is sent while some call has loaded it and not yet locked it.\<close>

theorem frames_sent_once:
  assumes "k < 2 ^ 32" "length buf = unat n" "careful_run bl (conc_new buf n k) xs" "quiet (conc_run bl (conc_new buf n k) xs)"
  shows "\<exists>gss. map snd (c_sent (conc_run bl (conc_new buf n k) xs)) = map concat gss
    \<and> mset (concat gss) = mset (c_accepted (conc_run bl (conc_new buf n k) xs))"
proof -
  obtain Q where "session_inv (conc_run bl (conc_new buf n k) xs) Q" using conc_run_inv [OF new_inv [OF assms(1,2)] assms(3)] by blast
  then show ?thesis using quiet_sent assms(4) by blast
qed

definition frame_a :: "u8 list" where "frame_a = [8, 0, 0, 0, 0, 0, 51, 0]"
definition frame_b :: "u8 list" where "frame_b = [9, 0, 0, 0, 0, 0, 51, 0, 7]"

text \<open>The second call finds the slot of 16 bytes full while the first one is still copying.\<close>

definition two_slots :: "conc_action list" where
  "two_slots = [Begin 0 frame_a, Begin 1 frame_b, Advance 0, Advance 0, Advance 1, Advance 1, Advance 1, Advance 1, Advance 1,
     Advance 0, Advance 1, Advance 1, Advance 1, Advance 0, Advance 1, Advance 1, TakeJob, SendSlot 1, Advance 0, Advance 0, TakeJob, SendSlot 0]"

lemma frames_sent_once_witness:
  "\<exists>gss. map snd (c_sent (conc_run 4 (conc_new (replicate 16 170) 16 2) two_slots)) = map concat gss
     \<and> mset (concat gss) = mset (c_accepted (conc_run 4 (conc_new (replicate 16 170) 16 2) two_slots)) \<and> gss \<noteq> []"
proof -
  have run: "careful_run 4 (conc_new (replicate 16 170) 16 2) two_slots" "quiet (conc_run 4 (conc_new (replicate 16 170) 16 2) two_slots)"
    and sent: "map snd (c_sent (conc_run 4 (conc_new (replicate 16 170) 16 2) two_slots)) = [frame_b, frame_a]" by code_simp+
  have "\<exists>gss. map snd (c_sent (conc_run 4 (conc_new (replicate 16 170) 16 2) two_slots)) = map concat gss
      \<and> mset (concat gss) = mset (c_accepted (conc_run 4 (conc_new (replicate 16 170) 16 2) two_slots))"
    by (rule frames_sent_once [OF _ _ run]) simp_all
  then obtain gss where g: "map snd (c_sent (conc_run 4 (conc_new (replicate 16 170) 16 2) two_slots)) = map concat gss"
    "mset (concat gss) = mset (c_accepted (conc_run 4 (conc_new (replicate 16 170) 16 2) two_slots))" by blast
  then have "gss \<noteq> []" using sent by (cases gss) (simp_all del: map_map)
  then show ?thesis using g by blast
qed

text \<open>a call that has loaded the slot just before the worker replaces it, and locks it after the worker has seen the lock
  free, writes into a slot that is sent already: its frame is accepted, with a nil error, and never sent.\<close>

theorem accepted_frame_lost:
  "let s = conc_run bl (conc_new (replicate 64 170) 64 2)
      ([Begin 0 frame_a] @ replicate 6 (Advance 0) @ [Begin 1 frame_b, TakeJob, SendSlot 0] @ replicate 6 (Advance 1))
   in quiet s \<and> c_accepted s = [frame_a, frame_b] \<and> map snd (c_sent s) = [frame_a]"
  by code_simp

end
