(* ===== verification/Pools.thy ===== *)
theory Pools
  imports SlotConc
begin

text \<open>
  The buffers of \<open>transport/tcp_session.go\<close>: all sessions of a process take their read buffers and the buffers of their slots from
  one pool and give them back, a slot when it has been sent and a session some time after \<open>Close\<close>. The steps on
  the slots are those of \<open>SlotConc\<close>, now on a memory in which a buffer can have more than one holder.
\<close>

section \<open>The process\<close>

text \<open>
  \<open>ps_bufs\<close> are the buffers of the slots, in their order; what a slot's buffer holds is what the memory has. \<open>ps_private\<close> is for the
  specification: the bytes that the read buffer would have if nobody else wrote to it. \<open>ps_waited\<close>: \<open>Close\<close> has got past
  \<open>Wait\<close> and has closed the connection; \<open>ps_released\<close>: its timer has given the buffers back.
\<close>

record pool_session =
  ps_conc :: conc_session
  ps_bufs :: "nat list"
  ps_rBuf :: nat
  ps_private :: "u8 list"
  ps_state :: u32
  ps_waited :: bool
  ps_released :: bool

record pool_world =
  pw_mem :: "u8 list list"
  pw_pool :: "nat list"
  pw_sessions :: "pool_session list"

text \<open>\<open>bytesPool.Get\<close>: any buffer that is in the pool, or a new one of \<open>n\<close> bytes.\<close>

definition pool_New :: "u32 \<Rightarrow> u8 list" where
  "pool_New n = replicate (unat n) 0"

definition pool_Get :: "u32 \<Rightarrow> nat \<Rightarrow> pool_world \<Rightarrow> nat \<times> pool_world" where
  "pool_Get n k w =
     (if k < length (pw_pool w) then (pw_pool w ! k, w\<lparr>pw_pool := take k (pw_pool w) @ drop (Suc k) (pw_pool w)\<rparr>)
      else (length (pw_mem w), w\<lparr>pw_mem := pw_mem w @ [pool_New n]\<rparr>))"

definition pool_Put :: "nat list \<Rightarrow> pool_world \<Rightarrow> pool_world" where
  "pool_Put bs w = w\<lparr>pw_pool := pw_pool w @ bs\<rparr>"

section \<open>Steps\<close>

text \<open>A session with the buffers of its slots as they are in memory.\<close>

definition with_bufs :: "u8 list list \<Rightarrow> conc_session \<Rightarrow> conc_session" where
  "with_bufs B s = s\<lparr>c_slots := map2 (\<lambda>b sl. sl\<lparr>cs_buf := b\<rparr>) B (c_slots s)\<rparr>"

definition seen :: "u8 list list \<Rightarrow> pool_session \<Rightarrow> conc_session" where
  "seen mem p = with_bufs (map ((!) mem) (ps_bufs p)) (ps_conc p)"

text \<open>The slot into whose buffer a step of a call copies its frame.\<close>

fun copied_slot :: "conc_session \<Rightarrow> conc_action \<Rightarrow> nat option" where
  "copied_slot s (Advance i) =
     (if i < length (c_calls s) then (case c_calls s ! i of Some (f, b, a, Allotted st) \<Rightarrow> Some a | _ \<Rightarrow> None) else None)"
| "copied_slot s x = None"

text \<open>The slot that a worker has sent and gives back.\<close>

fun sent_slot :: "conc_session \<Rightarrow> conc_action \<Rightarrow> nat option" where
  "sent_slot s (SendSlot a) = (if a \<in> set (c_taken s) \<and> cs_lock (c_slots s ! a) = 0 then Some a else None)"
| "sent_slot s x = None"

text \<open>
  A step of a call or a worker. A new slot takes its buffer from the pool; a closed connection takes no more bytes; a call on a
  session that has been closed ends at once.
\<close>

definition session_act :: "u32 \<Rightarrow> u32 \<Rightarrow> nat \<Rightarrow> nat \<Rightarrow> conc_action \<Rightarrow> pool_world \<Rightarrow> pool_world" where
  "session_act bl n j k x w =
     (let p = pw_sessions w ! j;
          s = seen (pw_mem w) p;
          (new, w1) = pool_Get n k w;
          s' = conc_act bl (s\<lparr>c_new := pw_mem w1 ! new\<rparr>) x;
          grown = length (c_slots s) < length (c_slots s');
          w2 = (if grown then w1 else w);
          mem = (case copied_slot s x of None \<Rightarrow> pw_mem w2 | Some a \<Rightarrow> (pw_mem w2)[ps_bufs p ! a := cs_buf (c_slots s' ! a)]);
          p' = p\<lparr>ps_conc := (if ps_waited p then s'\<lparr>c_sent := c_sent s\<rparr> else s'), ps_bufs := ps_bufs p @ (if grown then [new] else [])\<rparr>
      in pool_Put (case sent_slot s x of None \<Rightarrow> [] | Some a \<Rightarrow> [ps_bufs p ! a])
           (w2\<lparr>pw_mem := mem, pw_sessions := (pw_sessions w)[j := p']\<rparr>))"

text \<open>
  A session is made with two buffers of the pool and room for \<open>c\<close> calls at a time; a read of the connection; the steps of \<open>Close\<close>.
\<close>

datatype pool_action =
    OpenSession nat nat nat | OnSession nat nat conc_action | ReadConn nat nat "u8 list" | CloseMark nat | CloseConn nat | CloseRelease nat

definition open_session_act :: "u32 \<Rightarrow> nat \<Rightarrow> nat \<Rightarrow> nat \<Rightarrow> pool_world \<Rightarrow> pool_world" where
  "open_session_act n k1 k2 c w =
     (let (r, w) = pool_Get n k1 w;
          (b, w) = pool_Get n k2 w;
          p = \<lparr>ps_conc = conc_new (pw_mem w ! b) n c, ps_bufs = [b], ps_rBuf = r, ps_private = pw_mem w ! r,
               ps_state = StateWork, ps_waited = False, ps_released = False\<rparr>
      in w\<lparr>pw_sessions := pw_sessions w @ [p]\<rparr>)"

fun starts_call :: "conc_action \<Rightarrow> bool" where
  "starts_call (Begin i f) = True" | "starts_call _ = False"

definition on_session :: "nat \<Rightarrow> (pool_session \<Rightarrow> pool_session) \<Rightarrow> pool_world \<Rightarrow> pool_world" where
  "on_session j f w = w\<lparr>pw_sessions := (pw_sessions w)[j := f (pw_sessions w ! j)]\<rparr>"

fun pool_act :: "u32 \<Rightarrow> u32 \<Rightarrow> pool_action \<Rightarrow> pool_world \<Rightarrow> pool_world" where
  "pool_act bl n (OpenSession k1 k2 c) w = open_session_act n k1 k2 c w"
| "pool_act bl n (OnSession j k x) w =
     (if j < length (pw_sessions w) \<and> \<not> (starts_call x \<and> ps_state (pw_sessions w ! j) \<noteq> StateWork) then session_act bl n j k x w else w)"
| "pool_act bl n (ReadConn j pos bs) w =
     (if j < length (pw_sessions w) \<and> \<not> ps_waited (pw_sessions w ! j) \<and> pos + length bs \<le> unat n
      then (let r = ps_rBuf (pw_sessions w ! j) in
        (on_session j (\<lambda>p. p\<lparr>ps_private := overwrite (ps_private p) pos bs\<rparr>) w)\<lparr>pw_mem := (pw_mem w)[r := overwrite (pw_mem w ! r) pos bs]\<rparr>)
      else w)"
| "pool_act bl n (CloseMark j) w = (if j < length (pw_sessions w) then on_session j (\<lambda>p. p\<lparr>ps_state := StateDie\<rparr>) w else w)"
| "pool_act bl n (CloseConn j) w =
     (if j < length (pw_sessions w) \<and> ps_state (pw_sessions w ! j) = StateDie
         \<and> c_jobs (ps_conc (pw_sessions w ! j)) = [] \<and> c_taken (ps_conc (pw_sessions w ! j)) = []
      then on_session j (\<lambda>p. p\<lparr>ps_waited := True\<rparr>) w else w)"
| "pool_act bl n (CloseRelease j) w =
     (if j < length (pw_sessions w) \<and> ps_waited (pw_sessions w ! j) \<and> \<not> ps_released (pw_sessions w ! j)
      then (let p = pw_sessions w ! j in
        pool_Put [ps_rBuf p, ps_bufs p ! c_wslot (ps_conc p)] (on_session j (\<lambda>p. p\<lparr>ps_released := True\<rparr>) w))
      else w)"

definition pool_run :: "u32 \<Rightarrow> u32 \<Rightarrow> pool_action list \<Rightarrow> pool_world \<Rightarrow> pool_world" where
  "pool_run bl n xs w = foldl (\<lambda>w x. pool_act bl n x w) w xs"

definition empty_world :: pool_world where
  "empty_world = \<lparr>pw_mem = [], pw_pool = [], pw_sessions = []\<rparr>"

text \<open>
  A run is careful when the steps on each session are, and when no call is still under way when \<open>Close\<close> closes the connection.
\<close>

fun careful_pool_act :: "pool_world \<Rightarrow> pool_action \<Rightarrow> bool" where
  "careful_pool_act w (OpenSession k1 k2 c) = (int c < 2 ^ 32)"
| "careful_pool_act w (OnSession j k x) = (j < length (pw_sessions w) \<longrightarrow> careful_act (ps_conc (pw_sessions w ! j)) x)"
| "careful_pool_act w (CloseConn j) = (j < length (pw_sessions w) \<longrightarrow> list_all (\<lambda>c. c = None) (c_calls (ps_conc (pw_sessions w ! j))))"
| "careful_pool_act w x = True"

fun careful_pool_run :: "u32 \<Rightarrow> u32 \<Rightarrow> pool_world \<Rightarrow> pool_action list \<Rightarrow> bool" where
  "careful_pool_run bl n w [] = True"
| "careful_pool_run bl n w (x # xs) = (careful_pool_act w x \<and> careful_pool_run bl n (pool_act bl n x w) xs)"

inductive pool_step :: "u32 \<Rightarrow> u32 \<Rightarrow> pool_world \<Rightarrow> pool_world \<Rightarrow> bool" for bl n where
  pool_step: "careful_pool_act w x \<Longrightarrow> pool_step bl n w (pool_act bl n x w)"

inductive_cases pool_stepE: "pool_step bl n w w'"

lemma pool_run_reach: "reach init (pool_step bl n) w \<Longrightarrow> careful_pool_run bl n w xs \<Longrightarrow> reach init (pool_step bl n) (pool_run bl n xs w)"
  by (induction xs arbitrary: w) (auto simp: pool_run_def intro: reach_step pool_step)

section \<open>A step sees only its own buffers\<close>

lemma with_bufs_simps [simp]:
  "c_limit (with_bufs B s) = c_limit s" "c_new (with_bufs B s) = c_new s" "c_wslot (with_bufs B s) = c_wslot s"
  "c_calls (with_bufs B s) = c_calls s" "c_jobs (with_bufs B s) = c_jobs s" "c_taken (with_bufs B s) = c_taken s"
  "c_sent (with_bufs B s) = c_sent s" "c_accepted (with_bufs B s) = c_accepted s" "c_refused (with_bufs B s) = c_refused s"
  by (simp_all add: with_bufs_def)

lemma with_bufs_length [simp]: "length B = length (c_slots s) \<Longrightarrow> length (c_slots (with_bufs B s)) = length (c_slots s)"
  by (simp add: with_bufs_def)

lemma with_bufs_nth [simp]:
  "length B = length (c_slots s) \<Longrightarrow> a < length (c_slots s) \<Longrightarrow> c_slots (with_bufs B s) ! a = (c_slots s ! a)\<lparr>cs_buf := B ! a\<rparr>"
  by (simp add: with_bufs_def)

lemma with_bufs_again: "length B = length (c_slots s) \<Longrightarrow> length B' = length (c_slots s) \<Longrightarrow> with_bufs B' (with_bufs B s) = with_bufs B' s"
  by (simp add: with_bufs_def list_eq_iff_nth_eq)

lemma with_bufs_set_call: "with_bufs B (set_call i c s) = set_call i c (with_bufs B s)"
  by (simp add: with_bufs_def set_call_def)

lemma with_bufs_fields:
  "with_bufs B (s\<lparr>c_new := v\<rparr>) = (with_bufs B s)\<lparr>c_new := v\<rparr>" "with_bufs B (s\<lparr>c_calls := cs\<rparr>) = (with_bufs B s)\<lparr>c_calls := cs\<rparr>"
  "with_bufs B (s\<lparr>c_jobs := js\<rparr>) = (with_bufs B s)\<lparr>c_jobs := js\<rparr>" "with_bufs B (s\<lparr>c_taken := js\<rparr>) = (with_bufs B s)\<lparr>c_taken := js\<rparr>"
  "with_bufs B (s\<lparr>c_sent := ss\<rparr>) = (with_bufs B s)\<lparr>c_sent := ss\<rparr>" "with_bufs B (s\<lparr>c_accepted := fs\<rparr>) = (with_bufs B s)\<lparr>c_accepted := fs\<rparr>"
  "with_bufs B (s\<lparr>c_refused := fs\<rparr>) = (with_bufs B s)\<lparr>c_refused := fs\<rparr>"
  by (simp_all add: with_bufs_def)

lemma with_bufs_on_slot:
  assumes "length B = length (c_slots s)" "a < length (c_slots s)" "\<And>sl b. (g sl)\<lparr>cs_buf := b\<rparr> = g (sl\<lparr>cs_buf := b\<rparr>)"
  shows "with_bufs B (on_slot a g s) = on_slot a g (with_bufs B s)"
proof -
  have "map2 (\<lambda>b sl. sl\<lparr>cs_buf := b\<rparr>) B ((c_slots s)[a := g (c_slots s ! a)])
      = (map2 (\<lambda>b sl. sl\<lparr>cs_buf := b\<rparr>) B (c_slots s))[a := g (map2 (\<lambda>b sl. sl\<lparr>cs_buf := b\<rparr>) B (c_slots s) ! a)]"
    using assms by (intro nth_equalityI) (auto simp: nth_list_update)
  then show ?thesis by (simp add: with_bufs_def on_slot_def)
qed

lemma with_bufs_copy:
  assumes "length B = length (c_slots s)" "a < length (c_slots s)"
  shows "on_slot a (\<lambda>sl. sl\<lparr>cs_buf := overwrite (cs_buf sl) st f\<rparr>) (with_bufs B s)
    = with_bufs (B[a := overwrite (B ! a) st f]) (on_slot a (\<lambda>sl. sl\<lparr>cs_buf := overwrite (cs_buf sl) st f\<rparr>) s)"
proof -
  have "(map2 (\<lambda>b sl. sl\<lparr>cs_buf := b\<rparr>) B (c_slots s))[a := (map2 (\<lambda>b sl. sl\<lparr>cs_buf := b\<rparr>) B (c_slots s) ! a)\<lparr>cs_buf := overwrite (cs_buf (map2 (\<lambda>b sl. sl\<lparr>cs_buf := b\<rparr>) B (c_slots s) ! a)) st f\<rparr>]
      = map2 (\<lambda>b sl. sl\<lparr>cs_buf := b\<rparr>) (B[a := overwrite (B ! a) st f]) ((c_slots s)[a := (c_slots s ! a)\<lparr>cs_buf := overwrite (cs_buf (c_slots s ! a)) st f\<rparr>])"
    using assms by (intro nth_equalityI) (auto simp: nth_list_update)
  then show ?thesis by (simp add: with_bufs_def on_slot_def)
qed

lemma with_bufs_swap:
  "length B = length (c_slots s) \<Longrightarrow> swap_slot a (with_bufs B s) = with_bufs (B @ (if c_wslot s = a then [c_new s] else [])) (swap_slot a s)"
  by (simp add: swap_slot_def with_bufs_def new_conc_slot_def)

text \<open>
  What a step from \<open>s\<close> to \<open>s'\<close> makes of buffers \<open>B\<close> that need not be those of \<open>s\<close>: a new slot has the new buffer, the others change
  in the slot written to only, and what agrees with \<open>s\<close> goes on agreeing.
\<close>

definition bufs_step :: "nat option \<Rightarrow> u8 list list \<Rightarrow> conc_session \<Rightarrow> u8 list list \<Rightarrow> conc_session \<Rightarrow> bool" where
  "bufs_step written B s B' s' \<longleftrightarrow> length B' = length (c_slots s') \<and> length B \<le> length B' \<and> length B' \<le> Suc (length B)
     \<and> (\<forall>a<length B. (written \<noteq> Some a \<longrightarrow> B' ! a = B ! a) \<and> (B ! a = cs_buf (c_slots s ! a) \<longrightarrow> B' ! a = cs_buf (c_slots s' ! a)))
     \<and> (\<forall>a. length B \<le> a \<and> a < length B' \<longrightarrow> B' ! a = c_new s \<and> cs_buf (c_slots s' ! a) = c_new s)"

lemma bufs_step_same:
  assumes "length B = length (c_slots s)" "length (c_slots s') = length (c_slots s)"
    and "\<And>a. a < length B \<Longrightarrow> cs_buf (c_slots s' ! a) = cs_buf (c_slots s ! a)"
  shows "bufs_step w B s B s'"
  using assms by (auto simp: bufs_step_def)

lemma on_slot_bufs:
  assumes "\<And>sl. cs_buf (g sl) = cs_buf sl" "b < length (c_slots s)"
  shows "cs_buf (c_slots (on_slot a g s) ! b) = cs_buf (c_slots s ! b)"
  using assms by (cases "a = b") (simp_all add: on_slot_def)

lemma on_slot_length [simp]: "length (c_slots (on_slot a g s)) = length (c_slots s)"
  by (simp add: on_slot_def)

lemma set_call_slots [simp]: "c_slots (set_call i c s) = c_slots s"
  by (simp add: set_call_def)

lemma step_fields [simp]:
  "c_wslot (set_call i c s) = c_wslot s" "c_new (set_call i c s) = c_new s" "c_limit (set_call i c s) = c_limit s"
  "c_wslot (on_slot a g s) = c_wslot s" "c_new (on_slot a g s) = c_new s" "c_limit (on_slot a g s) = c_limit s"
  "c_calls (on_slot a g s) = c_calls s"
  by (simp_all add: set_call_def on_slot_def)

lemma swap_bufs_step:
  assumes "length B = length (c_slots s)"
  shows "bufs_step w B s (B @ (if c_wslot s = a then [c_new s] else [])) (swap_slot a s)"
  using assms by (auto simp: bufs_step_def swap_slot_def nth_append new_conc_slot_def)

lemma bufs_step_before:
  assumes "bufs_step w B t B' t'" "length (c_slots t) = length B" "c_new t = c_new s"
    and "\<And>a. a < length B \<Longrightarrow> cs_buf (c_slots t ! a) = cs_buf (c_slots s ! a)"
  shows "bufs_step w B s B' t'"
  using assms by (simp add: bufs_step_def)

lemma allot_with_bufs:
  assumes B: "length B = length (c_slots s)" and a: "a < length (c_slots s)"
  shows "\<exists>B'. allot bl i f busy a (with_bufs B s) = with_bufs B' (allot bl i f busy a s) \<and> bufs_step w B s B' (allot bl i f busy a s)"
proof -
  define e where "e = cs_allot (c_slots s ! a) + of_nat (length f)"
  let ?g = "\<lambda>sl. sl\<lparr>cs_allot := e\<rparr>"
  let ?t = "on_slot a ?g s"
  have g: "on_slot a ?g (with_bufs B s) = with_bufs B ?t" using with_bufs_on_slot [OF B a, of ?g] by simp
  have bufs: "cs_buf (c_slots (on_slot a ?g s) ! b) = cs_buf (c_slots s ! b)" if "b < length B" for b
    using on_slot_bufs [of ?g] that B by simp
  have same: "bufs_step w B s B (set_call i c (on_slot a ?g s))" for c by (rule bufs_step_same) (simp_all add: B bufs)
  have tB: "length B = length (c_slots (set_call i c ?t))" for c using B by simp
  have swap: "bufs_step w B s (B @ (if c_wslot ?t = a then [c_new s] else [])) (swap_slot a (set_call i c ?t))" for c
    using bufs_step_before [OF swap_bufs_step [OF tB [of c], of w a], of s] B bufs by (simp cong: if_cong)
  have allot: "allot bl i f busy a r = (if e > c_limit r then
        (if e - of_nat (length f) > c_limit r then
           (if busy > bl then set_call i (Some (f, busy, a, GaveUp)) (on_slot a ?g r) else set_call i (Some (f, busy + 1, a, Over)) (on_slot a ?g r))
         else set_call i (Some (f, 0, a, Over)) (swap_slot a (on_slot a ?g r)))
      else set_call i (Some (f, busy, a, Allotted (e - of_nat (length f)))) (on_slot a ?g r))"
    if "cs_allot (c_slots r ! a) = cs_allot (c_slots s ! a)" for r
    using that by (simp add: allot_def Let_def e_def on_slot_def)
  have l: "allot bl i f busy a (with_bufs B s) = (if e > c_limit s then
        (if e - of_nat (length f) > c_limit s then
           (if busy > bl then with_bufs B (set_call i (Some (f, busy, a, GaveUp)) ?t) else with_bufs B (set_call i (Some (f, busy + 1, a, Over)) ?t))
         else with_bufs (B @ (if c_wslot ?t = a then [c_new s] else [])) (swap_slot a (set_call i (Some (f, 0, a, Over)) ?t)))
      else with_bufs B (set_call i (Some (f, busy, a, Allotted (e - of_nat (length f)))) ?t))"
    using allot [of "with_bufs B s"] B a with_bufs_swap [OF tB, of a "Some (f, 0, a, Over)"]
    by (simp add: g with_bufs_set_call set_call_swap)
  show ?thesis using same swap allot [of s] unfolding l by (auto simp: set_call_swap)
qed
lemma lock_add_bufs: "(lock_add n sl)\<lparr>cs_buf := b\<rparr> = lock_add n (sl\<lparr>cs_buf := b\<rparr>)" "cs_buf (lock_add n sl) = cs_buf sl"
  by (simp_all add: lock_add_def)

lemma bufs_step_slot:
  assumes "length B = length (c_slots s)" "a < length (c_slots s)" "\<And>sl. cs_buf (g sl) = cs_buf sl" "\<And>sl b. (g sl)\<lparr>cs_buf := b\<rparr> = g (sl\<lparr>cs_buf := b\<rparr>)"
    and "c_slots t = c_slots (on_slot a g s)"
  shows "bufs_step w B s B t" "with_bufs B (on_slot a g s) = on_slot a g (with_bufs B s)"
proof -
  show "bufs_step w B s B t"
    by (rule bufs_step_same) (use assms(1,3,5) on_slot_bufs [of g] in auto)
qed (rule with_bufs_on_slot [OF assms(1,2,4)])

lemma advance_with_bufs:
  assumes B: "length B = length (c_slots s)" and a: "a < length (c_slots s)"
  shows "\<exists>B'. advance bl i (f, busy, a, p) (with_bufs B s) = with_bufs B' (advance bl i (f, busy, a, p) s)
    \<and> bufs_step (case p of Allotted st \<Rightarrow> Some a | _ \<Rightarrow> None) B s B' (advance bl i (f, busy, a, p) s)"
proof -
  note slot = bufs_step_slot [OF B a]
  have lock: "with_bufs B (on_slot a (lock_add n) s) = on_slot a (lock_add n) (with_bufs B s)" for n
    by (rule slot(2)) (simp_all add: lock_add_bufs)
  have lock': "bufs_step None B s B t" if "c_slots t = c_slots (on_slot a (lock_add n) s)" for n t
    by (rule slot(1) [where g = "lock_add n"]) (simp_all add: lock_add_bufs that)
  have same: "bufs_step None B s B t" if "c_slots t = c_slots s" for t
    by (rule bufs_step_same) (simp_all add: B that)
  note simps = with_bufs_set_call lock with_bufs_fields
  show ?thesis
  proof (cases p)
    case Loaded
    then show ?thesis using lock' [of _ 1] by (intro exI [of _ B]) (simp add: simps)
  next
    case Locked
    then show ?thesis using allot_with_bufs [OF B a] by simp
  next
    case GaveUp
    then show ?thesis using lock' [of _ "-1"] by (intro exI [of _ B]) (simp add: simps)
  next
    case Over
    then show ?thesis using lock' [of _ "-1"] by (intro exI [of _ B]) (simp add: simps)
  next
    case Retry
    then show ?thesis using same by (intro exI [of _ B]) (simp add: simps)
  next
    case (Allotted st)
    let ?g = "\<lambda>sl. sl\<lparr>cs_buf := overwrite (cs_buf sl) (unat st) f\<rparr>" and ?B = "B[a := overwrite (B ! a) (unat st) f]"
    have "bufs_step (Some a) B s ?B (set_call i c (on_slot a ?g s))" for c
      using B a by (auto simp: bufs_step_def on_slot_def nth_list_update)
    then show ?thesis using Allotted with_bufs_copy [OF B a] by (intro exI [of _ ?B]) (simp add: with_bufs_set_call)
  next
    case (Copied st)
    let ?g = "\<lambda>sl. sl\<lparr>cs_available := cs_available sl + of_nat (length f)\<rparr>"
    have "with_bufs B (on_slot a ?g s) = on_slot a ?g (with_bufs B s)" by (rule slot(2)) simp_all
    moreover have "bufs_step None B s B t" if "c_slots t = c_slots (on_slot a ?g s)" for t
      by (rule slot(1) [where g = ?g]) (simp_all add: that)
    ultimately show ?thesis using Copied by (intro exI [of _ B]) (simp add: with_bufs_set_call)
  next
    case (Published st)
    then show ?thesis using lock' [of _ "-1"] by (intro exI [of _ B]) (simp add: simps)
  next
    case (Unlocked st)
    then show ?thesis using same by (intro exI [of _ B]) (simp add: simps)
  qed
qed

lemma call_slot: "calls_ok s \<Longrightarrow> i < length (c_calls s) \<Longrightarrow> c_calls s ! i = Some (f, b, a, p) \<Longrightarrow> a < length (c_slots s)"
  unfolding calls_ok_def by (metis nth_mem)

lemma act_with_bufs:
  assumes B: "length B = length (c_slots s)" and ok: "calls_ok s" "\<forall>a\<in>set (c_taken s). a < length (c_slots s)"
    and sent: "\<And>a. sent_slot s x = Some a \<Longrightarrow> B ! a = cs_buf (c_slots s ! a)"
  shows "\<exists>B'. conc_act bl (with_bufs B s) x = with_bufs B' (conc_act bl s x) \<and> bufs_step (copied_slot s x) B s B' (conc_act bl s x)"
proof -
  have same: "bufs_step w B s B t" if "c_slots t = c_slots s" for t w
    by (rule bufs_step_same) (simp_all add: B that)
  show ?thesis
  proof (cases x)
    case (Begin i f)
    then show ?thesis using same by (intro exI [of _ B]) (simp add: with_bufs_set_call)
  next
    case (Advance i)
    show ?thesis
    proof (cases "i < length (c_calls s) \<and> c_calls s ! i \<noteq> None")
      case False
      then show ?thesis using Advance same by (intro exI [of _ B]) (auto split: option.splits)
    next
      case True
      then obtain f b a p where c: "c_calls s ! i = Some (f, b, a, p)" by (cases "c_calls s ! i") auto
      then have "copied_slot s x = (case p of Allotted st \<Rightarrow> Some a | _ \<Rightarrow> None)" using True Advance by simp
      then show ?thesis using advance_with_bufs [OF B call_slot [OF ok(1) _ c], of bl i f b p] True Advance c by (simp del: advance.simps)
    qed
  next
    case TakeJob
    show ?thesis
    proof (cases "c_jobs s")
      case Nil
      then show ?thesis using TakeJob same by (intro exI [of _ B]) simp
    next
      case (Cons a js)
      let ?t = "s\<lparr>c_jobs := js, c_taken := c_taken s @ [a]\<rparr>"
      have t: "length B = length (c_slots ?t)" using B by simp
      have "bufs_step w B s B' t'" if "bufs_step w B ?t B' t'" for w B' t'
        by (rule bufs_step_before [OF that]) (simp_all add: B)
      then show ?thesis using with_bufs_swap [OF t, of a] swap_bufs_step [OF t, of None a] TakeJob Cons by (auto simp: with_bufs_fields)
    qed
  next
    case (SendSlot a)
    show ?thesis
    proof (cases "a \<in> set (c_taken s) \<and> cs_lock (c_slots s ! a) = 0")
      case True
      then have a: "a < length (c_slots s)" and b: "B ! a = cs_buf (c_slots s ! a)" using ok(2) sent [of a] SendSlot by simp_all
      have slot: "c_slots (with_bufs B s) ! a = c_slots s ! a" using B a b by simp
      show ?thesis using True SendSlot same slot by (intro exI [of _ B]) (simp add: with_bufs_fields)
    next
      case False
      then have "conc_act bl s x = s" "conc_act bl (with_bufs B s) x = with_bufs B s" using SendSlot B ok(2) by auto
      then show ?thesis using same by auto
    qed
  qed
qed

end
