(* ===== verification/PoolSpec.thy ===== *)
theory PoolSpec
  imports Pools
begin

text \<open>
  The pool of buffers of \<open>transport/tcp_session.go\<close>: no buffer has two holders, so that sessions which share the pool send
  and read as if each had buffers of its own; and the interleaving in which one session spoils what another one sends.
\<close>

section \<open>Every buffer has one holder\<close>

definition live :: "conc_session \<Rightarrow> nat list" where
  "live s = filter (\<lambda>a. a \<notin> fst ` set (c_sent s)) [0..<length (c_slots s)]"

text \<open>What a session holds until its buffers are given back: its read buffer and those of the slots that are not sent.\<close>

definition owned :: "pool_session \<Rightarrow> nat list" where
  "owned p = (if ps_released p then [] else ps_rBuf p # map ((!) (ps_bufs p)) (live (ps_conc p)))"

text \<open>
  A session of the pool is one with buffers of its own (\<open>s\<close>), with which it agrees on what it holds.
\<close>

definition holds :: "u32 \<Rightarrow> u8 list list \<Rightarrow> pool_session \<Rightarrow> conc_session \<Rightarrow> bool" where
  "holds n mem p s \<longleftrightarrow> (\<exists>Q. session_inv s Q) \<and> c_limit s = n \<and> length (ps_bufs p) = length (c_slots s)
     \<and> (\<exists>B. length B = length (c_slots s) \<and> ps_conc p = with_bufs B s)
     \<and> (\<not> ps_released p \<longrightarrow> mem ! ps_rBuf p = ps_private p \<and> (\<forall>a\<in>set (live s). mem ! (ps_bufs p ! a) = cs_buf (c_slots s ! a)))
     \<and> (ps_waited p \<longrightarrow> ps_state p = StateDie \<and> (\<forall>c\<in>set (c_calls s). c = None) \<and> c_jobs s = [] \<and> c_taken s = [])
     \<and> (ps_released p \<longrightarrow> ps_waited p)"

definition held :: "pool_world \<Rightarrow> nat list" where
  "held w = pw_pool w @ concat (map owned (pw_sessions w))"

definition pool_inv :: "u32 \<Rightarrow> pool_world \<Rightarrow> bool" where
  "pool_inv n w \<longleftrightarrow> (\<forall>b\<in>set (pw_mem w). length b = unat n) \<and> distinct (held w) \<and> set (held w) \<subseteq> {..<length (pw_mem w)}
     \<and> (\<forall>p\<in>set (pw_sessions w). \<exists>s. holds n (pw_mem w) p s)"

lemma pool_invD:
  assumes "pool_inv n w"
  shows "b < length (pw_mem w) \<Longrightarrow> length (pw_mem w ! b) = unat n" "distinct (held w)" "b \<in> set (held w) \<Longrightarrow> b < length (pw_mem w)"
    and "p \<in> set (pw_sessions w) \<Longrightarrow> \<exists>s. holds n (pw_mem w) p s"
  using assms unfolding pool_inv_def by auto

lemma live_with_bufs: "length B = length (c_slots s) \<Longrightarrow> live (with_bufs B s) = live s"
  by (simp add: live_def)

lemma owned_holds: "holds n mem p s \<Longrightarrow> owned p = (if ps_released p then [] else ps_rBuf p # map ((!) (ps_bufs p)) (live s))"
  unfolding holds_def owned_def by (auto simp: live_with_bufs)

lemma holds_cong:
  assumes "holds n mem p s" "\<And>b. b \<in> set (owned p) \<Longrightarrow> mem' ! b = mem ! b"
  shows "holds n mem' p s"
proof -
  have "\<not> ps_released p \<Longrightarrow> mem' ! ps_rBuf p = mem ! ps_rBuf p \<and> (\<forall>a\<in>set (live s). mem' ! (ps_bufs p ! a) = mem ! (ps_bufs p ! a))"
    using assms(2) owned_holds [OF assms(1)] by auto
  then show ?thesis using assms(1) unfolding holds_def by auto
qed

text \<open>Taking a buffer from the pool.\<close>

lemma pool_Get_inv:
  assumes "pool_inv n w" "pool_Get n k w = (b, w')"
  shows "pw_sessions w' = pw_sessions w" "b \<notin> set (held w')" "mset (held w) \<subseteq># mset (b # held w')" "distinct (held w')"
    "b < length (pw_mem w')" "length (pw_mem w' ! b) = unat n" "pool_inv n w'" "length (pw_mem w) \<le> length (pw_mem w')"
    "c < length (pw_mem w) \<Longrightarrow> pw_mem w' ! c = pw_mem w ! c"
proof -
  note D = pool_invD [OF assms(1)]
  show s: "pw_sessions w' = pw_sessions w" using assms(2) by (auto simp: pool_Get_def split: if_splits)
  show mem: "pw_mem w' ! c = pw_mem w ! c" if "c < length (pw_mem w)" for c
    using assms(2) that by (auto simp: pool_Get_def nth_append split: if_splits)
  show len: "length (pw_mem w) \<le> length (pw_mem w')" using assms(2) by (auto simp: pool_Get_def split: if_splits)
  have *: "b \<notin> set (held w') \<and> mset (held w) \<subseteq># mset (b # held w') \<and> distinct (held w') \<and> b < length (pw_mem w') \<and> set (held w') \<subseteq> set (held w)"
  proof (cases "k < length (pw_pool w)")
    case True
    then have g: "b = pw_pool w ! k" "w' = w\<lparr>pw_pool := take k (pw_pool w) @ drop (Suc k) (pw_pool w)\<rparr>"
      using assms(2) by (simp_all add: pool_Get_def)
    then have "pw_pool w = take k (pw_pool w) @ b # drop (Suc k) (pw_pool w)" using True by (simp add: id_take_nth_drop)
    then have h: "held w = take k (pw_pool w) @ b # drop (Suc k) (pw_pool w) @ concat (map owned (pw_sessions w))"
      "held w' = take k (pw_pool w) @ drop (Suc k) (pw_pool w) @ concat (map owned (pw_sessions w))"
      by (metis append.assoc append_Cons held_def, simp add: held_def g)
    have "b < length (pw_mem w')" using D(3) [of b] h(1) g(2) by simp
    then show ?thesis using D(2) unfolding h by auto
  next
    case False
    then have g: "b = length (pw_mem w)" "w' = w\<lparr>pw_mem := pw_mem w @ [pool_New n]\<rparr>" using assms(2) by (simp_all add: pool_Get_def)
    then have "held w' = held w" by (simp add: held_def)
    then show ?thesis using D(2) D(3) [of b] g by auto
  qed
  then show "b \<notin> set (held w')" "mset (held w) \<subseteq># mset (b # held w')" "distinct (held w')" "b < length (pw_mem w')" by blast+
  have l: "\<forall>b\<in>set (pw_mem w'). length b = unat n"
    using assms unfolding pool_inv_def by (auto simp: pool_Get_def pool_New_def split: if_splits)
  then show "length (pw_mem w' ! b) = unat n" using * by simp
  have "\<exists>s. holds n (pw_mem w') p s" if p: "p \<in> set (pw_sessions w')" for p
  proof -
    obtain s where h: "holds n (pw_mem w) p s" using D(4) p s by auto
    have "pw_mem w' ! c = pw_mem w ! c" if "c \<in> set (owned p)" for c
      using mem D(3) p s that by (auto simp: held_def)
    then show ?thesis using holds_cong [OF h] by blast
  qed
  moreover have "set (held w') \<subseteq> {..<length (pw_mem w')}" using * D(3) len by (auto intro: less_le_trans)
  ultimately show "pool_inv n w'" using l * unfolding pool_inv_def by blast
qed

text \<open>Changing one session, and what is free.\<close>

lemma distinct_sub:
  assumes "mset xs \<subseteq># mset ys" "distinct ys"
  shows "distinct xs" "set xs \<subseteq> set ys"
proof -
  obtain zs where "mset ys = mset (xs @ zs)" using assms(1) by (metis ex_mset mset_append subset_mset.add_diff_inverse)
  then have "distinct (xs @ zs)" "set ys = set (xs @ zs)" using assms(2) mset_eq_imp_distinct_iff mset_eq_setD by blast+
  then show "distinct xs" "set xs \<subseteq> set ys" by auto
qed

lemma held_change:
  assumes "j < length (pw_sessions w)" "mset pool + mset (owned p) \<subseteq># mset new + mset (pw_pool w) + mset (owned (pw_sessions w ! j))"
  shows "mset (held (w\<lparr>pw_pool := pool, pw_mem := mem, pw_sessions := (pw_sessions w)[j := p]\<rparr>)) \<subseteq># mset (new @ held w)"
proof -
  let ?all = "\<lambda>ps. mset (concat (map owned ps))" and ?old = "mset (owned (pw_sessions w ! j))"
  have "?all ((pw_sessions w)[j := p]) + ?old = ?all (pw_sessions w) + mset (owned p)"
    using sum_list_replace [OF assms(1), of "\<lambda>p. mset (owned p)" p] by (simp add: mset_concat comp_def)
  then have "mset pool + ?all ((pw_sessions w)[j := p]) + ?old = mset pool + mset (owned p) + ?all (pw_sessions w)"
    by (simp add: ac_simps)
  also have "\<dots> \<subseteq># mset new + mset (pw_pool w) + ?old + ?all (pw_sessions w)" using assms(2) by simp
  also have "\<dots> = mset new + mset (pw_pool w) + ?all (pw_sessions w) + ?old" by (simp add: ac_simps)
  finally have "mset pool + ?all ((pw_sessions w)[j := p]) \<subseteq># mset new + mset (pw_pool w) + ?all (pw_sessions w)" by simp
  then show ?thesis by (simp add: held_def ac_simps)
qed

lemma change_inv:
  assumes inv: "pool_inv n w" and j: "j < length (pw_sessions w)"
    and ms: "mset pool + mset (owned p) \<subseteq># mset new + mset (pw_pool w) + mset (owned (pw_sessions w ! j))"
    and new: "distinct new" "\<forall>b\<in>set new. b \<notin> set (held w) \<and> b < length mem"
    and mem: "length (pw_mem w) \<le> length mem" "\<forall>b\<in>set mem. length b = unat n" and p: "holds n mem p s"
    and other: "\<And>i b. i < length (pw_sessions w) \<Longrightarrow> i \<noteq> j \<Longrightarrow> b \<in> set (owned (pw_sessions w ! i)) \<Longrightarrow> mem ! b = pw_mem w ! b"
  shows "pool_inv n (w\<lparr>pw_pool := pool, pw_mem := mem, pw_sessions := (pw_sessions w)[j := p]\<rparr>)"
proof -
  let ?w = "w\<lparr>pw_pool := pool, pw_mem := mem, pw_sessions := (pw_sessions w)[j := p]\<rparr>"
  note D = pool_invD [OF inv]
  have d: "distinct (new @ held w)" using D(2) new by auto
  note h = distinct_sub [OF held_change [OF j ms] d]
  have "set (new @ held w) \<subseteq> {..<length mem}" using new(2) D(3) mem(1) by (auto intro: less_le_trans)
  then have "set (held ?w) \<subseteq> {..<length (pw_mem ?w)}" using order_trans [OF h(2)] by simp
  moreover have "\<exists>s. holds n (pw_mem ?w) q s" if q: "q \<in> set (pw_sessions ?w)" for q
  proof -
    from q obtain i where i: "i < length (pw_sessions w)" "q = (pw_sessions w)[j := p] ! i" by (auto simp: in_set_conv_nth)
    show ?thesis
    proof (cases "i = j")
      case True
      then show ?thesis using p i by auto
    next
      case False
      then obtain t where "holds n (pw_mem w) q t" using D(4) i by (metis nth_list_update_neq nth_mem)
      then show ?thesis using holds_cong [of n "pw_mem w" q t mem] other [OF i(1) False] i False by auto
    qed
  qed
  ultimately show ?thesis using mem(2) h(1) unfolding pool_inv_def by simp
qed

section \<open>Steps on a session\<close>

lemma swap_sent [simp]: "c_sent (swap_slot a s) = c_sent s" "c_sent (set_call i c s) = c_sent s" "c_sent (on_slot a g s) = c_sent s"
  by (simp_all add: swap_slot_def set_call_def on_slot_def)

lemma advance_sent: "c_sent (advance bl i c s) = c_sent s"
  by (cases "(bl, i, c, s)" rule: advance.cases) (simp_all add: allot_def Let_def)

lemma act_sent:
  assumes "session_inv s Q"
  shows "map fst (c_sent (conc_act bl s x)) = map fst (c_sent s) @ (case sent_slot s x of None \<Rightarrow> [] | Some a \<Rightarrow> [a])"
proof (cases x)
  case (SendSlot a)
  show ?thesis
  proof (cases "a \<in> set (c_taken s) \<and> cs_lock (c_slots s ! a) = 0")
    case True
    then show ?thesis using SendSlot free_slot(4) [OF assms, of a] by simp
  next
    case False
    then show ?thesis using SendSlot by auto
  qed
qed (auto simp: advance_sent split: option.splits list.splits)

lemma send_slots: "sent_slot s x = Some a \<Longrightarrow> c_slots (conc_act bl s x) = c_slots s \<and> a \<in> set (c_taken s)"
  by (cases x) (auto split: if_splits)

lemma sent_small:
  assumes "session_inv s Q"
  shows "a \<in> set (c_jobs s) \<union> set (c_taken s) \<union> fst ` set (c_sent s) \<Longrightarrow> a < length (c_slots s)"
    and "a \<in> set (c_taken s) \<Longrightarrow> a \<notin> fst ` set (c_sent s)" "c_wslot s < length (c_slots s)" "c_wslot s \<notin> fst ` set (c_sent s)"
    and "calls_ok s" "length (c_new s) = unat (c_limit s)"
proof -
  note I = assms [unfolded session_inv_def slots_inv_def jobs_inv_def]
  show "a < length (c_slots s)" if "a \<in> set (c_jobs s) \<union> set (c_taken s) \<union> fst ` set (c_sent s)"
  proof -
    have "a \<in> set (c_jobs s @ c_taken s @ map fst (c_sent s))" using that by simp
    then have "a \<in> {a. a < length Q \<and> started (Q ! a)}" using I by blast
    then show ?thesis using I by simp
  qed
  have "distinct (c_jobs s @ c_taken s @ map fst (c_sent s))" using I by blast
  then show "a \<notin> fst ` set (c_sent s)" if "a \<in> set (c_taken s)" using that by auto
  show "c_wslot s < length (c_slots s)" "c_wslot s \<notin> fst ` set (c_sent s)" "calls_ok s" "length (c_new s) = unat (c_limit s)" using I by simp_all
qed

lemma in_live: "a \<in> set (live s) \<longleftrightarrow> a < length (c_slots s) \<and> a \<notin> fst ` set (c_sent s)"
  by (simp add: live_def)

lemma live_step:
  assumes "session_inv s Q" "length (c_slots s) \<le> length (c_slots (conc_act bl s x))"
  shows "live (conc_act bl s x) = (case sent_slot s x of None \<Rightarrow> live s @ [length (c_slots s)..<length (c_slots (conc_act bl s x))]
     | Some a \<Rightarrow> remove1 a (live s))"
proof -
  have sent: "fst ` set (c_sent (conc_act bl s x)) = fst ` set (c_sent s) \<union> (case sent_slot s x of None \<Rightarrow> {} | Some a \<Rightarrow> {a})"
    using arg_cong [OF act_sent [OF assms(1), of bl x], of set] by (auto split: option.splits)
  show ?thesis
  proof (cases "sent_slot s x")
    case None
    have "[0..<length (c_slots (conc_act bl s x))] = [0..<length (c_slots s)] @ [length (c_slots s)..<length (c_slots (conc_act bl s x))]"
      using assms(2) upt_add_eq_append [of 0 "length (c_slots s)"] by (metis le_add_diff_inverse zero_le)
    moreover have "filter (\<lambda>a. a \<notin> fst ` set (c_sent s)) [length (c_slots s)..<m] = [length (c_slots s)..<m]" for m
      using sent_small(1) [OF assms(1)] by (intro filter_True) force
    ultimately show ?thesis using None sent by (simp add: live_def)
  next
    case (Some a)
    have "remove1 a (live s) = filter (\<lambda>b. b \<noteq> a) (live s)"
      by (simp add: distinct_remove1_removeAll live_def removeAll_filter_not_eq) (metis (no_types, lifting))
    then show ?thesis using Some sent send_slots [OF Some, of bl] by (simp add: live_def conj_commute)
  qed
qed

lemma idle_act:
  assumes "\<forall>c\<in>set (c_calls s). c = None" "c_jobs s = []" "c_taken s = []" "\<not> starts_call x"
  shows "conc_act bl s x = s \<and> copied_slot s x = None \<and> sent_slot s x = None"
proof (cases x)
  case (Advance i)
  have "c_calls s ! i = None" if "i < length (c_calls s)" using assms(1) that nth_mem by blast
  then show ?thesis using Advance by simp
qed (use assms in auto)

lemma session_inv_new: "session_inv s Q \<Longrightarrow> length v = unat (c_limit s) \<Longrightarrow> session_inv (s\<lparr>c_new := v\<rparr>) Q"
  by (simp add: session_inv_def slots_inv_def jobs_inv_def calls_ok_def view_def)

lemma careful_with_bufs:
  assumes "length B = length (c_slots s)" "calls_ok s" "careful_act (with_bufs B s) x"
  shows "careful_act (s\<lparr>c_new := v\<rparr>) x"
proof (cases x)
  case (Advance i)
  show ?thesis
  proof (cases "i < length (c_calls s) \<and> c_calls s ! i \<noteq> None")
    case True
    then obtain f b a p where c: "c_calls s ! i = Some (f, b, a, p)" by (cases "c_calls s ! i") auto
    then show ?thesis using assms True Advance call_slot [OF assms(2) _ c] by (cases p) simp_all
  next
    case False
    then have "i < length (c_calls s) \<Longrightarrow> c_calls s ! i = None" by blast
    then show ?thesis using Advance by simp
  qed
qed (use assms in \<open>simp_all add: nobody_loaded_def\<close>)

lemma copied_live:
  assumes "session_inv s Q" "copied_slot s x = Some a"
  shows "a \<in> set (live s)"
proof (cases x)
  case (Advance i)
  then obtain f b st where c: "i < length (c_calls s)" "c_calls s ! i = Some (f, b, a, Allotted st)"
    using assms(2) by (auto split: if_splits option.splits call_step.splits)
  then show ?thesis using call_facts(1,4) [OF assms(1) c] assms(1) by (auto simp: in_live session_inv_def slots_inv_def)
qed (use assms(2) in simp_all)

lemma pool_Get_form: "pool_Get n k w = (b, w') \<Longrightarrow> w' = w\<lparr>pw_pool := pw_pool w', pw_mem := pw_mem w'\<rparr>"
  by (auto simp: pool_Get_def split: if_splits)

lemma holdsD:
  assumes "holds n mem p s"
  shows "\<exists>Q. session_inv s Q" "c_limit s = n" "length (ps_bufs p) = length (c_slots s)" "\<exists>B. length B = length (c_slots s) \<and> ps_conc p = with_bufs B s"
    and "\<not> ps_released p \<Longrightarrow> mem ! ps_rBuf p = ps_private p" "\<not> ps_released p \<Longrightarrow> a \<in> set (live s) \<Longrightarrow> mem ! (ps_bufs p ! a) = cs_buf (c_slots s ! a)"
    and "ps_waited p \<Longrightarrow> ps_state p = StateDie \<and> (\<forall>c\<in>set (c_calls s). c = None) \<and> c_jobs s = [] \<and> c_taken s = []"
    and "ps_released p \<Longrightarrow> ps_waited p"
  using assms unfolding holds_def by blast+

lemma holds_seen: "holds n mem p s \<Longrightarrow> seen mem p = with_bufs (map ((!) mem) (ps_bufs p)) s"
  using holdsD(3,4) [of n mem p s] by (auto simp: seen_def with_bufs_again)

lemma distinct_owned:
  assumes "pool_inv n w" "p \<in> set (pw_sessions w)"
  shows "distinct (owned p)" "b \<in> set (owned p) \<Longrightarrow> b < length (pw_mem w) \<and> b \<notin> set (pw_pool w)"
    and "i < length (pw_sessions w) \<Longrightarrow> j < length (pw_sessions w) \<Longrightarrow> i \<noteq> j \<Longrightarrow> set (owned (pw_sessions w ! i)) \<inter> set (owned (pw_sessions w ! j)) = {}"
proof -
  note D = pool_invD [OF assms(1)]
  have d: "distinct (concat (map owned (pw_sessions w)))" using D(2) by (simp add: held_def)
  obtain us vs where p: "pw_sessions w = us @ p # vs" using assms(2) by (meson split_list)
  show "distinct (owned p)" using d p by simp
  have "b \<in> set (held w)" if "b \<in> set (owned p)" using that p by (simp add: held_def)
  then show "b < length (pw_mem w) \<and> b \<notin> set (pw_pool w)" if "b \<in> set (owned p)"
    using that D(2,3) p by (auto simp: held_def)
  show "set (owned (pw_sessions w ! i)) \<inter> set (owned (pw_sessions w ! j)) = {}"
    if "i < length (pw_sessions w)" "j < length (pw_sessions w)" "i \<noteq> j"
  proof -
    have *: "set (owned (pw_sessions w ! i)) \<inter> set (owned (pw_sessions w ! j)) = {}" if "i < j" "j < length (pw_sessions w)" for i j
    proof -
      have "pw_sessions w ! j \<in> set (drop (Suc i) (pw_sessions w))"
        using that by (auto simp: in_set_conv_nth intro!: exI [of _ "j - Suc i"])
      moreover have "distinct (concat (map owned (take i (pw_sessions w) @ pw_sessions w ! i # drop (Suc i) (pw_sessions w))))"
        using d that by (simp add: id_take_nth_drop [symmetric])
      ultimately show ?thesis by auto
    qed
    then show ?thesis using that by (metis inf_commute linorder_neqE_nat)
  qed
qed

text \<open>A step on a session whose \<open>Close\<close> has got past \<open>Wait\<close>: there is none.\<close>

lemma waited_act_inv:
  assumes inv: "pool_inv n w" and j: "j < length (pw_sessions w)" and w: "ps_waited (pw_sessions w ! j)"
    and x: "\<not> (starts_call x \<and> ps_state (pw_sessions w ! j) \<noteq> StateWork)"
  shows "pool_inv n (session_act bl n j k x w)"
proof -
  let ?p = "pw_sessions w ! j" and ?mem = "pw_mem w"
  obtain s where h: "holds n ?mem ?p s" using pool_invD(4) [OF inv, of ?p] j by auto
  obtain Q where Q: "session_inv s Q" using holdsD(1) [OF h] by blast
  obtain new w1 where g: "pool_Get n k w = (new, w1)" by fastforce
  define v where "v = pw_mem w1 ! new"
  define B where "B = map ((!) ?mem) (ps_bufs ?p)"
  have B: "length B = length (c_slots s)" using holdsD(3) [OF h] by (simp add: B_def)
  have seen: "seen ?mem ?p = with_bufs B s" using holds_seen [OF h] by (simp add: B_def)
  let ?r = "with_bufs B (s\<lparr>c_new := v\<rparr>)"
  have nw: "\<not> starts_call x" using x holdsD(7) [OF h w] by (auto simp: StateDie_def StateWork_def)
  have idle: "conc_act bl ?r x = ?r" "copied_slot (with_bufs B s) x = None" "sent_slot (with_bufs B s) x = None"
    using idle_act [of ?r x bl] idle_act [of "with_bufs B s" x bl] holdsD(7) [OF h w] nw by simp_all
  have "c_slots ?r = c_slots (with_bufs B s)" by (simp add: with_bufs_def)
  then have act: "session_act bl n j k x w = w\<lparr>pw_pool := pw_pool w, pw_mem := ?mem,
      pw_sessions := (pw_sessions w)[j := ?p\<lparr>ps_conc := ?r\<lparr>c_sent := c_sent s\<rparr>\<rparr>]\<rparr>"
    using w by (simp add: session_act_def Let_def g seen v_def [symmetric] with_bufs_fields [symmetric] idle pool_Put_def)
  let ?p' = "?p\<lparr>ps_conc := ?r\<lparr>c_sent := c_sent s\<rparr>\<rparr>"
  have r: "?r\<lparr>c_sent := c_sent s\<rparr> = ?r" by (simp add: with_bufs_def)
  have "length v = unat (c_limit s)" using pool_Get_inv(6) [OF inv g] holdsD(2) [OF h] by (simp add: v_def)
  then have "session_inv (s\<lparr>c_new := v\<rparr>) Q" by (rule session_inv_new [OF Q])
  moreover have "live (s\<lparr>c_new := v\<rparr>) = live s" by (simp add: live_def)
  ultimately have h': "holds n ?mem ?p' (s\<lparr>c_new := v\<rparr>)" unfolding r using h B by (auto simp: holds_def)
  have o: "owned ?p' = owned ?p" unfolding owned_holds [OF h'] owned_holds [OF h] by (simp add: live_def)
  show ?thesis unfolding act
    by (rule change_inv [OF inv j, where new = "[]", OF _ _ _ _ _ h']) (use inv o in \<open>auto simp: pool_inv_def\<close>)
qed

lemma act_limit: "c_limit (conc_act bl s x) = c_limit s"
proof (cases x)
  case (Advance i)
  have "c_limit (advance bl i c s) = c_limit s" for c
    by (cases "(bl, i, c, s)" rule: advance.cases) (simp_all add: allot_def Let_def swap_slot_def)
  then show ?thesis using Advance by (auto split: option.splits)
qed (auto simp: swap_slot_def split: list.splits)

lemma slot_size: "session_inv s Q \<Longrightarrow> a < length (c_slots s) \<Longrightarrow> length (cs_buf (c_slots s ! a)) = unat (c_limit s)"
  by (simp add: session_inv_def slots_inv_def slot_inv_def sizes_ok_def)

text \<open>What a session holds after a step: a new slot's buffer more, a sent slot's buffer less.\<close>

lemma owned_step:
  assumes bufs: "length (ps_bufs p) = length (c_slots s)" and own: "owned p = ps_rBuf p # map ((!) (ps_bufs p)) (live s)"
    and h: "holds n mem (p\<lparr>ps_conc := c, ps_bufs := ps_bufs p @ extra\<rparr>) t" and Q: "session_inv s Q"
    and t: "t = conc_act bl s x" and len: "length (c_slots t) = length (c_slots s) + length extra" and p: "\<not> ps_released p"
  shows "mset (case sent_slot s x of None \<Rightarrow> [] | Some a \<Rightarrow> [ps_bufs p ! a]) + mset (owned (p\<lparr>ps_conc := c, ps_bufs := ps_bufs p @ extra\<rparr>))
    = mset extra + mset (owned p)"
proof -
  have old: "image_mset ((!) (ps_bufs p @ extra)) (mset (live s)) = image_mset ((!) (ps_bufs p)) (mset (live s))"
    using bufs by (intro image_mset_cong) (simp add: nth_append in_live)
  have l: "live t = (case sent_slot s x of None \<Rightarrow> live s @ [length (c_slots s)..<length (c_slots t)] | Some a \<Rightarrow> remove1 a (live s))"
    unfolding t by (rule live_step [OF Q]) (use len t in simp)
  have o: "owned (p\<lparr>ps_conc := c, ps_bufs := ps_bufs p @ extra\<rparr>) = ps_rBuf p # map ((!) (ps_bufs p @ extra)) (live t)"
    using owned_holds [OF h] p by simp
  show ?thesis
  proof (cases "sent_slot s x")
    case None
    have "map ((!) (ps_bufs p @ extra)) [length (c_slots s)..<length (c_slots t)] = extra"
      using bufs len by (intro nth_equalityI) (simp_all add: nth_append)
    then show ?thesis using None l old o own by simp
  next
    case (Some a)
    then have "length (c_slots t) = length (c_slots s)" using send_slots [of s x a] t by simp
    then have e: "extra = []" using len by simp
    have "a \<in> set (live s)" using send_slots [OF Some] sent_small(1,2) [OF Q, of a] by (simp add: in_live)
    then have "mset (live s) = add_mset a (mset (remove1 a (live s)))" by simp
    then have "mset (map ((!) (ps_bufs p)) (live s)) = add_mset (ps_bufs p ! a) (mset (map ((!) (ps_bufs p)) (remove1 a (live s))))"
      by (metis image_mset_add_mset mset_map)
    then show ?thesis using Some l o e own by simp
  qed
qed

text \<open>After a step the buffers of the live slots hold what the slots of a session of its own would.\<close>

lemma step_agree:
  assumes S: "bufs_step (copied_slot s x) B s B' t" and B: "B = map ((!) mem0) bufs" "length bufs = length (c_slots s)"
    and Bl: "\<And>a. a \<in> set (live s) \<Longrightarrow> B ! a = cs_buf (c_slots s ! a)"
    and other: "\<And>a b. a \<in> set (live s) \<Longrightarrow> b \<in> set (live s) \<Longrightarrow> a \<noteq> b \<Longrightarrow> bufs ! a \<noteq> bufs ! b"
    and small: "\<And>a. a \<in> set (live s) \<Longrightarrow> bufs ! a < length mem0" and written: "\<And>a. copied_slot s x = Some a \<Longrightarrow> a \<in> set (live s)"
    and mem2: "\<And>c. c < length mem0 \<Longrightarrow> mem2 ! c = mem0 ! c" "length mem0 \<le> length mem2"
    and mem: "mem = (case copied_slot s x of None \<Rightarrow> mem2 | Some a \<Rightarrow> mem2[bufs ! a := B' ! a])"
    and len: "length (c_slots t) = length (c_slots s) + length extra"
    and extra: "extra = [] \<or> extra = [new] \<and> mem2 ! new = c_new s" "new \<notin> (!) bufs ` set (live s)"
    and sent: "fst ` set (c_sent s) \<subseteq> fst ` set (c_sent t)" and a: "a \<in> set (live t)"
  shows "mem ! ((bufs @ extra) ! a) = cs_buf (c_slots t ! a)"
proof -
  note S = S [unfolded bufs_step_def]
  have mem_at: "mem ! c = mem2 ! c" if "\<forall>a. copied_slot s x = Some a \<longrightarrow> c \<noteq> bufs ! a" for c
    using that by (auto simp: mem split: option.splits)
  have at: "a < length (c_slots t)" and lB: "length B = length (c_slots s)" using a B by (simp_all add: in_live)
  show ?thesis
  proof (cases "a < length (c_slots s)")
    case True
    then have l: "a \<in> set (live s)" using sent a by (auto simp: in_live)
    have b: "(bufs @ extra) ! a = bufs ! a" using True B(2) by (simp add: nth_append)
    show ?thesis
    proof (cases "copied_slot s x = Some a")
      case True
      then have "mem ! (bufs ! a) = B' ! a" using small [OF l] mem2(2) by (simp add: mem)
      then show ?thesis using b S Bl [OF l] B \<open>a < length (c_slots s)\<close> by simp
    next
      case False
      then have "mem ! (bufs ! a) = mem0 ! (bufs ! a)" using mem_at mem2(1) [OF small [OF l]] other [OF l] written by metis
      moreover have "B' ! a = B ! a" "B' ! a = cs_buf (c_slots t ! a)" using S Bl [OF l] False lB \<open>a < length (c_slots s)\<close> by metis+
      ultimately show ?thesis using b B \<open>a < length (c_slots s)\<close> by simp
    qed
  next
    case False
    then have e: "extra = [new]" "mem2 ! new = c_new s" "a = length (c_slots s)" using extra(1) len at by auto
    then have "(bufs @ extra) ! a = new" using B(2) by (simp add: nth_append)
    moreover have "mem ! new = c_new s" using mem_at [of new] written extra(2) e(2) by auto
    moreover have "cs_buf (c_slots t ! a) = c_new s" using S B at False by simp
    ultimately show ?thesis by simp
  qed
qed

text \<open>What a step makes of the process, in terms of the session that has buffers of its own.\<close>

lemma session_act_form:
  assumes h0: "holds n (pw_mem w) (pw_sessions w ! j) s0" "\<not> ps_waited (pw_sessions w ! j)" and g: "pool_Get n k w = (new, w1)"
    and s: "s = s0\<lparr>c_new := pw_mem w1 ! new\<rparr>" and B: "B = map ((!) (pw_mem w)) (ps_bufs (pw_sessions w ! j))"
    and step: "conc_act bl (with_bufs B s) x = with_bufs B' t" "bufs_step (copied_slot s x) B s B' t"
    and taken: "\<forall>a\<in>set (c_taken s). a < length (c_slots s)" and written: "\<And>a. copied_slot s x = Some a \<Longrightarrow> a < length (c_slots s)"
    and w2: "w2 = (if length (c_slots s) < length (c_slots t) then w1 else w)" "pw_sessions w2 = pw_sessions w"
  shows "session_act bl n j k x w = w2\<lparr>pw_pool := pw_pool w2 @ (case sent_slot s x of None \<Rightarrow> [] | Some a \<Rightarrow> [ps_bufs (pw_sessions w ! j) ! a]),
    pw_mem := (case copied_slot s x of None \<Rightarrow> pw_mem w2 | Some a \<Rightarrow> (pw_mem w2)[ps_bufs (pw_sessions w ! j) ! a := B' ! a]),
    pw_sessions := (pw_sessions w2)[j := (pw_sessions w ! j)\<lparr>ps_conc := with_bufs B' t,
      ps_bufs := ps_bufs (pw_sessions w ! j) @ (if length (c_slots s) < length (c_slots t) then [new] else [])\<rparr>]\<rparr>"
proof -
  let ?p = "pw_sessions w ! j" and ?mem = "pw_mem w"
  note S = step(2) [unfolded bufs_step_def]
  have Bl: "length B = length (c_slots s)" using holdsD(3) [OF h0(1)] by (simp add: B s)
  have seen: "(seen ?mem ?p)\<lparr>c_new := pw_mem w1 ! new\<rparr> = with_bufs B s" using holds_seen [OF h0(1)] by (simp add: B s with_bufs_fields)
  have lock: "a < length (c_slots s) \<Longrightarrow> cs_lock (c_slots (seen ?mem ?p) ! a) = cs_lock (c_slots s ! a)" for a
    using holds_seen [OF h0(1)] Bl by (simp add: B s)
  have f: "c_calls (seen ?mem ?p) = c_calls s" "c_taken (seen ?mem ?p) = c_taken s" "length (c_slots (seen ?mem ?p)) = length (c_slots s)"
    using holds_seen [OF h0(1)] Bl by (simp_all add: B s)
  have "copied_slot (seen ?mem ?p) x = copied_slot s x" by (cases x) (simp_all add: f)
  moreover have "sent_slot (seen ?mem ?p) x = sent_slot s x" using taken by (cases x) (auto simp: f lock)
  moreover have "cs_buf (c_slots (with_bufs B' t) ! a) = B' ! a" if "copied_slot s x = Some a" for a
    using S written [OF that] Bl by simp
  ultimately show ?thesis
    using h0(2) S w2(2) by (simp add: session_act_def Let_def g seen step(1) f w2(1) pool_Put_def split: option.splits)
qed

text \<open>A step on a session: what is written goes to a buffer that the session holds, and only it.\<close>

lemma session_act_inv:
  assumes inv: "pool_inv n w" and j: "j < length (pw_sessions w)" and x: "\<not> (starts_call x \<and> ps_state (pw_sessions w ! j) \<noteq> StateWork)"
    and ok: "careful_act (ps_conc (pw_sessions w ! j)) x"
  shows "pool_inv n (session_act bl n j k x w)"
proof (cases "ps_waited (pw_sessions w ! j)")
  case True
  then show ?thesis using waited_act_inv [OF inv j _ x] by simp
next
  case False
  let ?p = "pw_sessions w ! j" and ?mem = "pw_mem w"
  have pin: "?p \<in> set (pw_sessions w)" using j by simp
  obtain s0 where h0: "holds n ?mem ?p s0" using pool_invD(4) [OF inv pin] by auto
  obtain Q where Q0: "session_inv s0 Q" using holdsD(1) [OF h0] by blast
  have rel: "\<not> ps_released ?p" using holdsD(8) [OF h0] False by blast
  obtain new w1 where g: "pool_Get n k w = (new, w1)" by fastforce
  note G = pool_Get_inv [OF inv g]
  define v where "v = pw_mem w1 ! new"
  define s where "s = s0\<lparr>c_new := v\<rparr>"
  define B where "B = map ((!) ?mem) (ps_bufs ?p)"
  have lv: "length v = unat (c_limit s0)" using G(6) holdsD(2) [OF h0] by (simp add: v_def)
  have Q: "session_inv s Q" unfolding s_def by (rule session_inv_new [OF Q0 lv])
  have "live s = live s0" by (simp add: live_def s_def)
  then have h: "holds n ?mem ?p (s\<lparr>c_new := c_new s0\<rparr>)" "live s = live s0" using h0 by (simp_all add: s_def)
  have B: "length B = length (c_slots s)" using holdsD(3) [OF h0] by (simp add: B_def s_def)
  have seen: "(seen ?mem ?p)\<lparr>c_new := v\<rparr> = with_bufs B s" using holds_seen [OF h0] by (simp add: B_def s_def with_bufs_fields)
  have cs: "careful_act s x"
    using holdsD(4) [OF h0] ok careful_with_bufs [OF _ sent_small(5) [OF Q0]] unfolding s_def by auto
  define t where "t = conc_act bl s x"
  obtain Q' where Q': "session_inv t Q'" using act_inv [OF Q cs] unfolding t_def by blast
  have Bl: "B ! a = cs_buf (c_slots s ! a)" if "a \<in> set (live s)" for a
    using holdsD(6) [OF h0 rel, of a] that h(2) B by (simp add: B_def s_def in_live)
  have taken: "\<forall>a\<in>set (c_taken s). a < length (c_slots s)" using sent_small(1) [OF Q] by auto
  have "B ! a = cs_buf (c_slots s ! a)" if "sent_slot s x = Some a" for a
    using Bl send_slots [OF that] sent_small(1,2) [OF Q, of a] by (simp add: in_live)
  from act_with_bufs [OF B sent_small(5) [OF Q] taken this, where bl = bl] obtain B' where
    B': "conc_act bl (with_bufs B s) x = with_bufs B' t" "bufs_step (copied_slot s x) B s B' t" unfolding t_def by blast
  note S = B'(2) [unfolded bufs_step_def]
  define extra where "extra = (if length (c_slots s) < length (c_slots t) then [new] else [])"
  have len: "length (c_slots t) = length (c_slots s) + length extra" using S B by (auto simp: extra_def)
  define w2 where "w2 = (if length (c_slots s) < length (c_slots t) then w1 else w)"
  define mem where "mem = (case copied_slot s x of None \<Rightarrow> pw_mem w2 | Some a \<Rightarrow> (pw_mem w2)[ps_bufs ?p ! a := B' ! a])"
  define freed where "freed = (case sent_slot s x of None \<Rightarrow> [] | Some a \<Rightarrow> [ps_bufs ?p ! a])"
  let ?p' = "?p\<lparr>ps_conc := with_bufs B' t, ps_bufs := ps_bufs ?p @ extra\<rparr>"
  have w2: "pw_sessions w2 = pw_sessions w" "w2 = w\<lparr>pw_pool := pw_pool w2, pw_mem := pw_mem w2\<rparr>" "pool_inv n w2"
    "length ?mem \<le> length (pw_mem w2)" "c < length ?mem \<Longrightarrow> pw_mem w2 ! c = ?mem ! c" for c
    using G(1,7,8,9) pool_Get_form [OF g] inv by (auto simp: w2_def)
  have mem_at: "mem ! c = pw_mem w2 ! c" if "\<forall>a. copied_slot s x = Some a \<longrightarrow> c \<noteq> ps_bufs ?p ! a" for c
    using that by (auto simp: mem_def split: option.splits)
  have own: "owned ?p = ps_rBuf ?p # map ((!) (ps_bufs ?p)) (live s)" using owned_holds [OF h0] rel h(2) by simp
  note dist = distinct_owned(1) [OF inv pin, unfolded own] and small = distinct_owned(2) [OF inv pin, unfolded own]
  have written: "ps_bufs ?p ! a \<in> set (owned ?p)" "a \<in> set (live s)" if "copied_slot s x = Some a" for a
    using copied_live [OF Q that] own by simp_all
  have other: "ps_bufs ?p ! a \<noteq> ps_bufs ?p ! b" if "a \<in> set (live s)" "b \<in> set (live s)" "a \<noteq> b" for a b
    using dist that by (auto simp: distinct_map inj_on_def)
  have "new \<notin> set (owned ?p)" using G(1,2) pin by (auto simp: held_def)
  then have "new \<notin> (!) (ps_bufs ?p) ` set (live s)" using own by auto
  moreover have "fst ` set (c_sent s) \<subseteq> fst ` set (c_sent t)" using arg_cong [OF act_sent [OF Q, of bl x], of set] by (auto simp: t_def)
  ultimately have agree: "mem ! ((ps_bufs ?p @ extra) ! a) = cs_buf (c_slots t ! a)" if "a \<in> set (live t)" for a
    using small holdsD(3) [OF h0] that w2(4,5)
    by (intro step_agree [OF B'(2) B_def _ Bl other _ written(2) _ _ mem_def len]) (auto simp: extra_def w2_def v_def s_def t_def)
  have "mem ! ps_rBuf ?p = ?mem ! ps_rBuf ?p"
    using mem_at [of "ps_rBuf ?p"] w2(5) small dist written(2) by (auto simp: image_iff)
  then have hp: "holds n mem ?p' t"
    using Q' S len holdsD(2,3,5) [OF h0] rel False agree unfolding holds_def by (auto simp: t_def s_def act_limit)
  have sizes: "\<forall>b\<in>set mem. length b = unat n"
  proof (cases "copied_slot s x")
    case (Some a)
    have a: "a < length (c_slots s)" using written(2) [OF Some] by (simp add: in_live)
    then have "B' ! a = cs_buf (c_slots t ! a)" using S B Bl written(2) [OF Some] by simp
    then have "length (B' ! a) = unat n" using slot_size [OF Q', of a] a len holdsD(2) [OF h0] by (simp add: t_def s_def act_limit)
    then show ?thesis using Some w2(3) by (auto simp: mem_def pool_inv_def dest!: set_update_subset_insert [THEN subsetD])
  qed (use w2(3) in \<open>simp add: mem_def pool_inv_def\<close>)
  have ms: "mset (pw_pool w2 @ freed) + mset (owned ?p') = mset extra + mset (pw_pool w2) + mset (owned (pw_sessions w2 ! j))"
    using owned_step [OF _ own hp Q t_def len rel] holdsD(3) [OF h0] by (simp add: freed_def w2(1) s_def)
  have new: "distinct extra" "\<forall>b\<in>set extra. b \<notin> set (held w2) \<and> b < length mem"
    using G(2,5) by (auto simp: extra_def w2_def mem_def split: option.splits)
  have othersess: "mem ! b = pw_mem w2 ! b" if "i < length (pw_sessions w2)" "i \<noteq> j" "b \<in> set (owned (pw_sessions w2 ! i))" for i b
    using mem_at [of b] written(1) distinct_owned(3) [OF inv pin, of i j] that j w2(1) by (auto simp: disjoint_iff)
  have "pool_inv n (w2\<lparr>pw_pool := pw_pool w2 @ freed, pw_mem := mem, pw_sessions := (pw_sessions w2)[j := ?p']\<rparr>)"
    by (rule change_inv [OF w2(3) _ subset_mset.eq_refl [OF ms] new _ sizes hp othersess]) (use j w2 in \<open>auto simp: mem_def split: option.splits\<close>)
  moreover have "session_act bl n j k x w = w2\<lparr>pw_pool := pw_pool w2 @ freed, pw_mem := mem, pw_sessions := (pw_sessions w2)[j := ?p']\<rparr>"
    using session_act_form [OF h0 False g s_def [unfolded v_def] B_def B' taken _ w2_def w2(1)] written(2)
    by (simp add: freed_def mem_def extra_def in_live)
  ultimately show ?thesis by simp
qed

section \<open>Every step keeps the invariant\<close>

lemma pool_Get_which: "pool_Get n k w = (b, w') \<Longrightarrow> (b \<in> set (held w) \<or> b = length (pw_mem w)) \<and> set (held w') \<subseteq> set (held w)"
  by (auto simp: pool_Get_def held_def split: if_splits dest: in_set_takeD in_set_dropD)

lemma open_session_inv:
  assumes inv: "pool_inv n w" and c: "c < 2 ^ 32"
  shows "pool_inv n (open_session_act n k1 k2 c w)"
proof -
  obtain a w1 where g1: "pool_Get n k1 w = (a, w1)" by fastforce
  obtain b w2 where g2: "pool_Get n k2 w1 = (b, w2)" by fastforce
  note G1 = pool_Get_inv [OF inv g1]
  note G2 = pool_Get_inv [OF G1(7) g2]
  let ?p = "\<lparr>ps_conc = conc_new (pw_mem w2 ! b) n c, ps_bufs = [b], ps_rBuf = a, ps_private = pw_mem w2 ! a,
    ps_state = StateWork, ps_waited = False, ps_released = False\<rparr>"
  let ?w = "w2\<lparr>pw_sessions := pw_sessions w2 @ [?p]\<rparr>"
  have ab: "a \<noteq> b" "a \<notin> set (held w2)" using pool_Get_which [OF g2] G1(2,5) by auto
  have o: "owned ?p = [a, b]" by (simp add: owned_def live_def conc_new_def)
  have held: "held ?w = held w2 @ [a, b]" using o by (simp add: held_def)
  have "a < length (pw_mem w2)" using G1(5) G2(8) by simp
  then have "distinct (held ?w) \<and> set (held ?w) \<subseteq> {..<length (pw_mem ?w)}"
    unfolding held using ab G2(2,4,5) pool_invD(3) [OF G2(7)] by auto
  moreover have "holds n (pw_mem ?w) ?p (conc_new (pw_mem w2 ! b) n c)"
  proof -
    have "with_bufs [pw_mem w2 ! b] (conc_new (pw_mem w2 ! b) n c) = conc_new (pw_mem w2 ! b) n c"
      by (simp add: with_bufs_def conc_new_def new_conc_slot_def)
    then have "\<exists>B. length B = length (c_slots (conc_new (pw_mem w2 ! b) n c)) \<and> ps_conc ?p = with_bufs B (conc_new (pw_mem w2 ! b) n c)"
      by (intro exI [of _ "[pw_mem w2 ! b]"]) (simp add: conc_new_def)
    then show ?thesis using new_inv [OF c G2(6)] by (auto simp: holds_def in_live conc_new_def new_conc_slot_def)
  qed
  ultimately have "pool_inv n ?w" using G2(7) unfolding pool_inv_def by auto
  then show ?thesis by (simp add: open_session_act_def g1 g2)
qed

lemma read_conn_inv:
  assumes inv: "pool_inv n w" and j: "j < length (pw_sessions w)" and open': "\<not> ps_waited (pw_sessions w ! j)" and room: "pos + length bs \<le> unat n"
  shows "pool_inv n (pool_act bl n (ReadConn j pos bs) w)"
proof -
  let ?p = "pw_sessions w ! j"
  let ?p' = "?p\<lparr>ps_private := overwrite (ps_private ?p) pos bs\<rparr>" and ?mem = "(pw_mem w)[ps_rBuf ?p := overwrite (pw_mem w ! ps_rBuf ?p) pos bs]"
  have pin: "?p \<in> set (pw_sessions w)" using j by simp
  obtain s where h: "holds n (pw_mem w) ?p s" using pool_invD(4) [OF inv pin] by auto
  have rel: "\<not> ps_released ?p" using holdsD(8) [OF h] open' by blast
  have own: "owned ?p = ps_rBuf ?p # map ((!) (ps_bufs ?p)) (live s)" using owned_holds [OF h] rel by simp
  have r: "ps_rBuf ?p < length (pw_mem w)" and ne: "ps_rBuf ?p \<notin> (!) (ps_bufs ?p) ` set (live s)"
    using distinct_owned(1,2) [OF inv pin] own by auto
  have "length (overwrite (pw_mem w ! ps_rBuf ?p) pos bs) = unat n"
    using pool_invD(1) [OF inv r] room by (simp add: length_overwrite)
  then have sizes: "\<forall>b\<in>set ?mem. length b = unat n" using inv by (auto simp: pool_inv_def dest!: set_update_subset_insert [THEN subsetD])
  have h': "holds n ?mem ?p' s"
  proof -
    define mem where "mem = ?mem"
    have "mem ! ps_rBuf ?p = overwrite (ps_private ?p) pos bs" using r holdsD(5) [OF h rel] by (simp add: mem_def)
    moreover have "mem ! (ps_bufs ?p ! a) = cs_buf (c_slots s ! a)" if "a \<in> set (live s)" for a
      using holdsD(6) [OF h rel that] ne that unfolding mem_def by (metis image_eqI nth_list_update_neq)
    ultimately have "holds n mem ?p' s" using h unfolding holds_def by simp
    then show ?thesis by (simp add: mem_def)
  qed
  have o: "owned ?p' = owned ?p" by (simp add: owned_def)
  have "pool_inv n (w\<lparr>pw_pool := pw_pool w, pw_mem := ?mem, pw_sessions := (pw_sessions w)[j := ?p']\<rparr>)"
  proof (rule change_inv [OF inv j, where new = "[]", OF _ _ _ _ sizes h'])
    fix i b assume i: "i < length (pw_sessions w)" "i \<noteq> j" "b \<in> set (owned (pw_sessions w ! i))"
    then have "b \<noteq> ps_rBuf ?p" using distinct_owned(3) [OF inv pin i(1) j i(2)] own by auto
    then show "?mem ! b = pw_mem w ! b" by simp
  qed (simp_all add: o)
  moreover have "(on_session j f w)\<lparr>pw_mem := m\<rparr> = w\<lparr>pw_mem := m, pw_sessions := (pw_sessions w)[j := f ?p]\<rparr>" for f m
    by (cases w) (simp add: on_session_def)
  ultimately show ?thesis using j open' room by (simp add: Let_def)
qed

text \<open>What changes only the marks of a session.\<close>

lemma put_on_session:
  "pool_Put bs (on_session j f w) = w\<lparr>pw_pool := pw_pool w @ bs, pw_sessions := (pw_sessions w)[j := f (pw_sessions w ! j)]\<rparr>"
  by (cases w) (simp add: pool_Put_def on_session_def)

lemma mark_inv:
  assumes inv: "pool_inv n w" and j: "j < length (pw_sessions w)"
    and p: "\<And>s. holds n (pw_mem w) (pw_sessions w ! j) s \<Longrightarrow> holds n (pw_mem w) p s"
    and ms: "\<And>s Q. holds n (pw_mem w) (pw_sessions w ! j) s \<Longrightarrow> session_inv s Q \<Longrightarrow> mset freed + mset (owned p) \<subseteq># mset (owned (pw_sessions w ! j))"
  shows "pool_inv n (w\<lparr>pw_pool := pw_pool w @ freed, pw_sessions := (pw_sessions w)[j := p]\<rparr>)"
proof -
  obtain s where h: "holds n (pw_mem w) (pw_sessions w ! j) s" using pool_invD(4) [OF inv, of "pw_sessions w ! j"] j by auto
  obtain Q where Q: "session_inv s Q" using holdsD(1) [OF h] by blast
  have sub: "mset (pw_pool w @ freed) + mset (owned p) \<subseteq># mset [] + mset (pw_pool w) + mset (owned (pw_sessions w ! j))"
    using ms [OF h Q] by (simp add: add.assoc)
  have "pool_inv n (w\<lparr>pw_pool := pw_pool w @ freed, pw_mem := pw_mem w, pw_sessions := (pw_sessions w)[j := p]\<rparr>)"
    by (rule change_inv [OF inv j sub _ _ _ _ p [OF h]]) (use inv in \<open>auto simp: pool_inv_def\<close>)
  then show ?thesis by simp
qed

lemma pool_act_inv:
  assumes inv: "pool_inv n w" and ok: "careful_pool_act w x"
  shows "pool_inv n (pool_act bl n x w)"
proof (cases x)
  case (OpenSession k1 k2 c)
  then have "int c < 2 ^ 32" using ok by simp
  then have "c < 2 ^ 32" by (metis of_nat_less_iff of_nat_numeral of_nat_power)
  then show ?thesis using OpenSession open_session_inv [OF inv] by simp
next
  case (OnSession j k y)
  then show ?thesis using session_act_inv [OF inv, of j y bl k] ok inv by simp
next
  case (ReadConn j pos bs)
  then show ?thesis using read_conn_inv [OF inv, of j pos bs bl] inv by (cases "j < length (pw_sessions w) \<and> \<not> ps_waited (pw_sessions w ! j) \<and> pos + length bs \<le> unat n") auto
next
  case (CloseMark j)
  have "pool_inv n (w\<lparr>pw_pool := pw_pool w @ [], pw_sessions := (pw_sessions w)[j := (pw_sessions w ! j)\<lparr>ps_state := StateDie\<rparr>]\<rparr>)"
    if "j < length (pw_sessions w)" by (rule mark_inv [OF inv that]) (auto simp: holds_def owned_def)
  then show ?thesis using CloseMark inv by (simp add: on_session_def)
next
  case (CloseConn j)
  let ?p = "pw_sessions w ! j"
  show ?thesis
  proof (cases "j < length (pw_sessions w) \<and> ps_state ?p = StateDie \<and> c_jobs (ps_conc ?p) = [] \<and> c_taken (ps_conc ?p) = []")
    case True
    have "pool_inv n (w\<lparr>pw_pool := pw_pool w @ [], pw_sessions := (pw_sessions w)[j := ?p\<lparr>ps_waited := True\<rparr>]\<rparr>)"
      by (rule mark_inv [OF inv]) (use True ok CloseConn in \<open>auto simp: holds_def owned_def list_all_iff\<close>)
    then show ?thesis using CloseConn True by (simp add: on_session_def)
  next
    case False
    then show ?thesis using CloseConn inv by auto
  qed
next
  case (CloseRelease j)
  let ?p = "pw_sessions w ! j"
  show ?thesis
  proof (cases "j < length (pw_sessions w) \<and> ps_waited ?p \<and> \<not> ps_released ?p")
    case True
    have "pool_inv n (w\<lparr>pw_pool := pw_pool w @ [ps_rBuf ?p, ps_bufs ?p ! c_wslot (ps_conc ?p)], pw_sessions := (pw_sessions w)[j := ?p\<lparr>ps_released := True\<rparr>]\<rparr>)"
    proof (rule mark_inv [OF inv])
      fix s Q assume h: "holds n (pw_mem w) ?p s" "session_inv s Q"
      have "c_wslot s \<in> set (live s)" using sent_small(3,4) [OF h(2)] by (simp add: in_live)
      moreover have "c_wslot (ps_conc ?p) = c_wslot s" using holdsD(4) [OF h(1)] by auto
      ultimately have "ps_bufs ?p ! c_wslot (ps_conc ?p) \<in># mset (map ((!) (ps_bufs ?p)) (live s))" by simp
      then show "mset [ps_rBuf ?p, ps_bufs ?p ! c_wslot (ps_conc ?p)] + mset (owned (?p\<lparr>ps_released := True\<rparr>)) \<subseteq># mset (owned ?p)"
        using owned_holds [OF h(1)] True by (simp add: owned_def)
    qed (use True in \<open>auto simp: holds_def\<close>)
    then show ?thesis using CloseRelease True by (simp add: put_on_session Let_def)
  next
    case False
    then show ?thesis using CloseRelease inv by auto
  qed
qed

lemma empty_world_inv: "pool_inv n empty_world"
  by (simp add: pool_inv_def empty_world_def held_def)

interpretation pools: step_invariant "\<lambda>w. w = empty_world" "pool_step bl n" "pool_inv n" for bl n
  by unfold_locales (auto simp: empty_world_inv pool_act_inv elim: pool_stepE)

section \<open>Properties\<close>

text \<open>C7: sessions that share one pool of buffers do not disturb each other: in every careful interleaving of calls, workers, reads and
  closings of any number of sessions, no buffer has two holders; a read buffer holds what its own connection has been
  read into it; and a session that has come to rest has sent exactly the frames it has accepted, each once and whole,
  whoever used its buffers before.\<close>

theorem sessions_isolated:
  assumes "reach (\<lambda>w. w = empty_world) (pool_step bl n) w" "p \<in> set (pw_sessions w)"
  shows "distinct (held w) \<and> (\<not> ps_released p \<longrightarrow> pw_mem w ! ps_rBuf p = ps_private p)
    \<and> (quiet (ps_conc p) \<longrightarrow> (\<exists>gss. map snd (c_sent (ps_conc p)) = map concat gss \<and> mset (concat gss) = mset (c_accepted (ps_conc p))))"
proof -
  have inv: "pool_inv n w" by (rule pools.reach_inv [OF assms(1)])
  obtain s where h: "holds n (pw_mem w) p s" using pool_invD(4) [OF inv assms(2)] by blast
  obtain Q B where s: "session_inv s Q" "ps_conc p = with_bufs B s" using holdsD(1,4) [OF h] by blast
  then have "quiet (ps_conc p) = quiet s" by (simp add: quiet_def)
  then show ?thesis using quiet_sent [OF s(1)] s(2) holdsD(5) [OF h] pool_invD(2) [OF inv] by simp
qed

definition frame_c :: "u8 list" where "frame_c = [20, 0, 0, 0, 0, 0, 51, 0, 1, 2, 3, 4, 5, 6, 7, 8, 9, 10, 11, 12]"

text \<open>A call of session \<open>j\<close> from its beginning to its end.\<close>

definition whole_call :: "nat \<Rightarrow> nat \<Rightarrow> u8 list \<Rightarrow> pool_action list" where
  "whole_call j i f = OnSession j 9 (Begin i f) # replicate 6 (OnSession j 9 (Advance i))"

text \<open>A worker runs the first job of session \<open>j\<close>, which is slot \<open>a\<close>.\<close>

definition whole_job :: "nat \<Rightarrow> nat \<Rightarrow> pool_action list" where
  "whole_job j a = [OnSession j 9 TakeJob, OnSession j 9 (SendSlot a)]"

text \<open>The second session gets the buffer that the first one has given back, and ends.\<close>

definition recycled :: "pool_action list" where
  "recycled = [OpenSession 9 9 2, ReadConn 0 0 [7, 7]] @ whole_call 0 0 frame_a @ whole_job 0 0
     @ [OpenSession 9 0 2] @ whole_call 1 0 frame_c @ [ReadConn 1 0 [5]] @ whole_job 1 0 @ [CloseMark 1, CloseConn 1, CloseRelease 1]"

lemma sessions_isolated_witness:
  "\<exists>p q. pw_sessions (pool_run 4 64 recycled empty_world) = [p, q] \<and> ps_bufs p ! 0 = ps_bufs q ! 0
    \<and> map snd (c_sent (ps_conc p)) = [frame_a] \<and> map snd (c_sent (ps_conc q)) = [frame_c]
    \<and> pw_mem (pool_run 4 64 recycled empty_world) ! ps_rBuf p = ps_private p \<and> take 2 (ps_private p) = [7, 7]
    \<and> (\<exists>gss. map snd (c_sent (ps_conc q)) = map concat gss \<and> mset (concat gss) = mset (c_accepted (ps_conc q)))"
proof -
  have "careful_pool_run 4 64 empty_world recycled" by code_simp
  then have run: "reach (\<lambda>w. w = empty_world) (pool_step 4 64) (pool_run 4 64 recycled empty_world)"
    using pool_run_reach [OF reach_init [where s = empty_world]] by simp
  have "case pw_sessions (pool_run 4 64 recycled empty_world) of
      [p, q] \<Rightarrow> ps_bufs p ! 0 = ps_bufs q ! 0 \<and> map snd (c_sent (ps_conc p)) = [frame_a] \<and> map snd (c_sent (ps_conc q)) = [frame_c]
        \<and> \<not> ps_released p \<and> take 2 (ps_private p) = [7, 7] \<and> quiet (ps_conc q)
    | _ \<Rightarrow> False"
    by code_simp
  then obtain p q where pq: "pw_sessions (pool_run 4 64 recycled empty_world) = [p, q]"
    and facts: "ps_bufs p ! 0 = ps_bufs q ! 0" "map snd (c_sent (ps_conc p)) = [frame_a]" "map snd (c_sent (ps_conc q)) = [frame_c]"
      "\<not> ps_released p" "take 2 (ps_private p) = [7, 7]" "quiet (ps_conc q)"
    by (auto split: list.splits)
  from sessions_isolated [OF run, of p] sessions_isolated [OF run, of q] facts pq show ?thesis by simp
qed


end
