(* ===== verification/Handler.thy ===== *)
theory Handler
  imports Frame
begin

text \<open>
  \<open>transport/handler.go\<close>: the table from frame types to handlers, shared by all sessions of a
  node, and the \<open>Session\<close> interface the handlers see. \<open>'w\<close> is the state of everything a handler
  can reach (connections, breakers, the user's data).
\<close>

datatype transport_error =
    errFrameTypeNil | errFrameTypeExit | errNoHandler u16
  | ErrFailureIORead | ErrConnClose | ErrcircuitBreakerIsPass | ErrFailureBusy
  | ErrInternalTimeout | ErrAvailableCursor
  | ErrEOF | ErrClosedConnection | ErrConn nat
  | ErrRejected nat

text \<open>\<open>ErrEOF\<close>, \<open>ErrClosedConnection\<close> (``use of closed network connection'') and \<open>ErrConn n\<close> are
  errors of the network package; \<open>ErrRejected n\<close> stands for an error made by a handler.\<close>

definition ProtocolMagicNumber :: u32 where
  "ProtocolMagicNumber = 2299"

definition protocolMagic :: "u32 \<Rightarrow> bool" where
  "protocolMagic u \<longleftrightarrow> u = ProtocolMagicNumber"

text \<open>The interface \<open>Session\<close>: a record of its methods.\<close>

record 'w Session =
  sessGetFrameSlice :: "'w \<Rightarrow> FrameSlice option"
  sessWriteFrameDataPromptly :: "FrameSlice \<Rightarrow> 'w \<Rightarrow> transport_error option \<times> 'w"
  sessWriteFrameDataToCache :: "FrameSlice \<Rightarrow> (transport_error \<Rightarrow> 'w \<Rightarrow> 'w) \<Rightarrow> 'w \<Rightarrow> transport_error option \<times> 'w"
  sessClose :: "'w \<Rightarrow> 'w"

text \<open>A handler returns an error or nil, or panics; both leave a state behind.\<close>

datatype 'w handled = Returned "transport_error option" 'w | Panicked 'w

type_synonym 'w handler_func = "'w Session \<Rightarrow> 'w \<Rightarrow> 'w handled"

type_synonym 'w Handler = "u16 \<Rightarrow> 'w handler_func option"

definition HandleFunc :: "'w Handler \<Rightarrow> u16 \<Rightarrow> 'w handler_func \<Rightarrow> 'w Handler" where
  "HandleFunc h u16 f = h(u16 := Some f)"

definition nil_handler :: "'w handler_func" where
  "nil_handler s w = Returned (Some errFrameTypeNil) w"

definition heartbeatC_handler :: "'w handler_func" where
  "heartbeatC_handler s w = Returned None w"

definition heartbeatS_handler :: "'w handler_func" where
  "heartbeatS_handler s w = Returned None (snd (sessWriteFrameDataPromptly s FrameHeartbeatC w))"

definition exit_handler :: "'w handler_func" where
  "exit_handler s w = Returned (Some errFrameTypeExit) w"

definition ping_handler :: "'w handler_func" where
  "ping_handler s w = Returned None (snd (sessWriteFrameDataPromptly s FramePong w))"

definition NewHandler :: "'w Handler" where
  "NewHandler =
     (let h = (\<lambda>_. None);
          h = HandleFunc h FrameTypeNil nil_handler;
          h = HandleFunc h FrameTypeHeartbeatC heartbeatC_handler;
          h = HandleFunc h FrameTypeHeartbeatS heartbeatS_handler;
          h = HandleFunc h FrameTypeExit exit_handler;
          h = HandleFunc h FrameTypePing ping_handler
      in h)"

definition route :: "'w Handler \<Rightarrow> u16 \<Rightarrow> 'w handler_func" where
  "route h ft s w =
     (case h ft of Some t \<Rightarrow> t s w | None \<Rightarrow> Returned (Some (errNoHandler ft)) w)"

lemma NewHandler_simps [simp]:
  "NewHandler FrameTypeNil = Some nil_handler"
  "NewHandler FrameTypeHeartbeatC = Some heartbeatC_handler"
  "NewHandler FrameTypeHeartbeatS = Some heartbeatS_handler"
  "NewHandler FrameTypeExit = Some exit_handler"
  "NewHandler FrameTypePing = Some ping_handler"
  "NewHandler FrameTypePong = None"
  by (simp_all add: NewHandler_def HandleFunc_def Let_def frame_type_defs)

lemma route_HandleFunc:
  "route (HandleFunc h ft f) ft = f"
  "ft' \<noteq> ft \<Longrightarrow> route (HandleFunc h ft f) ft' = route h ft'"
  by (simp_all add: route_def HandleFunc_def fun_eq_iff)

end
