(* ===== verification/SessionRead.thy ===== *)
theory SessionRead
  imports Handler
begin

text \<open>
  The receiving side of a session: \<open>GetFrameSlice\<close>, \<open>getFrameType\<close> and \<open>ioRead\<close> of
  \<open>transport/tcp_session.go\<close>, and the loops that route what was read, \<open>ioLoop\<close> of
  \<open>transport/tcp_server.go\<close> and \<open>Run\<close> of \<open>transport/tcp_client.go\<close>.
\<close>

section \<open>The read buffer\<close>

text \<open>Bytes \<open>rd_r, \<dots>, rd_w - 1\<close> of \<open>rBuf\<close> are received and not yet routed.\<close>

record SessionRd =
  rBuf :: "u8 list"
  rd_w :: nat
  rd_r :: nat

definition frame_length_at :: "SessionRd \<Rightarrow> u32 option" where
  "frame_length_at s = do {
     h \<leftarrow> reslice (of_list (rBuf s)) (int (rd_r s)) (int (rd_r s + 4));
     BytesToUint32 h }"

definition GetFrameSlice :: "SessionRd \<Rightarrow> FrameSlice option" where
  "GetFrameSlice s =
     (if rd_w s < rd_r s + FrameHeadLength then Some FrameNil
      else do {
        len \<leftarrow> frame_length_at s;
        if rd_r s + unat len \<le> rd_w s
        then do {
          b \<leftarrow> reslice (of_list (rBuf s)) (int (rd_r s)) (int (rd_r s + unat len));
          DecodeByBytes b }
        else Some FrameNil })"

definition getFrameType :: "SessionRd \<Rightarrow> u16 option" where
  "getFrameType s =
     (if rd_w s < rd_r s + FrameHeadLength then Some FrameTypeNil
      else do {
        len \<leftarrow> frame_length_at s;
        if rd_r s + unat len > rd_w s then Some FrameTypeNil
        else do {
          b \<leftarrow> reslice (of_list (rBuf s)) (int (rd_r s + 6)) (int (rd_r s + 8));
          BytesToUint16 b } })"

text \<open>What the connection answers: the deadline could not be set, or a read with its bytes.\<close>

datatype conn_read = NoDeadline transport_error | ReadBytes "u8 list" "transport_error option"

definition compact :: "SessionRd \<Rightarrow> SessionRd" where
  "compact s =
     (if rd_r s > 0 then
        (if rd_r s < rd_w s
         then s\<lparr>rBuf := gocopy (rBuf s) (take (rd_w s - rd_r s) (drop (rd_r s) (rBuf s))), rd_w := rd_w s - rd_r s\<rparr>
         else s\<lparr>rd_w := 0\<rparr>)
      else s)"

text \<open>The count returned is \<open>s.w - s.r\<close>, all that is buffered.\<close>

definition ioRead :: "SessionRd \<Rightarrow> conn_read \<Rightarrow> (nat \<times> transport_error option) \<times> SessionRd" where
  "ioRead s c =
     (let s = compact s in
      if rd_w s \<ge> length (rBuf s) then ((0, Some ErrFailureIORead), s)
      else case c of
        NoDeadline e \<Rightarrow> ((0, Some e), s)
      | ReadBytes bs e \<Rightarrow>
          (let s = s\<lparr>rBuf := overwrite (rBuf s) (rd_w s) bs, rd_r := 0, rd_w := rd_w s + length bs\<rparr>
           in ((rd_w s - rd_r s, e), s)))"

text \<open>The contract of \<open>Conn.Read\<close>: at most the free part of the buffer is filled.\<close>

definition free_space :: "SessionRd \<Rightarrow> nat" where
  "free_space s = (let s = compact s in length (rBuf s) - rd_w s)"

section \<open>The routing loop\<close>

text \<open>The session a handler sees has the current frame of the buffer.\<close>

definition session_view :: "'w Session \<Rightarrow> SessionRd \<Rightarrow> 'w Session" where
  "session_view se s = se\<lparr>sessGetFrameSlice := \<lambda>_. GetFrameSlice s\<rparr>"

datatype 'w loop_end = Drained SessionRd 'w | ExitReceived SessionRd 'w | LoopPanic 'w

text \<open>
  The inner \<open>for\<close> of both loops. The first argument is fuel, one unit per frame; \<^const>\<open>None\<close> means
  that the loop is still running.
\<close>

fun process_frames ::
  "nat \<Rightarrow> 'w Handler \<Rightarrow> 'w Session \<Rightarrow> SessionRd \<Rightarrow> 'w \<Rightarrow> 'w loop_end option" where
  "process_frames 0 h se s w = None"
| "process_frames (Suc n) h se s w =
     (case getFrameType s of
        None \<Rightarrow> Some (LoopPanic w)
      | Some ft \<Rightarrow>
        (case route h ft (session_view se s) w of
           Panicked w' \<Rightarrow> Some (LoopPanic w')
         | Returned err w' \<Rightarrow>
           (if err \<noteq> None \<and> ft = FrameTypeNil then Some (Drained s w')
            else if err \<noteq> None \<and> ft = FrameTypeExit then Some (ExitReceived s w')
            else case frame_length_at s of
                None \<Rightarrow> Some (LoopPanic w')
              | Some len \<Rightarrow> process_frames n h se (s\<lparr>rd_r := rd_r s + unat len\<rparr>) w')))"

text \<open>
  \<open>ioLoop\<close> over the answers of the connection so far. A panic is recovered and the function returns
  nil. \<open>lim\<close> is the wait at the limiter, with the limiter's own state \<open>l\<close>.
\<close>

datatype ('l, 'w) io_end =
    IoWaiting SessionRd 'l 'w
  | IoReturned "transport_error option" 'l 'w

fun ioLoop ::
  "nat \<Rightarrow> 'w Handler \<Rightarrow> (nat \<Rightarrow> 'l \<Rightarrow> 'l) \<Rightarrow> 'w Session \<Rightarrow> SessionRd \<Rightarrow> 'l \<Rightarrow> 'w \<Rightarrow> conn_read list
    \<Rightarrow> ('l, 'w) io_end option" where
  "ioLoop fuel h lim se s l w [] = Some (IoWaiting s l w)"
| "ioLoop fuel h lim se s l w (c # cs) =
     (case ioRead s c of
        ((n, Some e), s') \<Rightarrow>
          (if e = ErrClosedConnection then Some (IoReturned None l w) else Some (IoReturned (Some e) l w))
      | ((n, None), s') \<Rightarrow>
          (let l' = lim n l in
           case process_frames fuel h se s' w of
             None \<Rightarrow> None
           | Some (Drained s'' w') \<Rightarrow> ioLoop fuel h lim se s'' l' w' cs
           | Some (ExitReceived s'' w') \<Rightarrow> Some (IoReturned None l' w')
           | Some (LoopPanic w') \<Rightarrow> Some (IoReturned None l' w')))"

text \<open>\<open>Run\<close> of the client: any end closes the session.\<close>

datatype ('l, 'w) client_end = ClientWaiting SessionRd 'l 'w | ClientClosed 'l 'w

fun ClientRun ::
  "nat \<Rightarrow> 'w Handler \<Rightarrow> (nat \<Rightarrow> 'l \<Rightarrow> 'l) \<Rightarrow> 'w Session \<Rightarrow> SessionRd \<Rightarrow> 'l \<Rightarrow> 'w \<Rightarrow> conn_read list
    \<Rightarrow> ('l, 'w) client_end option" where
  "ClientRun fuel h lim se s l w [] = Some (ClientWaiting s l w)"
| "ClientRun fuel h lim se s l w (c # cs) =
     (case ioRead s c of
        ((n, Some e), s') \<Rightarrow> Some (ClientClosed l (sessClose se w))
      | ((n, None), s') \<Rightarrow>
          (let l' = lim n l in
           case process_frames fuel h se s' w of
             None \<Rightarrow> None
           | Some (Drained s'' w') \<Rightarrow> ClientRun fuel h lim se s'' l' w' cs
           | Some (ExitReceived s'' w') \<Rightarrow> Some (ClientClosed l' (sessClose se w'))
           | Some (LoopPanic w') \<Rightarrow> Some (ClientClosed l' (sessClose se w'))))"

text \<open>
  \<open>readUint32\<close> reads once into four zero bytes; \<open>Conn.Read\<close> may fill only some of them.
  \<open>tcpReceive\<close> checks the word, runs \<open>ioLoop\<close> and closes the session however it ends.
\<close>

definition readUint32 :: "conn_read \<Rightarrow> transport_error + u32" where
  "readUint32 c =
     (case c of
        NoDeadline e \<Rightarrow> Inl e
      | ReadBytes bs (Some e) \<Rightarrow> Inl e
      | ReadBytes bs None \<Rightarrow>
          (let b = overwrite (replicate 4 0) 0 bs
           in Inr (ucast (b ! 0) OR push_bit 8 (ucast (b ! 1)) OR push_bit 16 (ucast (b ! 2))
                   OR push_bit 24 (ucast (b ! 3)))))"

definition tcpReceive ::
  "nat \<Rightarrow> 'w Handler \<Rightarrow> (nat \<Rightarrow> 'l \<Rightarrow> 'l) \<Rightarrow> 'w Session \<Rightarrow> SessionRd \<Rightarrow> 'l \<Rightarrow> 'w \<Rightarrow> conn_read \<Rightarrow> conn_read list
    \<Rightarrow> ('l, 'w) client_end option" where
  "tcpReceive fuel h lim se s l w c cs =
     (case readUint32 c of
        Inl e \<Rightarrow> Some (ClientClosed l (sessClose se w))
      | Inr pm \<Rightarrow>
         (if \<not> protocolMagic pm then Some (ClientClosed l (sessClose se w))
          else case ioLoop fuel h lim se s l w cs of
              None \<Rightarrow> None
            | Some (IoWaiting s' l' w') \<Rightarrow> Some (ClientWaiting s' l' w')
            | Some (IoReturned e l' w') \<Rightarrow> Some (ClientClosed l' (sessClose se w'))))"

section \<open>What is buffered\<close>

definition rd_ok :: "SessionRd \<Rightarrow> bool" where
  "rd_ok s \<longleftrightarrow> rd_r s \<le> rd_w s \<and> rd_w s \<le> length (rBuf s)"

definition pending :: "SessionRd \<Rightarrow> u8 list" where
  "pending s = take (rd_w s - rd_r s) (drop (rd_r s) (rBuf s))"

lemma length_pending [simp]: "rd_ok s \<Longrightarrow> length (pending s) = rd_w s - rd_r s"
  by (auto simp: rd_ok_def pending_def min_def)

lemma pending_reslice:
  assumes "rd_ok s" "lo \<le> hi" "hi \<le> rd_w s - rd_r s"
  shows "\<exists>b. reslice (of_list (rBuf s)) (int (rd_r s + lo)) (int (rd_r s + hi)) = Some b \<and> wf_slice b
           \<and> elems b = take (hi - lo) (drop lo (pending s))"
proof -
  have "take (hi - lo) (drop lo (pending s)) = take (hi - lo) (drop (rd_r s + lo) (rBuf s))"
    using assms by (simp add: pending_def take_drop min_def add.commute)
  moreover have "rd_r s + lo \<le> rd_r s + hi" "rd_r s + hi \<le> slen (of_list (rBuf s))"
    using assms by (auto simp: rd_ok_def)
  ultimately show ?thesis
    using reslice_wf_within [OF wf_of_list, of "rd_r s + lo" "rd_r s + hi" "rBuf s"] by auto
qed

lemma frame_length_at_pending:
  assumes "rd_ok s" "4 \<le> length (pending s)" "take 4 (pending s) = bytes32 n"
  shows "frame_length_at s = Some n"
proof -
  obtain b where "reslice (of_list (rBuf s)) (int (rd_r s + 0)) (int (rd_r s + 4)) = Some b" "wf_slice b"
    "elems b = bytes32 n"
    using pending_reslice [of s 0 4] assms by auto
  then show ?thesis by (simp add: frame_length_at_def u32.dec_enc)
qed

text \<open>A complete frame at the front.\<close>

lemma front_frame:
  assumes s: "rd_ok s" "pending s = f @ rest" and f: "wf_frame f"
  shows "frame_length_at s = Some (of_nat (length f))" "unat (of_nat (length f) :: u32) = length f"
    "getFrameType s = Some (frame_type f)"
    "\<exists>g b. GetFrameSlice s = Some g \<and> DecodeByBytes b = Some g \<and> wf_slice b \<and> elems b = f"
proof -
  note F = wf_frame_length [OF f]
  have len: "rd_w s - rd_r s = length f + length rest" using length_pending [OF s(1)] s(2) by simp
  have tk: "take 4 (pending s) = bytes32 (of_nat (length f))" using f s(2) F by (simp add: wf_frame_iff)
  show l: "frame_length_at s = Some (of_nat (length f))"
    using frame_length_at_pending [OF s(1) _ tk] s F by simp
  show u: "unat (of_nat (length f) :: u32) = length f" using F by (simp add: unat_of_nat_small)
  obtain ft d ex where fb: "f = frame_bytes ft d ex" "length ex < 2 ^ 16" using f by (auto simp: wf_frame_def)
  have bd: "\<not> rd_w s < rd_r s + 8" "rd_r s + length f \<le> rd_w s" using F len s(1) by (auto simp: rd_ok_def)
  obtain t where t: "reslice (of_list (rBuf s)) (int (rd_r s + 6)) (int (rd_r s + 8)) = Some t" "wf_slice t"
    "elems t = take 2 (drop 6 (pending s))"
    using pending_reslice [of s 6 8] s(1) F len by auto
  have "elems t = bytes16 ft" using t(3) s(2) fb(1) by (simp add: frame_bytes_def)
  then have "BytesToUint16 t = Some ft" using t(2) by (simp add: u16.dec_enc)
  then show "getFrameType s = Some (frame_type f)"
    using bd l u t(1) fb(1) by (simp add: getFrameType_def FrameHeadLength_def)
  obtain b where b: "reslice (of_list (rBuf s)) (int (rd_r s + 0)) (int (rd_r s + length f)) = Some b" "wf_slice b"
    "elems b = f"
    using pending_reslice [of s 0 "length f"] s len by auto
  obtain g where "DecodeByBytes b = Some g"
    using frame_parts [of b ft d ex] b fb by auto
  then show "\<exists>g b. GetFrameSlice s = Some g \<and> DecodeByBytes b = Some g \<and> wf_slice b \<and> elems b = f"
    using bd l u b by (auto simp: GetFrameSlice_def FrameHeadLength_def)
qed

text \<open>No complete frame at the front: a short header, or a length beyond what is there.\<close>

definition incomplete :: "u8 list \<Rightarrow> bool" where
  "incomplete bs \<longleftrightarrow> length bs < 8 \<or> (\<exists>n. take 4 bs = bytes32 n \<and> length bs < unat n)"

lemma incomplete_type:
  assumes "rd_ok s" "incomplete (pending s)"
  shows "getFrameType s = Some FrameTypeNil"
proof (cases "length (pending s) < 8")
  case True
  then have "rd_w s < rd_r s + 8" using assms(1) by auto
  then show ?thesis by (simp add: getFrameType_def FrameHeadLength_def)
next
  case False
  then obtain n where n: "take 4 (pending s) = bytes32 n" "length (pending s) < unat n"
    using assms(2) by (auto simp: incomplete_def)
  have "frame_length_at s = Some n"
    using frame_length_at_pending [OF assms(1) _ n(1)] False by simp
  moreover have "rd_w s < rd_r s + unat n" using n(2) assms(1) by (auto simp: rd_ok_def)
  ultimately show ?thesis using False assms(1) by (auto simp: getFrameType_def FrameHeadLength_def rd_ok_def)
qed

lemma proper_prefix_incomplete:
  assumes "wf_frame f" "f = p @ q" "q \<noteq> []"
  shows "incomplete p"
proof (cases "length p < 8")
  case False
  have "take 4 p = bytes32 (of_nat (length f))" using assms False by (auto simp: wf_frame_iff)
  moreover have "unat (of_nat (length f) :: u32) = length f"
    using wf_frame_length [OF assms(1)] by (simp add: unat_of_nat_small)
  moreover have "length p < length f" using assms(2,3) by simp
  ultimately show ?thesis unfolding incomplete_def by metis
qed (simp add: incomplete_def)

lemma frame_not_incomplete: "wf_frame f \<Longrightarrow> \<not> incomplete (f @ p)"
proof
  assume f: "wf_frame f" and "incomplete (f @ p)"
  moreover have "8 \<le> length f" "take 4 (f @ p) = bytes32 (of_nat (length f))"
    using f by (auto simp: wf_frame_iff)
  ultimately obtain n where "bytes32 (of_nat (length f)) = bytes32 n" "length (f @ p) < unat n"
    by (auto simp: incomplete_def)
  moreover have "unat (of_nat (length f) :: u32) = length f"
    using wf_frame_length [OF f] by (simp add: unat_of_nat_small)
  ultimately show False by (auto dest: u32.enc_inj)
qed

text \<open>A prefix of a stream of frames is some whole frames and a proper part of the next.\<close>

lemma stream_prefix:
  assumes "p @ q = concat fs" "list_all wf_frame fs"
  shows "\<exists>k tl. k \<le> length fs \<and> p = concat (take k fs) @ tl \<and> incomplete tl
    \<and> (tl \<noteq> [] \<longrightarrow> k < length fs \<and> length tl < length (fs ! k))"
  using assms
proof (induction fs arbitrary: p)
  case Nil
  then show ?case by (simp add: incomplete_def)
next
  case (Cons f fs)
  show ?case
  proof (cases "length f \<le> length p")
    case True
    then obtain p' where p': "p = f @ p'" "p' @ q = concat fs"
      using Cons.prems(1) by (auto simp: append_eq_append_conv2)
    then obtain k tl where "k \<le> length fs" "p' = concat (take k fs) @ tl" "incomplete tl"
      "tl \<noteq> [] \<longrightarrow> k < length fs \<and> length tl < length (fs ! k)"
      using Cons.IH [of p'] Cons.prems(2) by auto
    then show ?thesis using p' by (intro exI [of _ "Suc k"] exI [of _ tl]) auto
  next
    case False
    then obtain q' where "f = p @ q'" "q' \<noteq> []"
      using Cons.prems(1) by (auto simp: append_eq_append_conv2)
    then have "incomplete p" using proper_prefix_incomplete Cons.prems(2) by auto
    then show ?thesis using False by (intro exI [of _ 0] exI [of _ p]) auto
  qed
qed

section \<open>Routing whole frames\<close>

text \<open>
  \<open>handles se h eff f\<close>: the handler registered for the type of frame \<open>f\<close> returns when session \<open>se\<close> shows it this
  frame, with an effect on the state that is a function \<open>eff\<close> of the bytes of the frame.
\<close>

definition handles :: "'w Session \<Rightarrow> 'w Handler \<Rightarrow> (u8 list \<Rightarrow> 'w \<Rightarrow> transport_error option \<times> 'w) \<Rightarrow> u8 list \<Rightarrow> bool" where
  "handles se h eff f \<longleftrightarrow> (\<exists>hf. h (frame_type f) = Some hf \<and>
     (\<forall>s w g b. GetFrameSlice s = Some g \<and> DecodeByBytes b = Some g \<and> wf_slice b \<and> elems b = f
        \<longrightarrow> hf (session_view se s) w = Returned (fst (eff f w)) (snd (eff f w))))"

definition deliver :: "(u8 list \<Rightarrow> 'w \<Rightarrow> transport_error option \<times> 'w) \<Rightarrow> u8 list list \<Rightarrow> 'w \<Rightarrow> 'w" where
  "deliver eff fs w = foldl (\<lambda>w f. snd (eff f w)) w fs"

definition plain_frame :: "u8 list \<Rightarrow> bool" where
  "plain_frame f \<longleftrightarrow> wf_frame f \<and> frame_type f \<noteq> FrameTypeNil \<and> frame_type f \<noteq> FrameTypeExit"

lemma deliver_simps [simp]:
  "deliver eff [] w = w"
  "deliver eff (f # fs) w = deliver eff fs (snd (eff f w))"
  "deliver eff (fs @ gs) w = deliver eff gs (deliver eff fs w)"
  by (simp_all add: deliver_def)

lemma frames_bytes: "list_all plain_frame fs \<Longrightarrow> length fs \<le> length (concat fs)"
proof (induction fs)
  case (Cons f fs)
  then have "8 \<le> length f" using wf_frame_length [of f] by (simp add: plain_frame_def)
  with Cons show ?case by simp
qed simp

lemma process_delivers:
  assumes "rd_ok s" "pending s = concat fs @ part" "incomplete part" "length fs < fuel"
    and "list_all plain_frame fs" "list_all (handles se h eff) fs" "h FrameTypeNil = Some nil_handler"
  shows "\<exists>s'. process_frames fuel h se s w = Some (Drained s' (deliver eff fs w)) \<and> rd_ok s'
           \<and> pending s' = part \<and> rBuf s' = rBuf s"
  using assms(1-6)
proof (induction fs arbitrary: s w fuel)
  case Nil
  then obtain n where n: "fuel = Suc n" by (cases fuel) auto
  have "getFrameType s = Some FrameTypeNil" using incomplete_type Nil.prems by simp
  then show ?case using Nil.prems n assms(7) by (simp add: route_def nil_handler_def)
next
  case (Cons f fs)
  then obtain n where n: "fuel = Suc n" by (cases fuel) auto
  have f: "wf_frame f" "frame_type f \<noteq> FrameTypeNil" "frame_type f \<noteq> FrameTypeExit"
    using Cons.prems(5) by (simp_all add: plain_frame_def)
  have front: "pending s = f @ (concat fs @ part)" using Cons.prems(2) by simp
  note F = front_frame [OF Cons.prems(1) front f(1)]
  obtain hf where hf: "h (frame_type f) = Some hf"
    "\<And>s w g b. GetFrameSlice s = Some g \<Longrightarrow> DecodeByBytes b = Some g \<Longrightarrow> wf_slice b \<Longrightarrow> elems b = f
      \<Longrightarrow> hf (session_view se s) w = Returned (fst (eff f w)) (snd (eff f w))"
    using Cons.prems(6) by (auto simp: handles_def)
  have routed: "route h (frame_type f) (session_view se s) w = Returned (fst (eff f w)) (snd (eff f w))"
    using hf F(4) by (auto simp: route_def)
  define s1 where "s1 = s\<lparr>rd_r := rd_r s + length f\<rparr>"
  have len: "length f \<le> rd_w s - rd_r s"
    using arg_cong [OF front, of length] length_pending [OF Cons.prems(1)] by simp
  have "rd_ok s1" using Cons.prems(1) len by (auto simp: s1_def rd_ok_def)
  moreover have "pending s1 = concat fs @ part"
    using arg_cong [OF front, of "drop (length f)"] len by (simp add: s1_def pending_def drop_take add.commute)
  ultimately obtain s' where "process_frames n h se s1 (snd (eff f w)) = Some (Drained s' (deliver eff fs (snd (eff f w))))"
    "rd_ok s'" "pending s' = part" "rBuf s' = rBuf s1"
    using Cons.IH [of s1 n "snd (eff f w)"] Cons.prems n by auto
  then show ?case using n F(1-3) f routed by (auto simp: s1_def)
qed

section \<open>Reading\<close>

lemma compact_pending:
  assumes "rd_ok s"
  shows "rd_w (compact s) = length (pending s)" "length (rBuf (compact s)) = length (rBuf s)"
    "take (length (pending s)) (rBuf (compact s)) = pending s"
  using assms
  by (auto simp: compact_def rd_ok_def pending_def gocopy_def min_def)

lemma ioRead_appends:
  assumes "rd_ok s" "length (pending s) < length (rBuf s)" "length bs \<le> free_space s"
  shows "\<exists>s'. ioRead s (ReadBytes bs None) = ((length (pending s @ bs), None), s') \<and> rd_ok s'
           \<and> pending s' = pending s @ bs \<and> length (rBuf s') = length (rBuf s)"
proof -
  note C = compact_pending [OF assms(1)]
  have fit: "length (pending s) + length bs \<le> length (rBuf s)"
    using assms C by (auto simp: free_space_def Let_def)
  define s' where "s' = (compact s)\<lparr>rBuf := overwrite (rBuf (compact s)) (length (pending s)) bs, rd_r := 0,
    rd_w := length (pending s) + length bs\<rparr>"
  have "ioRead s (ReadBytes bs None) = ((length (pending s @ bs), None), s')"
    using assms(2) C by (simp add: ioRead_def Let_def s'_def)
  moreover have "pending s' = pending s @ bs"
    using C fit by (simp add: s'_def pending_def take_overwrite del: length_pending)
  moreover have "rd_ok s'" "length (rBuf s') = length (rBuf s)"
    using fit C by (simp_all add: s'_def rd_ok_def)
  ultimately show ?thesis by blast
qed

text \<open>
  A connection that delivers a stream in pieces: the \<open>i\<close>-th read takes at most the \<open>i\<close>-th size, and
  at most what fits the buffer, as \<open>Conn.Read\<close> promises. The result is the state of \<open>ioLoop\<close> and
  the rest of the stream.
\<close>

fun receive ::
  "nat \<Rightarrow> 'w Handler \<Rightarrow> (nat \<Rightarrow> 'l \<Rightarrow> 'l) \<Rightarrow> 'w Session \<Rightarrow> SessionRd \<Rightarrow> 'l \<Rightarrow> 'w \<Rightarrow> u8 list \<Rightarrow> nat list
    \<Rightarrow> ('l, 'w) io_end option \<times> u8 list" where
  "receive fuel h lim se s l w stream [] = (Some (IoWaiting s l w), stream)"
| "receive fuel h lim se s l w stream (k # ks) =
     (let n = min k (free_space s) in
      case ioLoop fuel h lim se s l w [ReadBytes (take n stream) None] of
        Some (IoWaiting s' l' w') \<Rightarrow> receive fuel h lim se s' l' w' (drop n stream) ks
      | res \<Rightarrow> (res, drop n stream))"

text \<open>One read, with what was pending and what is still to be routed.\<close>

lemma receive_once:
  assumes s: "rd_ok s" "length (pending s) < length (rBuf s)" "length bs \<le> free_space s"
    and stream: "pending s @ bs @ later = concat fs"
    and fs: "list_all plain_frame fs" "list_all (handles se h eff) fs" "h FrameTypeNil = Some nil_handler"
    and fuel: "length (rBuf s) < fuel"
  shows "\<exists>k s'. ioLoop fuel h lim se s l w [ReadBytes bs None]
        = Some (IoWaiting s' (lim (length (pending s @ bs)) l) (deliver eff (take k fs) w))
      \<and> k \<le> length fs \<and> rd_ok s' \<and> incomplete (pending s') \<and> length (rBuf s') = length (rBuf s)
      \<and> pending s @ bs = concat (take k fs) @ pending s'
      \<and> (pending s' \<noteq> [] \<longrightarrow> k < length fs \<and> length (pending s') < length (fs ! k))"
proof -
  obtain s1 where s1: "ioRead s (ReadBytes bs None) = ((length (pending s @ bs), None), s1)" "rd_ok s1"
    "pending s1 = pending s @ bs" "length (rBuf s1) = length (rBuf s)"
    using ioRead_appends [OF s] by blast
  have wf: "list_all wf_frame fs" using fs(1) by (auto simp: list_all_iff plain_frame_def)
  obtain k part where k: "k \<le> length fs" "pending s @ bs = concat (take k fs) @ part" "incomplete part"
    "part \<noteq> [] \<longrightarrow> k < length fs \<and> length part < length (fs ! k)"
    using stream_prefix [of "pending s @ bs" later fs] stream wf by auto
  have sub: "list_all plain_frame (take k fs)" "list_all (handles se h eff) (take k fs)"
    using fs(1,2) by (auto simp: list_all_iff dest: in_set_takeD)
  have "length (take k fs) \<le> length (concat (take k fs))"
    using sub(1) by (rule frames_bytes)
  also have "\<dots> \<le> length (rBuf s)"
  proof -
    have "length (concat (take k fs)) + length part = rd_w s1 - rd_r s1"
      using arg_cong [OF k(2), of length] length_pending [OF s1(2)] s1(3) by simp
    then show ?thesis using s1(2,4) by (auto simp: rd_ok_def)
  qed
  finally have "length (take k fs) < fuel" using fuel by simp
  then obtain s' where "process_frames fuel h se s1 w = Some (Drained s' (deliver eff (take k fs) w))"
    "rd_ok s'" "pending s' = part" "rBuf s' = rBuf s1"
    using process_delivers [OF s1(2) _ k(3) _ sub fs(3)] s1(3) k(2) by metis
  then show ?thesis using s1 k by (intro exI [of _ k] exI [of _ s']) auto
qed

text \<open>Between reads the buffer always has room, when no frame is longer than the buffer.\<close>

lemma incomplete_fits:
  assumes "incomplete p" "p @ stream = concat fs" "list_all plain_frame fs"
    and "\<forall>f\<in>set fs. length f \<le> N" "0 < N"
  shows "length p < N"
proof (cases fs)
  case Nil
  then show ?thesis using assms by simp
next
  case (Cons f gs)
  then have f: "wf_frame f" "length f \<le> N" using assms(3,4) by (auto simp: plain_frame_def)
  show ?thesis
  proof (rule ccontr)
    assume "\<not> ?thesis"
    then have "length f \<le> length p" using f(2) by linarith
    then obtain q where "p = f @ q" using assms(2) Cons by (auto simp: append_eq_append_conv2)
    then show False using assms(1) frame_not_incomplete [OF f(1)] by simp
  qed
qed

text \<open>
  The whole stream. The frames routed so far, the pending bytes and the rest make up the stream,
  and nothing pending is a whole frame.
\<close>

lemma receive_stream:
  assumes "rd_ok s" "incomplete (pending s)" "pending s @ stream = concat fs"
    and "list_all plain_frame fs" "list_all (handles se h eff) fs" "h FrameTypeNil = Some nil_handler"
    and "\<forall>f\<in>set fs. length f \<le> length (rBuf s)" "0 < length (rBuf s)" "length (rBuf s) < fuel"
  shows "\<exists>k s' l' rest. receive fuel h lim se s l w stream sizes
        = (Some (IoWaiting s' l' (deliver eff (take k fs) w)), rest)
      \<and> k \<le> length fs \<and> rd_ok s' \<and> incomplete (pending s')
      \<and> concat (take k fs) @ pending s' @ rest = concat fs
      \<and> (list_all ((<) 0) sizes \<longrightarrow> length rest \<le> length stream - length sizes)"
  using assms
proof (induction sizes arbitrary: s l w stream fs)
  case Nil
  then show ?case by (intro exI [of _ 0] exI [of _ s]) auto
next
  case (Cons size sizes)
  let ?n = "min size (free_space s)"
  have room: "length (pending s) < length (rBuf s)"
    by (rule incomplete_fits [OF Cons.prems(2,3,4,7,8)])
  have free: "0 < free_space s"
    using room compact_pending [OF Cons.prems(1)] by (simp add: free_space_def Let_def)
  have fits: "length (take ?n stream) \<le> free_space s" by simp
  have all: "pending s @ take ?n stream @ drop ?n stream = concat fs" using Cons.prems(3) by simp
  obtain k s1 where step: "ioLoop fuel h lim se s l w [ReadBytes (take ?n stream) None]
        = Some (IoWaiting s1 (lim (length (pending s @ take ?n stream)) l) (deliver eff (take k fs) w))"
      "k \<le> length fs" "rd_ok s1" "incomplete (pending s1)" "length (rBuf s1) = length (rBuf s)"
      "pending s @ take ?n stream = concat (take k fs) @ pending s1"
    using receive_once [OF Cons.prems(1) room fits all Cons.prems(4,5,6,9), of lim l w] by blast
  have split: "concat fs = concat (take k fs) @ concat (drop k fs)"
    by (metis append_take_drop_id concat_append)
  have "concat (take k fs) @ pending s1 @ drop ?n stream = concat fs"
    using Cons.prems(3) step(6) by (metis append.assoc append_take_drop_id)
  then have stream1: "pending s1 @ drop ?n stream = concat (drop k fs)" using split by simp
  have sub: "list_all plain_frame (drop k fs)" "list_all (handles se h eff) (drop k fs)"
    "\<forall>f\<in>set (drop k fs). length f \<le> length (rBuf s1)"
    using Cons.prems(4,5,7) step(5) by (auto simp: list_all_iff dest: in_set_dropD)
  have len1: "0 < length (rBuf s1)" "length (rBuf s1) < fuel" using Cons.prems(8,9) step(5) by simp_all
  let ?l = "lim (length (pending s @ take ?n stream)) l"
  obtain j s2 l2 rest where res: "receive fuel h lim se s1 ?l (deliver eff (take k fs) w) (drop ?n stream) sizes
        = (Some (IoWaiting s2 l2 (deliver eff (take j (drop k fs)) (deliver eff (take k fs) w))), rest)"
      "j \<le> length (drop k fs)" "rd_ok s2" "incomplete (pending s2)"
      "concat (take j (drop k fs)) @ pending s2 @ rest = concat (drop k fs)"
      "list_all ((<) 0) sizes \<longrightarrow> length rest \<le> length (drop ?n stream) - length sizes"
    using Cons.IH [OF step(3,4) stream1 sub(1,2) Cons.prems(6) sub(3) len1,
        of ?l "deliver eff (take k fs) w"] by blast
  have "receive fuel h lim se s l w stream (size # sizes)
      = (Some (IoWaiting s2 l2 (deliver eff (take (k + j) fs) w)), rest)"
    using step(1) res(1) by (simp add: Let_def take_add)
  moreover have "k + j \<le> length fs" using step(2) res(2) by simp
  moreover have "concat (take (k + j) fs) @ pending s2 @ rest = concat fs"
    using res(5) split by (simp add: take_add)
  moreover have "list_all ((<) 0) (size # sizes) \<longrightarrow> length rest \<le> length stream - length (size # sizes)"
  proof
    assume pos: "list_all ((<) 0) (size # sizes)"
    then have "1 \<le> ?n" using free by simp
    moreover have "length rest \<le> length stream - ?n - length sizes" using res(6) pos by simp
    ultimately show "length rest \<le> length stream - length (size # sizes)" unfolding list.size by linarith
  qed
  ultimately show ?case using res(3,4) by blast
qed

text \<open>Enough reads empty the stream.\<close>

lemma receive_all:
  assumes "rd_w s = 0" "rd_r s = 0" "0 < length (rBuf s)" "length (rBuf s) < fuel"
    and "\<forall>f\<in>set fs. plain_frame f \<and> length f \<le> length (rBuf s) \<and> handles se h eff f"
    and "h FrameTypeNil = Some nil_handler"
    and "\<forall>k\<in>set sizes. 0 < k" "length (concat fs) \<le> length sizes"
  shows "\<exists>s' l'. receive fuel h lim se s l w (concat fs) sizes
        = (Some (IoWaiting s' l' (deliver eff fs w)), []) \<and> pending s' = []"
proof -
  have s: "rd_ok s" "pending s = []" using assms(1,2) by (simp_all add: rd_ok_def pending_def)
  have fs: "list_all plain_frame fs" "list_all (handles se h eff) fs" "\<forall>f\<in>set fs. length f \<le> length (rBuf s)"
    using assms(5) by (simp_all add: list_all_iff)
  have "incomplete (pending s)" "pending s @ concat fs = concat fs" using s by (simp_all add: incomplete_def)
  then obtain k s' l' rest where r: "receive fuel h lim se s l w (concat fs) sizes
        = (Some (IoWaiting s' l' (deliver eff (take k fs) w)), rest)" "incomplete (pending s')" "k \<le> length fs"
      "concat (take k fs) @ pending s' @ rest = concat fs"
      "list_all ((<) 0) sizes \<longrightarrow> length rest \<le> length (concat fs) - length sizes"
    using receive_stream [OF s(1) _ _ fs(1,2) assms(6) fs(3) assms(3,4), of "concat fs" lim l w sizes] by blast
  have rest: "rest = []" using r(5) assms(7,8) by (simp add: list_all_iff)
  have "concat fs = concat (take k fs) @ concat (drop k fs)" by (metis append_take_drop_id concat_append)
  then have p: "pending s' = concat (drop k fs)" using r(4) rest by simp
  have "drop k fs = []"
  proof (cases "drop k fs")
    case (Cons f gs)
    then have "f \<in> set fs" by (metis in_set_dropD list.set_intros(1))
    then have "wf_frame f" using assms(5) by (simp add: plain_frame_def)
    then show ?thesis using r(2) p Cons frame_not_incomplete by simp
  qed
  then show ?thesis using r(1) p rest by auto
qed

section \<open>Properties\<close>


text \<open>
  C2: Reads of positive size, as many as the stream has bytes, deliver every frame and leave nothing
  pending.
\<close>

theorem stream_completed:
  assumes "rd_w s = 0" "rd_r s = 0" "0 < length (rBuf s)" "length (rBuf s) < fuel"
    and "\<forall>f\<in>set fs. plain_frame f \<and> length f \<le> length (rBuf s) \<and> handles se h eff f"
    and "h FrameTypeNil = Some nil_handler"
    and "\<forall>k\<in>set sizes. 0 < k" "length (concat fs) \<le> length sizes"
  shows "\<exists>s' l'. receive fuel h lim se s l w (concat fs) sizes
        = (Some (IoWaiting s' l' (deliver eff fs w)), []) \<and> pending s' = []"
  using assms by (rule receive_all)

lemma replicate4: "replicate 4 x = [x, x, x, x]"
  by (simp add: eval_nat_numeral)

text \<open>A node with one handler, for type 7: it counts the bytes of data.\<close>

definition count_handler :: "nat handler_func" where
  "count_handler v w = (case sessGetFrameSlice v w of
     Some g \<Rightarrow> Returned None (w + length (elems (GetAll g)) - 8) | None \<Rightarrow> Panicked w)"

definition idle_session :: "nat Session" where
  "idle_session = \<lparr>sessGetFrameSlice = \<lambda>_. None, sessWriteFrameDataPromptly = \<lambda>_ w. (None, w),
     sessWriteFrameDataToCache = \<lambda>_ _ w. (None, w), sessClose = \<lambda>w. w\<rparr>"

lemma count_handles:
  "handles se (HandleFunc NewHandler 7 count_handler) (\<lambda>f w. (None, w + length f - 8)) (frame_bytes 7 d ex)"
 
  by (auto simp: handles_def HandleFunc_def count_handler_def session_view_def GetAll_def dest: DecodeByBytes_base)

lemma plain_frame_7: "length d + length ex < 100 \<Longrightarrow> plain_frame (frame_bytes 7 d ex)"
  unfolding plain_frame_def wf_frame_def
  by (intro conjI exI [of _ 7] exI [of _ d] exI [of _ ex]) (simp_all add: frame_type_defs)

lemma count_node_nil: "HandleFunc NewHandler 7 count_handler FrameTypeNil = Some nil_handler"
  using NewHandler_simps(1) by (simp add: HandleFunc_def FrameTypeNil_def)


lemma stream_completed_witness:
  "\<exists>s' l'. receive 17 (HandleFunc NewHandler 7 count_handler) (\<lambda>n l. l) idle_session
       \<lparr>rBuf = replicate 16 0, rd_w = 0, rd_r = 0\<rparr> () 0 (concat [frame_bytes 7 [1, 2] [], frame_bytes 7 [3] [4]]) (replicate 20 3)
       = (Some (IoWaiting s' l' (deliver (\<lambda>f w. (None, w + length f - 8)) [frame_bytes 7 [1, 2] [], frame_bytes 7 [3] [4]] 0)), [])
     \<and> pending s' = []"
  by (rule stream_completed) (auto simp: plain_frame_7 count_handles count_node_nil)

text \<open>
  The word that opens a connection is not read to its end: \<open>readUint32\<close> makes a single \<open>Read\<close>.
  A connection that delivers the first two of the four magic bytes alone is accepted, the other two
  zero bytes are then taken for the start of the first frame; one that delivers only the first byte
  is closed at once.
\<close>

theorem magic_short_read:
  "tcpReceive fuel h lim se s l w (ReadBytes (take 2 (bytes32 ProtocolMagicNumber)) None) [ReadBytes (drop 2 (bytes32 ProtocolMagicNumber) @ bs) None]
     = tcpReceive fuel h lim se s l w (ReadBytes (bytes32 ProtocolMagicNumber) None) [ReadBytes ([0, 0] @ bs) None]
   \<and> tcpReceive fuel h lim se s l w (ReadBytes (take 1 (bytes32 ProtocolMagicNumber)) None) cs
     = Some (ClientClosed l (sessClose se w))"
proof -
  have b: "bytes32 ProtocolMagicNumber = [251, 8, 0, 0]" by (simp add: ProtocolMagicNumber_def bytes32_def)
  have r: "readUint32 (ReadBytes [251, 8] None) = Inr ProtocolMagicNumber"
    "readUint32 (ReadBytes [251, 8, 0, 0] None) = Inr ProtocolMagicNumber"
    "readUint32 (ReadBytes [251] None) = Inr 251"
    by (simp_all add: readUint32_def overwrite_def ProtocolMagicNumber_def replicate4)
  show ?thesis by (simp add: b r tcpReceive_def protocolMagic_def) (simp add: ProtocolMagicNumber_def)
qed

text \<open>
  A peer that does not send the magic number gets no frame routed: whatever it sends next, the
  session is closed and the handlers' state is untouched.
\<close>

theorem no_magic_no_frames:
  assumes "readUint32 c \<noteq> Inr ProtocolMagicNumber"
  shows "tcpReceive fuel h lim se s l w c cs = Some (ClientClosed l (sessClose se w))"
  using assms by (auto simp: tcpReceive_def protocolMagic_def split: sum.splits)

lemma no_magic_no_frames_witness:
  "tcpReceive 5 NewHandler (\<lambda>n l. l) idle_session \<lparr>rBuf = replicate 16 0, rd_w = 0, rd_r = 0\<rparr> (9::nat) 0
     (ReadBytes [1, 2, 3, 4] None) [ReadBytes (frame_bytes 7 [] []) None] = Some (ClientClosed 9 0)"
proof -
  have "readUint32 (ReadBytes [1, 2, 3, 4] None) \<noteq> Inr ProtocolMagicNumber"
    by (simp add: readUint32_def overwrite_def ProtocolMagicNumber_def replicate4)
  then show ?thesis using no_magic_no_frames [where l = "9::nat" and w = 0 and se = idle_session]
    by (simp add: idle_session_def)
qed

text \<open>
  A header whose length field is zero stops the session for good: if its type has no handler,
  routing returns an error that is only logged, the read position does not move, and the inner loop
  never ends, whatever else is buffered.
\<close>

theorem zero_length_frame_spins:
  assumes "rd_ok s" "pending s = bytes32 0 @ bytes16 e @ bytes16 ft @ rest"
    and "h ft = None" "ft \<noteq> FrameTypeNil" "ft \<noteq> FrameTypeExit"
  shows "process_frames fuel h se s w = None"
proof -
  have len: "8 \<le> rd_w s - rd_r s" using length_pending [OF assms(1)] assms(2) by simp
  have fl: "frame_length_at s = Some 0"
    using frame_length_at_pending [OF assms(1)] assms(2) by simp
  obtain t where t: "reslice (of_list (rBuf s)) (int (rd_r s + 6)) (int (rd_r s + 8)) = Some t" "wf_slice t"
    "elems t = bytes16 ft"
    using pending_reslice [OF assms(1), of 6 8] len assms(2) by auto
  have "getFrameType s = Some ft"
    using len fl t assms(1) by (auto simp: getFrameType_def FrameHeadLength_def u16.dec_enc rd_ok_def)
  then show ?thesis
    using fl assms(3-5) by (induction fuel) (simp_all add: route_def)
qed

lemma zero_length_frame_spins_witness:
  "\<forall>fuel. process_frames fuel NewHandler idle_session \<lparr>rBuf = [0,0,0,0, 0,0, 7,0], rd_w = 8, rd_r = 0\<rparr> 0 = None"
  by (intro allI, rule zero_length_frame_spins [where e = 0 and ft = 7 and rest = "[]"])
    (simp_all add: rd_ok_def pending_def bytes32_def bytes16_def NewHandler_def HandleFunc_def Let_def frame_type_defs)

end
