(* ===== verification/Limiter.thy ===== *)
theory Limiter
  imports SessionRead
begin

text \<open>
  \<open>util/limiter.go\<close>: tokens are added at every tick up to \<open>LimitSize\<close>; \<open>Wait\<close> takes its tokens or sleeps and
  tries again. The receiving loops wait for as many tokens as \<open>ioRead\<close> reports bytes.
\<close>

section \<open>Model\<close>

record LimiterConfigure =
  LimitRate :: i64
  LimitSize :: i64

record Limiter = LimiterConfigure +
  tokens :: i64

text \<open>One turn of the loop of \<open>Wait\<close>.\<close>

definition wait_try :: "i64 \<Rightarrow> Limiter \<Rightarrow> bool \<times> Limiter" where
  "wait_try n l =
     (let l = l\<lparr>tokens := tokens l - n\<rparr>
      in if tokens l <s 0 then (False, l\<lparr>tokens := tokens l + n\<rparr>) else (True, l))"

text \<open>The limiter is filled when \<open>Run\<close> starts; \<open>limiter_tick\<close> is the ticker's case of its loop.\<close>

definition limiter_start :: "LimiterConfigure \<Rightarrow> Limiter" where
  "limiter_start c = LimiterConfigure.extend c \<lparr>tokens = LimitSize c\<rparr>"

definition limiter_tick :: "Limiter \<Rightarrow> Limiter" where
  "limiter_tick l =
     (let new = tokens l + LimitRate l;
          l = l\<lparr>tokens := new\<rparr>
      in if LimitSize l <s new then l\<lparr>tokens := LimitSize l\<rparr> else l)"

text \<open>
  \<open>Wait\<close> alone with the ticker: each number of the list is the number of ticks in one sleep. \<^const>\<open>None\<close>:
  still sleeping.
\<close>

fun Wait :: "i64 \<Rightarrow> nat list \<Rightarrow> Limiter \<Rightarrow> Limiter option" where
  "Wait n ks l =
     (case wait_try n l of
        (True, l) \<Rightarrow> Some l
      | (False, l) \<Rightarrow> (case ks of [] \<Rightarrow> None | k # ks \<Rightarrow> Wait n ks ((limiter_tick ^^ k) l)))"

declare Wait.simps [simp del]

text \<open>Ticks and attempts in any order; the result is what was granted.\<close>

datatype limiter_event = Tick | Ask i64

fun limiter_run :: "Limiter \<Rightarrow> limiter_event list \<Rightarrow> i64 list \<times> Limiter" where
  "limiter_run l [] = ([], l)"
| "limiter_run l (Tick # es) = limiter_run (limiter_tick l) es"
| "limiter_run l (Ask n # es) =
     (let (ok, l) = wait_try n l; (gs, l) = limiter_run l es in (if ok then n # gs else gs, l))"

section \<open>Without overflow\<close>

definition limits_ok :: "LimiterConfigure \<Rightarrow> bool" where
  "limits_ok c \<longleftrightarrow> 0 < sint (LimitRate c) \<and> 0 < sint (LimitSize c) \<and> sint (LimitRate c) + sint (LimitSize c) < 2 ^ 63"

definition level_ok :: "LimiterConfigure \<Rightarrow> Limiter \<Rightarrow> bool" where
  "level_ok c l \<longleftrightarrow> LimitRate l = LimitRate c \<and> LimitSize l = LimitSize c \<and> 0 \<le> sint (tokens l) \<and> sint (tokens l) \<le> sint (LimitSize c)"

lemma sint_bounds: "- (2 ^ 63) \<le> sint (x :: i64)" "sint (x :: i64) < 2 ^ 63"
  using sint_ge [of x] sint_lt [of x] by simp_all

lemma sint_plus: "- (2 ^ 63) \<le> sint a + sint b \<Longrightarrow> sint a + sint b < 2 ^ 63 \<Longrightarrow> sint (a + b :: i64) = sint a + sint b"
  by (simp add: sint_word_ariths signed_take_bit_int_eq_self)

lemma sint_minus: "- (2 ^ 63) \<le> sint a - sint b \<Longrightarrow> sint a - sint b < 2 ^ 63 \<Longrightarrow> sint (a - b :: i64) = sint a - sint b"
  by (simp add: sint_word_ariths signed_take_bit_int_eq_self)

lemma start_level: "limits_ok c \<Longrightarrow> level_ok c (limiter_start c) \<and> tokens (limiter_start c) = LimitSize c"
  by (simp add: level_ok_def limiter_start_def LimiterConfigure.extend_def limits_ok_def)

lemma tick_level:
  assumes "limits_ok c" "level_ok c l"
  shows "level_ok c (limiter_tick l)"
    "sint (tokens (limiter_tick l)) = min (sint (LimitSize c)) (sint (tokens l) + sint (LimitRate c))"
proof -
  have "sint (tokens l + LimitRate l) = sint (tokens l) + sint (LimitRate c)"
    using assms by (subst sint_plus) (auto simp: limits_ok_def level_ok_def)
  then show "sint (tokens (limiter_tick l)) = min (sint (LimitSize c)) (sint (tokens l) + sint (LimitRate c))"
    "level_ok c (limiter_tick l)"
    using assms by (auto simp: limiter_tick_def Let_def level_ok_def limits_ok_def word_sless_alt)
qed

lemma try_level:
  assumes "level_ok c l" "0 \<le> sint n"
  shows "wait_try n l = (if sint n \<le> sint (tokens l) then (True, l\<lparr>tokens := tokens l - n\<rparr>) else (False, l))"
    "sint n \<le> sint (tokens l) \<Longrightarrow> sint (tokens l - n) = sint (tokens l) - sint n"
proof -
  have "sint (tokens l - n) = sint (tokens l) - sint n"
    using assms sint_bounds [of n] sint_bounds [of "tokens l"] by (intro sint_minus) (auto simp: level_ok_def)
  then show "wait_try n l = (if sint n \<le> sint (tokens l) then (True, l\<lparr>tokens := tokens l - n\<rparr>) else (False, l))"
    "sint n \<le> sint (tokens l) \<Longrightarrow> sint (tokens l - n) = sint (tokens l) - sint n"
    by (auto simp: wait_try_def word_sless_alt)
qed

lemma take_level: "level_ok c l \<Longrightarrow> 0 \<le> sint n \<Longrightarrow> sint n \<le> sint (tokens l) \<Longrightarrow> level_ok c (l\<lparr>tokens := tokens l - n\<rparr>)"
  using try_level(2) [of c l n] by (auto simp: level_ok_def)

lemma ticks_level:
  assumes "limits_ok c" "level_ok c l"
  shows "level_ok c ((limiter_tick ^^ k) l)
    \<and> sint (tokens ((limiter_tick ^^ k) l)) = min (sint (LimitSize c)) (sint (tokens l) + int k * sint (LimitRate c))"
proof (induction k)
  case (Suc k)
  then show ?case
    using assms tick_level [of c "(limiter_tick ^^ k) l"] by (auto simp: limits_ok_def algebra_simps min_def)
qed (use assms in \<open>simp add: level_ok_def\<close>)

fun ticks :: "limiter_event list \<Rightarrow> nat" where
  "ticks [] = 0"
| "ticks (Tick # es) = Suc (ticks es)"
| "ticks (Ask n # es) = ticks es"

fun asks_ok :: "limiter_event \<Rightarrow> bool" where
  "asks_ok Tick = True"
| "asks_ok (Ask n) = (0 \<le> sint n)"

lemma limiter_run_level:
  assumes "limits_ok c" "level_ok c l" "list_all asks_ok es" "limiter_run l es = (gs, l')"
  shows "level_ok c l' \<and> sint (tokens l') + (\<Sum>g\<leftarrow>gs. sint g) \<le> sint (tokens l) + int (ticks es) * sint (LimitRate c)"
  using assms(2-4)
proof (induction es arbitrary: l gs)
  case (Cons e es)
  show ?case
  proof (cases e)
    case Tick
    then show ?thesis
      using Cons.IH [of "limiter_tick l" gs] Cons.prems tick_level [OF assms(1) Cons.prems(1)] by (auto simp: algebra_simps)
  next
    case (Ask n)
    then have n: "0 \<le> sint n" using Cons.prems(2) by simp
    show ?thesis
    proof (cases "sint n \<le> sint (tokens l)")
      case True
      then obtain gs1 where gs: "limiter_run (l\<lparr>tokens := tokens l - n\<rparr>) es = (gs1, l')" "gs = n # gs1"
        using Cons.prems(3) try_level(1) [OF Cons.prems(1) n] Ask by (auto split: prod.splits)
      then show ?thesis
        using Cons.IH [OF take_level [OF Cons.prems(1) n True] _ gs(1)] Cons.prems(2) try_level(2) [OF Cons.prems(1) n True] Ask by auto
    next
      case False
      then have "limiter_run l es = (gs, l')"
        using Cons.prems(3) try_level(1) [OF Cons.prems(1) n] Ask by (auto split: prod.splits)
      then show ?thesis using Cons.IH [OF Cons.prems(1)] Cons.prems(2) Ask by auto
    qed
  qed
qed (simp add: level_ok_def)

lemma Wait_granted:
  assumes "limits_ok c" "0 \<le> sint n" "level_ok c l" "sint n \<le> sint (LimitSize c)" "sint n \<le> sint (tokens l) + int (sum_list ks) * sint (LimitRate c)"
  shows "\<exists>l'. Wait n ks l = Some l' \<and> level_ok c l'"
  using assms(3,5)
proof (induction ks arbitrary: l)
  case Nil
  then show ?case using try_level [OF Nil(1) assms(2)] take_level [OF Nil(1) assms(2)] by (simp add: Wait.simps)
next
  case (Cons k ks)
  let ?l = "(limiter_tick ^^ k) l"
  note t = ticks_level [OF assms(1) Cons.prems(1), of k]
  show ?case
  proof (cases "sint n \<le> sint (tokens l)")
    case True
    then show ?thesis using try_level [OF Cons.prems(1) assms(2)] take_level [OF Cons.prems(1) assms(2)] by (simp add: Wait.simps)
  next
    case False
    have "0 \<le> int (sum_list ks) * sint (LimitRate c)" using assms(1) by (auto simp: limits_ok_def intro!: mult_nonneg_nonneg)
    then have "sint n \<le> sint (tokens ?l) + int (sum_list ks) * sint (LimitRate c)"
      using t assms(4) Cons.prems(2) by (auto simp: min_def algebra_simps)
    from Cons.IH [OF conjunct1 [OF t] this] show ?thesis
      using False try_level(1) [OF Cons.prems(1) assms(2)] by (subst Wait.simps) simp
  qed
qed

lemma Wait_never:
  assumes "limits_ok c" "0 \<le> sint n" "level_ok c l" and big: "sint (LimitSize c) < sint n"
  shows "Wait n ks l = None"
  using assms(3)
proof (induction ks arbitrary: l)
  case Nil
  then show ?case using try_level(1) [OF Nil assms(2)] big by (subst Wait.simps) (simp add: level_ok_def)
next
  case (Cons k ks)
  have "wait_try n l = (False, l)" using try_level(1) [OF Cons.prems assms(2)] big Cons.prems by (simp add: level_ok_def)
  moreover have "Wait n ks ((limiter_tick ^^ k) l) = None" using Cons.IH ticks_level [OF assms(1) Cons.prems] by blast
  ultimately show ?case by (subst Wait.simps) simp
qed

section \<open>Properties\<close>

text \<open>over any sequence of ticks and requests the limiter grants at most \<open>LimitSize\<close> tokens and \<open>LimitRate\<close> more
  per tick, and holds between 0 and \<open>LimitSize\<close>. Operations run one at a time.\<close>

theorem limiter_rate_bound:
  assumes "limits_ok c" "list_all asks_ok es"
  shows "let (gs, l) = limiter_run (limiter_start c) es
    in (\<Sum>g\<leftarrow>gs. sint g) \<le> sint (LimitSize c) + int (ticks es) * sint (LimitRate c)
      \<and> 0 \<le> sint (tokens l) \<and> sint (tokens l) \<le> sint (LimitSize c)"
proof -
  obtain gs l where run: "limiter_run (limiter_start c) es = (gs, l)" by (cases "limiter_run (limiter_start c) es")
  have "level_ok c l \<and> sint (tokens l) + (\<Sum>g\<leftarrow>gs. sint g) \<le> sint (LimitSize c) + int (ticks es) * sint (LimitRate c)"
    using limiter_run_level [OF assms(1) _ assms(2) run] start_level [OF assms(1)] by simp
  then show ?thesis by (simp add: run level_ok_def)
qed

lemma limiter_rate_bound_witness:
  "let c = \<lparr>LimitRate = 5, LimitSize = 10\<rparr>;
       (gs, l) = limiter_run (limiter_start c) [Ask 8, Ask 8, Tick, Ask 7]
   in (\<Sum>g\<leftarrow>gs. sint g) \<le> 15 \<and> sint (tokens l) \<le> 10"
  using limiter_rate_bound [of "\<lparr>LimitRate = 5, LimitSize = 10\<rparr>" "[Ask 8, Ask 8, Tick, Ask 7]"]
  by (simp add: limits_ok_def Let_def case_prod_beta)

text \<open>a request for at most \<open>LimitSize\<close> tokens is granted as soon as the ticks have brought enough of them, with
  no other request in between; a larger one is never granted.\<close>

theorem wait_granted:
  assumes "limits_ok c" "level_ok c l" "0 \<le> sint n"
  shows "(sint n \<le> sint (LimitSize c) \<and> sint n \<le> int (sum_list ks) * sint (LimitRate c) \<longrightarrow> (\<exists>l'. Wait n ks l = Some l' \<and> level_ok c l'))
    \<and> (sint (LimitSize c) < sint n \<longrightarrow> Wait n ks l = None)"
  using Wait_granted [OF assms(1,3,2), of ks] Wait_never [OF assms(1,3,2), of ks] assms(2) by (auto simp: level_ok_def)

lemma wait_granted_witness:
  "(\<exists>l'. Wait 9 [1, 2] \<lparr>LimitRate = 3, LimitSize = 10, tokens = 0\<rparr> = Some l')
   \<and> Wait 11 [1, 2] \<lparr>LimitRate = 3, LimitSize = 10, tokens = 0\<rparr> = None"
  using wait_granted [of "\<lparr>LimitRate = 3, LimitSize = 10\<rparr>" "\<lparr>LimitRate = 3, LimitSize = 10, tokens = 0\<rparr>" 9 "[1, 2]"]
    wait_granted [of "\<lparr>LimitRate = 3, LimitSize = 10\<rparr>" "\<lparr>LimitRate = 3, LimitSize = 10, tokens = 0\<rparr>" 11 "[1, 2]"]
  by (simp add: limits_ok_def level_ok_def) blast

section \<open>The limiter and the receiving loop\<close>

text \<open>the loops charge the limiter for what is buffered, not for what was read: a frame that arrives in two parts
  is charged for its first part twice.\<close>

theorem split_frame_charged_twice:
  assumes "rd_w s = 0" "rd_r s = 0" "plain_frame f" "length f \<le> length (rBuf s)" "length (rBuf s) < fuel"
    and "handles se h eff f" "h FrameTypeNil = Some nil_handler" "0 < i" "i < length f"
  shows "\<exists>s'. receive fuel h (\<lambda>n charged. charged @ [n]) se s [] w f [i, length f - i]
    = (Some (IoWaiting s' [i, length f] (snd (eff f w))), [])"
proof -
  have s: "rd_ok s" "pending s = []" "free_space s = length (rBuf s)"
    using assms(1,2) by (simp_all add: rd_ok_def pending_def free_space_def compact_def)
  have fs: "list_all plain_frame [f]" "list_all (handles se h eff) [f]" using assms(3,6) by simp_all
  have bs: "length (take i f) \<le> free_space s" "pending s @ take i f @ drop i f = concat [f]" "length (pending s) < length (rBuf s)"
    using s assms(4,9) by (auto simp: min_def)
  let ?lim = "\<lambda>n charged. charged @ [n]"
  obtain k s1 where a: "ioLoop fuel h ?lim se s [] w [ReadBytes (take i f) None]
      = Some (IoWaiting s1 ([] @ [length (pending s @ take i f)]) (deliver eff (take k [f]) w))"
    "k \<le> length [f]" "rd_ok s1" "length (rBuf s1) = length (rBuf s)" "pending s @ take i f = concat (take k [f]) @ pending s1"
    using receive_once [OF s(1) bs(3,1,2) fs assms(7,5), of ?lim "[]" w] by blast
  have k: "k = 0" using a(2,5) assms(9) s(2) by (cases k) (auto dest: arg_cong [of _ _ length])
  then have p: "pending s1 = take i f" using a(5) s(2) by simp
  have free: "free_space s1 = length (rBuf s1) - i"
    using compact_pending [OF a(3)] p assms(9) by (simp add: free_space_def Let_def)
  have bs1: "length (drop i f) \<le> free_space s1" "pending s1 @ drop i f @ [] = concat [f]" "length (pending s1) < length (rBuf s1)"
    using p free a(4) assms(4,9) by simp_all
  have fuel1: "length (rBuf s1) < fuel" using a(4) assms(5) by simp
  obtain j s2 where b: "ioLoop fuel h ?lim se s1 [i] w [ReadBytes (drop i f) None]
      = Some (IoWaiting s2 ([i] @ [length (pending s1 @ drop i f)]) (deliver eff (take j [f]) w))" "j \<le> length [f]"
      "pending s1 @ drop i f = concat (take j [f]) @ pending s2" "incomplete (pending s2)"
    using receive_once [OF a(3) bs1(3,1,2) fs assms(7) fuel1, of ?lim "[i]" w] by blast
  have wf: "wf_frame f" using assms(3) by (simp add: plain_frame_def)
  have "j = 1" using b(2-4) p frame_not_incomplete [OF wf, of "[]"] by (cases j) auto
  then show ?thesis
    using a(1) b(1) k s(2,3) p free assms(4,9) a(4) by (simp add: min_def del: ioLoop.simps)
qed

lemma split_frame_charged_twice_witness:
  "\<exists>s'. receive 33 (HandleFunc NewHandler 7 count_handler) (\<lambda>n charged. charged @ [n]) idle_session
      \<lparr>rBuf = replicate 32 0, rd_w = 0, rd_r = 0\<rparr> [] 0 (frame_bytes 7 [1, 2, 3, 4] []) [9, 3]
    = (Some (IoWaiting s' [9, 12] 4), [])"
  using split_frame_charged_twice [of "\<lparr>rBuf = replicate 32 0, rd_w = 0, rd_r = 0\<rparr>" "frame_bytes 7 [1, 2, 3, 4] []" 33
      idle_session "HandleFunc NewHandler 7 count_handler" "\<lambda>f w. (None, w + length f - 8)" 9 0]
  by (simp add: plain_frame_7 count_handles count_node_nil)

end
