(* ===== verification/LimiterConc.thy ===== *)
theory LimiterConc
  imports Limiter
begin

text \<open>
  \<open>util/limiter.go\<close> with any number of callers of \<open>Wait\<close>, the goroutine of \<open>Run\<close> and \<open>Close\<close> at once, at the granularity of the
  atomic operations on the tokens: what a caller takes between the two operations of a tick is forgotten by the second.
\<close>

section \<open>Steps\<close>

text \<open>A caller of \<open>Wait\<close> is about to subtract; has gone below 0 and is about to add back; has returned.\<close>

datatype wait_pc = Asking | Owing | Served

text \<open>\<open>Run\<close>: before \<open>initLimiter\<close>, before the filling, in its loop, between the two operations of a tick, at its end.\<close>

datatype limiter_pc = RunInit | RunFill | RunLoop | RunOver | RunEnded

text \<open>\<open>cl_stop\<close> is \<open>stopChan\<close>: nil, open or closed. \<open>cl_granted\<close> and \<open>cl_ticks\<close> record what has been granted, and the ticks.\<close>

record conc_limiter =
  cl_conf :: LimiterConfigure
  cl_snippet :: i64
  cl_tokens :: i64
  cl_stop :: "bool option"
  cl_once :: bool
  cl_run :: limiter_pc
  cl_waits :: "(i64 \<times> wait_pc) list"
  cl_granted :: "i64 list"
  cl_ticks :: nat

definition new_limiter :: "LimiterConfigure \<Rightarrow> conc_limiter" where
  "new_limiter c = \<lparr>cl_conf = c, cl_snippet = 0, cl_tokens = 0, cl_stop = None, cl_once = False, cl_run = RunInit,
     cl_waits = [], cl_granted = [], cl_ticks = 0\<rparr>"

definition wait_go :: "nat \<Rightarrow> conc_limiter \<Rightarrow> conc_limiter option" where
  "wait_go k l =
     (if k < length (cl_waits l) then
        (case cl_waits l ! k of
           (n, Asking) \<Rightarrow>
             (let t = cl_tokens l - n
              in if t <s 0 then Some (l\<lparr>cl_tokens := t, cl_waits := (cl_waits l)[k := (n, Owing)]\<rparr>)
                 else Some (l\<lparr>cl_tokens := t, cl_waits := (cl_waits l)[k := (n, Served)], cl_granted := cl_granted l @ [n]\<rparr>))
         | (n, Owing) \<Rightarrow> Some (l\<lparr>cl_tokens := cl_tokens l + n, cl_waits := (cl_waits l)[k := (n, Asking)]\<rparr>)
         | (n, Served) \<Rightarrow> None)
      else None)"

definition initLimiter :: "conc_limiter \<Rightarrow> conc_limiter" where
  "initLimiter l = l\<lparr>cl_snippet := (if cl_snippet l = 0 then 1000000000 else cl_snippet l),
     cl_stop := (case cl_stop l of None \<Rightarrow> Some False | Some b \<Rightarrow> Some b)\<rparr>"

text \<open>What \<open>Run\<close> does by itself; in its loop it waits for a tick or the end.\<close>

definition run_go :: "conc_limiter \<Rightarrow> conc_limiter option" where
  "run_go l =
     (case cl_run l of
        RunInit \<Rightarrow> Some ((initLimiter l)\<lparr>cl_run := RunFill\<rparr>)
      | RunFill \<Rightarrow> Some (l\<lparr>cl_tokens := LimitSize (cl_conf l), cl_run := RunLoop\<rparr>)
      | RunOver \<Rightarrow> Some (l\<lparr>cl_tokens := LimitSize (cl_conf l), cl_run := RunLoop\<rparr>)
      | _ \<Rightarrow> None)"

definition tick_go :: "conc_limiter \<Rightarrow> conc_limiter option" where
  "tick_go l =
     (if cl_run l = RunLoop then
        (let new = cl_tokens l + LimitRate (cl_conf l)
         in Some (l\<lparr>cl_tokens := new, cl_ticks := Suc (cl_ticks l), cl_run := (if LimitSize (cl_conf l) <s new then RunOver else RunLoop)\<rparr>))
      else None)"

definition stop_go :: "conc_limiter \<Rightarrow> conc_limiter option" where
  "stop_go l = (if cl_run l = RunLoop \<and> cl_stop l = Some True then Some (l\<lparr>cl_run := RunEnded\<rparr>) else None)"

text \<open>\<^const>\<open>None\<close>: closing a nil channel panics.\<close>

definition limiter_Close :: "conc_limiter \<Rightarrow> conc_limiter option" where
  "limiter_Close l =
     (if cl_once l then Some l
      else case cl_stop l of None \<Rightarrow> None | Some b \<Rightarrow> if b then None else Some (l\<lparr>cl_once := True, cl_stop := Some True\<rparr>))"

datatype conc_limiter_action = CallWait i64 | WaitGo nat | RunGoes | TickGoes | StopGoes | CloseGoes

fun limiter_act :: "conc_limiter_action \<Rightarrow> conc_limiter \<Rightarrow> conc_limiter option" where
  "limiter_act (CallWait n) l = Some (l\<lparr>cl_waits := cl_waits l @ [(n, Asking)]\<rparr>)"
| "limiter_act (WaitGo k) l = wait_go k l"
| "limiter_act RunGoes l = run_go l"
| "limiter_act TickGoes l = tick_go l"
| "limiter_act StopGoes l = stop_go l"
| "limiter_act CloseGoes l = limiter_Close l"

fun limiter_acts :: "conc_limiter_action list \<Rightarrow> conc_limiter \<Rightarrow> conc_limiter option" where
  "limiter_acts [] l = Some l"
| "limiter_acts (a # as) l = do { l \<leftarrow> limiter_act a l; limiter_acts as l }"

section \<open>The effective level\<close>

text \<open>What those who wait have asked for, and what those of them who have subtracted will add back.\<close>

definition asked :: "conc_limiter \<Rightarrow> int" where
  "asked l = (\<Sum>(n, p)\<leftarrow>cl_waits l. if p = Served then 0 else sint n)"

definition owed :: "conc_limiter \<Rightarrow> int" where
  "owed l = (\<Sum>(n, p)\<leftarrow>cl_waits l. if p = Owing then sint n else 0)"

definition given :: "conc_limiter \<Rightarrow> int" where
  "given l = (\<Sum>n\<leftarrow>cl_granted l. sint n)"

text \<open>Requests are not negative, and at most \<open>m\<close> tokens are being asked for at a time.\<close>

inductive limiter_step :: "int \<Rightarrow> conc_limiter \<Rightarrow> conc_limiter \<Rightarrow> bool" for m where
  "limiter_act a l = Some l' \<Longrightarrow> \<forall>n. a = CallWait n \<longrightarrow> 0 \<le> sint n \<Longrightarrow> asked l' \<le> m \<Longrightarrow> limiter_step m l l'"

inductive_cases limiter_stepE: "limiter_step m l l'"

definition conc_limits_ok :: "LimiterConfigure \<Rightarrow> int \<Rightarrow> bool" where
  "conc_limits_ok c m \<longleftrightarrow> 0 < sint (LimitRate c) \<and> 0 < sint (LimitSize c) \<and> 0 \<le> m \<and> sint (LimitRate c) + sint (LimitSize c) + m < 2 ^ 63"

text \<open>
  The level is what the tokens will be when all debts are paid. A store of the full size sets it to at most the size and the debts
  of that moment.
\<close>

definition level :: "conc_limiter \<Rightarrow> int" where
  "level l = sint (cl_tokens l) + owed l"

definition stores :: "conc_limiter \<Rightarrow> int" where
  "stores l = int (cl_ticks l) + (case cl_run l of RunInit \<Rightarrow> 0 | RunFill \<Rightarrow> 0 | RunOver \<Rightarrow> 0 | _ \<Rightarrow> 1)"

definition conc_limiter_inv :: "LimiterConfigure \<Rightarrow> int \<Rightarrow> conc_limiter \<Rightarrow> bool" where
  "conc_limiter_inv c m l \<longleftrightarrow> cl_conf l = c \<and> (\<forall>(n, p)\<in>set (cl_waits l). 0 \<le> sint n) \<and> asked l \<le> m
     \<and> 0 \<le> level l \<and> level l \<le> sint (LimitSize c) + m + (if cl_run l = RunOver then sint (LimitRate c) else 0)
     \<and> given l + level l \<le> stores l * (sint (LimitSize c) + m) + int (cl_ticks l) * sint (LimitRate c)
     \<and> (cl_once l \<longleftrightarrow> cl_stop l = Some True) \<and> (cl_stop l = None \<longleftrightarrow> cl_run l = RunInit)
     \<and> (cl_run l = RunInit \<or> cl_run l = RunFill \<longrightarrow> cl_ticks l = 0) \<and> (cl_run l = RunOver \<longrightarrow> 0 < cl_ticks l) \<and> (cl_run l = RunEnded \<longrightarrow> cl_once l)"

lemma sum_update:
  fixes f :: "'a \<Rightarrow> int"
  shows "k < length xs \<Longrightarrow> (\<Sum>x\<leftarrow>xs[k := y]. f x) = (\<Sum>x\<leftarrow>xs. f x) - f (xs ! k) + f y"
  by (induction xs arbitrary: k) (auto split: nat.splits)

lemma owed_asked:
  assumes "\<forall>(n, p)\<in>set (cl_waits l). 0 \<le> sint n"
  shows "0 \<le> owed l" "owed l \<le> asked l"
    and "k < length (cl_waits l) \<Longrightarrow> cl_waits l ! k = (n, Asking) \<Longrightarrow> owed l + sint n \<le> asked l"
proof -
  have le: "0 \<le> (\<Sum>(n, p)\<leftarrow>xs. if p = Owing then sint n else 0)
      \<and> (\<Sum>(n, p)\<leftarrow>xs. if p = Owing then sint n else 0) \<le> (\<Sum>(n, p)\<leftarrow>xs. if p = Served then 0 else sint n)"
    if "\<forall>(n, p)\<in>set xs. 0 \<le> sint n" for xs :: "(i64 \<times> wait_pc) list"
    using that by (induction xs) auto
  then show "0 \<le> owed l" "owed l \<le> asked l" using assms by (simp_all add: owed_def asked_def)
  have *: "(\<Sum>(n, p)\<leftarrow>xs. if p = Owing then sint n else 0) + sint n \<le> (\<Sum>(n, p)\<leftarrow>xs. if p = Served then 0 else sint n)"
    if "\<forall>(n, p)\<in>set xs. 0 \<le> sint n" "(n, Asking) \<in> set xs" for xs :: "(i64 \<times> wait_pc) list" and n
    using that
  proof (induction xs)
    case (Cons x xs)
    then show ?case using le [of xs] by (cases "(n, Asking) \<in> set xs") auto
  qed simp
  show "owed l + sint n \<le> asked l" if "k < length (cl_waits l)" "cl_waits l ! k = (n, Asking)"
    using * [OF assms, of n] that by (metis asked_def nth_mem owed_def)
qed

text \<open>What one caller does.\<close>

lemma wait_go_level:
  assumes w: "\<forall>(n, p)\<in>set (cl_waits l). 0 \<le> sint n" and m: "asked l \<le> m" "m < 2 ^ 63" "0 \<le> level l" "level l < 2 ^ 63"
    and go: "wait_go k l = Some l'"
  shows "cl_conf l' = cl_conf l \<and> cl_run l' = cl_run l \<and> cl_ticks l' = cl_ticks l \<and> cl_stop l' = cl_stop l \<and> cl_once l' = cl_once l
    \<and> (\<forall>(n, p)\<in>set (cl_waits l'). 0 \<le> sint n) \<and> 0 \<le> level l' \<and> level l' \<le> level l \<and> given l' + level l' = given l + level l"
proof -
  obtain n p where k: "k < length (cl_waits l)" "cl_waits l ! k = (n, p)" using go by (cases "cl_waits l ! k") (auto simp: wait_go_def split: if_splits)
  have n: "0 \<le> sint n" using w k nth_mem by fastforce
  have upd: "(\<forall>(n, p)\<in>set ((cl_waits l)[k := (n, q)]). 0 \<le> sint n)" for q
    using w n by (auto dest!: set_update_subset_insert [THEN subsetD])
  note oa = owed_asked [OF w]
  show ?thesis
  proof (cases p)
    case Asking
    define t where "t = cl_tokens l - n"
    have st: "sint t = sint (cl_tokens l) - sint n"
      unfolding t_def
      by (rule sint_minus) (use oa(1) oa(3) [OF k(1)] k(2) Asking m n sint_bounds [of "cl_tokens l"] in \<open>auto simp: level_def\<close>)
    show ?thesis
    proof (cases "t <s 0")
      case True
      then have l': "l' = l\<lparr>cl_tokens := t, cl_waits := (cl_waits l)[k := (n, Owing)]\<rparr>"
        using go k Asking by (simp add: wait_go_def t_def Let_def)
      have "owed l' = owed l + sint n" using k Asking by (simp add: l' owed_def sum_update)
      then show ?thesis using upd st m(3) by (simp add: l' level_def given_def)
    next
      case False
      then have l': "l' = l\<lparr>cl_tokens := t, cl_waits := (cl_waits l)[k := (n, Served)], cl_granted := cl_granted l @ [n]\<rparr>"
        using go k Asking by (simp add: wait_go_def t_def Let_def)
      have "owed l' = owed l" using k Asking by (simp add: l' owed_def sum_update)
      moreover have "0 \<le> sint t" using False by (simp add: word_sless_alt)
      ultimately show ?thesis using upd st oa(1) n by (simp add: l' level_def given_def)
    qed
  next
    case Owing
    have l': "l' = l\<lparr>cl_tokens := cl_tokens l + n, cl_waits := (cl_waits l)[k := (n, Asking)]\<rparr>"
      using go k Owing by (simp add: wait_go_def)
    have o: "owed l' = owed l - sint n" using k Owing by (simp add: l' owed_def sum_update)
    have "0 \<le> owed l'" by (rule owed_asked(1)) (use upd l' in simp)
    then have st: "sint (cl_tokens l + n) = sint (cl_tokens l) + sint n"
      using o m n sint_bounds [of "cl_tokens l"] oa(1,2) by (intro sint_plus) (auto simp: level_def)
    show ?thesis using upd o st m(3) by (simp add: l' level_def given_def)
  qed (use go k in \<open>simp add: wait_go_def\<close>)
qed

lemma step_waits: "cl_waits l' = cl_waits l \<Longrightarrow> asked l' = asked l \<and> owed l' = owed l"
  by (simp add: asked_def owed_def)

lemma new_limiter_inv: "conc_limits_ok c m \<Longrightarrow> conc_limiter_inv c m (new_limiter c)"
  by (simp add: conc_limiter_inv_def conc_limits_ok_def new_limiter_def asked_def level_def owed_def given_def stores_def)

lemma limiter_act_inv:
  assumes c: "conc_limits_ok c m" and inv: "conc_limiter_inv c m l" and act: "limiter_act a l = Some l'"
    and n: "\<forall>n. a = CallWait n \<longrightarrow> 0 \<le> sint n" and m: "asked l' \<le> m"
  shows "conc_limiter_inv c m l'"
proof -
  note I = inv [unfolded conc_limiter_inv_def] and C = c [unfolded conc_limits_ok_def]
  let ?S = "sint (LimitSize c)" and ?R = "sint (LimitRate c)"
  have oa: "0 \<le> owed l" "owed l \<le> asked l" using owed_asked(1,2) I by blast+
  have tok: "sint (cl_tokens l) = level l - owed l" by (simp add: level_def)
  have st: "0 \<le> stores l" by (simp add: stores_def split: limiter_pc.splits)
  show ?thesis
  proof (cases a)
    case (CallWait n')
    then have l': "l' = l\<lparr>cl_waits := cl_waits l @ [(n', Asking)]\<rparr>" using act by simp
    have "owed l' = owed l" by (simp add: l' owed_def)
    then show ?thesis using I m n CallWait by (auto simp: l' conc_limiter_inv_def level_def given_def stores_def)
  next
    case (WaitGo k)
    let ?top = "?S + m + (if cl_run l = RunOver then ?R else 0)"
    have go: "wait_go k l = Some l'" using act WaitGo by simp
    have *: "cl_conf l' = cl_conf l \<and> cl_run l' = cl_run l \<and> cl_ticks l' = cl_ticks l \<and> cl_stop l' = cl_stop l \<and> cl_once l' = cl_once l
      \<and> (\<forall>(n, p)\<in>set (cl_waits l'). 0 \<le> sint n) \<and> 0 \<le> level l' \<and> level l' \<le> level l \<and> given l' + level l' = given l + level l"
      by (rule wait_go_level [of l m, OF _ _ _ _ _ go]) (use I C in \<open>auto split: if_splits\<close>)
    then have "stores l' = stores l" by (simp add: stores_def)
    then show ?thesis using * I m unfolding conc_limiter_inv_def by auto
  next
    case RunGoes
    have fill: ?thesis if "l' = l\<lparr>cl_tokens := LimitSize c, cl_run := RunLoop\<rparr>" "cl_run l = RunFill \<or> cl_run l = RunOver"
    proof -
      have o: "owed l' = owed l" "asked l' = asked l" using step_waits [of l' l] that(1) by simp_all
      have s: "stores l' = stores l + 1" using that by (auto simp: stores_def)
      have "level l' = ?S + owed l" using o that(1) by (simp add: level_def)
      moreover have "given l + (?S + owed l) \<le> (stores l + 1) * (?S + m) + int (cl_ticks l) * ?R"
        using I oa by (simp add: algebra_simps)
      ultimately show ?thesis using I C o s oa that by (auto simp: conc_limiter_inv_def given_def)
    qed
    show ?thesis
    proof (cases "cl_run l")
      case RunInit
      then have l': "l' = (initLimiter l)\<lparr>cl_run := RunFill\<rparr>" using act RunGoes by (simp add: run_go_def)
      have "owed l' = owed l" "asked l' = asked l" using step_waits [of l' l] by (simp_all add: l' initLimiter_def)
      then show ?thesis using I RunInit by (auto simp: l' initLimiter_def conc_limiter_inv_def level_def given_def stores_def split: option.splits)
    qed (use act RunGoes fill I in \<open>auto simp: run_go_def\<close>)
  next
    case TickGoes
    define new where "new = cl_tokens l + LimitRate c"
    have l': "cl_run l = RunLoop" "l' = l\<lparr>cl_tokens := new, cl_ticks := Suc (cl_ticks l), cl_run := (if LimitSize c <s new then RunOver else RunLoop)\<rparr>"
      using act TickGoes I by (auto simp: tick_go_def new_def Let_def split: if_splits)
    have o: "owed l' = owed l" "asked l' = asked l" using step_waits [of l' l] l'(2) by simp_all
    have sn: "sint new = sint (cl_tokens l) + ?R"
      unfolding new_def by (rule sint_plus) (use I C oa tok l'(1) sint_bounds [of "cl_tokens l"] in auto)
    have lv: "level l' = level l + ?R" using o sn l'(2) by (simp add: level_def)
    have "?S < sint new \<or> level l' \<le> ?S + m" using lv sn tok oa I by auto
    moreover have "(LimitSize c <s new) = (?S < sint new)" by (simp add: word_sless_alt)
    moreover have "stores l \<le> stores l'" using l' by (simp add: stores_def)
    then have "stores l * (?S + m) \<le> stores l' * (?S + m)" using C by (intro mult_right_mono) auto
    ultimately show ?thesis using I C o lv l' by (auto simp: conc_limiter_inv_def given_def algebra_simps)
  next
    case StopGoes
    then have l': "cl_run l = RunLoop" "cl_stop l = Some True" "l' = l\<lparr>cl_run := RunEnded\<rparr>" using act by (auto simp: stop_go_def split: if_splits)
    have "owed l' = owed l" "asked l' = asked l" using step_waits [of l' l] l'(3) by simp_all
    then show ?thesis using I l' by (auto simp: conc_limiter_inv_def level_def given_def stores_def)
  next
    case CloseGoes
    then have l': "l' = l \<or> cl_stop l = Some False \<and> l' = l\<lparr>cl_once := True, cl_stop := Some True\<rparr>"
      using act by (auto simp: limiter_Close_def split: if_splits option.splits)
    then show ?thesis
    proof
      assume l': "cl_stop l = Some False \<and> l' = l\<lparr>cl_once := True, cl_stop := Some True\<rparr>"
      then have "owed l' = owed l" "asked l' = asked l" using step_waits [of l' l] by simp_all
      then show ?thesis using I l' by (simp add: conc_limiter_inv_def level_def given_def stores_def)
    qed (use inv in simp)
  qed
qed

interpretation shared_limiter: step_invariant "\<lambda>l. conc_limits_ok c m \<and> l = new_limiter c" "limiter_step m" "\<lambda>l. conc_limits_ok c m \<and> conc_limiter_inv c m l" for c m
  by unfold_locales (auto simp: new_limiter_inv elim!: limiter_stepE intro: limiter_act_inv)

section \<open>Properties\<close>

text \<open>C32: the limiter shared by any number of callers: as long as at most \<open>m\<close> tokens are being asked for at a time, whatever the
  interleaving of their subtractions and additions with the two operations of a tick, the tokens granted are at most \<open>LimitSize\<close>
  and \<open>m\<close> for the filling and for each tick, and \<open>LimitRate\<close> more for each tick; the tokens never overflow; \<open>Run\<close> ends
  only after \<open>Close\<close>, and \<open>Close\<close> panics only before \<open>Run\<close> has made the channel.\<close>

theorem shared_limiter_bound:
  assumes "reach (\<lambda>l. conc_limits_ok c m \<and> l = new_limiter c) (limiter_step m) l"
  shows "given l \<le> (int (cl_ticks l) + 1) * (sint (LimitSize c) + m) + int (cl_ticks l) * sint (LimitRate c)
    \<and> - m \<le> sint (cl_tokens l) \<and> sint (cl_tokens l) \<le> sint (LimitSize c) + sint (LimitRate c) + m
    \<and> (cl_run l = RunEnded \<longrightarrow> cl_once l) \<and> (limiter_Close l = None \<longleftrightarrow> cl_run l = RunInit)"
proof -
  have c: "conc_limits_ok c m" and I: "conc_limiter_inv c m l" using shared_limiter.reach_inv [OF assms] by simp_all
  note I = I [unfolded conc_limiter_inv_def] and C = c [unfolded conc_limits_ok_def]
  have oa: "0 \<le> owed l" "owed l \<le> asked l" using owed_asked(1,2) I by blast+
  have "stores l \<le> int (cl_ticks l) + 1" by (simp add: stores_def split: limiter_pc.splits)
  then have "stores l * (sint (LimitSize c) + m) \<le> (int (cl_ticks l) + 1) * (sint (LimitSize c) + m)" using C by (intro mult_right_mono) auto
  moreover have "given l + level l \<le> stores l * (sint (LimitSize c) + m) + int (cl_ticks l) * sint (LimitRate c)" "0 \<le> level l" using I by blast+
  ultimately have "given l \<le> (int (cl_ticks l) + 1) * (sint (LimitSize c) + m) + int (cl_ticks l) * sint (LimitRate c)" by linarith
  moreover have "- m \<le> sint (cl_tokens l) \<and> sint (cl_tokens l) \<le> sint (LimitSize c) + sint (LimitRate c) + m"
    using I C oa by (auto simp: level_def split: if_splits)
  moreover have "limiter_Close l = None \<longleftrightarrow> cl_run l = RunInit" using I by (auto simp: limiter_Close_def split: option.splits)
  ultimately show ?thesis using I by blast
qed

lemma limiter_acts_reach:
  assumes "reach init (limiter_step m) l" "limiter_acts as l = Some l'" "\<forall>n. CallWait n \<in> set as \<longrightarrow> 0 \<le> sint n"
    and "\<And>k l1. k \<le> length as \<Longrightarrow> limiter_acts (take k as) l = Some l1 \<Longrightarrow> asked l1 \<le> m"
  shows "reach init (limiter_step m) l'"
  using assms
proof (induction as arbitrary: l)
  case (Cons a as)
  then obtain l1 where l1: "limiter_act a l = Some l1" "limiter_acts as l1 = Some l'" by (auto split: bind_splits)
  have "asked l1 \<le> m" using Cons.prems(4) [of 1 l1] l1(1) by simp
  then have "reach init (limiter_step m) l1" using reach_step [OF Cons.prems(1)] limiter_step.intros [OF l1(1)] Cons.prems(3) by auto
  then show ?case
  proof (rule Cons.IH [OF _ l1(2)])
    show "asked l2 \<le> m" if "k \<le> length as" "limiter_acts (take k as) l1 = Some l2" for k l2
      using Cons.prems(4) [of "Suc k" l2] that l1(1) by simp
  qed (use Cons.prems(3) in auto)
qed simp

definition limit_10_5 :: LimiterConfigure where "limit_10_5 = \<lparr>LimitRate = 5, LimitSize = 10\<rparr>"

text \<open>A caller that comes between the two operations of a tick: 20 tokens in one tick, with a size of 10 and a rate of 5.\<close>

definition between :: "conc_limiter_action list" where
  "between = [RunGoes, RunGoes, TickGoes, CallWait 10, WaitGo 0, RunGoes, CallWait 10, WaitGo 1]"

lemma tick_forgets:
  "\<exists>l. limiter_acts between (new_limiter limit_10_5) = Some l \<and> given l = 20 \<and> cl_ticks l = 1 \<and> 20 > (10 :: int) + 1 * 5"
  by (simp add: between_def limit_10_5_def new_limiter_def run_go_def initLimiter_def tick_go_def wait_go_def given_def Let_def word_sless_alt)

lemma shared_limiter_bound_witness:
  "\<exists>l. limiter_acts between (new_limiter limit_10_5) = Some l \<and> given l = 20 \<and> given l \<le> 2 * (10 + 10) + 5"
proof -
  obtain l where l: "limiter_acts between (new_limiter limit_10_5) = Some l" "given l = 20" "cl_ticks l = 1" using tick_forgets by blast
  have asked: "asked l1 \<le> 10" if "k \<le> 8" "limiter_acts (take k between) (new_limiter limit_10_5) = Some l1" for k l1
  proof -
    have "\<forall>k\<in>set [0..<9]. case limiter_acts (take k between) (new_limiter limit_10_5) of None \<Rightarrow> True | Some l \<Rightarrow> asked l \<le> 10" by code_simp
    then show ?thesis using that by (auto simp: less_Suc_eq_le split: option.splits)
  qed
  have "reach (\<lambda>l. conc_limits_ok limit_10_5 10 \<and> l = new_limiter limit_10_5) (limiter_step 10) l"
  proof (rule limiter_acts_reach [OF _ l(1)])
    show "reach (\<lambda>l. conc_limits_ok limit_10_5 10 \<and> l = new_limiter limit_10_5) (limiter_step 10) (new_limiter limit_10_5)"
      by (rule reach_init) (simp add: conc_limits_ok_def limit_10_5_def)
    show "asked l1 \<le> 10" if "k \<le> length between" "limiter_acts (take k between) (new_limiter limit_10_5) = Some l1" for k l1
      by (rule asked [OF _ that(2)]) (use that(1) in \<open>simp add: between_def\<close>)
  qed (simp add: between_def)
  from shared_limiter_bound [OF this] l show ?thesis by (simp add: limit_10_5_def)
qed

end
