(* ===== verification/Dispatcher.thy ===== *)
theory Dispatcher
  imports Prelude
begin

text \<open>
  \<open>util/work_queue.go\<close>: the dispatcher hands jobs from its queue to idle workers at every tick. A run is a list of
  events: what \<open>select\<close> picks in \<open>Run\<close>, and the workers that finish. Shutdown is a step relation of its own,
  because the dispatcher and the workers both count down \<open>workerPoolCount\<close>.
\<close>

section \<open>State\<close>

definition MaxQueue :: nat where "MaxQueue = 2048"

text \<open>A worker is its number. \<open>busy\<close> is what each worker runs, \<open>started\<close> all jobs handed out so far.\<close>

record 'j dispatcher =
  job_queue :: "'j list"
  jobSlice :: "'j list"
  workerQueue :: "nat list"
  workerPool :: "nat list"
  workerPoolCount :: int
  busy :: "nat \<rightharpoonup> 'j"
  started :: "'j list"

text \<open>\<open>NewDispatcher\<close>, with the workers that \<open>Run\<close> starts.\<close>

definition NewDispatcher :: "nat \<Rightarrow> 'j dispatcher" where
  "NewDispatcher count = \<lparr>job_queue = [], jobSlice = [], workerQueue = [], workerPool = [0..<count],
     workerPoolCount = int count, busy = Map.empty, started = []\<rparr>"

section \<open>Operations\<close>

text \<open>The send to \<open>jobChan\<close>: the worker starts the job.\<close>

definition hand :: "nat \<Rightarrow> 'j \<Rightarrow> 'j dispatcher \<Rightarrow> 'j dispatcher" where
  "hand w j d = d\<lparr>busy := (busy d)(w \<mapsto> j), started := started d @ [j]\<rparr>"

definition assignmentTask :: "'j dispatcher \<Rightarrow> 'j dispatcher" where
  "assignmentTask d =
     (let js = length (jobSlice d) in
      if js > 0 then
        (let wp = length (workerPool d) in
         if js \<ge> wp then
           (let d = fold (\<lambda>i d. hand (workerPool d ! i) (jobSlice d ! i) d) [0..<wp] d
            in d\<lparr>jobSlice := drop wp (jobSlice d), workerPool := []\<rparr>)
         else
           (let d = fold (\<lambda>i d. hand (workerPool d ! (wp - 1 - i)) (jobSlice d ! i) d) [0..<js] d
            in d\<lparr>jobSlice := [], workerPool := take (wp - js) (workerPool d)\<rparr>))
      else d)"

text \<open>
  \<open>Submit\<close> is a send to \<open>JobQueue\<close> by a session (it blocks while the queue is full), the next three are the cases of
  \<open>select\<close>, the last two the end of a job in \<open>run\<close> of a worker: a panic ends the worker.
\<close>

datatype 'j dispatcher_event = Submit 'j | TakeWorker | TakeJob | AssignTick | JobDone nat | JobPanic nat

fun dispatcher_step :: "'j dispatcher \<Rightarrow> 'j dispatcher_event \<Rightarrow> 'j dispatcher" where
  "dispatcher_step d (Submit j) = (if length (job_queue d) < MaxQueue then d\<lparr>job_queue := job_queue d @ [j]\<rparr> else d)"
| "dispatcher_step d TakeWorker =
     (case workerQueue d of [] \<Rightarrow> d | w # ws \<Rightarrow> d\<lparr>workerQueue := ws, workerPool := workerPool d @ [w]\<rparr>)"
| "dispatcher_step d TakeJob =
     (case job_queue d of [] \<Rightarrow> d | j # js \<Rightarrow> d\<lparr>job_queue := js, jobSlice := jobSlice d @ [j]\<rparr>)"
| "dispatcher_step d AssignTick = assignmentTask d"
| "dispatcher_step d (JobDone w) =
     (if busy d w = None then d else d\<lparr>busy := (busy d)(w := None), workerQueue := workerQueue d @ [w]\<rparr>)"
| "dispatcher_step d (JobPanic w) =
     (if busy d w = None then d else d\<lparr>busy := (busy d)(w := None), workerPoolCount := workerPoolCount d - 1\<rparr>)"

definition dispatcher_run :: "'j dispatcher \<Rightarrow> 'j dispatcher_event list \<Rightarrow> 'j dispatcher" where
  "dispatcher_run = foldl dispatcher_step"

text \<open>The loop after the stop signal that empties \<open>jobSlice\<close>; each turn sleeps while workers go on.\<close>

fun stop_assign :: "'j dispatcher_event list list \<Rightarrow> 'j dispatcher \<Rightarrow> 'j dispatcher option" where
  "stop_assign ts d =
     (if jobSlice d = [] then Some d
      else case ts of [] \<Rightarrow> None | t # ts \<Rightarrow> stop_assign ts (dispatcher_run (assignmentTask d) t))"

declare stop_assign.simps [simp del]

section \<open>What one assignment does\<close>

text \<open>Who gets which job.\<close>

definition pairs :: "'j dispatcher \<Rightarrow> (nat \<times> 'j) list" where
  "pairs d = (if length (jobSlice d) \<ge> length (workerPool d) then zip (workerPool d) (jobSlice d)
     else zip (rev (workerPool d)) (jobSlice d))"

lemma hand_simps [simp]:
  "workerPool (hand w j d) = workerPool d" "jobSlice (hand w j d) = jobSlice d" "workerQueue (hand w j d) = workerQueue d"
  by (simp_all add: hand_def)

lemma fold_hand: "fold (\<lambda>(w, j). hand w j) ps d = d\<lparr>busy := busy d ++ map_of (rev ps), started := started d @ map snd ps\<rparr>"
  by (induction ps arbitrary: d) (auto simp: hand_def)

lemma fold_hand_idx:
  assumes "\<And>w j d. f (hand w j d) = f d" "\<And>w j d. g (hand w j d) = g d"
  shows "fold (\<lambda>i d. hand (f d i) (g d i) d) is d = fold (\<lambda>(w, j). hand w j) (map (\<lambda>i. (f d i, g d i)) is) d"
  by (induction "is" arbitrary: d) (simp_all add: assms)

lemma assignmentTask_pairs:
  "assignmentTask d = d\<lparr>jobSlice := drop (length (pairs d)) (jobSlice d), workerPool := take (length (workerPool d) - length (pairs d)) (workerPool d),
     busy := busy d ++ map_of (rev (pairs d)), started := started d @ map snd (pairs d)\<rparr>"
proof -
  let ?f = "\<lambda>d. \<lambda>i. workerPool d ! i" and ?r = "\<lambda>wp d. \<lambda>i. workerPool d ! (wp - 1 - i)" and ?g = "\<lambda>d. \<lambda>i. jobSlice d ! i"
  have all: "map (\<lambda>i. (workerPool d ! i, jobSlice d ! i)) [0..<length (workerPool d)] = zip (workerPool d) (jobSlice d)"
    if "length (workerPool d) \<le> length (jobSlice d)"
    using that by (intro nth_equalityI) simp_all
  have some: "map (\<lambda>i. (workerPool d ! (length (workerPool d) - 1 - i), jobSlice d ! i)) [0..<length (jobSlice d)] = zip (rev (workerPool d)) (jobSlice d)"
    if "length (jobSlice d) < length (workerPool d)"
    using that by (intro nth_equalityI) (simp_all add: rev_nth)
  have "fold (\<lambda>i d. hand (workerPool d ! i) (jobSlice d ! i) d) [0..<length (workerPool d)] d
      = d\<lparr>busy := busy d ++ map_of (rev (pairs d)), started := started d @ map snd (pairs d)\<rparr>"
    if "length (workerPool d) \<le> length (jobSlice d)"
    using fold_hand_idx [of ?f ?g "[0..<length (workerPool d)]" d] all that fold_hand by (simp add: pairs_def del: map_map)
  moreover have "fold (\<lambda>i da. hand (workerPool da ! (length (workerPool d) - 1 - i)) (jobSlice da ! i) da) [0..<length (jobSlice d)] d
      = d\<lparr>busy := busy d ++ map_of (rev (pairs d)), started := started d @ map snd (pairs d)\<rparr>"
    if "\<not> length (workerPool d) \<le> length (jobSlice d)"
    using fold_hand_idx [of "?r (length (workerPool d))" ?g "[0..<length (jobSlice d)]" d] some that fold_hand
    by (simp add: pairs_def del: map_map)
  moreover have "length (pairs d) = min (length (workerPool d)) (length (jobSlice d))" by (simp add: pairs_def)
  ultimately show ?thesis
    by (cases "jobSlice d = []"; cases "length (workerPool d) \<le> length (jobSlice d)")
      (simp_all add: assignmentTask_def Let_def pairs_def)
qed

lemma pairs_parts:
  fixes d :: "'j dispatcher"
  defines "n \<equiv> length (pairs d)"
  shows "n = min (length (workerPool d)) (length (jobSlice d))" "map snd (pairs d) = take n (jobSlice d)"
    "map fst (pairs d) = drop (length (workerPool d) - n) (workerPool d) \<or> map fst (pairs d) = rev (drop (length (workerPool d) - n) (workerPool d))"
proof -
  show n: "n = min (length (workerPool d)) (length (jobSlice d))" by (simp add: n_def pairs_def)
  show "map snd (pairs d) = take n (jobSlice d)" by (simp add: n pairs_def map_snd_zip_take min.commute)
  show "map fst (pairs d) = drop (length (workerPool d) - n) (workerPool d) \<or> map fst (pairs d) = rev (drop (length (workerPool d) - n) (workerPool d))"
  proof (cases "length (workerPool d) \<le> length (jobSlice d)")
    case True
    then show ?thesis by (simp add: n pairs_def map_fst_zip_take min_absorb1)
  next
    case False
    then show ?thesis by (simp add: n pairs_def map_fst_zip_take min_absorb2 take_rev)
  qed
qed

section \<open>Invariant\<close>

text \<open>A worker is idle in the pool, idle in the queue, or busy; \<open>workerPoolCount\<close> counts the living ones.\<close>

definition workers_ok :: "nat \<Rightarrow> 'j dispatcher \<Rightarrow> bool" where
  "workers_ok count d \<longleftrightarrow> distinct (workerPool d @ workerQueue d) \<and> dom (busy d) \<inter> set (workerPool d @ workerQueue d) = {}
     \<and> dom (busy d) \<union> set (workerPool d @ workerQueue d) \<subseteq> {..<count}
     \<and> workerPoolCount d = int (length (workerPool d) + length (workerQueue d) + card (dom (busy d)))"

lemma workers_ok_new: "workers_ok count (NewDispatcher count)"
  by (auto simp: workers_ok_def NewDispatcher_def)

lemma workers_ok_assign:
  assumes "workers_ok count d"
  shows "workers_ok count (assignmentTask d)"
proof -
  define n where "n = length (pairs d)"
  define rest where "rest = take (length (workerPool d) - n) (workerPool d)"
  define got where "got = drop (length (workerPool d) - n) (workerPool d)"
  note W = assms [unfolded workers_ok_def]
  have split: "workerPool d = rest @ got" by (simp add: rest_def got_def)
  have got: "set (map fst (pairs d)) = set got"
    using pairs_parts(3) [of d] by (auto simp: n_def got_def simp flip: set_map)
  have len: "length got = n" using pairs_parts(1) [of d] by (simp add: got_def n_def)
  have dom: "dom (busy (assignmentTask d)) = dom (busy d) \<union> set got"
    using got by (simp add: assignmentTask_pairs dom_map_of_conv_image_fst Un_commute)
  have "finite (dom (busy d))" using W by (meson finite_lessThan finite_subset le_sup_iff)
  moreover have "dom (busy d) \<inter> set got = {}" "distinct got" using W split by auto
  ultimately have "card (dom (busy (assignmentTask d))) = card (dom (busy d)) + n"
    using dom len by (simp add: card_Un_disjoint distinct_card)
  moreover have "workerPool (assignmentTask d) = rest" "workerQueue (assignmentTask d) = workerQueue d"
    "workerPoolCount (assignmentTask d) = workerPoolCount d"
    by (simp_all add: assignmentTask_pairs rest_def n_def)
  ultimately show ?thesis
    using W split dom len by (auto simp: workers_ok_def)
qed

lemma finite_busy: "workers_ok count d \<Longrightarrow> finite (dom (busy d))"
  unfolding workers_ok_def by (meson finite_lessThan finite_subset le_sup_iff)

interpretation disp: run_invariant dispatcher_step "workers_ok count" "\<lambda>_. True" for count
proof
  fix d :: "'j dispatcher" and ev
  assume d: "workers_ok count d"
  have card: "card (dom (busy d) - {w}) = card (dom (busy d)) - 1 \<and> 0 < card (dom (busy d))" if "busy d w = Some j" for w j
  proof -
    have "w \<in> dom (busy d)" using that by auto
    then show ?thesis using finite_busy [OF d] by (auto simp: card_Diff_singleton card_gt_0_iff)
  qed
  show "workers_ok count (dispatcher_step d ev)"
  proof (cases ev)
    case AssignTick
    then show ?thesis using workers_ok_assign [OF d] by simp
  next
    case (JobDone w)
    then show ?thesis using d card [of w] by (cases "busy d w") (auto simp: workers_ok_def)
  next
    case (JobPanic w)
    then show ?thesis using d card [of w] by (cases "busy d w") (auto simp: workers_ok_def)
  qed (use d in \<open>auto simp: workers_ok_def split: list.splits\<close>)
qed

text \<open>The jobs the queue has accepted.\<close>

fun accepted :: "'j dispatcher \<Rightarrow> 'j dispatcher_event list \<Rightarrow> 'j list" where
  "accepted d [] = []"
| "accepted d (ev # evs) =
     (case ev of Submit j \<Rightarrow> (if length (job_queue d) < MaxQueue then [j] else []) | _ \<Rightarrow> []) @ accepted (dispatcher_step d ev) evs"

definition jobs :: "'j dispatcher \<Rightarrow> 'j list" where
  "jobs d = started d @ jobSlice d @ job_queue d"

lemma jobs_step: "jobs (dispatcher_step d ev) = jobs d @ accepted d [ev]"
proof (cases ev)
  case AssignTick
  have "take (length (pairs d)) (jobSlice d) @ drop (length (pairs d)) (jobSlice d) = jobSlice d" by simp
  then show ?thesis using AssignTick pairs_parts(2) [of d] by (simp add: jobs_def assignmentTask_pairs del: append_take_drop_id) 
qed (auto simp: jobs_def split: list.splits)

lemma jobs_run: "jobs (dispatcher_run d evs) = jobs d @ accepted d evs"
proof (induction evs arbitrary: d)
  case (Cons ev evs)
  then show ?case using jobs_step [of d ev] by (simp add: dispatcher_run_def)
qed (simp add: dispatcher_run_def)

section \<open>Properties\<close>


text \<open>a tick starts as many jobs as there are waiting jobs and pooled workers, the oldest jobs first, each on a
  worker of its own; the rest stays as it is.\<close>

theorem assignment_starts:
  assumes "workers_ok count d"
  shows "\<exists>ws. let n = min (length (workerPool d)) (length (jobSlice d)); d' = assignmentTask d
    in length ws = n \<and> distinct ws \<and> set ws \<subseteq> set (workerPool d)
      \<and> started d' = started d @ take n (jobSlice d) \<and> jobSlice d' = drop n (jobSlice d)
      \<and> (\<forall>i<n. busy d' (ws ! i) = Some (jobSlice d ! i)) \<and> (\<forall>w. w \<notin> set ws \<longrightarrow> busy d' w = busy d w)
      \<and> set (workerPool d') = set (workerPool d) - set ws"
proof -
  define ws where "ws = map fst (pairs d)"
  define n where "n = length (pairs d)"
  define got where "got = drop (length (workerPool d) - n) (workerPool d)"
  define rest where "rest = take (length (workerPool d) - n) (workerPool d)"
  note parts = pairs_parts [of d, folded n_def]
  have split: "workerPool d = rest @ got" by (simp add: rest_def got_def)
  have dist: "distinct rest" "distinct got" "set rest \<inter> set got = {}" using assms split by (auto simp: workers_ok_def)
  have ws: "set ws = set got" "distinct ws" "length ws = n"
  proof -
    have "ws = got \<or> ws = rev got" using parts(3) by (simp add: ws_def got_def)
    then show "set ws = set got" "distinct ws" using dist(2) by auto
    show "length ws = n" by (simp add: ws_def n_def)
  qed
  have map: "map_of (rev (pairs d)) (ws ! i) = Some (jobSlice d ! i)" if "i < n" for i
  proof (rule map_of_is_SomeI)
    show "distinct (map fst (rev (pairs d)))" using ws(2) by (simp add: ws_def rev_map [symmetric])
    have "pairs d ! i = (ws ! i, jobSlice d ! i)"
      using that arg_cong [OF parts(2), of "\<lambda>xs. xs ! i"] by (simp add: ws_def n_def prod_eq_iff)
    then show "(ws ! i, jobSlice d ! i) \<in> set (rev (pairs d))" using that nth_mem [of i "pairs d"] by (simp add: n_def)
  qed
  have other: "map_of (rev (pairs d)) w = None" if "w \<notin> set ws" for w
    using that by (auto simp: ws_def map_of_eq_None_iff)
  have upd: "started (assignmentTask d) = started d @ take n (jobSlice d)" "jobSlice (assignmentTask d) = drop n (jobSlice d)"
    "busy (assignmentTask d) = busy d ++ map_of (rev (pairs d))" "workerPool (assignmentTask d) = rest"
    using parts(2) by (simp_all add: assignmentTask_pairs n_def rest_def)
  have "set (workerPool d) - set ws = set rest" using ws(1) split dist(3) by auto
  then show ?thesis
    using ws parts(1) upd map other split
    by (intro exI [of _ ws]) (auto simp: Let_def map_add_def)
qed

lemma assignment_starts_witness:
  "\<exists>ws. length ws = 2 \<and> distinct ws
     \<and> (let d = (NewDispatcher 3)\<lparr>jobSlice := [7, 8 :: nat]\<rparr>; d' = assignmentTask d
        in started d' = [7, 8] \<and> jobSlice d' = [] \<and> (\<forall>i<2. busy d' (ws ! i) = Some ([7, 8] ! i)))"
proof -
  define d :: "nat dispatcher" where "d = (NewDispatcher 3)\<lparr>jobSlice := [7, 8]\<rparr>"
  have "workers_ok 3 d" using workers_ok_new [of 3] by (simp add: workers_ok_def d_def)
  moreover have "min (length (workerPool d)) (length (jobSlice d)) = 2" "jobSlice d = [7, 8]" "started d = []"
    by (simp_all add: d_def NewDispatcher_def)
  ultimately show ?thesis
    using assignment_starts [of 3 d] unfolding d_def [symmetric] by (simp add: Let_def) blast
qed

section \<open>Panics\<close>

lemma no_worker_run:
  assumes "workerPool d = []" "workerQueue d = []" "busy d = Map.empty"
  shows "started (dispatcher_run d evs) = started d"
  using assms
proof (induction evs arbitrary: d)
  case (Cons ev evs)
  have "pairs d = []" using Cons.prems(1) by (simp add: pairs_def)
  then have "workerPool (dispatcher_step d ev) = [] \<and> workerQueue (dispatcher_step d ev) = [] \<and> busy (dispatcher_step d ev) = Map.empty
      \<and> started (dispatcher_step d ev) = started d"
    using Cons.prems by (cases ev) (auto simp: assignmentTask_pairs split: list.splits)
  then show ?case using Cons.IH [of "dispatcher_step d ev"] by (simp add: dispatcher_run_def)
qed (simp add: dispatcher_run_def)

lemma panic_run:
  "set ws \<subseteq> dom (busy d) \<Longrightarrow> distinct ws \<Longrightarrow>
   dispatcher_run d (map JobPanic ws) = d\<lparr>busy := busy d |` (- set ws), workerPoolCount := workerPoolCount d - int (length ws)\<rparr>"
proof (induction ws arbitrary: d)
  case (Cons w ws)
  let ?d = "d\<lparr>busy := (busy d)(w := None), workerPoolCount := workerPoolCount d - 1\<rparr>"
  have step: "dispatcher_step d (JobPanic w) = ?d" using Cons.prems by auto
  have busy: "(busy d)(w := None) |` (- set ws) = busy d |` (- set (w # ws))" by (auto simp: restrict_map_def)
  have "set ws \<subseteq> dom (busy ?d)" "distinct ws" using Cons.prems by auto
  note ih = Cons.IH [OF this]
  have "dispatcher_run d (map JobPanic (w # ws)) = dispatcher_run ?d (map JobPanic ws)"
    using step by (simp add: dispatcher_run_def del: dispatcher_step.simps)
  also have "\<dots> = d\<lparr>busy := (busy d)(w := None) |` (- set ws), workerPoolCount := workerPoolCount d - int (length (w # ws))\<rparr>"
    unfolding ih by simp
  finally show ?case unfolding busy .
next
  case (Nil d)
  have "d = d\<lparr>busy := busy d, workerPoolCount := workerPoolCount d\<rparr>" by simp
  then show ?case by (simp add: dispatcher_run_def)
qed

text \<open>a job that panics costs the pool its worker for good. Once as many jobs have panicked as there are workers,
  no job is started any more, whatever happens.\<close>

theorem panics_stop_dispatcher:
  assumes "length js = count"
  shows "started (dispatcher_run ((NewDispatcher count)\<lparr>jobSlice := js\<rparr>) (AssignTick # map JobPanic [0..<count] @ evs)) = js"
proof -
  define d :: "'a dispatcher" where "d = assignmentTask ((NewDispatcher count)\<lparr>jobSlice := js\<rparr>)"
  have pairs: "pairs ((NewDispatcher count)\<lparr>jobSlice := js\<rparr>) = zip [0..<count] js"
    using assms by (simp add: pairs_def NewDispatcher_def)
  have d: "workerPool d = []" "workerQueue d = []" "started d = js" "dom (busy d) = {..<count}"
    using assms unfolding d_def assignmentTask_pairs pairs
    by (auto simp: NewDispatcher_def dom_map_of_conv_image_fst simp flip: set_map)
  have "busy d |` (- {0..<count}) = Map.empty" using d(4) by (auto simp: restrict_map_def fun_eq_iff)
  moreover have "{0..<count} \<subseteq> dom (busy d)" using d(4) by auto
  ultimately have "workerPool (dispatcher_run d (map JobPanic [0..<count])) = []" "workerQueue (dispatcher_run d (map JobPanic [0..<count])) = []"
    "busy (dispatcher_run d (map JobPanic [0..<count])) = Map.empty" "started (dispatcher_run d (map JobPanic [0..<count])) = js"
    using panic_run [of "[0..<count]" d] d by auto
  then show ?thesis
    using no_worker_run [of "dispatcher_run d (map JobPanic [0..<count])" evs] by (simp add: dispatcher_run_def d_def)
qed

lemma panics_stop_dispatcher_witness:
  "started (dispatcher_run ((NewDispatcher 2)\<lparr>jobSlice := [5, 6 :: nat]\<rparr>)
     (AssignTick # map JobPanic [0..<2] @ [Submit 9, TakeJob, AssignTick, TakeWorker, AssignTick])) = [5, 6]"
  by (rule panics_stop_dispatcher) simp

section \<open>Shutdown\<close>

fun worker_event :: "'j dispatcher_event \<Rightarrow> bool" where
  "worker_event (Submit j) = True"
| "worker_event (JobDone w) = True"
| "worker_event (JobPanic w) = True"
| "worker_event _ = False"

lemma worker_events_keep:
  "list_all worker_event evs \<Longrightarrow> jobSlice (dispatcher_run d evs) = jobSlice d \<and> workerPool (dispatcher_run d evs) = workerPool d"
proof (induction evs arbitrary: d)
  case (Cons ev evs)
  then show ?case by (cases ev) (auto simp: dispatcher_run_def)
qed (simp add: dispatcher_run_def)

lemma assignmentTask_slice:
  "jobSlice (assignmentTask d) = drop (length (workerPool d)) (jobSlice d)"
  "jobSlice d \<noteq> [] \<Longrightarrow> length (jobSlice d) \<ge> length (workerPool d) \<Longrightarrow> workerPool (assignmentTask d) = []"
  using pairs_parts(1) [of d] by (auto simp: assignmentTask_pairs min_def)

text \<open>after the stop signal the loop that hands out the rest of \<open>jobSlice\<close> does not take workers back from
  \<open>workerQueue\<close>: with more jobs than pooled workers it never ends, however many workers become free meanwhile;
  otherwise it ends after one assignment.\<close>

theorem stop_assign_ends_iff:
  assumes "list_all (list_all worker_event) ts" "ts \<noteq> []"
  shows "stop_assign ts d \<noteq> None \<longleftrightarrow> length (jobSlice d) \<le> length (workerPool d)"
proof -
  have never: "stop_assign us e = None" if "workerPool e = []" "jobSlice e \<noteq> []" "list_all (list_all worker_event) us" for us e
    using that
  proof (induction us arbitrary: e)
    case (Cons u us)
    have "workerPool (assignmentTask e) = []" "jobSlice (assignmentTask e) \<noteq> []"
      using Cons.prems(1,2) assignmentTask_slice [of e] by auto
    then show ?case
      using Cons.IH [of "dispatcher_run (assignmentTask e) u"] Cons.prems worker_events_keep [of u "assignmentTask e"]
      by (subst stop_assign.simps) simp
  qed (simp add: stop_assign.simps)
  obtain t us where ts: "ts = t # us" using assms(2) by (cases ts) auto
  define e where "e = dispatcher_run (assignmentTask d) t"
  have e: "jobSlice e = drop (length (workerPool d)) (jobSlice d)"
    "length (workerPool d) \<le> length (jobSlice d) \<Longrightarrow> jobSlice d \<noteq> [] \<Longrightarrow> workerPool e = []"
    using worker_events_keep [of t "assignmentTask d"] assms(1) assignmentTask_slice [of d] by (auto simp: e_def ts)
  show ?thesis
  proof (cases "length (jobSlice d) \<le> length (workerPool d)")
    case True
    then show ?thesis using e by (simp add: ts stop_assign.simps [of "t # us"] stop_assign.simps [of _ e] e_def [symmetric])
  next
    case False
    then have "jobSlice d \<noteq> []" "jobSlice e \<noteq> []" using e(1) by auto
    moreover have "workerPool e = []" using e(2) False \<open>jobSlice d \<noteq> []\<close> by simp
    ultimately show ?thesis using never [of e us] assms(1) False by (simp add: ts stop_assign.simps [of "t # us"] e_def [symmetric])
  qed
qed

lemma stop_assign_ends_iff_witness:
  "stop_assign [[JobDone 0], [JobDone 1]] ((NewDispatcher 2)\<lparr>jobSlice := [5, 6, 7 :: nat]\<rparr>) = None"
  using stop_assign_ends_iff [of "[[JobDone 0], [JobDone 1]]" "(NewDispatcher 2)\<lparr>jobSlice := [5, 6, 7 :: nat]\<rparr>"]
  by (simp add: NewDispatcher_def)

text \<open>
  The end of \<open>Run\<close>: \<open>nil\<close> to every pooled worker, then to workers from \<open>workerQueue\<close> while \<open>workerPoolCount\<close> is
  positive, then the wait for all of them. A worker told to stop counts itself down too.
\<close>

datatype stop_phase = DrainPool "nat list" | DrainQueue | Waiting | Stopped

record stopping =
  phase :: stop_phase
  count :: int
  told :: "nat set"
  idle :: "nat list"
  working :: "nat set"

inductive stop_step :: "stopping \<Rightarrow> stopping \<Rightarrow> bool" where
  tell_pool: "phase s = DrainPool (w # ws) \<Longrightarrow> stop_step s (s\<lparr>phase := DrainPool ws, count := count s - 1, told := insert w (told s)\<rparr>)"
| pool_done: "phase s = DrainPool [] \<Longrightarrow> stop_step s (s\<lparr>phase := DrainQueue\<rparr>)"
| tell_queue: "phase s = DrainQueue \<Longrightarrow> 0 < count s \<Longrightarrow> idle s = w # ws \<Longrightarrow>
    stop_step s (s\<lparr>idle := ws, count := count s - 1, told := insert w (told s)\<rparr>)"
| queue_done: "phase s = DrainQueue \<Longrightarrow> count s \<le> 0 \<Longrightarrow> stop_step s (s\<lparr>phase := Waiting\<rparr>)"
| all_done: "phase s = Waiting \<Longrightarrow> told s = {} \<Longrightarrow> idle s = [] \<Longrightarrow> working s = {} \<Longrightarrow> stop_step s (s\<lparr>phase := Stopped\<rparr>)"
| worker_exit: "w \<in> told s \<Longrightarrow> stop_step s (s\<lparr>told := told s - {w}, count := count s - 1\<rparr>)"
| worker_free: "w \<in> working s \<Longrightarrow> stop_step s (s\<lparr>working := working s - {w}, idle := idle s @ [w]\<rparr>)"

definition stop_start :: "nat list \<Rightarrow> nat list \<Rightarrow> nat set \<Rightarrow> stopping" where
  "stop_start pool queue work = \<lparr>phase = DrainPool pool, count = int (length pool + length queue + card work),
     told = {}, idle = queue, working = work\<rparr>"

abbreviation stop_run :: "stopping \<Rightarrow> stopping \<Rightarrow> bool" where
  "stop_run \<equiv> rtranclp stop_step"

text \<open>Pieces of a run: all of the pool is told, all the told exit, all the others become free.\<close>

lemma run_pool: "phase s = DrainPool ws \<Longrightarrow>
  stop_run s (s\<lparr>phase := DrainPool [], count := count s - int (length ws), told := set ws \<union> told s\<rparr>)"
proof (induction ws arbitrary: s)
  case (Cons w ws)
  let ?s = "s\<lparr>phase := DrainPool ws, count := count s - 1, told := insert w (told s)\<rparr>"
  have "stop_step s ?s" using Cons.prems by (rule tell_pool)
  moreover have "stop_run ?s (s\<lparr>phase := DrainPool [], count := count s - int (length (w # ws)), told := set (w # ws) \<union> told s\<rparr>)"
    using Cons.IH [of ?s] by (simp add: algebra_simps)
  ultimately show ?case by (rule converse_rtranclp_into_rtranclp)
next
  case Nil
  then have "s\<lparr>phase := DrainPool [], count := count s - int (length []), told := set [] \<union> told s\<rparr> = s" by simp
  then show ?case by simp
qed

lemma run_exits: "finite (told s) \<Longrightarrow> stop_run s (s\<lparr>told := {}, count := count s - int (card (told s))\<rparr>)"
proof (induction "card (told s)" arbitrary: s)
  case 0
  then have "told s = {}" by simp
  then have "s\<lparr>told := {}, count := count s - int (card (told s))\<rparr> = s" by (cases s) simp
  then show ?case by simp
next
  case (Suc n)
  then obtain w where w: "w \<in> told s" by fastforce
  let ?s = "s\<lparr>told := told s - {w}, count := count s - 1\<rparr>"
  have n: "n = card (told ?s)" "finite (told ?s)" using Suc w by simp_all
  have "stop_step s ?s" using w by (rule worker_exit)
  moreover have "stop_run ?s (s\<lparr>told := {}, count := count s - int (card (told s))\<rparr>)"
  proof -
    have "?s\<lparr>told := {}, count := count ?s - int (card (told ?s))\<rparr> = s\<lparr>told := {}, count := count s - int (card (told s))\<rparr>"
      using Suc.hyps(2) n(1) by (cases s) simp
    with Suc.hyps(1) [OF n] show ?thesis by (simp only:)
  qed
  ultimately show ?case by (rule converse_rtranclp_into_rtranclp)
qed

lemma run_frees: "finite (working s) \<Longrightarrow> \<exists>ws. length ws = card (working s) \<and> stop_run s (s\<lparr>working := {}, idle := idle s @ ws\<rparr>)"
proof (induction "card (working s)" arbitrary: s)
  case 0
  then have "working s = {}" by simp
  then have "s\<lparr>working := {}, idle := idle s @ []\<rparr> = s" by (cases s) simp
  then have "stop_run s (s\<lparr>working := {}, idle := idle s @ []\<rparr>)" by (simp only: rtranclp.rtrancl_refl)
  then show ?case using 0 by (intro exI [of _ "[]"]) simp
next
  case (Suc n)
  then obtain w where w: "w \<in> working s" by fastforce
  let ?s = "s\<lparr>working := working s - {w}, idle := idle s @ [w]\<rparr>"
  have n: "n = card (working ?s)" "finite (working ?s)" using Suc w by simp_all
  have "stop_step s ?s" using w by (rule worker_free)
  moreover obtain ws where "length ws = n" "stop_run ?s (s\<lparr>working := {}, idle := idle s @ w # ws\<rparr>)"
    using Suc.hyps(1) [OF n] n(1) by auto
  ultimately show ?case using Suc.hyps(2)
    by (intro exI [of _ "w # ws"]) (auto intro: converse_rtranclp_into_rtranclp)
qed

text \<open>The count runs out while workers are still to be told.\<close>

lemma run_short:
  "phase s = DrainQueue \<Longrightarrow> told s = {} \<Longrightarrow> count s < int (length (idle s)) \<Longrightarrow> idle s \<noteq> [] \<Longrightarrow> \<exists>t. stop_run s t \<and> phase t = Waiting \<and> idle t \<noteq> []"
proof (induction "idle s" arbitrary: s)
  case (Cons w ws)
  show ?case
  proof (cases "0 < count s")
    case False
    then have "stop_step s (s\<lparr>phase := Waiting\<rparr>)" using Cons.prems by (intro queue_done) simp_all
    then show ?thesis using Cons.prems(4) by (intro exI [of _ "s\<lparr>phase := Waiting\<rparr>"]) auto
  next
    case True
    let ?s = "s\<lparr>idle := ws, count := count s - 1, told := {w}\<rparr>" and ?t = "s\<lparr>idle := ws, told := {}, count := count s - 2\<rparr>"
    have "stop_step s ?s" using tell_queue [OF Cons.prems(1) True, of w ws] Cons.hyps(2) [symmetric] Cons.prems(2) by simp
    moreover have "stop_step ?s ?t" using worker_exit [of w ?s] Cons.prems(2) by simp
    moreover obtain t where "stop_run ?t t" "phase t = Waiting" "idle t \<noteq> []"
  proof -
      have "ws \<noteq> []" using Cons.hyps(2) [symmetric] Cons.prems(3) True by auto
      then have "\<exists>t. stop_run ?t t \<and> phase t = Waiting \<and> idle t \<noteq> []"
        using Cons.hyps(1) [of ?t] Cons.hyps(2) [symmetric] Cons.prems by auto
      then show ?thesis using that by blast
    qed
    ultimately show ?thesis by (meson converse_rtranclp_into_rtranclp)
  qed
qed simp

lemma stuck: "stop_run s t \<Longrightarrow> phase s = Waiting \<Longrightarrow> idle s \<noteq> [] \<Longrightarrow> phase t = Waiting \<and> idle t \<noteq> []"
  by (induction rule: rtranclp_induct) (auto elim!: stop_step.cases)

text \<open>shutdown counts each pooled worker down twice, in the loop over the pool and when the worker ends. If at least
  one worker is pooled and at least one is not, there is an order of these steps after which the dispatcher
  waits for ever for a worker that nobody tells to stop.\<close>

theorem shutdown_may_hang:
  assumes "pool \<noteq> []" "queue \<noteq> [] \<or> work \<noteq> {}" "finite work"
  shows "\<exists>t. stop_run (stop_start pool queue work) t \<and> (\<forall>u. stop_run t u \<longrightarrow> phase u \<noteq> Stopped)"
proof -
  let ?s = "stop_start pool queue work"
  let ?n = "int (length queue + card work)"
  have s1: "stop_run ?s (?s\<lparr>phase := DrainPool [], count := ?n, told := set pool\<rparr>)" (is "stop_run _ ?s1")
    using run_pool [of ?s pool] by (simp add: stop_start_def)
  have s2: "stop_run ?s1 (?s\<lparr>phase := DrainPool [], told := {}, count := ?n - int (card (set pool))\<rparr>)" (is "stop_run _ ?s2")
  proof -
    have "?s1\<lparr>told := {}, count := count ?s1 - int (card (told ?s1))\<rparr> = ?s2" by simp
    then show ?thesis using run_exits [of ?s1] by simp
  qed
  have s3: "stop_run ?s2 (?s\<lparr>phase := DrainQueue, told := {}, count := ?n - int (card (set pool))\<rparr>)" (is "stop_run _ ?s3")
  proof -
    have "?s2\<lparr>phase := DrainQueue\<rparr> = ?s3" by (simp add: stop_start_def)
    moreover have "stop_step ?s2 (?s2\<lparr>phase := DrainQueue\<rparr>)" by (rule pool_done) simp
    ultimately have "stop_step ?s2 ?s3" by (simp only:)
    then show ?thesis by (rule r_into_rtranclp)
  qed
  obtain ws where ws: "length ws = card work" "stop_run ?s3 (?s3\<lparr>working := {}, idle := queue @ ws\<rparr>)"
    using run_frees [of ?s3] assms(3) by (auto simp: stop_start_def)
  have "queue @ ws \<noteq> []" using assms(2,3) ws(1) by (auto simp: card_gt_0_iff)
  moreover have "0 < card (set pool)" using assms(1) by (simp add: card_gt_0_iff)
  ultimately obtain t where t: "stop_run (?s3\<lparr>working := {}, idle := queue @ ws\<rparr>) t" "phase t = Waiting" "idle t \<noteq> []"
    using run_short [of "?s3\<lparr>working := {}, idle := queue @ ws\<rparr>"] ws(1) by auto
  have "stop_run ?s t" using s1 s2 s3 ws(2) t(1) by (meson rtranclp_trans)
  moreover have "\<forall>u. stop_run t u \<longrightarrow> phase u \<noteq> Stopped" using stuck t(2,3) by fastforce
  ultimately show ?thesis by blast
qed

lemma shutdown_may_hang_witness:
  "\<exists>t. stop_run (stop_start [0] [] {1}) t \<and> (\<forall>u. stop_run t u \<longrightarrow> phase u \<noteq> Stopped)"
  by (rule shutdown_may_hang) simp_all

end
