(* ===== verification/Logger.thy ===== *)
theory Logger
  imports GoSlice
begin

text \<open>
  \<open>util/log.go\<close>: levels, the mark in front of each message, and what happens on a fatal one. The file or
  terminal is the list of lines written; time stamps are left out.
\<close>

section \<open>Model\<close>

definition DebugLevel :: int where "DebugLevel = 0"
definition InfoLevel :: int where "InfoLevel = 1"
definition WarnLevel :: int where "WarnLevel = 2"
definition ErrorLevel :: int where "ErrorLevel = 3"
definition FatalLevel :: int where "FatalLevel = 4"

lemmas level_defs = DebugLevel_def InfoLevel_def WarnLevel_def ErrorLevel_def FatalLevel_def

definition LevelName :: "string list" where
  "LevelName = [''[Debug]'', ''[Info ]'', ''[Warn ]'', ''[Error]'', ''[Fatal]'']"

text \<open>\<open>baseLogger\<close> is nil after \<open>Close\<close>; here it is a flag.\<close>

record Logger =
  log_level :: int
  baseLogger :: bool
  Mark :: string

datatype log_error = ErrUnknownLevel | CreateFailed

text \<open>\<open>creates\<close>: the file, if a path is given, can be created.\<close>

definition NewLogger :: "int \<Rightarrow> bool \<Rightarrow> log_error + Logger" where
  "NewLogger level creates =
     (if level > FatalLevel then Inl ErrUnknownLevel
      else if \<not> creates then Inl CreateFailed
      else Inr \<lparr>log_level = level, baseLogger = True, Mark = []\<rparr>)"

definition SetLevel :: "int \<Rightarrow> Logger \<Rightarrow> Logger" where
  "SetLevel l lg = lg\<lparr>log_level := l\<rparr>"

definition Close_log :: "Logger \<Rightarrow> Logger" where
  "Close_log lg = lg\<lparr>baseLogger := False\<rparr>"

definition SetMark :: "string \<Rightarrow> Logger \<Rightarrow> Logger" where
  "SetMark m lg = lg\<lparr>Mark := Mark lg @ m @ ''.''\<rparr>"

text \<open>Lines are pairs of prefix and text. A call returns, panics or ends the process.\<close>

type_synonym log_lines = "(string \<times> string) list"

datatype log_end = Logged Logger log_lines | LogPanic log_lines | LogExit log_lines

definition doPrint :: "int \<Rightarrow> string \<Rightarrow> Logger \<Rightarrow> log_lines \<Rightarrow> log_end" where
  "doPrint level s lg out =
     (if level < log_level lg then Logged lg out
      else if \<not> baseLogger lg then LogPanic out
      else case (if level < 0 then None else arr_get LevelName (nat level)) of
          None \<Rightarrow> LogPanic out
        | Some name \<Rightarrow>
            (let out = out @ [(name, Mark lg @ s)]
             in if level = FatalLevel then LogExit out else Logged lg out))"

text \<open>The five methods.\<close>

datatype log_call = Debug string | Info string | Warn string | Error string | Fatal string

fun log_do :: "log_call \<Rightarrow> Logger \<Rightarrow> log_lines \<Rightarrow> log_end" where
  "log_do (Debug a) lg out = doPrint DebugLevel a lg out"
| "log_do (Info a) lg out = doPrint InfoLevel a lg out"
| "log_do (Warn a) lg out = doPrint WarnLevel a lg out"
| "log_do (Error a) lg out = doPrint ErrorLevel a lg out"
| "log_do (Fatal a) lg out = doPrint FatalLevel a lg out"

fun log_run :: "log_call list \<Rightarrow> Logger \<Rightarrow> log_lines \<Rightarrow> log_end" where
  "log_run [] lg out = Logged lg out"
| "log_run (c # cs) lg out = (case log_do c lg out of Logged lg out \<Rightarrow> log_run cs lg out | e \<Rightarrow> e)"

section \<open>A run of calls\<close>

fun level_of :: "log_call \<Rightarrow> int" where
  "level_of (Debug a) = 0" | "level_of (Info a) = 1" | "level_of (Warn a) = 2" | "level_of (Error a) = 3" | "level_of (Fatal a) = 4"

fun text_of :: "log_call \<Rightarrow> string" where
  "text_of (Debug a) = a" | "text_of (Info a) = a" | "text_of (Warn a) = a" | "text_of (Error a) = a" | "text_of (Fatal a) = a"

definition line_of :: "Logger \<Rightarrow> log_call \<Rightarrow> string \<times> string" where
  "line_of lg c = (LevelName ! nat (level_of c), Mark lg @ text_of c)"

lemma log_do_cases:
  "log_do c lg out =
     (if level_of c < log_level lg then Logged lg out
      else if \<not> baseLogger lg then LogPanic out
      else if level_of c = 4 then LogExit (out @ [line_of lg c])
      else Logged lg (out @ [line_of lg c]))"
  by (cases c) (simp_all add: doPrint_def level_defs arr_get_def LevelName_def line_of_def)

text \<open>An open logger writes exactly the messages that reach its level, in order, each behind its mark, up to the first fatal
  one, which ends the process. A level above \<open>FatalLevel\<close>, which \<open>NewLogger\<close> refuses, would mute that one as well.\<close>

lemma log_run_lines:
  assumes "baseLogger lg" "log_level lg \<le> FatalLevel"
  shows "log_run cs lg out =
    (let before = takeWhile (\<lambda>c. level_of c \<noteq> 4) cs; ls = map (line_of lg) (filter (\<lambda>c. log_level lg \<le> level_of c) before)
     in if length before = length cs then Logged lg (out @ ls) else LogExit (out @ ls @ [line_of lg (cs ! length before)]))"
  using assms
proof (induction cs arbitrary: out)
  case (Cons c cs)
  then show ?case by (simp add: log_do_cases Let_def FatalLevel_def)
qed simp

lemma marks_in_order: "Mark (fold SetMark ms lg) = Mark lg @ concat (map (\<lambda>m. m @ ''.'') ms)"
  by (induction ms arbitrary: lg) (simp_all add: SetMark_def)

end
