(* ===== verification/Cluster.thy ===== *)
theory Cluster
  imports Handler
begin

text \<open>
  \<open>sidecar/cluster.go\<close>: the table of sessions by machine id, the table of subscribers by channel,
  the three ways to send a frame to them, and the loop \<open>Run\<close> that applies the messages of the
  directory and of the node to the tables.
\<close>

section \<open>Buckets of subscribers\<close>

text \<open>The low half of \<open>cursorAndLenght\<close> is the position of the last choice, the high half the length.\<close>

record channel_bucket =
  cursorAndLenght :: u64
  sets :: "u16 list"

definition setCursorAndLenght :: "u32 \<Rightarrow> u32 \<Rightarrow> u64" where
  "setCursorAndLenght cursor lenght = push_bit 32 (ucast lenght) OR ucast cursor"

definition getCursorAndLenght :: "u64 \<Rightarrow> u32 \<times> u32" where
  "getCursorAndLenght d = (ucast d, ucast (drop_bit 32 d))"

definition newBucket :: channel_bucket where
  "newBucket = \<lparr>cursorAndLenght = 0, sets = []\<rparr>"

definition bucket_add :: "channel_bucket \<Rightarrow> u16 list \<Rightarrow> u16 \<Rightarrow> channel_bucket" where
  "bucket_add b bas mid =
     (let s = sets b @ bas @ [mid]
      in b\<lparr>sets := s, cursorAndLenght := setCursorAndLenght 0 (of_nat (length s))\<rparr>)"

text \<open>The loop of \<open>remove\<close>: the elements behind the first match are copied down by one.\<close>

function remove_loop :: "u16 list \<Rightarrow> u16 \<Rightarrow> nat \<Rightarrow> u16 list \<Rightarrow> u16 list" where
  "remove_loop bas mid i s =
     (let l = length bas in
      if i < l then
        (if bas ! i = mid
         then (let s = (if i < l - 1 then take i s @ gocopy (take (l - 1 - i) (drop i s)) (drop (i + 1) s) @ drop (l - 1) s
                        else s)
               in take (l - 1) s)
         else remove_loop bas mid (i + 1) s)
      else s)"
  by pat_completeness auto
termination
  by (relation "measure (\<lambda>(bas, mid, i, s). length bas - i)") auto

declare remove_loop.simps [simp del]

definition bucket_remove :: "channel_bucket \<Rightarrow> u16 list \<Rightarrow> u16 \<Rightarrow> channel_bucket" where
  "bucket_remove b bas mid =
     (let s = remove_loop bas mid 0 (sets b @ bas)
      in b\<lparr>sets := s, cursorAndLenght := setCursorAndLenght 0 (of_nat (length s))\<rparr>)"

text \<open>\<open>next\<close>: the chosen member, the length, the bucket with its cursor moved; \<^const>\<open>None\<close> for the
  panic on an empty bucket.\<close>

definition bucket_next :: "channel_bucket \<Rightarrow> ((u16 \<times> u32) \<times> channel_bucket) option" where
  "bucket_next b =
     (let d = cursorAndLenght b + 1;
          (cursor, lenght) = getCursorAndLenght d;
          (cursor, d) = (if cursor \<ge> lenght then (0, setCursorAndLenght 0 lenght) else (cursor, d))
      in do {
        mid \<leftarrow> arr_get (sets b) (unat cursor);
        Some ((mid, lenght), b\<lparr>cursorAndLenght := d\<rparr>) })"

text \<open>A bucket in the table: not empty, its length recorded, its cursor inside.\<close>

definition bucket_ok :: "channel_bucket \<Rightarrow> bool" where
  "bucket_ok b \<longleftrightarrow> sets b \<noteq> [] \<and> length (sets b) < 2 ^ 32 \<and>
     (\<exists>c. unat c < length (sets b) \<and> cursorAndLenght b = setCursorAndLenght c (of_nat (length (sets b))))"

lemma unat_setCursor: "unat (setCursorAndLenght c l) = unat l * 2 ^ 32 + unat c"
proof -
  have disj: "push_bit 32 (ucast l :: u64) AND ucast c = 0"
    by (rule bit_eqI) (auto simp: bit_simps dest!: bit_imp_le_length)
  then have "setCursorAndLenght c l = push_bit 32 (ucast l) + ucast c"
    by (simp add: setCursorAndLenght_def disjunctive_add_eq_or)
  moreover have "unat (push_bit 32 (ucast l :: u64)) = unat l * 2 ^ 32"
    using unat_bound [of l]
    by (simp add: unsigned_push_bit_eq unsigned_ucast_eq push_bit_eq_mult take_bit_eq_mod unat_word_ariths)
  moreover have "unat (ucast c :: u64) = unat c"
    using unat_bound [of c] by (simp add: unsigned_ucast_eq take_bit_eq_mod)
  ultimately show ?thesis using unat_bound [of l] unat_bound [of c] by (simp add: unat_add_nowrap)
qed

lemma getCursor_at:
  assumes "unat d = l * 2 ^ 32 + c" "c < 2 ^ 32" "l < 2 ^ 32"
  shows "getCursorAndLenght d = (of_nat c, of_nat l)"
proof -
  have "unat (ucast d :: u32) = c" using assms by (simp add: unsigned_ucast_eq take_bit_eq_mod)
  moreover have "unat (ucast (drop_bit 32 d) :: u32) = l"
    using assms by (simp add: unsigned_ucast_eq unsigned_drop_bit_eq take_bit_eq_mod drop_bit_eq_div del: word_of_nat_eq_0_iff)
      (simp add: unat_div)
  ultimately show ?thesis using assms(2,3) by (simp add: getCursorAndLenght_def word_unat_eq_iff unat_of_nat_small)
qed

lemma get_setCursor: "getCursorAndLenght (setCursorAndLenght c l) = (c, l)"
  using getCursor_at [of "setCursorAndLenght c l" "unat l" "unat c"] unat_bound [of c] unat_bound [of l]
  by (simp add: unat_setCursor)

text \<open>One call moves the cursor to the following position, around the end.\<close>

lemma bucket_next_cursor:
  assumes len: "length (sets b) = n" "n < 2 ^ 32" "c < n"
    and cur: "cursorAndLenght b = setCursorAndLenght (of_nat c) (of_nat n)"
  shows "bucket_next b = Some ((sets b ! (Suc c mod n), of_nat n),
           b\<lparr>cursorAndLenght := setCursorAndLenght (of_nat (Suc c mod n)) (of_nat n)\<rparr>)"
proof -
  have small: "unat (of_nat c :: u32) = c" "unat (of_nat n :: u32) = n" "unat (of_nat (Suc c) :: u32) = Suc c"
    using len by (simp_all add: unat_of_nat_small del: of_nat_Suc)
  have u: "unat (cursorAndLenght b) = n * 2 ^ 32 + c" using cur small by (simp add: unat_setCursor)
  have "n * 2 ^ 32 + Suc c < 2 ^ 64" using len by simp
  then have "unat (cursorAndLenght b + 1) = n * 2 ^ 32 + Suc c" using u by (subst unat_add_nowrap) auto
  then have g: "getCursorAndLenght (cursorAndLenght b + 1) = (of_nat (Suc c), of_nat n)"
    and d: "cursorAndLenght b + 1 = setCursorAndLenght (of_nat (Suc c)) (of_nat n)"
    using getCursor_at [of "cursorAndLenght b + 1" n "Suc c"] len small
    by (simp_all add: word_unat_eq_iff unat_setCursor del: of_nat_Suc)
  have le: "(of_nat n :: u32) \<le> of_nat (Suc c) \<longleftrightarrow> n \<le> Suc c"
    using small by (simp add: word_le_nat_alt del: of_nat_Suc)
  show ?thesis
  proof (cases "Suc c = n")
    case True
    then show ?thesis using g len by (simp add: bucket_next_def arr_get_def)
  next
    case False
    then have "Suc c < n" using len by simp
    then show ?thesis using g d le small len
      by (simp add: bucket_next_def arr_get_def del: of_nat_Suc)
  qed
qed

lemma bucket_next_ok:
  assumes "bucket_ok b"
  shows "\<exists>i l b'. bucket_next b = Some ((i, l), b') \<and> i \<in> set (sets b) \<and> sets b' = sets b \<and> bucket_ok b'
    \<and> unat l = length (sets b)"
proof -
  obtain c where c: "unat c < length (sets b)" "cursorAndLenght b = setCursorAndLenght c (of_nat (length (sets b)))"
    "length (sets b) < 2 ^ 32"
    using assms by (auto simp: bucket_ok_def)
  let ?n = "length (sets b)" and ?j = "Suc (unat c) mod length (sets b)"
  have j: "?j < ?n" using c(1) by (intro mod_less_divisor) linarith
  then have "unat (of_nat ?j :: u32) = ?j" "unat (of_nat ?n :: u32) = ?n" using c(3) by (simp_all add: unat_of_nat_small)
  moreover have "bucket_next b = Some ((sets b ! ?j, of_nat ?n), b\<lparr>cursorAndLenght := setCursorAndLenght (of_nat ?j) (of_nat ?n)\<rparr>)"
    using bucket_next_cursor [OF refl c(3,1)] c(2) by simp
  ultimately show ?thesis using j c(3) assms by (auto simp: bucket_ok_def intro!: exI [of _ "of_nat ?j :: u32"])
qed

lemma setCursor_eq_0: "setCursorAndLenght 0 (of_nat n) = 0 \<longleftrightarrow> n mod 2 ^ 32 = 0"
  by (simp add: word_unat_eq_iff unat_setCursor unat_of_nat)

lemma bucket_add_newBucket: "sets (bucket_add newBucket bas i) = bas @ [i]"
  by (simp add: bucket_add_def newBucket_def Let_def)

lemma bucket_add_ok: "length bas + 1 < 2 ^ 32 \<Longrightarrow> bucket_ok (bucket_add newBucket bas i)"
  by (auto simp: bucket_ok_def bucket_add_def newBucket_def Let_def intro!: exI [of _ "0 :: u32"])

lemma remove_loop_remove1:
  "i \<le> length bas \<Longrightarrow> mid \<notin> set (take i bas) \<Longrightarrow> remove_loop bas mid i bas = remove1 mid bas"
proof (induction "length bas - i" arbitrary: i)
  case 0
  then have "mid \<notin> set bas" by simp
  then show ?case using 0 by (simp add: remove_loop.simps [of bas mid i] remove1_idem)
next
  case (Suc k)
  then have i: "i < length bas" by simp
  show ?case
  proof (cases "bas ! i = mid")
    case True
    have split: "bas = take i bas @ mid # drop (Suc i) bas" using True i id_take_nth_drop [of i bas] by simp
    have "remove1 mid (take i bas @ mid # drop (Suc i) bas) = take i bas @ drop (Suc i) bas"
      using Suc.prems(2) by (simp add: remove1_append)
    then have r: "remove1 mid bas = take i bas @ drop (Suc i) bas" using split by metis
    show ?thesis
    proof (cases "i < length bas - 1")
      case True
      then show ?thesis using i r \<open>bas ! i = mid\<close> by (simp add: remove_loop.simps [of bas mid i] Let_def gocopy_def)
    next
      case False
      then have "length bas - 1 = i" "drop (Suc i) bas = []" using i by simp_all
      then show ?thesis using i r \<open>bas ! i = mid\<close>
        by (subst remove_loop.simps) (simp add: Let_def del: One_nat_def)
    qed
  next
    case False
    then have "mid \<notin> set (take (i + 1) bas)" using Suc.prems i by (simp add: take_Suc_conv_app_nth)
    then have "remove_loop bas mid (i + 1) bas = remove1 mid bas" using Suc.hyps(1) [of "i + 1"] Suc.hyps(2) i by simp
    then show ?thesis using False i by (simp add: remove_loop.simps [of bas mid i] Let_def)
  qed
qed

lemma bucket_remove_newBucket: "sets (bucket_remove newBucket bas i) = remove1 i bas"
  using remove_loop_remove1 [of 0 bas i] by (simp add: bucket_remove_def newBucket_def Let_def)

lemma bucket_remove_cursor:
  "cursorAndLenght (bucket_remove newBucket bas i) = setCursorAndLenght 0 (of_nat (length (remove1 i bas)))"
  using remove_loop_remove1 [of 0 bas i] by (simp add: bucket_remove_def newBucket_def Let_def)


section \<open>The tables and the ways to send\<close>

text \<open>\<open>'s\<close> is a session handle. A \<open>nil\<close> entry is \<^const>\<open>None\<close>; the list of sessions is the array of 1024.\<close>

record 's cluster =
  cl_sessions :: "'s option list"
  cl_channels :: "u16 \<Rightarrow> channel_bucket option"
  machineID :: u16
  cl_state :: u32

datatype send_error =
    SpecifyFailed | AskOneNoSession u16 u16 u32 | AskOneNoChannel u16 | AskAllNoChannel u16
  | SendFailed transport_error

text \<open>The method \<open>WriteFrameDataToCache\<close> of a session, on the state \<open>'w\<close> of all of them.\<close>

type_synonym ('s, 'w) write_frame =
  "'s \<Rightarrow> FrameSlice \<Rightarrow> (transport_error \<Rightarrow> 'w \<Rightarrow> 'w) \<Rightarrow> 'w \<Rightarrow> transport_error option \<times> 'w"

text \<open>A call that came back, or one that panicked.\<close>

datatype 'a ended = Ended 'a | Crashed

definition Specify ::
  "('s, 'w) write_frame \<Rightarrow> 's cluster \<Rightarrow> u16 \<Rightarrow> u16 \<Rightarrow> FrameSlice \<Rightarrow> (send_error \<Rightarrow> 'w \<Rightarrow> 'w) \<Rightarrow> 'w \<Rightarrow> 'w ended" where
  "Specify wr c mid channel fs errFunc w =
     (case arr_get (cl_sessions c) (unat mid) of
        None \<Rightarrow> Crashed
      | Some (Some m) \<Rightarrow>
          (case wr m fs (errFunc \<circ> SendFailed) w of
             (Some err, w) \<Rightarrow> Ended (errFunc (SendFailed err) w)
           | (None, w) \<Rightarrow> Ended w)
      | Some None \<Rightarrow> Ended (errFunc SpecifyFailed w))"

text \<open>
  The loop of \<open>AskOne\<close>, with one unit of fuel per turn. \<open>count\<close> is declared in the body: every turn
  starts it at 0.
\<close>

fun ask_loop ::
  "nat \<Rightarrow> ('s, 'w) write_frame \<Rightarrow> 's option list \<Rightarrow> channel_bucket \<Rightarrow> u16 \<Rightarrow> FrameSlice \<Rightarrow> (send_error \<Rightarrow> 'w \<Rightarrow> 'w) \<Rightarrow> 'w
    \<Rightarrow> (channel_bucket \<times> 'w) ended option" where
  "ask_loop 0 wr ss b channel fs errFunc w = None"
| "ask_loop (Suc n) wr ss b channel fs errFunc w =
     (let count = 0 :: u32 in
      case bucket_next b of
        None \<Rightarrow> Some Crashed
      | Some ((mid, l), b) \<Rightarrow>
        (case arr_get ss (unat mid) of
           None \<Rightarrow> Some Crashed
         | Some m \<Rightarrow>
           (let (sent, w) = (case m of
                  Some m \<Rightarrow> (let (err, w) = wr m fs (errFunc \<circ> SendFailed) w in (err = None, w))
                | None \<Rightarrow> (False, w))
            in if sent then Some (Ended (b, w))
               else (let count = count + 1 in
                     if count > l then Some (Ended (b, errFunc (AskOneNoSession channel mid l) w))
                     else ask_loop n wr ss b channel fs errFunc w))))"

definition AskOne ::
  "nat \<Rightarrow> ('s, 'w) write_frame \<Rightarrow> 's cluster \<Rightarrow> u16 \<Rightarrow> FrameSlice \<Rightarrow> (send_error \<Rightarrow> 'w \<Rightarrow> 'w) \<Rightarrow> 'w
    \<Rightarrow> ('s cluster \<times> 'w) ended option" where
  "AskOne fuel wr c channel fs errFunc w =
     (case cl_channels c channel of
        Some b \<Rightarrow>
          (case ask_loop fuel wr (cl_sessions c) b channel fs errFunc w of
             None \<Rightarrow> None
           | Some Crashed \<Rightarrow> Some Crashed
           | Some (Ended (b, w)) \<Rightarrow> Some (Ended (c\<lparr>cl_channels := (cl_channels c)(channel \<mapsto> b)\<rparr>, w)))
      | None \<Rightarrow> Some (Ended (c, errFunc (AskOneNoChannel channel) w)))"

fun ask_all_loop ::
  "('s, 'w) write_frame \<Rightarrow> 's option list \<Rightarrow> u16 list \<Rightarrow> FrameSlice \<Rightarrow> (send_error \<Rightarrow> 'w \<Rightarrow> 'w) \<Rightarrow> 'w \<Rightarrow> 'w ended" where
  "ask_all_loop wr ss [] fs errFunc w = Ended w"
| "ask_all_loop wr ss (mid # ids) fs errFunc w =
     (case arr_get ss (unat mid) of
        None \<Rightarrow> Crashed
      | Some None \<Rightarrow> ask_all_loop wr ss ids fs errFunc w
      | Some (Some m) \<Rightarrow>
          (case wr m fs (errFunc \<circ> SendFailed) w of
             (Some err, w) \<Rightarrow> ask_all_loop wr ss ids fs errFunc (errFunc (SendFailed err) w)
           | (None, w) \<Rightarrow> ask_all_loop wr ss ids fs errFunc w))"

definition AskAll ::
  "('s, 'w) write_frame \<Rightarrow> 's cluster \<Rightarrow> u16 \<Rightarrow> FrameSlice \<Rightarrow> (send_error \<Rightarrow> 'w \<Rightarrow> 'w) \<Rightarrow> 'w \<Rightarrow> 'w ended" where
  "AskAll wr c channel fs errFunc w =
     (case cl_channels c channel of
        Some b \<Rightarrow> ask_all_loop wr (cl_sessions c) (sets b) fs errFunc w
      | None \<Rightarrow> Ended (errFunc (AskAllNoChannel channel) w))"

section \<open>Messages, keys and values\<close>

record stateMsg =
  sm_id :: u16
  sm_state :: u32
  sm_operation :: u16

record 's nodeMsg =
  nm_id :: u16
  nm_ss :: "'s option"
  nm_operation :: u16

record channelMsg =
  cm_id :: u16
  cm_channel :: u16
  cm_operation :: u16

definition ascii :: "string \<Rightarrow> u8 list" where
  "ascii s = map of_char s"

definition bytesTOStateMsg :: "u8 list \<Rightarrow> stateMsg option" where
  "bytesTOStateMsg b = do {
     x \<leftarrow> reslice (of_list b) 0 2;
     i \<leftarrow> BytesToUint16 x;
     y \<leftarrow> reslice (of_list b) 2 6;
     st \<leftarrow> BytesToUint32 y;
     Some \<lparr>sm_id = i, sm_state = st, sm_operation = 0\<rparr> }"

definition getNodeID :: "u8 list \<Rightarrow> u16 option" where
  "getNodeID b = do { x \<leftarrow> reslice (of_list b) (int (length b) - 2) (int (length b)); BytesToUint16 x }"

definition keyTOChannelMsg :: "u8 list \<Rightarrow> channelMsg option" where
  "keyTOChannelMsg b = do {
     let l = int (length b);
     x \<leftarrow> reslice (of_list b) (l - 5) (l - 3);
     ch \<leftarrow> BytesToUint16 x;
     y \<leftarrow> reslice (of_list b) (l - 2) l;
     i \<leftarrow> BytesToUint16 y;
     Some \<lparr>cm_id = i, cm_channel = ch, cm_operation = 0\<rparr> }"

definition valueTOChannelMsg :: "u8 list \<Rightarrow> channelMsg option" where
  "valueTOChannelMsg b = do {
     x \<leftarrow> reslice (of_list b) 0 2;
     i \<leftarrow> BytesToUint16 x;
     y \<leftarrow> reslice (of_list b) 2 4;
     ch \<leftarrow> BytesToUint16 y;
     Some \<lparr>cm_id = i, cm_channel = ch, cm_operation = 0\<rparr> }"

text \<open>The keys and values \<open>Run\<close> builds in its buffers.\<close>

definition channelValue :: "u16 \<Rightarrow> u16 \<Rightarrow> u8 list" where
  "channelValue i ch = overwrite (overwrite (replicate 4 0) 0 (bytes16 i)) 2 (bytes16 ch)"

definition channelKey :: "u16 \<Rightarrow> u16 \<Rightarrow> u8 list" where
  "channelKey i ch =
     (let key = ascii ''channel/xx/xx'';
          l = length key;
          v = channelValue i ch;
          key = overwrite key (l - 5) (take 2 (drop 2 v))
      in overwrite key (l - 2) (take 2 v))"

definition stateKey :: "u16 \<Rightarrow> u8 list" where
  "stateKey i = (let key = ascii ''state/xx'' in overwrite key (length key - 2) (bytes16 i))"

definition stateValue :: "u16 \<Rightarrow> u32 \<Rightarrow> u8 list" where
  "stateValue i st = overwrite (overwrite (replicate 8 0) 0 (bytes16 i)) 2 (bytes32 st)"

text \<open>The messages that \<open>SetState\<close> and \<open>SetChannel\<close> send to the loop.\<close>

definition SetState_msg :: "u32 \<Rightarrow> stateMsg" where
  "SetState_msg s = \<lparr>sm_id = 0, sm_state = s, sm_operation = 3\<rparr>"

definition SetChannel_msg :: "u16 \<Rightarrow> u16 \<Rightarrow> u16 \<Rightarrow> channelMsg" where
  "SetChannel_msg i ch op = \<lparr>cm_id = i, cm_channel = ch, cm_operation = op\<rparr>"

section \<open>The loop\<close>

datatype 's cluster_msg = ChannelMsg channelMsg | StateMsg stateMsg | NodeMsg "'s nodeMsg"

text \<open>What a turn does outside the tables: calls on the directory and on sessions.\<close>

datatype 's effect =
    PutKey "u8 list" "u8 list" | DeleteKey "u8 list" | SessSetState 's u32 | SessClose 's

text \<open>One turn of the \<open>for\<close> of \<open>Run\<close>; the flag is its \<open>return\<close>.\<close>

definition channel_turn :: "'s cluster \<Rightarrow> channelMsg \<Rightarrow> 's cluster \<times> 's effect list" where
  "channel_turn c cc =
     (if cm_operation cc = 1 then
        (let nb = (case cl_channels c (cm_channel cc) of
               None \<Rightarrow> newBucket\<lparr>sets := [cm_id cc], cursorAndLenght := setCursorAndLenght 0 1\<rparr>
             | Some v \<Rightarrow> bucket_add newBucket (sets v) (cm_id cc))
         in (c\<lparr>cl_channels := (cl_channels c)(cm_channel cc \<mapsto> nb)\<rparr>, []))
      else if cm_operation cc = 2 then
        (case cl_channels c (cm_channel cc) of
           None \<Rightarrow> (c, [])
         | Some v \<Rightarrow>
             (let nb = bucket_remove newBucket (sets v) (cm_id cc)
              in if cursorAndLenght nb \<noteq> 0
                 then (c\<lparr>cl_channels := (cl_channels c)(cm_channel cc \<mapsto> nb)\<rparr>, [])
                 else (c\<lparr>cl_channels := (cl_channels c)(cm_channel cc := None)\<rparr>, [])))
      else if cm_operation cc = 3 then
        (c, [PutKey (channelKey (cm_id cc) (cm_channel cc)) (channelValue (cm_id cc) (cm_channel cc))])
      else if cm_operation cc = 4 then (c, [DeleteKey (channelKey (cm_id cc) (cm_channel cc))])
      else (c, []))"

definition state_turn :: "'s cluster \<Rightarrow> stateMsg \<Rightarrow> ('s cluster \<times> 's effect list \<times> bool) option" where
  "state_turn c sc =
     (if sm_operation sc = 1 then
        (case arr_get (cl_sessions c) (unat (sm_id sc)) of
           None \<Rightarrow> None
         | Some None \<Rightarrow> Some (c, [], False)
         | Some (Some m) \<Rightarrow> Some (c, [SessSetState m (sm_state sc)], False))
      else if sm_operation sc = 3 \<and> cl_state c \<noteq> StateDie then
        (let c = c\<lparr>cl_state := sm_state sc\<rparr>;
             put = PutKey (stateKey (machineID c)) (stateValue (machineID c) (cl_state c))
         in if sm_state sc = StateDie
            then Some (c\<lparr>cl_sessions := map (\<lambda>_. None) (cl_sessions c)\<rparr>,
                       put # map SessClose (map the (filter (\<lambda>m. m \<noteq> None) (cl_sessions c))), True)
            else Some (c, [put], False))
      else Some (c, [], False))"

definition node_turn :: "'s cluster \<Rightarrow> 's nodeMsg \<Rightarrow> ('s cluster \<times> 's effect list) option" where
  "node_turn c nc =
     (if nm_operation nc = 2 then
        (case arr_get (cl_sessions c) (unat (nm_id nc)) of
           None \<Rightarrow> None
         | Some None \<Rightarrow> Some (c, [])
         | Some (Some m) \<Rightarrow> do {
             ss \<leftarrow> arr_set (cl_sessions c) (unat (nm_id nc)) None;
             Some (c\<lparr>cl_sessions := ss\<rparr>, [SessSetState m StateDie]) })
      else if nm_operation nc = 3 then do {
        ss \<leftarrow> arr_set (cl_sessions c) (unat (nm_id nc)) (nm_ss nc);
        Some (c\<lparr>cl_sessions := ss\<rparr>, []) }
      else Some (c, []))"

fun cluster_step :: "'s cluster \<Rightarrow> 's cluster_msg \<Rightarrow> ('s cluster \<times> 's effect list \<times> bool) option" where
  "cluster_step c (ChannelMsg cc) = (let (c, es) = channel_turn c cc in Some (c, es, False))"
| "cluster_step c (StateMsg sc) = state_turn c sc"
| "cluster_step c (NodeMsg nc) = do { (c, es) \<leftarrow> node_turn c nc; Some (c, es, False) }"

text \<open>The whole loop on a list of messages, with the effects in order.\<close>

fun cluster_run :: "'s cluster \<Rightarrow> 's cluster_msg list \<Rightarrow> ('s cluster \<times> 's effect list) option" where
  "cluster_run c [] = Some (c, [])"
| "cluster_run c (m # ms) = do {
     (c, es, stop) \<leftarrow> cluster_step c m;
     if stop then Some (c, es) else do { (c, fs) \<leftarrow> cluster_run c ms; Some (c, es @ fs) } }"

text \<open>
  \<open>initStateAndChannels\<close>: the values found under \<open>channel/\<close> fill the table, unless a message of
  the directory has already arrived.
\<close>

datatype init_error = InitGetKey | InitStateChan | InitChannelChan

definition init_bucket :: "(u16 \<Rightarrow> channel_bucket option) \<Rightarrow> u16 \<Rightarrow> u16 \<Rightarrow> (u16 \<Rightarrow> channel_bucket option)" where
  "init_bucket temp i channel =
     (case temp channel of
        Some v \<Rightarrow> (let s = sets v @ [i]
                   in temp(channel \<mapsto> v\<lparr>sets := s, cursorAndLenght := setCursorAndLenght 0 (of_nat (length s))\<rparr>))
      | None \<Rightarrow> temp(channel \<mapsto> newBucket\<lparr>sets := [i], cursorAndLenght := setCursorAndLenght 0 1\<rparr>))"

fun init_channels :: "u8 list list \<Rightarrow> (u16 \<Rightarrow> channel_bucket option) \<Rightarrow> (u16 \<Rightarrow> channel_bucket option) option" where
  "init_channels [] temp = Some temp"
| "init_channels (v # cl) temp = do {
     x \<leftarrow> reslice (of_list v) 0 2;
     i \<leftarrow> BytesToUint16 x;
     y \<leftarrow> reslice (of_list v) 2 (int (length v));
     channel \<leftarrow> BytesToUint16 y;
     init_channels cl (init_bucket temp i channel) }"

definition initStateAndChannels ::
  "u8 list list option \<Rightarrow> stateMsg list \<Rightarrow> channelMsg list \<Rightarrow> 's cluster \<Rightarrow> (init_error option \<times> 's cluster) option" where
  "initStateAndChannels cl StateChan ChannelChan c =
     (case cl of
        None \<Rightarrow> Some (Some InitGetKey, c)
      | Some cl \<Rightarrow> do {
          temp \<leftarrow> init_channels cl (\<lambda>_. None);
          if StateChan \<noteq> [] then Some (Some InitStateChan, c)
          else if ChannelChan \<noteq> [] then Some (Some InitChannelChan, c)
          else Some (None, c\<lparr>cl_channels := cl_channels c ++ temp\<rparr>) })"

end
