(* ===== verification/Serial.thy ===== *)
theory Serial
  imports RingFifo Cluster
begin

text \<open>
  \<open>serial.go\<close>: one goroutine that handles the messages of its channels one at a time. The sessions write
  frames to the ring of \<open>util/ring.go\<close>; \<open>assignmentTask\<close> takes them out, calls the function of the
  channel, and calls the function of a group of channels whenever each of them has a message.
\<close>

section \<open>State\<close>

text \<open>\<open>ContextMQ\<close>: the data and the extension of a message; a nil extension is \<^const>\<open>None\<close>.\<close>

record ContextMQ =
  Request :: "u8 list"
  ctx_ex :: "u8 list option"

text \<open>
  A user's function acts on the state \<open>'w\<close>; it answers false when it panics. \<open>BagFunc b i\<close> is the method
  \<open>serialProcessWrapper\<close> of the value \<open>bagAndIndex{bag: b, index: i}\<close>. Bags are shared by reference: \<open>b\<close> is
  an address in \<open>bag_heap\<close>.
\<close>

datatype 'w mq_handler = Func "ContextMQ \<Rightarrow> 'w \<Rightarrow> bool \<times> 'w" | BagFunc nat nat

text \<open>A nil entry of \<open>buf\<close> is \<^const>\<open>None\<close>.\<close>

record 'w bag =
  channelsSize :: nat
  bag_channels :: "u16 list"
  bag_fs :: "u16 list \<Rightarrow> u8 list option list \<Rightarrow> 'w \<Rightarrow> bool \<times> 'w"
  bag_buf :: "u8 list option list"

text \<open>\<open>globalContextMQHandler\<close> is global; the other fields are the serial's own.\<close>

record 'w Serial =
  sr_ring :: RingBuffer
  channelMap :: "u16 set"
  sr_bags :: "nat list"
  bag_heap :: "'w bag list"
  globalContextMQHandler :: "u16 \<Rightarrow> 'w mq_handler option"

datatype 'w task_end = TaskDone "'w Serial" 'w | TaskPanic "'w Serial" 'w

section \<open>Groups of channels\<close>

text \<open>
  \<open>serialProcessWrapper\<close> of a group: the first free slot \<open>i\<close>, \<open>i + channelsSize\<close>, \<open>\<dots>\<close>, one unit of fuel per
  turn of its loop.
\<close>

fun bag_put :: "nat \<Rightarrow> nat \<Rightarrow> u8 list option list \<Rightarrow> nat \<Rightarrow> u8 list \<Rightarrow> u8 list option list ended option" where
  "bag_put 0 sz buf i data = None"
| "bag_put (Suc n) sz buf i data =
     (let buf = (if i \<ge> length buf then buf @ replicate sz None else buf) in
      case arr_get buf i of
        None \<Rightarrow> Some Crashed
      | Some None \<Rightarrow> Some (Ended (buf[i := Some data]))
      | Some (Some d) \<Rightarrow> bag_put n sz buf (i + sz) data)"

text \<open>The inner loop of \<open>assignmentTask\<close> on one bag.\<close>

fun drain_bag :: "nat \<Rightarrow> 'w bag \<Rightarrow> nat \<Rightarrow> 'w \<Rightarrow> (bool \<times> 'w bag \<times> 'w) option" where
  "drain_bag 0 b count w = None"
| "drain_bag (Suc n) b count w =
     (case arr_get (bag_buf b) count of
        None \<Rightarrow> Some (False, b, w)
      | Some None \<Rightarrow> Some (True, b, w)
      | Some (Some d) \<Rightarrow>
          (let count = count + 1 in
           if count = channelsSize b then
             (let (ok, w) = bag_fs b (bag_channels b) (take (channelsSize b) (bag_buf b)) w in
              if \<not> ok then Some (False, b, w)
              else (let buf = drop count (bag_buf b);
                        buf = (if length buf = 0 then replicate (channelsSize b) None else buf)
                    in drain_bag n (b\<lparr>bag_buf := buf\<rparr>) 0 w))
           else drain_bag n b count w))"

section \<open>The task\<close>

definition call_handler ::
  "nat \<Rightarrow> 'w mq_handler option \<Rightarrow> ContextMQ \<Rightarrow> 'w bag list \<Rightarrow> 'w \<Rightarrow> (bool \<times> 'w bag list \<times> 'w) option" where
  "call_handler fuel h c heap w =
     (case h of
        None \<Rightarrow> Some (False, heap, w)
      | Some (Func f) \<Rightarrow> (let (ok, w) = f c w in Some (ok, heap, w))
      | Some (BagFunc b i) \<Rightarrow>
          (case bag_put fuel (channelsSize (heap ! b)) (bag_buf (heap ! b)) i (Request c) of
             None \<Rightarrow> None
           | Some Crashed \<Rightarrow> Some (False, heap, w)
           | Some (Ended buf) \<Rightarrow> Some (True, heap[b := (heap ! b)\<lparr>bag_buf := buf\<rparr>], w)))"

text \<open>The context and the channel of a message in the ring.\<close>

definition message_context :: "u8 slice \<Rightarrow> (ContextMQ \<times> u16) option" where
  "message_context data = do {
     fs \<leftarrow> DecodeByBytes data;
     d \<leftarrow> GetData fs;
     e \<leftarrow> GetExtend fs;
     ft \<leftarrow> GetFrameType fs;
     Some (\<lparr>Request = elems d, ctx_ex = Some (elems e)\<rparr>, ft) }"

fun drain_ring :: "nat \<Rightarrow> 'w Serial \<Rightarrow> 'w \<Rightarrow> 'w task_end option" where
  "drain_ring 0 s w = None"
| "drain_ring (Suc n) s w =
     (case ReadFromRingBuffer (sr_ring s) of
        None \<Rightarrow> Some (TaskPanic s w)
      | Some (data, available) \<Rightarrow>
          (if available = 0 then Some (TaskDone s w)
           else case data of
               None \<Rightarrow> Some (TaskPanic s w)
             | Some data \<Rightarrow>
               (case message_context data of
                  None \<Rightarrow> Some (TaskPanic s w)
                | Some (c, ft) \<Rightarrow>
                   (case call_handler (Suc n) (globalContextMQHandler s ft) c (bag_heap s) w of
                      None \<Rightarrow> None
                    | Some (ok, heap, w) \<Rightarrow>
                       (let s = s\<lparr>bag_heap := heap\<rparr> in
                        if \<not> ok then Some (TaskPanic s w)
                        else case SetAvailableCursor (sr_ring s) available of
                            None \<Rightarrow> Some (TaskPanic s w)
                          | Some r \<Rightarrow> drain_ring n (s\<lparr>sr_ring := r\<rparr>) w)))))"

fun drain_bags :: "nat \<Rightarrow> nat list \<Rightarrow> 'w Serial \<Rightarrow> 'w \<Rightarrow> 'w task_end option" where
  "drain_bags n [] s w = Some (TaskDone s w)"
| "drain_bags n (a # as) s w =
     (case drain_bag n (bag_heap s ! a) 0 w of
        None \<Rightarrow> None
      | Some (ok, b, w) \<Rightarrow>
          (let s = s\<lparr>bag_heap := (bag_heap s)[a := b]\<rparr> in
           if ok then drain_bags n as s w else Some (TaskPanic s w)))"

definition serial_assignmentTask :: "nat \<Rightarrow> 'w Serial \<Rightarrow> 'w \<Rightarrow> 'w task_end option" where
  "serial_assignmentTask fuel s w =
     (case drain_ring fuel s w of
        Some (TaskDone s w) \<Rightarrow> drain_bags fuel (sr_bags s) s w
      | res \<Rightarrow> res)"

section \<open>Reception, subscription, cancellation\<close>

text \<open>The handler of every subscribed frame type: the frame goes to the ring while the serial works.\<close>

definition serialProcessWrapper :: "FrameSlice \<Rightarrow> 'w Serial \<Rightarrow> (ring_error option \<times> 'w Serial) option" where
  "serialProcessWrapper fs s =
     (if HasWork (sr_ring s)
      then do { (e, r) \<leftarrow> WriteToRingBuffer (sr_ring s) (elems (GetAll fs)); Some (e, s\<lparr>sr_ring := r\<rparr>) }
      else Some (None, s))"

definition serial_Init :: "u64 \<Rightarrow> 'w Serial \<Rightarrow> 'w Serial" where
  "serial_Init RingBufferSize s =
     (let n = (if RingBufferSize = 0 then 2097152 else RingBufferSize)
      in s\<lparr>sr_ring := SetState (InitRingBuffer (sr_ring s) n) StatePause, channelMap := {}, sr_bags := []\<rparr>)"

text \<open>
  \<open>Subscribe\<close>: the function of the channel and the message to the cluster (the frame handler, always
  \<open>serialProcessWrapper\<close>, is registered too). A serial that already runs is only logged.
\<close>

definition serial_Subscribe :: "u16 \<Rightarrow> u16 \<Rightarrow> 'w mq_handler \<Rightarrow> 'w Serial \<Rightarrow> 'w Serial \<times> channelMsg" where
  "serial_Subscribe mid channel f s =
     (s\<lparr>globalContextMQHandler := (globalContextMQHandler s)(channel \<mapsto> f), channelMap := insert channel (channelMap s)\<rparr>,
      SetChannel_msg mid channel 3)"

fun SubscribeRace :: "u16 \<Rightarrow> u16 list \<Rightarrow> 'w mq_handler \<Rightarrow> 'w Serial \<Rightarrow> 'w Serial \<times> channelMsg list" where
  "SubscribeRace mid [] f s = (s, [])"
| "SubscribeRace mid (a # as) f s =
     (let (s, m) = serial_Subscribe mid a f s; (s, ms) = SubscribeRace mid as f s in (s, m # ms))"

fun subscribe_each :: "u16 \<Rightarrow> nat \<Rightarrow> nat \<Rightarrow> u16 list \<Rightarrow> 'w Serial \<Rightarrow> 'w Serial \<times> channelMsg list" where
  "subscribe_each mid b i [] s = (s, [])"
| "subscribe_each mid b i (a # as) s =
     (let (s, m) = serial_Subscribe mid a (BagFunc b i) s; (s, ms) = subscribe_each mid b (i + 1) as s in (s, m # ms))"

definition SubscribeAll ::
  "u16 \<Rightarrow> u16 list \<Rightarrow> (u16 list \<Rightarrow> u8 list option list \<Rightarrow> 'w \<Rightarrow> bool \<times> 'w) \<Rightarrow> 'w Serial \<Rightarrow> 'w Serial \<times> channelMsg list" where
  "SubscribeAll mid channels fs s =
     (let b = \<lparr>channelsSize = length channels, bag_channels = channels, bag_fs = fs, bag_buf = replicate (length channels) None\<rparr>;
          a = length (bag_heap s);
          s = s\<lparr>bag_heap := bag_heap s @ [b], sr_bags := sr_bags s @ [a]\<rparr>
      in subscribe_each mid a 0 channels s)"

text \<open>The case \<open>unsubscribeChan\<close> of \<open>Run\<close>: the first bag with these channels leaves the list.\<close>

function unsubscribe_bag :: "'w bag list \<Rightarrow> u16 list \<Rightarrow> nat \<Rightarrow> nat list \<Rightarrow> nat list" where
  "unsubscribe_bag heap u i bs =
     (let l = length bs in
      if i < l then
        (if Uint16Equal u (bag_channels (heap ! (bs ! i)))
         then take (l - 1) (take i bs @ gocopy (take (l - 1 - i) (drop i bs)) (drop (i + 1) bs) @ drop (l - 1) bs)
         else unsubscribe_bag heap u (i + 1) bs)
      else bs)"
  by pat_completeness auto
termination
  by (relation "measure (\<lambda>(heap, u, i, bs). length bs - i)") auto

declare unsubscribe_bag.simps [simp del]

definition unsubscribe_turn :: "u16 list \<Rightarrow> 'w Serial \<Rightarrow> 'w Serial" where
  "unsubscribe_turn u s =
     s\<lparr>sr_bags := (if length (sr_bags s) > 0 then unsubscribe_bag (bag_heap s) u 0 (sr_bags s) else sr_bags s),
       channelMap := channelMap s - set u\<rparr>"

text \<open>\<open>Unsubscribe\<close> and \<open>UnsubscribeGroup\<close>: messages to the cluster, and whether the loop is told.\<close>

definition Unsubscribe_msg :: "u16 \<Rightarrow> u16 \<Rightarrow> channelMsg" where
  "Unsubscribe_msg mid channel = SetChannel_msg mid channel 4"

datatype unsubscribe_end = UnsubscribeSent | UnsubscribeNotRunning | UnsubscribeTimeout

definition UnsubscribeGroup :: "u16 \<Rightarrow> u16 list \<Rightarrow> bool \<Rightarrow> 'w Serial \<Rightarrow> unsubscribe_end \<times> channelMsg list" where
  "UnsubscribeGroup mid channels room s =
     (if \<not> HasWork (sr_ring s) then UnsubscribeNotRunning
      else if room then UnsubscribeSent else UnsubscribeTimeout,
      map (Unsubscribe_msg mid) channels)"

section \<open>The loop \<open>Run\<close>\<close>

text \<open>
  The cases of the \<open>select\<close>: the ticker, an error for a reject function, a cancellation, the end of the
  context (the serial is told to die and the stop channel is closed) and the stop channel.
\<close>

datatype 'w serial_event = Tick | RejectFunc "'w \<Rightarrow> bool \<times> 'w" | UnsubscribeMsg "u16 list" | CtxDone | StopMsg

datatype 'w serial_end = Looping "'w Serial" 'w | Stopped "'w Serial" 'w "channelMsg set" | Recovered "'w Serial" 'w

fun serial_turn :: "nat \<Rightarrow> u16 \<Rightarrow> 'w Serial \<Rightarrow> 'w \<Rightarrow> 'w serial_event \<Rightarrow> 'w serial_end option" where
  "serial_turn fuel mid s w Tick =
     (case serial_assignmentTask fuel s w of
        None \<Rightarrow> None
      | Some (TaskDone s w) \<Rightarrow> Some (Looping s w)
      | Some (TaskPanic s w) \<Rightarrow> Some (Recovered s w))"
| "serial_turn fuel mid s w (RejectFunc f) =
     (let (ok, w) = f w in if ok then Some (Looping s w) else Some (Recovered s w))"
| "serial_turn fuel mid s w (UnsubscribeMsg u) = Some (Looping (unsubscribe_turn u s) w)"
| "serial_turn fuel mid s w CtxDone = Some (Looping (s\<lparr>sr_ring := SetState (sr_ring s) StateDie\<rparr>) w)"
| "serial_turn fuel mid s w StopMsg =
     (case serial_assignmentTask fuel s w of
        None \<Rightarrow> None
      | Some (TaskDone s w) \<Rightarrow> Some (Stopped s w (Unsubscribe_msg mid ` channelMap s))
      | Some (TaskPanic s w) \<Rightarrow> Some (Recovered s w))"

end
