(* ===== verification/SerialSpec.thy ===== *)
theory SerialSpec
  imports Serial
begin

text \<open>
  What \<open>serial.go\<close> promises: the messages of the ring are handled in order, once each; a group of
  channels is a rendezvous of queues; a panicking function ends the loop.
\<close>

section \<open>The buffer of a group is a queue per channel\<close>

definition bag_abs :: "nat \<Rightarrow> 'a list list \<Rightarrow> 'a option list \<Rightarrow> bool" where
  "bag_abs n qs buf \<longleftrightarrow> 0 < n \<and> length qs = n
     \<and> (\<exists>m>0. length buf = m * n \<and> (\<forall>i<n. length (qs ! i) \<le> m))
     \<and> (\<forall>i<n. \<forall>k. i + k * n < length buf \<longrightarrow> buf ! (i + k * n) = (if k < length (qs ! i) then Some (qs ! i ! k) else None))"

lemma bag_absD:
  assumes "bag_abs n qs buf"
  shows "0 < n" "length qs = n" "\<exists>m>0. length buf = m * n \<and> (\<forall>i<n. length (qs ! i) \<le> m)"
    "\<And>i k. i < n \<Longrightarrow> i + k * n < length buf \<Longrightarrow> buf ! (i + k * n) = (if k < length (qs ! i) then Some (qs ! i ! k) else None)"
  using assms by (simp_all add: bag_abs_def)

lemma bag_abs_fresh: "0 < n \<Longrightarrow> bag_abs n (replicate n []) (replicate n None)"
  unfolding bag_abs_def by (intro conjI exI [of _ 1]) auto

lemma slot_unique:
  fixes n :: nat
  assumes "i < n" "j < n" "i + k * n = j + l * n"
  shows "i = j \<and> k = l"
proof -
  have "(i + k * n) mod n = (j + l * n) mod n" "(i + k * n) div n = (j + l * n) div n" using assms(3) by simp_all
  then show ?thesis using assms(1,2) by simp
qed

lemma slot_row:
  fixes n :: nat
  assumes "i < n" shows "i + k * n < m * n \<longleftrightarrow> k < m"
proof
  assume "i + k * n < m * n"
  then have "k * n < m * n" by linarith
  then show "k < m" using assms by simp
next
  assume "k < m"
  then have "Suc k * n \<le> m * n" by (intro mult_le_mono1) simp
  then show "i + k * n < m * n" using assms by simp
qed

lemma bag_abs_extend:
  assumes "bag_abs n qs buf"
  shows "bag_abs n qs (buf @ replicate n None)"
proof -
  obtain m where m: "m > 0" "length buf = m * n" "\<forall>i<n. length (qs ! i) \<le> m" using bag_absD(3) [OF assms] by blast
  have "(buf @ replicate n None) ! (i + k * n) = (if k < length (qs ! i) then Some (qs ! i ! k) else None)"
    if "i < n" "i + k * n < length (buf @ replicate n None)" for i k
  proof (cases "i + k * n < length buf")
    case True
    then show ?thesis using bag_absD(4) [OF assms that(1) True] by (simp add: nth_append)
  next
    case False
    then have "\<not> k < m" using m(2) slot_row [OF that(1)] by simp
    then have "\<not> k < length (qs ! i)" using m(3) that(1) by (meson le_trans not_less)
    then show ?thesis using False that by (simp add: nth_append)
  qed
  moreover have "length (buf @ replicate n None) = Suc m * n" using m by simp
  moreover have "\<forall>i<n. length (qs ! i) \<le> Suc m" using m by (simp add: le_SucI)
  ultimately show ?thesis using bag_absD(1,2) [OF assms] unfolding bag_abs_def by blast
qed

lemma bag_abs_set:
  assumes "bag_abs n qs buf" "i < n" "k = length (qs ! i)" "i + k * n < length buf"
  shows "bag_abs n (qs[i := qs ! i @ [d]]) (buf[i + k * n := Some d])"
proof -
  obtain m where m: "m > 0" "length buf = m * n" "\<forall>i<n. length (qs ! i) \<le> m" using bag_absD(3) [OF assms(1)] by blast
  have "k < m" using assms(2,4) m(2) slot_row by simp
  then have "\<forall>j<n. length (qs[i := qs ! i @ [d]] ! j) \<le> m"
    using m(3) assms(2,3) bag_absD(2) [OF assms(1)] by (simp add: nth_list_update Suc_le_eq)
  moreover have "buf[i + k * n := Some d] ! (j + l * n) =
      (if l < length (qs[i := qs ! i @ [d]] ! j) then Some (qs[i := qs ! i @ [d]] ! j ! l) else None)"
    if "j < n" "j + l * n < length buf" for j l
  proof (cases "j = i \<and> l = k")
    case True
    then show ?thesis using assms bag_absD(2) [OF assms(1)] by simp
  next
    case False
    then have "i + k * n \<noteq> j + l * n" using slot_unique [OF assms(2) that(1)] by blast
    then show ?thesis
      using False bag_absD(4) [OF assms(1) that] assms(2,3) bag_absD(2) [OF assms(1)] that
      by (auto simp: nth_list_update nth_append)
  qed
  ultimately show ?thesis using bag_absD(1,2) [OF assms(1)] m(1,2) unfolding bag_abs_def by auto
qed

lemma bag_put_queue:
  "bag_abs n qs buf \<Longrightarrow> i < n \<Longrightarrow> k \<le> length (qs ! i) \<Longrightarrow> length (qs ! i) - k < fuel \<Longrightarrow>
   \<exists>buf'. bag_put fuel n buf (i + k * n) d = Some (Ended buf') \<and> bag_abs n (qs[i := qs ! i @ [d]]) buf'"
proof (induction fuel arbitrary: k buf)
  case (Suc f)
  define buf1 where "buf1 = (if i + k * n \<ge> length buf then buf @ replicate n None else buf)"
  have b1: "bag_abs n qs buf1" using Suc.prems(1) by (auto simp: buf1_def intro: bag_abs_extend)
  obtain m where m: "length buf = m * n" "length (qs ! i) \<le> m" using bag_absD(3) [OF Suc.prems(1)] Suc.prems(2) by blast
  have "i + k * n < Suc m * n" using slot_row [OF Suc.prems(2), of k "Suc m"] m(2) Suc.prems(3)
    by simp
  then have inside: "i + k * n < length buf1" using m(1) by (simp add: buf1_def)
  then have get: "arr_get buf1 (i + k * n) = Some (if k < length (qs ! i) then Some (qs ! i ! k) else None)"
    using bag_absD(4) [OF b1 Suc.prems(2)] by (simp add: arr_get_def)
  have step: "bag_put (Suc f) n buf (i + k * n) d = (case arr_get buf1 (i + k * n) of
        None \<Rightarrow> Some Crashed
      | Some None \<Rightarrow> Some (Ended (buf1[i + k * n := Some d]))
      | Some (Some x) \<Rightarrow> bag_put f n buf1 (i + k * n + n) d)"
    by (simp only: buf1_def Let_def bag_put.simps)
  show ?case
  proof (cases "k < length (qs ! i)")
    case True
    have "\<exists>buf'. bag_put f n buf1 (i + Suc k * n) d = Some (Ended buf') \<and> bag_abs n (qs[i := qs ! i @ [d]]) buf'"
      using Suc.IH [OF b1 Suc.prems(2), of "Suc k"] True Suc.prems(4) by simp
    then show ?thesis using step get True by (simp add: algebra_simps)
  next
    case False
    then have "k = length (qs ! i)" using Suc.prems(3) by simp
    from bag_abs_set [OF b1 Suc.prems(2) this inside] show ?thesis using step get False by simp
  qed
qed simp

text \<open>The first row holds the heads; without it the buffer holds the tails.\<close>

lemma bag_abs_row:
  assumes "bag_abs n qs buf" "\<forall>q\<in>set qs. q \<noteq> []"
  shows "take n buf = map (Some \<circ> hd) qs"
    "bag_abs n (map tl qs) (if length (drop n buf) = 0 then replicate n None else drop n buf)"
proof -
  note B = bag_absD [OF assms(1)]
  obtain m where m: "m > 0" "length buf = m * n" "\<forall>i<n. length (qs ! i) \<le> m" using B(3) by blast
  have long: "n \<le> length buf" using m(1,2) by (cases m) auto
  have ne: "qs ! i \<noteq> []" if "i < n" for i using assms(2) that B(2) by simp
  show "take n buf = map (Some \<circ> hd) qs"
  proof (rule nth_equalityI)
    show "length (take n buf) = length (map (Some \<circ> hd) qs)" using long B(2) by simp
    fix i assume "i < length (take n buf)"
    then have i: "i < n" by simp
    have "buf ! (i + 0 * n) = (if 0 < length (qs ! i) then Some (qs ! i ! 0) else None)"
      by (rule B(4) [OF i]) (use i long in simp)
    then show "take n buf ! i = map (Some \<circ> hd) qs ! i" using i ne [OF i] B(2) by (simp add: hd_conv_nth)
  qed
  show "bag_abs n (map tl qs) (if length (drop n buf) = 0 then replicate n None else drop n buf)"
  proof (cases "m = 1")
    case True
    then have "length (qs ! i) = 1" if "i < n" for i
      using m(3) ne [OF that] that by (metis One_nat_def Suc_leI le_antisym length_greater_0_conv)
    then have "map tl qs = replicate n []"
      using B(2) by (intro nth_equalityI) (auto simp: length_0_conv [symmetric] simp del: length_0_conv)
    then show ?thesis using bag_abs_fresh [OF B(1)] m(2) True by simp
  next
    case False
    then obtain m' where m': "m = Suc m'" "m' > 0" using m(1) by (metis One_nat_def Suc_pred gr0_conv_Suc neq0_conv)
    have "drop n buf ! (i + k * n) = (if k < length (map tl qs ! i) then Some (map tl qs ! i ! k) else None)"
      if "i < n" "i + k * n < length (drop n buf)" for i k
    proof -
      have "i + Suc k * n < length buf" using that by simp
      from B(4) [OF that(1) this] show ?thesis
        using that ne [OF that(1)] B(2) by (simp add: nth_tl add.commute add.left_commute) linarith
    qed
    moreover have "\<forall>i<n. length (map tl qs ! i) \<le> m'" using m(3) m'(1) B(2) by (auto simp: le_diff_conv)
    moreover have "length (drop n buf) = m' * n" using m(2) m'(1) by simp
    ultimately have "bag_abs n (map tl qs) (drop n buf)" using B(1,2) m'(2) unfolding bag_abs_def by auto
    moreover have "length (drop n buf) \<noteq> 0" using \<open>length (drop n buf) = m' * n\<close> m'(2) B(1) by simp
    ultimately show ?thesis by simp
  qed
qed


section \<open>Draining a bag\<close>

text \<open>The group's function is total here: it acts on the state by \<open>g\<close>.\<close>

definition calls :: "'w bag \<Rightarrow> (u8 list option list \<Rightarrow> 'w \<Rightarrow> 'w) \<Rightarrow> bool" where
  "calls b g \<longleftrightarrow> (\<forall>reqs w. bag_fs b (bag_channels b) reqs w = (True, g reqs w))"

lemma calls_update [simp]: "calls (b\<lparr>bag_buf := buf\<rparr>) g = calls b g"
  by (simp add: calls_def)

lemma head_slot:
  assumes "bag_abs n qs buf" "c < n"
  shows "arr_get buf c = Some (if qs ! c = [] then None else Some (hd (qs ! c)))"
proof -
  obtain m where m: "m > 0" "length buf = m * n" using bag_absD(3) [OF assms(1)] by blast
  have "c < length buf" using slot_row [OF assms(2), of 0 m] m by simp
  then show ?thesis
    using bag_absD(4) [OF assms(1,2), of 0] by (cases "qs ! c") (simp_all add: arr_get_def)
qed

text \<open>One full round from position \<open>c\<close>: the function is called on the heads.\<close>

lemma drain_round:
  assumes "bag_abs n qs (bag_buf b)" "channelsSize b = n" "calls b g" "\<forall>q\<in>set qs. q \<noteq> []" "c < n"
  shows "drain_bag (fuel + (n - c)) b c w
    = drain_bag fuel (b\<lparr>bag_buf := (if length (drop n (bag_buf b)) = 0 then replicate n None else drop n (bag_buf b))\<rparr>) 0
        (g (map (Some \<circ> hd) qs) w)"
  using assms(5)
proof (induction "n - c" arbitrary: c)
  case (Suc k)
  have "qs ! c \<noteq> []" using assms(4) Suc.prems bag_absD(2) [OF assms(1)] by simp
  then have get: "arr_get (bag_buf b) c = Some (Some (hd (qs ! c)))" using head_slot [OF assms(1) Suc.prems] by simp
  have fuel: "fuel + (n - c) = Suc (fuel + (n - (c + 1)))" using Suc.prems by simp
  show ?case
  proof (cases "c + 1 = n")
    case True
    then have "fuel + (n - (c + 1)) = fuel" by simp
    then show ?thesis
      using True get assms(2,3) bag_abs_row(1) [OF assms(1,4)] unfolding fuel
      by (simp add: Let_def calls_def)
  next
    case False
    then have lt: "c + 1 < n" using Suc.prems by simp
    have "drain_bag (fuel + (n - c)) b c w = drain_bag (fuel + (n - (c + 1))) b (c + 1) w"
      unfolding fuel using get False assms(2) by simp
    then show ?thesis using Suc.hyps(1) [of "c + 1"] Suc.hyps(2) lt by simp
  qed
qed simp

lemma drain_stop:
  assumes "bag_abs n qs (bag_buf b)" "channelsSize b = n" "j < n" "qs ! j = []" "c \<le> j" "j - c < fuel"
  shows "drain_bag fuel b c w = Some (True, b, w)"
  using assms(5,6)
proof (induction fuel arbitrary: c)
  case (Suc f)
  have cn: "c < n" using Suc.prems(1) assms(3) by simp
  show ?case
  proof (cases "qs ! c = []")
    case True
    then show ?thesis using head_slot [OF assms(1) cn] by simp
  next
    case False
    then have "c \<noteq> j" using assms(4) by auto
    then have j: "c + 1 \<le> j" using Suc.prems(1) by simp
    then have "drain_bag f b (c + 1) w = Some (True, b, w)" using Suc.IH [of "c + 1"] Suc.prems(2) by simp
    then show ?thesis using head_slot [OF assms(1) cn] False assms(2,3) j by simp
  qed
qed simp

text \<open>The rounds from the \<open>k\<close>-th to the \<open>r\<close>-th message of every queue.\<close>

definition rounds :: "nat \<Rightarrow> nat \<Rightarrow> 'a list list \<Rightarrow> 'a option list list" where
  "rounds k r qs = map (\<lambda>j. map (\<lambda>q. Some (q ! j)) qs) [k..<r]"

definition ready :: "'a list list \<Rightarrow> nat" where
  "ready qs = Min (length ` set qs)"

lemma ready_iff: "qs \<noteq> [] \<Longrightarrow> (0 < ready qs \<longleftrightarrow> (\<forall>q\<in>set qs. q \<noteq> []))"
  by (auto simp: ready_def)

lemma ready_tl:
  assumes "qs \<noteq> []" "0 < ready qs"
  shows "ready (map tl qs) = ready qs - 1"
proof -
  have "length ` set (map tl qs) = (\<lambda>x. x - 1) ` length ` set qs" by (auto simp: image_iff)
  moreover have "Min ((\<lambda>x. x - 1) ` length ` set qs) = Min (length ` set qs) - 1"
    by (rule mono_Min_commute [symmetric]) (use assms(1) in \<open>auto simp: mono_def\<close>)
  ultimately show ?thesis by (simp add: ready_def)
qed

lemma rounds_tl:
  assumes "\<forall>q\<in>set qs. q \<noteq> []" "0 < r"
  shows "rounds 0 r qs = map (Some \<circ> hd) qs # rounds 0 (r - 1) (map tl qs)"
proof -
  obtain r' where r: "r = Suc r'" using assms(2) by (cases r) auto
  have "map (\<lambda>q. Some (q ! 0)) qs = map (Some \<circ> hd) qs" using assms(1) by (simp add: hd_conv_nth)
  moreover have "map (\<lambda>q. Some (q ! Suc j)) qs = map (\<lambda>q. Some (q ! j)) (map tl qs)" if "j < r'" for j
    using assms(1) by (auto simp: neq_Nil_conv)
  ultimately show ?thesis
    by (simp add: rounds_def r upt_conv_Cons map_Suc_upt [symmetric] comp_def del: upt_Suc)
qed

lemma drain_bag_rounds:
  assumes "bag_abs n qs (bag_buf b)" "channelsSize b = n" "calls b g" "ready qs = r" "Suc r * n < fuel"
  shows "\<exists>buf. drain_bag fuel b 0 w = Some (True, b\<lparr>bag_buf := buf\<rparr>, fold g (rounds 0 r qs) w)
    \<and> bag_abs n (map (drop r) qs) buf"
  using assms
proof (induction r arbitrary: qs b w fuel)
  case 0
  have ne: "qs \<noteq> []" "0 < n" "length qs = n" using bag_absD(1,2) [OF "0.prems"(1)] by auto
  then obtain q where "q \<in> set qs" "q = []" using ready_iff [of qs] "0.prems"(4) by auto
  then obtain j where "j < n" "qs ! j = []" using ne(3) by (metis in_set_conv_nth)
  then have "drain_bag fuel b 0 w = Some (True, b, w)"
    using drain_stop [OF "0.prems"(1,2)] "0.prems"(5) by simp
  then show ?case using "0.prems"(1) by (intro exI [of _ "bag_buf b"]) (simp add: rounds_def)
next
  case (Suc r)
  have ne: "qs \<noteq> []" "0 < n" "length qs = n" using bag_absD(1,2) [OF Suc.prems(1)] by auto
  then have full: "\<forall>q\<in>set qs. q \<noteq> []" using ready_iff [of qs] Suc.prems(4) by simp
  define b1 where "b1 = b\<lparr>bag_buf := (if length (drop n (bag_buf b)) = 0 then replicate n None else drop n (bag_buf b))\<rparr>"
  define f1 where "f1 = fuel - n"
  have f1: "fuel = f1 + (n - 0)" "Suc r * n < f1" using Suc.prems(5) by (simp_all add: f1_def)
  have "drain_bag fuel b 0 w = drain_bag f1 b1 0 (g (map (Some \<circ> hd) qs) w)"
    unfolding b1_def f1(1) by (rule drain_round [OF Suc.prems(1-3) full ne(2)])
  moreover have "bag_abs n (map tl qs) (bag_buf b1)" using bag_abs_row(2) [OF Suc.prems(1) full] by (simp add: b1_def)
  moreover have "channelsSize b1 = n" "calls b1 g" using Suc.prems(2,3) by (simp_all add: b1_def)
  moreover have "ready (map tl qs) = r" using ready_tl [OF ne(1)] Suc.prems(4) by simp
  ultimately obtain buf where "drain_bag fuel b 0 w
        = Some (True, b1\<lparr>bag_buf := buf\<rparr>, fold g (rounds 0 r (map tl qs)) (g (map (Some \<circ> hd) qs) w))"
      "bag_abs n (map (drop r) (map tl qs)) buf"
    using Suc.IH [of "map tl qs" b1 f1] f1(2) by metis
  then show ?case
    using rounds_tl [OF full, of "Suc r"] by (intro exI [of _ buf]) (simp add: b1_def comp_def drop_Suc)
qed

section \<open>Runs of a group\<close>

datatype group_op = Arrive nat "u8 list" | RunTask

fun group_run :: "nat \<Rightarrow> 'w bag \<Rightarrow> 'w \<Rightarrow> group_op list \<Rightarrow> ('w bag \<times> 'w) option" where
  "group_run fuel b w [] = Some (b, w)"
| "group_run fuel b w (Arrive i d # ops) =
     (case bag_put fuel (channelsSize b) (bag_buf b) i d of
        Some (Ended buf) \<Rightarrow> group_run fuel (b\<lparr>bag_buf := buf\<rparr>) w ops
      | _ \<Rightarrow> None)"
| "group_run fuel b w (RunTask # ops) =
     (case drain_bag fuel b 0 w of
        Some (True, b, w) \<Rightarrow> group_run fuel b w ops
      | _ \<Rightarrow> None)"

fun arrivals :: "group_op list \<Rightarrow> u8 list list list \<Rightarrow> u8 list list list" where
  "arrivals [] hs = hs"
| "arrivals (Arrive i d # ops) hs = arrivals ops (hs[i := hs ! i @ [d]])"
| "arrivals (RunTask # ops) hs = arrivals ops hs"

fun group_ops_ok :: "nat \<Rightarrow> group_op list \<Rightarrow> bool" where
  "group_ops_ok n [] = True"
| "group_ops_ok n (Arrive i d # ops) = (i < n \<and> group_ops_ok n ops)"
| "group_ops_ok n (RunTask # ops) = group_ops_ok n ops"

text \<open>\<open>k\<close> rounds of the histories \<open>hs\<close> have been handed over; the rest is in the buffer.\<close>

definition group_inv :: "'w bag \<Rightarrow> u8 list list list \<Rightarrow> nat \<Rightarrow> bool" where
  "group_inv b hs k \<longleftrightarrow> bag_abs (channelsSize b) (map (drop k) hs) (bag_buf b) \<and> (\<forall>h\<in>set hs. k \<le> length h)"

lemma ready_le: "h \<in> set hs \<Longrightarrow> ready hs \<le> length h"
  by (simp add: ready_def)

lemma ready_ge: "hs \<noteq> [] \<Longrightarrow> (\<forall>h\<in>set hs. k \<le> length h) \<Longrightarrow> k \<le> ready hs"
  by (simp add: ready_def)

lemma ready_drop:
  assumes "hs \<noteq> []" "\<forall>h\<in>set hs. k \<le> length h"
  shows "ready (map (drop k) hs) = ready hs - k"
proof -
  have "length ` set (map (drop k) hs) = (\<lambda>x. x - k) ` length ` set hs" by (auto simp: image_iff)
  moreover have "Min ((\<lambda>x. x - k) ` length ` set hs) = Min (length ` set hs) - k"
    by (rule mono_Min_commute [symmetric]) (use assms(1) in \<open>auto simp: mono_def\<close>)
  ultimately show ?thesis by (simp add: ready_def)
qed

lemma rounds_append: "k \<le> m \<Longrightarrow> m \<le> r \<Longrightarrow> rounds k r hs = rounds k m hs @ rounds m r hs"
proof -
  assume "k \<le> m" "m \<le> r"
  then have "[k..<r] = [k..<m] @ [m..<r]" by (metis le_add_diff_inverse upt_add_eq_append)
  then show ?thesis by (simp add: rounds_def)
qed

lemma rounds_drop: "\<forall>h\<in>set hs. k \<le> length h \<Longrightarrow> k \<le> r \<Longrightarrow> rounds 0 (r - k) (map (drop k) hs) = rounds k r hs"
proof -
  assume k: "\<forall>h\<in>set hs. k \<le> length h" and r: "k \<le> r"
  have "[k..<r] = map ((+) k) [0..<r - k]" by (intro nth_equalityI) (use r in auto)
  then show ?thesis using k by (simp add: rounds_def comp_def)
qed

lemma rounds_extend:
  assumes "i < length hs" "\<forall>h\<in>set hs. r \<le> length h"
  shows "rounds k r (hs[i := hs ! i @ [d]]) = rounds k r hs"
proof -
  have "map (\<lambda>q. Some (q ! j)) (hs[i := hs ! i @ [d]]) = map (\<lambda>q. Some (q ! j)) hs" if "j < r" for j
  proof -
    have "j < length (hs ! i)" using assms that by (meson nth_mem order_less_le_trans)
    then show ?thesis using assms(1) by (simp add: map_update nth_append list_update_same_conv)
  qed
  then show ?thesis by (simp add: rounds_def)
qed

lemma group_run_rounds:
  assumes "group_inv b hs k" "calls b g" "group_ops_ok (channelsSize b) ops"
    and "\<forall>h\<in>set hs. length h + length ops \<le> L" "(L + 2) * channelsSize b < fuel"
  shows "\<exists>b' k'. group_run fuel b w ops = Some (b', fold g (rounds k k' (arrivals ops hs)) w) \<and> k \<le> k'
    \<and> group_inv b' (arrivals ops hs) k' \<and> calls b' g \<and> channelsSize b' = channelsSize b"
  using assms
proof (induction ops arbitrary: b hs k w)
  case Nil
  then show ?case by (intro exI [of _ b] exI [of _ k]) (simp add: rounds_def)
next
  case (Cons x ops)
  let ?n = "channelsSize b"
  note A = bag_absD [OF Cons.prems(1) [unfolded group_inv_def, THEN conjunct1]]
  have n: "0 < ?n" "length hs = ?n" "hs \<noteq> []" using A(1,2) by auto
  have k: "\<forall>h\<in>set hs. k \<le> length h" using Cons.prems(1) by (simp add: group_inv_def)
  have L: "\<forall>h\<in>set hs. length h < L" using Cons.prems(4) by auto
  have "(L + 2) * 1 \<le> (L + 2) * ?n" using n(1) by (intro mult_le_mono2) simp
  then have Lf: "L + 2 < fuel" "(L + 2) * ?n < fuel" using Cons.prems(5) by simp_all
  show ?case
  proof (cases x)
    case (Arrive i d)
    have i: "i < ?n" using Cons.prems(3) Arrive by simp
    have hi: "hs ! i \<in> set hs" using i n(2) by simp
    have "length (map (drop k) hs ! i) - 0 < fuel" using L hi i n(2) Lf(1) by fastforce
    then obtain buf where buf: "bag_put fuel ?n (bag_buf b) i d = Some (Ended buf)"
      "bag_abs ?n ((map (drop k) hs)[i := map (drop k) hs ! i @ [d]]) buf"
      using bag_put_queue [of ?n "map (drop k) hs" "bag_buf b" i 0 fuel d] Cons.prems(1) i by (auto simp: group_inv_def)
    let ?hs = "hs[i := hs ! i @ [d]]" and ?b = "b\<lparr>bag_buf := buf\<rparr>"
    have "k \<le> length (hs ! i)" using k hi by blast
    then have "(map (drop k) hs)[i := map (drop k) hs ! i @ [d]] = map (drop k) ?hs"
      using i n(2) by (simp add: map_update)
    moreover have k': "\<forall>h\<in>set ?hs. k \<le> length h"
      using k hi by (auto dest!: set_update_subset_insert [THEN subsetD])
    ultimately have "group_inv ?b ?hs k" using buf(2) by (simp add: group_inv_def)
    moreover have "\<forall>h\<in>set ?hs. length h + length ops \<le> L"
      using Cons.prems(4) hi by (auto dest!: set_update_subset_insert [THEN subsetD])
    ultimately obtain b' k' where "group_run fuel ?b w ops = Some (b', fold g (rounds k k' (arrivals ops ?hs)) w)"
      "k \<le> k'" "group_inv b' (arrivals ops ?hs) k'" "calls b' g" "channelsSize b' = ?n"
      using Cons.IH [of ?b ?hs k w] Cons.prems(2,3,5) Arrive by auto
    then show ?thesis using buf(1) Arrive by auto
  next
    case RunTask
    let ?r = "ready hs"
    have r: "k \<le> ?r" "ready (map (drop k) hs) = ?r - k"
      using ready_ge [OF n(3) k] ready_drop [OF n(3) k] by auto
    have "?r < L" using L n(3) ready_le [of "hd hs" hs] by (meson hd_in_set le_less_trans)
    then have "Suc (?r - k) * ?n \<le> (L + 2) * ?n" by (intro mult_le_mono1) simp
    then have "Suc (?r - k) * ?n < fuel" using Lf(2) by simp
    then obtain buf where buf: "drain_bag fuel b 0 w = Some (True, b\<lparr>bag_buf := buf\<rparr>, fold g (rounds 0 (?r - k) (map (drop k) hs)) w)"
      "bag_abs ?n (map (drop (?r - k)) (map (drop k) hs)) buf"
      using drain_bag_rounds [OF Cons.prems(1) [unfolded group_inv_def, THEN conjunct1] refl Cons.prems(2) r(2), of fuel w]
      by blast
    let ?b = "b\<lparr>bag_buf := buf\<rparr>"
    have rl: "\<forall>h\<in>set hs. ?r \<le> length h" by (simp add: ready_le)
    have eq: "map (drop (?r - k)) (map (drop k) hs) = map (drop ?r) hs" using r(1) by simp
    have inv: "group_inv ?b hs ?r" using buf(2) [unfolded eq] rl by (simp add: group_inv_def)
    obtain b' k' where res: "group_run fuel ?b (fold g (rounds k ?r hs) w) ops
        = Some (b', fold g (rounds ?r k' (arrivals ops hs)) (fold g (rounds k ?r hs) w))"
      "?r \<le> k'" "group_inv b' (arrivals ops hs) k'" "calls b' g" "channelsSize b' = ?n"
      using Cons.IH [OF inv] Cons.prems(2-5) RunTask by fastforce
    have pre: "rounds k ?r (arrivals ops' hs') = rounds k ?r hs'"
      if "\<forall>h\<in>set hs'. ?r \<le> length h" "group_ops_ok (length hs') ops'" for ops' hs'
      using that
    proof (induction ops' hs' rule: arrivals.induct)
      case (2 i d ops hs')
      then have "hs' ! i \<in> set hs'" by simp
      then have "\<forall>h\<in>set (hs'[i := hs' ! i @ [d]]). ?r \<le> length h"
        using 2(2) by (auto dest!: set_update_subset_insert [THEN subsetD])
      then show ?case using 2 rounds_extend [of i hs' ?r k d] by simp
    qed simp_all
    have "rounds k k' (arrivals ops hs) = rounds k ?r hs @ rounds ?r k' (arrivals ops hs)"
      unfolding rounds_append [OF r(1) res(2), of "arrivals ops hs"]
      using pre [OF rl, of ops] Cons.prems(3) RunTask n(2) by simp
    then show ?thesis using res r(1) buf(1) rounds_drop [OF k r(1)] RunTask
      by (intro exI [of _ b'] exI [of _ k']) auto
  qed
qed


lemma arrivals_snoc_task: "arrivals (ops @ [RunTask]) hs = arrivals ops hs"
  by (induction ops hs rule: arrivals.induct) simp_all

lemma group_run_append:
  "group_run fuel b w (ops @ ops') = (case group_run fuel b w ops of None \<Rightarrow> None | Some (b, w) \<Rightarrow> group_run fuel b w ops')"
  by (induction fuel b w ops rule: group_run.induct) (simp_all split: option.splits ended.splits prod.splits bool.splits)

lemma arrivals_bound:
  "\<forall>h\<in>set hs. length h + length ops \<le> L \<Longrightarrow> group_ops_ok (length hs) ops \<Longrightarrow>
   length (arrivals ops hs) = length hs \<and> (\<forall>h\<in>set (arrivals ops hs). length h \<le> L)"
proof (induction ops hs rule: arrivals.induct)
  case (2 i d ops hs)
  then have "hs ! i \<in> set hs" by simp
  then have "\<forall>h\<in>set (hs[i := hs ! i @ [d]]). length h + length ops \<le> L"
    using 2(2) by (auto dest!: set_update_subset_insert [THEN subsetD])
  then show ?case using 2 by simp
next
  case (3 ops hs)
  then have "\<forall>h\<in>set hs. length h + length ops \<le> L" by auto
  with 3 show ?case by simp
qed auto

section \<open>The ring is drained in order\<close>

text \<open>
  A frame whose channel has a user's function that returns: its effect on the state is \<open>eff f\<close>, a function of the
  context decoded from the frame.
\<close>

definition serves :: "'w Serial \<Rightarrow> (u8 list \<Rightarrow> 'w \<Rightarrow> 'w) \<Rightarrow> u8 list \<Rightarrow> bool" where
  "serves s eff f \<longleftrightarrow> wf_frame f \<and> (\<exists>h. globalContextMQHandler s (frame_type f) = Some (Func h)
     \<and> (\<forall>ft d ex w. f = frame_bytes ft d ex \<and> length ex < 2 ^ 16 \<longrightarrow> h \<lparr>Request = d, ctx_ex = Some ex\<rparr> w = (True, eff f w)))"

lemma message_context_frame:
  assumes "wf_slice b" "elems b = frame_bytes ft d ex" "length ex < 2 ^ 16"
  shows "message_context b = Some (\<lparr>Request = d, ctx_ex = Some ex\<rparr>, ft)"
proof -
  obtain f x y where "DecodeByBytes b = Some f" "GetFrameType f = Some ft" "GetData f = Some x" "elems x = d"
    "GetExtend f = Some y" "elems y = ex"
    using frame_parts [OF assms(1-3)] by blast
  then show ?thesis by (simp add: message_context_def)
qed

lemma drain_ring_in_order:
  assumes "ring_holds (sr_ring s) fs" "list_all (serves s eff) fs" "length fs < fuel"
  shows "\<exists>r. drain_ring fuel s w = Some (TaskDone (s\<lparr>sr_ring := r\<rparr>) (fold eff fs w)) \<and> ring_holds r []
    \<and> length (ring r) = length (ring (sr_ring s))"
  using assms
proof (induction fs arbitrary: s w fuel)
  case Nil
  then obtain n where n: "fuel = Suc n" by (cases fuel) auto
  then show ?case using ring_fifo.read_empty [OF Nil.prems(1)] Nil.prems(1)
    by (intro exI [of _ "sr_ring s"]) simp
next
  case (Cons f fs)
  then obtain n where n: "fuel = Suc n" by (cases fuel) auto
  obtain b c r where b: "ReadFromRingBuffer (sr_ring s) = Some (Some b, c)" "wf_slice b" "elems b = f" "c \<noteq> 0"
    "SetAvailableCursor (sr_ring s) c = Some r" "ring_holds r fs" "length (ring r) = length (ring (sr_ring s))"
    using ring_fifo.read_head [OF Cons.prems(1)] by blast
  obtain h where f: "wf_frame f" "globalContextMQHandler s (frame_type f) = Some (Func h)"
    "\<And>ft d ex w. f = frame_bytes ft d ex \<Longrightarrow> length ex < 2 ^ 16 \<Longrightarrow> h \<lparr>Request = d, ctx_ex = Some ex\<rparr> w = (True, eff f w)"
    using Cons.prems(2) by (auto simp: serves_def)
  obtain ft d ex where fb: "f = frame_bytes ft d ex" "length ex < 2 ^ 16" "length d + length ex < 2 ^ 32 - 8"
    using f(1) by (auto simp: wf_frame_def)
  have ctx: "message_context b = Some (\<lparr>Request = d, ctx_ex = Some ex\<rparr>, ft)"
    by (rule message_context_frame [OF b(2) _ fb(2)]) (use b(3) fb(1) in simp)
  have "globalContextMQHandler s ft = Some (Func h)" using f(2) fb(1) by simp
  then have step: "drain_ring fuel s w = drain_ring n (s\<lparr>sr_ring := r\<rparr>) (eff f w)"
    using n b ctx f(3) [OF fb(1,2)] by (simp add: call_handler_def Let_def)
  have "serves (s\<lparr>sr_ring := r\<rparr>) eff = serves s eff" by (simp add: serves_def fun_eq_iff)
  then have "list_all (serves (s\<lparr>sr_ring := r\<rparr>) eff) fs" using Cons.prems(2) by simp
  then obtain r' where "drain_ring n (s\<lparr>sr_ring := r\<rparr>) (eff f w) = Some (TaskDone (s\<lparr>sr_ring := r'\<rparr>) (fold eff fs (eff f w)))"
    "ring_holds r' []" "length (ring r') = length (ring r)"
    using Cons.IH [of "s\<lparr>sr_ring := r\<rparr>" n "eff f w"] b(6) Cons.prems(3) n by auto
  then show ?case using step b(7) by auto
qed

lemma unsubscribe_bag_first:
  assumes "i \<le> length bs" "\<forall>j<i. bag_channels (heap ! (bs ! j)) \<noteq> u"
  shows "unsubscribe_bag heap u i bs =
    (case find (\<lambda>j. bag_channels (heap ! (bs ! j)) = u) [i..<length bs] of
       None \<Rightarrow> bs | Some j \<Rightarrow> take j bs @ drop (Suc j) bs)"
  using assms
proof (induction "length bs - i" arbitrary: i)
  case 0
  then show ?case by (simp add: unsubscribe_bag.simps [of heap u i bs])
next
  case (Suc k)
  then have i: "i < length bs" by simp
  then have upt: "[i..<length bs] = i # [Suc i..<length bs]" by (simp add: upt_conv_Cons)
  have eq: "Uint16Equal u (bag_channels (heap ! (bs ! i))) \<longleftrightarrow> bag_channels (heap ! (bs ! i)) = u"
    by (auto simp: Uint16Equal_def uint16_equal_loop_iff list_eq_iff_nth_eq)
  show ?case
  proof (cases "bag_channels (heap ! (bs ! i)) = u")
    case True
    then show ?thesis using i eq upt
      by (simp add: unsubscribe_bag.simps [of heap u i bs] Let_def gocopy_def)
  next
    case False
    then have "\<forall>j<i + 1. bag_channels (heap ! (bs ! j)) \<noteq> u" using Suc.prems(2) by (auto simp: less_Suc_eq)
    then show ?thesis using Suc.hyps(1) [of "i + 1"] Suc.hyps(2) i eq False upt
      by (simp add: unsubscribe_bag.simps [of heap u i bs])
  qed
qed

section \<open>A small serial\<close>

text \<open>A ring of 32 bytes holds two frames of channel 51, the second with an extension.\<close>

lemma ring_with_two: "\<exists>r. ring_holds r [frame_bytes 51 [1] [], frame_bytes 51 [2, 3] [5, 6]]"
proof -
  have min32: "minQuantity 32 = 32" by (simp add: minQuantity_def)
  let ?r = "SetState (InitRingBuffer ring0 32) StateWork"
  have r: "ring_holds ?r []" "length (ring ?r) = 32" "unat (askCursor ?r) = 0"
    using ring_fresh [of 32 ring0] by (simp_all add: min32 ring0_def SetState_def InitRingBuffer_def Let_def)
  have valid: "valid_msg (frame_bytes 51 [1] [])" "valid_msg (frame_bytes 51 [2, 3] [5, 6])"
    by (simp_all add: valid_msg_def frame_bytes_def)
  obtain r1 where "ring_holds r1 [frame_bytes 51 [1] []]" "length (ring r1) = 32" "unat (askCursor r1) = 9"
    using ring_fifo.write_room [OF r(1) valid(1)] r(2,3) by auto
  then show ?thesis using ring_fifo.write_room [OF _ valid(2), of r1 "[frame_bytes 51 [1] []]"] by auto
qed

definition log_handler :: "ContextMQ \<Rightarrow> u8 list list \<Rightarrow> bool \<times> u8 list list" where
  "log_handler c w = (True, w @ [Request c])"

definition log_serial :: "RingBuffer \<Rightarrow> u8 list list Serial" where
  "log_serial r = \<lparr>sr_ring = r, channelMap = {51}, sr_bags = [], bag_heap = [], globalContextMQHandler = [51 \<mapsto> Func log_handler]\<rparr>"

definition log_effect :: "u8 list \<Rightarrow> u8 list list \<Rightarrow> u8 list list" where
  "log_effect f w = (case message_context (of_list f) of Some (c, ft) \<Rightarrow> w @ [Request c] | None \<Rightarrow> w)"

lemma log_serves: "length ex < 100 \<Longrightarrow> length d < 100 \<Longrightarrow> serves (log_serial r) log_effect (frame_bytes 51 d ex)"
proof -
  assume l: "length ex < 100" "length d < 100"
  have eff: "log_effect (frame_bytes ft d ex) w = w @ [d]" if "length ex < 2 ^ 16" for ft d ex w
    using message_context_frame [of "of_list (frame_bytes ft d ex)" ft d ex] that by (simp add: log_effect_def)
  have "wf_frame (frame_bytes 51 d ex)"
    unfolding wf_frame_def by (intro exI [of _ 51] exI [of _ d] exI [of _ ex]) (use l in simp)
  moreover have "globalContextMQHandler (log_serial r) (frame_type (frame_bytes 51 d ex)) = Some (Func log_handler)"
    by (simp add: log_serial_def)
  moreover have "log_handler \<lparr>Request = d', ctx_ex = Some ex'\<rparr> w = (True, log_effect (frame_bytes 51 d ex) w)"
    if "frame_bytes 51 d ex = frame_bytes ft d' ex'" "length ex' < 2 ^ 16" for ft d' ex' w
    using eff [OF that(2)] that(1) by (simp add: log_handler_def)
  ultimately show ?thesis unfolding serves_def by blast
qed

section \<open>Properties\<close>

text \<open>
  C13: A group subscribed with \<open>SubscribeAll\<close> is a rendezvous: for every interleaving of arrivals on its
  channels and runs of the task, the group's function has been called, in order, with the first message
  of every channel, then with the second of every channel, and so on, each message once, as often as the
  slowest channel has messages. Loops and buffers never run out.
\<close>

theorem group_rendezvous:
  assumes "channelsSize b = n" "0 < n" "bag_buf b = replicate n None" "calls b g" "group_ops_ok n ops"
    and "(length ops + 3) * n < fuel"
  shows "\<exists>b'. group_run fuel b w (ops @ [RunTask])
      = Some (b', fold g (rounds 0 (ready (arrivals ops (replicate n []))) (arrivals ops (replicate n []))) w)"
proof -
  let ?h0 = "replicate n [] :: u8 list list list" and ?hs = "arrivals ops (replicate n [])"
  have inv: "group_inv b ?h0 0" using assms(1-3) bag_abs_fresh [OF assms(2)] by (simp add: group_inv_def)
  have bound: "\<forall>h\<in>set ?h0. length h + length ops \<le> length ops" by simp
  have okb: "group_ops_ok (channelsSize b) ops" using assms(1,5) by simp
  have "(length ops + 2) * n \<le> (length ops + 3) * n" by (intro mult_le_mono1) simp
  then have f1: "(length ops + 2) * channelsSize b < fuel" using assms(1,6) by simp
  obtain b1 k where r1: "group_run fuel b w ops = Some (b1, fold g (rounds 0 k ?hs) w)"
    "group_inv b1 ?hs k" "calls b1 g" "channelsSize b1 = n"
    using group_run_rounds [OF inv assms(4) okb bound f1, of w] assms(1) by auto
  have hs: "length ?hs = n" "\<forall>h\<in>set ?hs. length h \<le> length ops"
    using arrivals_bound [OF bound] assms(5) by auto
  then have ne: "?hs \<noteq> []" using assms(2) by auto
  have k: "\<forall>h\<in>set ?hs. k \<le> length h" using r1(2) by (simp add: group_inv_def)
  have kr: "k \<le> ready ?hs" using ready_ge [OF ne k] .
  have "ready ?hs \<le> length ops" using hs(2) ready_le ne by (meson hd_in_set le_trans)
  then have "Suc (ready ?hs - k) * n \<le> (length ops + 3) * n" by (intro mult_le_mono1) simp
  then have "Suc (ready ?hs - k) * n < fuel" using assms(6) by simp
  then obtain buf where "drain_bag fuel b1 0 (fold g (rounds 0 k ?hs) w)
      = Some (True, b1\<lparr>bag_buf := buf\<rparr>, fold g (rounds 0 (ready ?hs - k) (map (drop k) ?hs)) (fold g (rounds 0 k ?hs) w))"
    using drain_bag_rounds [of n "map (drop k) ?hs" b1 g "ready ?hs - k" fuel] r1 ready_drop [OF ne k]
    by (auto simp: group_inv_def)
  then show ?thesis
    using r1(1) rounds_drop [OF k kr] rounds_append [of 0 k "ready ?hs" ?hs] kr by (simp add: group_run_append)
qed

definition pair_bag :: "u8 list option list list bag" where
  "pair_bag = \<lparr>channelsSize = 2, bag_channels = [51, 52], bag_fs = \<lambda>cs reqs w. (True, w @ [reqs]), bag_buf = [None, None]\<rparr>"

lemma group_rendezvous_witness:
  "\<exists>b'. group_run 50 pair_bag [] [Arrive 0 [1], Arrive 0 [2], RunTask, Arrive 1 [3], RunTask] = Some (b', [[Some [1], Some [3]]])"
proof -
  have "\<exists>b'. group_run 50 pair_bag [] ([Arrive 0 [1], Arrive 0 [2], RunTask, Arrive 1 [3]] @ [RunTask])
    = Some (b', fold (\<lambda>reqs w. w @ [reqs]) (rounds 0 (ready (arrivals [Arrive 0 [1], Arrive 0 [2], RunTask, Arrive 1 [3]] (replicate 2 [])))
        (arrivals [Arrive 0 [1], Arrive 0 [2], RunTask, Arrive 1 [3]] (replicate 2 []))) [])"
    by (rule group_rendezvous) (simp_all add: pair_bag_def calls_def numeral_2_eq_2)
  then show ?thesis by (simp add: numeral_2_eq_2 ready_def rounds_def)
qed

text \<open>
  One run of the task handles every frame that is in the ring, in the order in which they were
  written, each once, with its own data and extension, and leaves the ring empty.
\<close>

theorem serial_in_order:
  assumes "ring_holds (sr_ring s) fs" "\<forall>f\<in>set fs. serves s eff f" "sr_bags s = []" "length fs < fuel"
  shows "\<exists>r. serial_assignmentTask fuel s w = Some (TaskDone (s\<lparr>sr_ring := r\<rparr>) (fold eff fs w)) \<and> ring_holds r []"
  using drain_ring_in_order [of s fs eff fuel w] assms by (auto simp: serial_assignmentTask_def list_all_iff)

lemma serial_in_order_witness:
  "\<exists>(s :: u8 list list Serial) r. serial_assignmentTask 9 s [] = Some (TaskDone (s\<lparr>sr_ring := r\<rparr>) [[1], [2, 3]])"
proof -
  obtain r where r: "ring_holds (sr_ring (log_serial r)) [frame_bytes 51 [1] [], frame_bytes 51 [2, 3] [5, 6]]"
    using ring_with_two by (auto simp: log_serial_def)
  have ctx: "log_effect (frame_bytes 51 [1] []) w = w @ [[1]]" "log_effect (frame_bytes 51 [2, 3] [5, 6]) w = w @ [[2, 3]]" for w
    using message_context_frame [of "of_list (frame_bytes 51 [1] [])" 51 "[1]" "[]"]
      message_context_frame [of "of_list (frame_bytes 51 [2, 3] [5, 6])" 51 "[2, 3]" "[5, 6]"] by (simp_all add: log_effect_def)
  have "\<exists>r'. serial_assignmentTask 9 (log_serial r) [] = Some (TaskDone ((log_serial r)\<lparr>sr_ring := r'\<rparr>)
      (fold log_effect [frame_bytes 51 [1] [], frame_bytes 51 [2, 3] [5, 6]] [])) \<and> ring_holds r' []"
    by (rule serial_in_order [OF r]) (simp_all add: log_serves, simp add: log_serial_def)
  then show ?thesis by (auto simp: ctx)
qed

text \<open>
  A message whose channel has no function, or whose function panics, ends \<open>Run\<close> for good: the panic is
  recovered outside the loop. The message stays in the ring, and the serial still counts as working, so the
  sessions go on writing to a ring that nobody reads.
\<close>

theorem panic_ends_serial:
  assumes "ring_holds (sr_ring s) (frame_bytes ft d ex # fs)" "length ex < 2 ^ 16"
    and "case globalContextMQHandler s ft of None \<Rightarrow> w' = w
         | Some (Func h) \<Rightarrow> h \<lparr>Request = d, ctx_ex = Some ex\<rparr> w = (False, w') | Some (BagFunc b i) \<Rightarrow> False"
    and "1 < fuel"
  shows "serial_turn fuel mid s w Tick = Some (Recovered s w') \<and> HasWork (sr_ring s)"
proof -
  obtain n where n: "fuel = Suc n" using assms(4) by (cases fuel) auto
  obtain b c where b: "ReadFromRingBuffer (sr_ring s) = Some (Some b, c)" "wf_slice b" "elems b = frame_bytes ft d ex" "c \<noteq> 0"
    using ring_fifo.read_head [OF assms(1)] by blast
  have "message_context b = Some (\<lparr>Request = d, ctx_ex = Some ex\<rparr>, ft)"
    by (rule message_context_frame [OF b(2,3) assms(2)])
  then have "drain_ring fuel s w = Some (TaskPanic s w')"
    using n b assms(3) by (auto simp: call_handler_def Let_def split: option.splits mq_handler.splits)
  then show ?thesis using assms(1) by (simp add: serial_assignmentTask_def ring_holds_def)
qed

lemma panic_ends_serial_witness:
  "\<exists>s :: u8 list list Serial. serial_turn 5 0 s [] Tick = Some (Recovered s []) \<and> HasWork (sr_ring s)"
proof -
  obtain r where r: "ring_holds r [frame_bytes 51 [1] [], frame_bytes 51 [2, 3] [5, 6]]" using ring_with_two by blast
  define s :: "u8 list list Serial" where
    "s = \<lparr>sr_ring = r, channelMap = {}, sr_bags = [], bag_heap = [], globalContextMQHandler = \<lambda>_. None\<rparr>"
  have "serial_turn 5 0 s [] Tick = Some (Recovered s []) \<and> HasWork (sr_ring s)"
    by (rule panic_ends_serial [of s 51 "[1]" "[]"]) (use r in \<open>simp_all add: s_def\<close>)
  then show ?thesis ..
qed

text \<open>
  \<open>SubscribeAll\<close> of no channels makes a group that panics: the next run of the task indexes its
  empty buffer and the loop ends.
\<close>

theorem empty_group_panics:
  assumes "ring_holds (sr_ring s) []" "sr_bags s = []" "0 < fuel"
  shows "\<exists>s' s''. SubscribeAll mid [] fs s = (s', []) \<and> serial_turn fuel mid s' w Tick = Some (Recovered s'' w)"
proof -
  obtain n where n: "fuel = Suc n" using assms(3) by (cases fuel) auto
  let ?b = "\<lparr>channelsSize = 0, bag_channels = [], bag_fs = fs, bag_buf = []\<rparr>"
  define s' where "s' = s\<lparr>bag_heap := bag_heap s @ [?b], sr_bags := [length (bag_heap s)]\<rparr>"
  have "SubscribeAll mid [] fs s = (s', [])" using assms(2) by (simp add: SubscribeAll_def s'_def)
  moreover have "ReadFromRingBuffer (sr_ring s') = Some (None, 0)"
    using ring_fifo.read_empty [OF assms(1)] by (simp add: s'_def)
  then have "\<exists>s''. serial_turn fuel mid s' w Tick = Some (Recovered s'' w)"
    using n by (simp add: serial_assignmentTask_def s'_def arr_get_def)
  ultimately show ?thesis by blast
qed

lemma empty_group_panics_witness:
  "\<exists>(s :: unit Serial) s' s''. SubscribeAll 0 [] (\<lambda>cs rs w. (True, w)) s = (s', []) \<and> serial_turn 1 0 s' () Tick = Some (Recovered s'' ())"
proof -
  let ?r = "SetState (InitRingBuffer ring0 16) StateWork"
  define s :: "unit Serial" where
    "s = \<lparr>sr_ring = ?r, channelMap = {}, sr_bags = [], bag_heap = [], globalContextMQHandler = \<lambda>_. None\<rparr>"
  have "ring_holds ?r []" using ring_fresh(1) [of 16 ring0] by (simp add: ring0_def)
  then have "\<exists>s' s''. SubscribeAll 0 [] (\<lambda>cs rs w. (True, w)) s = (s', []) \<and> serial_turn 1 0 s' () Tick = Some (Recovered s'' ())"
    by (intro empty_group_panics) (simp_all add: s_def)
  then show ?thesis by blast
qed

text \<open>
  A cancellation takes the first group with exactly these channels out of the list of groups, and only
  that one, and forgets its channels; the groups that stay keep their order and their buffers.
\<close>

theorem unsubscribe_removes_first:
  "sr_bags (unsubscribe_turn u s) =
     (case find (\<lambda>j. bag_channels (bag_heap s ! (sr_bags s ! j)) = u) [0..<length (sr_bags s)] of
        None \<Rightarrow> sr_bags s | Some j \<Rightarrow> take j (sr_bags s) @ drop (Suc j) (sr_bags s))
   \<and> channelMap (unsubscribe_turn u s) = channelMap s - set u \<and> bag_heap (unsubscribe_turn u s) = bag_heap s"
  using unsubscribe_bag_first [of 0 "sr_bags s" "bag_heap s" u] by (auto simp: unsubscribe_turn_def)

end
