(* ===== verification/ClusterSpec.thy ===== *)
theory ClusterSpec
  imports Cluster
begin

text \<open>
  What the tables of \<open>sidecar/cluster.go\<close> promise: fair choice in a bucket, the behaviour of
  \<open>AskOne\<close> and \<open>AskAll\<close>, the invariant of \<open>Run\<close>, and the codecs of keys and values.
\<close>

section \<open>Fair choice\<close>

definition cursor_at :: "channel_bucket \<Rightarrow> nat \<Rightarrow> bool" where
  "cursor_at b c \<longleftrightarrow> c < length (sets b) \<and> length (sets b) < 2 ^ 32
     \<and> cursorAndLenght b = setCursorAndLenght (of_nat c) (of_nat (length (sets b)))"

lemma bucket_ok_cursor: "bucket_ok b \<longleftrightarrow> (\<exists>c. cursor_at b c)"
proof
  assume "bucket_ok b"
  then obtain c where "unat c < length (sets b)" "length (sets b) < 2 ^ 32"
    "cursorAndLenght b = setCursorAndLenght c (of_nat (length (sets b)))" by (auto simp: bucket_ok_def)
  then have "cursor_at b (unat c)" by (simp add: cursor_at_def)
  then show "\<exists>c. cursor_at b c" ..
next
  assume "\<exists>c. cursor_at b c"
  then obtain c where c: "cursor_at b c" ..
  then have "unat (of_nat c :: u32) = c" by (intro unat_of_nat_small) (auto simp: cursor_at_def)
  with c show "bucket_ok b"
    unfolding bucket_ok_def cursor_at_def by (intro conjI exI [of _ "of_nat c :: u32"]) auto
qed

text \<open>The members in the order in which they are chosen.\<close>

definition order_from :: "'a list \<Rightarrow> nat \<Rightarrow> nat \<Rightarrow> 'a list" where
  "order_from xs c n = map (\<lambda>k. xs ! ((c + k) mod length xs)) [0..<n]"

lemma order_from_simps [simp]:
  "order_from xs c 0 = []"
  "order_from xs c (Suc n) = xs ! (c mod length xs) # order_from xs (Suc c) n"
  by (simp_all add: order_from_def upt_conv_Cons map_Suc_upt [symmetric] comp_def del: upt_Suc)

lemma order_from_mod: "order_from xs (c mod length xs) n = order_from xs c n"
  by (simp add: order_from_def mod_simps)

lemma order_from_set: "0 < length xs \<Longrightarrow> length xs \<le> n \<Longrightarrow> set (order_from xs c n) = set xs"
proof
  assume l: "0 < length xs" "length xs \<le> n"
  show "set (order_from xs c n) \<subseteq> set xs" using l by (auto simp: order_from_def)
  show "set xs \<subseteq> set (order_from xs c n)"
  proof
    fix x assume "x \<in> set xs"
    then obtain j where j: "x = xs ! j" "j < length xs" by (metis in_set_conv_nth)
    let ?k = "(j + length xs - c mod length xs) mod length xs"
    have "c mod length xs < length xs" using l by simp
    then have "(c + ?k) mod length xs = j"
      using j(2) by (metis (no_types, lifting) add.commute add_diff_inverse_nat le_add2 less_imp_le_nat linorder_not_less
          mod_add_left_eq mod_add_right_eq mod_add_self2 mod_less trans_less_add2)
    moreover have "?k < n" using l by (meson mod_less_divisor order_less_le_trans)
    ultimately show "x \<in> set (order_from xs c n)" using j(1) by (force simp: order_from_def)
  qed
qed

lemma cursor_next:
  assumes "cursor_at b c"
  shows "\<exists>b'. bucket_next b = Some ((sets b ! (Suc c mod length (sets b)), of_nat (length (sets b))), b')
    \<and> cursor_at b' (Suc c mod length (sets b)) \<and> sets b' = sets b"
proof -
  have n: "c < length (sets b)" "length (sets b) < 2 ^ 32" using assms by (auto simp: cursor_at_def)
  moreover have "Suc c mod length (sets b) < length (sets b)" using n by (intro mod_less_divisor) linarith
  ultimately show ?thesis
    using bucket_next_cursor [OF refl n(2,1)] assms by (simp add: cursor_at_def)
qed

fun take_next :: "nat \<Rightarrow> channel_bucket \<Rightarrow> u16 list option" where
  "take_next 0 b = Some []"
| "take_next (Suc n) b = do { ((i, l), b) \<leftarrow> bucket_next b; is \<leftarrow> take_next n b; Some (i # is) }"

lemma take_next_order: "cursor_at b c \<Longrightarrow> take_next n b = Some (order_from (sets b) (Suc c) n)"
proof (induction n arbitrary: b c)
  case (Suc n)
  obtain b' where b': "bucket_next b = Some ((sets b ! (Suc c mod length (sets b)), of_nat (length (sets b))), b')"
    "cursor_at b' (Suc c mod length (sets b))" "sets b' = sets b"
    using cursor_next [OF Suc.prems] by blast
  have "order_from (sets b) (Suc (Suc c mod length (sets b))) n = order_from (sets b) (Suc (Suc c)) n"
    using order_from_mod [of "sets b" "Suc (Suc c mod length (sets b))" n] order_from_mod [of "sets b" "Suc (Suc c)" n]
    by (simp add: mod_Suc_eq)
  then show ?case using b' Suc.IH [OF b'(2)] by simp
qed simp

section \<open>The three ways to send\<close>

text \<open>The first session of a list of ids that takes the frame; the others have refused or are absent.\<close>

fun first_accepting ::
  "('s, 'w) write_frame \<Rightarrow> 's option list \<Rightarrow> FrameSlice \<Rightarrow> (transport_error \<Rightarrow> 'w \<Rightarrow> 'w) \<Rightarrow> u16 list \<Rightarrow> 'w \<Rightarrow> 'w option" where
  "first_accepting wr ss fs e [] w = None"
| "first_accepting wr ss fs e (i # is) w =
     (case ss ! unat i of
        None \<Rightarrow> first_accepting wr ss fs e is w
      | Some m \<Rightarrow> (let (err, w') = wr m fs e w in if err = None then Some w' else first_accepting wr ss fs e is w'))"

lemma ask_loop_order:
  assumes "cursor_at b c" "\<forall>i\<in>set (sets b). unat i < length ss"
  shows "case first_accepting wr ss fs (errFunc \<circ> SendFailed) (order_from (sets b) (Suc c) n) w of
      None \<Rightarrow> ask_loop n wr ss b ch fs errFunc w = None
    | Some w' \<Rightarrow> \<exists>b'. ask_loop n wr ss b ch fs errFunc w = Some (Ended (b', w')) \<and> sets b' = sets b \<and> bucket_ok b'"
  using assms
proof (induction n arbitrary: b c w)
  case (Suc n)
  let ?i = "sets b ! (Suc c mod length (sets b))"
  obtain b' where b': "bucket_next b = Some ((?i, of_nat (length (sets b))), b')"
    "cursor_at b' (Suc c mod length (sets b))" "sets b' = sets b"
    using cursor_next [OF Suc.prems(1)] by blast
  have l: "0 < length (sets b)" "length (sets b) < 2 ^ 32" using Suc.prems(1) by (auto simp: cursor_at_def)
  then have "?i \<in> set (sets b)" by simp
  then have get: "arr_get ss (unat ?i) = Some (ss ! unat ?i)" using Suc.prems(2) by (simp add: arr_get_def)
  have "unat (of_nat (length (sets b)) :: u32) = length (sets b)" using l by (simp add: unat_of_nat_small)
  then have cnt: "\<not> (0 + 1 :: u32) > of_nat (length (sets b))" using l by (simp add: word_less_nat_alt Suc_le_eq)
  have "order_from (sets b) (Suc (Suc c mod length (sets b))) n = order_from (sets b) (Suc (Suc c)) n"
    using order_from_mod [of "sets b" "Suc (Suc c mod length (sets b))" n] order_from_mod [of "sets b" "Suc (Suc c)" n]
    by (simp add: mod_Suc_eq)
  note IH = Suc.IH [OF b'(2), unfolded b'(3), OF Suc.prems(2), unfolded this]
  have ok: "bucket_ok b'" using b'(2) bucket_ok_cursor by blast
  show ?case
  proof (cases "ss ! unat ?i")
    case None
    then have "ask_loop (Suc n) wr ss b ch fs errFunc w = ask_loop n wr ss b' ch fs errFunc w"
      "first_accepting wr ss fs (errFunc \<circ> SendFailed) (order_from (sets b) (Suc c) (Suc n)) w =
       first_accepting wr ss fs (errFunc \<circ> SendFailed) (order_from (sets b) (Suc (Suc c)) n) w"
      using b'(1) get cnt by (simp_all add: Let_def)
    then show ?thesis using IH [of w] by (simp only:)
  next
    case (Some m)
    obtain err w' where wr: "wr m fs (errFunc \<circ> SendFailed) w = (err, w')" by (metis surj_pair)
    show ?thesis
    proof (cases err)
      case None
      then have "ask_loop (Suc n) wr ss b ch fs errFunc w = Some (Ended (b', w'))"
        "first_accepting wr ss fs (errFunc \<circ> SendFailed) (order_from (sets b) (Suc c) (Suc n)) w = Some w'"
        using Some b'(1) get wr by (simp_all add: Let_def)
      then show ?thesis using b'(3) ok by (simp only: option.simps) blast
    next
      case (Some e)
      then have "ask_loop (Suc n) wr ss b ch fs errFunc w = ask_loop n wr ss b' ch fs errFunc w'"
        "first_accepting wr ss fs (errFunc \<circ> SendFailed) (order_from (sets b) (Suc c) (Suc n)) w =
         first_accepting wr ss fs (errFunc \<circ> SendFailed) (order_from (sets b) (Suc (Suc c)) n) w'"
        using b'(1) get cnt wr \<open>ss ! unat ?i = Some m\<close> by (simp_all add: Let_def)
      then show ?thesis using IH [of w'] by (simp only:)
    qed
  qed
qed simp

lemma first_accepting_exists:
  assumes "i \<in> set is" "ss ! unat i = Some m" "\<And>w. fst (wr m fs e w) = None"
  shows "\<exists>w'. first_accepting wr ss fs e is w = Some w'"
  using assms(1)
proof (induction "is" arbitrary: w)
  case (Cons j js)
  show ?case
  proof (cases "j = i")
    case True
    moreover obtain w' where "wr m fs e w = (None, w')" using assms(3) [of w] by (metis prod.collapse)
    ultimately show ?thesis using assms(2) by (simp add: Let_def)
  next
    case False
    then have "\<exists>w'. first_accepting wr ss fs e js w = Some w'" for w using Cons by simp
    then show ?thesis by (auto simp: Let_def split: option.splits prod.splits)
  qed
qed simp

lemma first_accepting_none:
  assumes "\<And>i m w. i \<in> set is \<Longrightarrow> ss ! unat i = Some m \<Longrightarrow> fst (wr m fs e w) \<noteq> None"
  shows "first_accepting wr ss fs e is w = None"
  using assms
proof (induction "is" arbitrary: w)
  case (Cons j js)
  have IH: "first_accepting wr ss fs e js w = None" for w
    by (rule Cons.IH) (meson Cons.prems list.set_intros(2))
  show ?case
  proof (cases "ss ! unat j")
    case (Some m)
    then have "fst (wr m fs e w) \<noteq> None" using Cons.prems [of j m w] by simp
    then obtain err w' where "wr m fs e w = (Some err, w')" by (metis not_None_eq prod.collapse)
    then show ?thesis using Some IH by (simp add: Let_def)
  qed (simp add: IH)
qed simp


section \<open>Members of a channel\<close>

definition members :: "'s cluster \<Rightarrow> u16 \<Rightarrow> u16 list" where
  "members c ch = (case cl_channels c ch of None \<Rightarrow> [] | Some b \<Rightarrow> sets b)"

definition buckets_ok :: "nat \<Rightarrow> (u16 \<Rightarrow> channel_bucket option) \<Rightarrow> bool" where
  "buckets_ok n t \<longleftrightarrow> (\<forall>ch b. t ch = Some b \<longrightarrow> bucket_ok b \<and> length (sets b) \<le> n)"

lemma first_bucket: "newBucket\<lparr>sets := [i], cursorAndLenght := setCursorAndLenght 0 1\<rparr> = bucket_add newBucket [] i"
  by (simp add: bucket_add_def newBucket_def)

lemma channel_turn_add:
  "cm_operation cc = 1 \<Longrightarrow> channel_turn c cc = (c\<lparr>cl_channels := (cl_channels c)(cm_channel cc \<mapsto>
     bucket_add newBucket (members c (cm_channel cc)) (cm_id cc))\<rparr>, [])"
  by (auto simp: channel_turn_def Let_def first_bucket members_def split: option.splits)

lemma channel_turn_remove:
  assumes "cm_operation cc = 2" "buckets_ok n (cl_channels c)" "n < 2 ^ 32"
  shows "\<exists>t. channel_turn c cc = (c\<lparr>cl_channels := t\<rparr>, []) \<and> buckets_ok n t
    \<and> members (c\<lparr>cl_channels := t\<rparr>) (cm_channel cc) = remove1 (cm_id cc) (members c (cm_channel cc))
    \<and> (\<forall>ch. ch \<noteq> cm_channel cc \<longrightarrow> t ch = cl_channels c ch)"
proof (cases "cl_channels c (cm_channel cc)")
  case None
  then show ?thesis using assms by (intro exI [of _ "cl_channels c"]) (simp add: channel_turn_def members_def)
next
  case (Some v)
  let ?nb = "bucket_remove newBucket (sets v) (cm_id cc)" and ?s = "remove1 (cm_id cc) (sets v)"
  have small: "length (sets v) \<le> n" using assms(2) Some by (simp add: buckets_ok_def)
  then have len: "length ?s \<le> n" using length_remove1 [of "cm_id cc" "sets v"] by (simp split: if_splits)
  have nb: "sets ?nb = ?s" "cursorAndLenght ?nb = setCursorAndLenght 0 (of_nat (length ?s))"
    by (simp_all add: bucket_remove_newBucket bucket_remove_cursor)
  have zero: "cursorAndLenght ?nb = 0 \<longleftrightarrow> ?s = []"
    using len assms(3) by (simp add: nb(2) setCursor_eq_0 del: length_remove1)
  show ?thesis
  proof (cases "?s = []")
    case True
    then show ?thesis using assms Some zero nb
      by (intro exI [of _ "(cl_channels c)(cm_channel cc := None)"])
        (auto simp: channel_turn_def members_def buckets_ok_def Let_def)
  next
    case False
    then have "bucket_ok ?nb"
      unfolding bucket_ok_def using nb len assms(3) by (intro conjI exI [of _ "0 :: u32"]) auto
    then show ?thesis using False assms Some zero nb len
      by (intro exI [of _ "(cl_channels c)(cm_channel cc \<mapsto> ?nb)"])
        (auto simp: channel_turn_def members_def buckets_ok_def Let_def)
  qed
qed

lemma buckets_ok_add:
  "buckets_ok n t \<Longrightarrow> length bas \<le> n \<Longrightarrow> Suc n < 2 ^ 32 \<Longrightarrow> buckets_ok (Suc n) (t(ch \<mapsto> bucket_add newBucket bas i))"
  by (auto simp: buckets_ok_def bucket_add_newBucket le_SucI intro!: bucket_add_ok)

lemma members_le: "buckets_ok n (cl_channels c) \<Longrightarrow> length (members c ch) \<le> n"
  by (auto simp: members_def buckets_ok_def split: option.splits)

section \<open>The invariant of \<open>Run\<close>\<close>

text \<open>The counter bounds the number of messages handled, so that a length fits 32 bits.\<close>

definition cluster_inv :: "nat \<times> 's cluster \<Rightarrow> bool" where
  "cluster_inv s \<longleftrightarrow> length (cl_sessions (snd s)) = 1024 \<and> buckets_ok (fst s) (cl_channels (snd s))"

definition cluster_start :: "nat \<times> 's cluster \<Rightarrow> bool" where
  "cluster_start s \<longleftrightarrow> (\<exists>cl c. length cl = fst s \<and> length cl < 2 ^ 32 \<and> length (cl_sessions c) = 1024
     \<and> cl_channels c = (\<lambda>_. None) \<and> initStateAndChannels (Some cl) [] [] c = Some (None, snd s))"

inductive cluster_trans :: "nat \<times> 's cluster \<Rightarrow> nat \<times> 's cluster \<Rightarrow> bool" where
  "cluster_step c m = Some (c', es, stop) \<Longrightarrow> Suc n < 2 ^ 32 \<Longrightarrow> cluster_trans (n, c) (Suc n, c')"

inductive_cases cluster_transE: "cluster_trans s t"

lemma init_bucket_add:
  "init_bucket t i ch = t(ch \<mapsto> bucket_add newBucket (case t ch of None \<Rightarrow> [] | Some b \<Rightarrow> sets b) i)"
  by (auto simp: init_bucket_def first_bucket Let_def bucket_add_def newBucket_def split: option.splits)

lemma init_channels_ok:
  "init_channels cl t = Some t' \<Longrightarrow> buckets_ok n t \<Longrightarrow> n + length cl < 2 ^ 32 \<Longrightarrow> buckets_ok (n + length cl) t'"
proof (induction cl arbitrary: t n)
  case (Cons v cl)
  then obtain i ch where step: "init_channels cl (init_bucket t i ch) = Some t'"
    by (auto split: bind_splits)
  have "length (case t ch of None \<Rightarrow> [] | Some b \<Rightarrow> sets b) \<le> n"
    using Cons.prems(2) by (auto simp: buckets_ok_def split: option.splits)
  then have "buckets_ok (Suc n) (init_bucket t i ch)"
    using Cons.prems(2,3) by (simp add: init_bucket_add buckets_ok_add)
  from Cons.IH [OF step this] show ?case using Cons.prems(3) by simp
qed simp

lemma buckets_ok_Suc: "buckets_ok n t \<Longrightarrow> buckets_ok (Suc n) t"
  by (auto simp: buckets_ok_def le_SucI)

lemma channel_turn_ok:
  assumes "buckets_ok n (cl_channels c)" "Suc n < 2 ^ 32" "channel_turn c cc = (c', es)"
  shows "buckets_ok (Suc n) (cl_channels c') \<and> cl_sessions c' = cl_sessions c"
proof -
  consider "cm_operation cc = 1" | "cm_operation cc = 2" | "cm_operation cc \<noteq> 1" "cm_operation cc \<noteq> 2" by blast
  then show ?thesis
  proof cases
    case 1
    then show ?thesis
      using assms members_le [OF assms(1)] by (auto simp: channel_turn_add intro!: buckets_ok_add)
  next
    case 2
    then show ?thesis using channel_turn_remove [OF 2 assms(1)] assms(2,3) by (auto intro: buckets_ok_Suc)
  next
    case 3
    then show ?thesis using assms by (auto simp: channel_turn_def intro: buckets_ok_Suc split: if_splits)
  qed
qed

lemma state_turn_ok:
  "state_turn c sc = Some (c', es, st) \<Longrightarrow> cl_channels c' = cl_channels c \<and> length (cl_sessions c') = length (cl_sessions c)"
  by (auto simp: state_turn_def Let_def split: if_splits option.splits)

lemma node_turn_ok:
  "node_turn c nc = Some (c', es) \<Longrightarrow> cl_channels c' = cl_channels c \<and> length (cl_sessions c') = length (cl_sessions c)"
  by (auto simp: node_turn_def arr_set_def split: if_splits option.splits)

interpretation cl: step_invariant cluster_start cluster_trans cluster_inv
proof
  fix s :: "nat \<times> 's cluster"
  assume "cluster_start s"
  then obtain cl c where c: "length cl = fst s" "length cl < 2 ^ 32" "length (cl_sessions c) = 1024"
     "cl_channels c = (\<lambda>_. None)" "initStateAndChannels (Some cl) [] [] c = Some (None, snd s)"
    by (auto simp: cluster_start_def)
  then obtain t where "init_channels cl (\<lambda>_. None) = Some t" "snd s = c\<lparr>cl_channels := t\<rparr>"
    by (auto simp: initStateAndChannels_def split: bind_splits)
  then show "cluster_inv s"
    using init_channels_ok [of cl "\<lambda>_. None" t 0] c by (simp add: cluster_inv_def buckets_ok_def)
next
  fix s t :: "nat \<times> 's cluster"
  assume i: "cluster_inv s" and t: "cluster_trans s t"
  from t obtain c m c' es st n where s: "cluster_step c m = Some (c', es, st)" "Suc n < 2 ^ 32" "s = (n, c)" "t = (Suc n, c')"
    by (auto elim: cluster_transE)
  show "cluster_inv t"
  proof (cases m)
    case (ChannelMsg cc)
    then obtain es' where "channel_turn c cc = (c', es')" using s(1) by (auto split: prod.splits)
    then show ?thesis using channel_turn_ok [of n c cc c' es'] i s by (simp add: cluster_inv_def)
  next
    case (StateMsg sc)
    then show ?thesis using state_turn_ok [of c sc c' es st] i s by (simp add: cluster_inv_def buckets_ok_Suc)
  next
    case (NodeMsg nc)
    then obtain es' where "node_turn c nc = Some (c', es')" using s(1) by (auto split: bind_splits)
    then show ?thesis using node_turn_ok [of c nc c' es'] i s by (simp add: cluster_inv_def buckets_ok_Suc)
  qed
qed


section \<open>Codecs of keys and values\<close>

lemma length_ascii [simp]: "length (ascii s) = length s"
  by (simp add: ascii_def)

lemma channelValue_bytes: "channelValue i ch = bytes16 i @ bytes16 ch"
  by (simp add: channelValue_def overwrite_def)

lemma channelKey_bytes: "channelKey i ch = ascii ''channel/'' @ bytes16 ch @ ascii ''/'' @ bytes16 i"
  by (simp add: channelKey_def channelValue_bytes overwrite_def ascii_def Let_def)

lemma stateKey_bytes: "stateKey i = ascii ''state/'' @ bytes16 i"
  by (simp add: stateKey_def overwrite_def ascii_def Let_def)

lemma stateValue_bytes: "stateValue i st = bytes16 i @ bytes32 st @ [0, 0]"
  by (simp add: stateValue_def overwrite_def eval_nat_numeral)

lemma read16:
  assumes "bs = p @ bytes16 n @ q" "lo = int (length p)" "hi = lo + 2"
  shows "reslice (of_list bs) lo hi = Some (Slice (bytes16 n @ q) 2)" "BytesToUint16 (Slice (bytes16 n @ q) 2) = Some n"
  using assms by (auto simp: reslice_def codec_simps wf_slice_def elems_def)

lemma read32:
  assumes "bs = p @ bytes32 n @ q" "lo = int (length p)" "hi = lo + 4"
  shows "reslice (of_list bs) lo hi = Some (Slice (bytes32 n @ q) 4)" "BytesToUint32 (Slice (bytes32 n @ q) 4) = Some n"
  using assms by (auto simp: reslice_def codec_simps wf_slice_def elems_def)

lemma key_value_decode:
  "keyTOChannelMsg (channelKey i ch) = Some \<lparr>cm_id = i, cm_channel = ch, cm_operation = 0\<rparr>"
  "valueTOChannelMsg (channelValue i ch) = Some \<lparr>cm_id = i, cm_channel = ch, cm_operation = 0\<rparr>"
  "bytesTOStateMsg (stateValue i st) = Some \<lparr>sm_id = i, sm_state = st, sm_operation = 0\<rparr>"
  "getNodeID (p @ bytes16 i) = Some i"
proof -
  have "reslice (of_list (channelKey i ch)) 8 10 = Some (Slice (bytes16 ch @ ascii ''/'' @ bytes16 i) 2)"
    "reslice (of_list (channelKey i ch)) 11 13 = Some (Slice (bytes16 i @ []) 2)"
    by (rule read16 [of _ "ascii ''channel/''"]; simp add: channelKey_bytes)
      (rule read16 [of _ "ascii ''channel/'' @ bytes16 ch @ ascii ''/''"]; simp add: channelKey_bytes)
  then show "keyTOChannelMsg (channelKey i ch) = Some \<lparr>cm_id = i, cm_channel = ch, cm_operation = 0\<rparr>"
    using read16(2) [OF refl refl refl, of ch "ascii ''/'' @ bytes16 i"] read16(2) [OF refl refl refl, of i "[]"]
    by (simp add: keyTOChannelMsg_def channelKey_bytes)
  have "reslice (of_list (channelValue i ch)) 0 2 = Some (Slice (bytes16 i @ bytes16 ch) 2)"
    "reslice (of_list (channelValue i ch)) 2 4 = Some (Slice (bytes16 ch @ []) 2)"
    by (rule read16 [of _ "[]"]; simp add: channelValue_bytes)
      (rule read16 [of _ "bytes16 i"]; simp add: channelValue_bytes)
  then show "valueTOChannelMsg (channelValue i ch) = Some \<lparr>cm_id = i, cm_channel = ch, cm_operation = 0\<rparr>"
    using read16(2) [OF refl refl refl, of i "bytes16 ch"] read16(2) [OF refl refl refl, of ch "[]"]
    by (simp add: valueTOChannelMsg_def)
  have "reslice (of_list (stateValue i st)) 0 2 = Some (Slice (bytes16 i @ bytes32 st @ [0, 0]) 2)"
    by (rule read16 [of _ "[]"]; simp add: stateValue_bytes)
  moreover have "reslice (of_list (stateValue i st)) 2 6 = Some (Slice (bytes32 st @ [0, 0]) 4)"
    by (rule read32 [of _ "bytes16 i"]; simp add: stateValue_bytes)
  ultimately show "bytesTOStateMsg (stateValue i st) = Some \<lparr>sm_id = i, sm_state = st, sm_operation = 0\<rparr>"
    using read16(2) [OF refl refl refl, of i "bytes32 st @ [0, 0]"] read32(2) [OF refl refl refl, of st "[0, 0]"]
    by (simp add: bytesTOStateMsg_def)
  show "getNodeID (p @ bytes16 i) = Some i"
    using read16 [of "p @ bytes16 i" p i "[]" "int (length p)" "2 + int (length p)"] by (simp add: getNodeID_def)
qed

section \<open>Properties\<close>

text \<open>
  C33: \<open>next\<close> is a fair round robin: on a bucket as \<open>add\<close> builds it, \<open>n\<close> calls return the members
  in order from the second one on, around the end; in particular every member is chosen in any
  run of as many calls as there are members.
\<close>

theorem next_round_robin:
  assumes "length bas + 1 < 2 ^ 32"
  shows "take_next n (bucket_add newBucket bas i) = Some (map (\<lambda>k. (bas @ [i]) ! (Suc k mod Suc (length bas))) [0..<n])
    \<and> (length bas < n \<longrightarrow> (\<exists>is. take_next n (bucket_add newBucket bas i) = Some is \<and> set is = set (bas @ [i])))"
proof -
  have c: "cursor_at (bucket_add newBucket bas i) 0"
    using assms by (simp add: cursor_at_def bucket_add_def newBucket_def Let_def)
  have "length (bas @ [i]) \<le> n" if "length bas < n" using that by simp
  then show ?thesis
    using take_next_order [OF c, of n] order_from_set [of "bas @ [i]" n "Suc 0"]
    by (simp add: bucket_add_newBucket) (simp add: order_from_def)
qed

lemma next_round_robin_witness:
  "take_next 4 (bucket_add newBucket [3, 5] 9) = Some [5, 9, 3, 5]"
proof -
  have "[0..<4] = [0, 1, 2, 3]" by (simp add: upt_rec)
  then show ?thesis using next_round_robin [of "[3, 5]" 4 9] by simp
qed

text \<open>
  C15: \<open>AskOne\<close> tries the members of a channel in round-robin order from the one after the last
  choice and hands the frame to the first session that takes it; the others have only refused it.
  If one member has a session that takes frames, as many turns as there are members are enough.
\<close>

theorem AskOne_delivers:
  assumes "cl_channels c ch = Some b" "cursor_at b p" "\<forall>i\<in>set (sets b). unat i < length (cl_sessions c)"
    and "i \<in> set (sets b)" "cl_sessions c ! unat i = Some m"
    and "\<forall>w. fst (wr m fs (errFunc \<circ> SendFailed) w) = None"
  shows "\<exists>c' w'. AskOne (length (sets b)) wr c ch fs errFunc w = Some (Ended (c', w'))
    \<and> first_accepting wr (cl_sessions c) fs (errFunc \<circ> SendFailed) (order_from (sets b) (Suc p) (length (sets b))) w = Some w'
    \<and> members c' ch = sets b"
proof -
  have "0 < length (sets b)" using assms(2) by (auto simp: cursor_at_def)
  then have "i \<in> set (order_from (sets b) (Suc p) (length (sets b)))" using assms(4) by (simp add: order_from_set)
  then obtain w' where w': "first_accepting wr (cl_sessions c) fs (errFunc \<circ> SendFailed) (order_from (sets b) (Suc p) (length (sets b))) w = Some w'"
    using first_accepting_exists [where e = "errFunc \<circ> SendFailed" and wr = wr and fs = fs, OF _ assms(5)] assms(6) by metis
  then obtain b' where "ask_loop (length (sets b)) wr (cl_sessions c) b ch fs errFunc w = Some (Ended (b', w'))" "sets b' = sets b"
    using ask_loop_order [OF assms(2,3), where wr = wr and fs = fs and errFunc = errFunc and n = "length (sets b)" and w = w and ch = ch]
    by (simp only: option.simps) blast
  then show ?thesis using w' assms(1) by (simp add: AskOne_def members_def)
qed

lemma AskOne_delivers_witness:
  "\<exists>c' w'. AskOne (length [2, 3 :: u16]) (\<lambda>m fs e w. if m = (1::nat) then (Some ErrConnClose, w) else (None, w @ [m]))
       \<lparr>cl_sessions = [None, None, Some 1, Some 4], cl_channels = [7 \<mapsto> bucket_add newBucket [2] 3], machineID = 0, cl_state = 2\<rparr>
       7 FramePing (\<lambda>e w. w) [] = Some (Ended (c', w'))"
proof -
  have c: "cursor_at (bucket_add newBucket [2] 3) 0" by (simp add: cursor_at_def bucket_add_def newBucket_def)
  show ?thesis
    using AskOne_delivers [where c = "\<lparr>cl_sessions = [None, None, Some 1, Some 4], cl_channels = [7 \<mapsto> bucket_add newBucket [2] 3], machineID = 0, cl_state = 2\<rparr>"
        and i = 3 and m = 4 and wr = "\<lambda>m fs e w. if m = (1::nat) then (Some ErrConnClose, w) else (None, w @ [m])"
        and errFunc = "\<lambda>e w. w" and w = "[]" and fs = FramePing and ch = 7, OF _ c]
    by (auto simp: bucket_add_newBucket)
qed

text \<open>
  C35: When every member of a channel is absent or refuses the frame, \<open>AskOne\<close> never returns: the
  counter that should end its loop is declared inside the loop, so that it is 1 at every test and
  the length of a bucket is at least 1. The error function is never called.
\<close>

theorem AskOne_spins:
  assumes "cl_channels c ch = Some b" "cursor_at b p" "\<forall>i\<in>set (sets b). unat i < length (cl_sessions c)"
    and "\<forall>i\<in>set (sets b). \<forall>m w. cl_sessions c ! unat i = Some m \<longrightarrow> fst (wr m fs (errFunc \<circ> SendFailed) w) \<noteq> None"
  shows "AskOne fuel wr c ch fs errFunc w = None"
proof -
  have "0 < length (sets b)" using assms(2) by (auto simp: cursor_at_def)
  then have "set (order_from (sets b) (Suc p) fuel) \<subseteq> set (sets b)" by (auto simp: order_from_def)
  then have "first_accepting wr (cl_sessions c) fs (errFunc \<circ> SendFailed) (order_from (sets b) (Suc p) fuel) w = None"
    using assms(4) by (intro first_accepting_none) blast
  then show ?thesis
    using ask_loop_order [OF assms(2,3), where wr = wr and fs = fs and errFunc = errFunc and n = fuel and w = w and ch = ch] assms(1)
    by (simp add: AskOne_def comp_def)
qed

lemma AskOne_spins_witness:
  "\<forall>fuel. AskOne fuel (\<lambda>m fs e w. (Some ErrConnClose, w))
       \<lparr>cl_sessions = [None, None, Some (1::nat), None], cl_channels = [7 \<mapsto> bucket_add newBucket [2] 3], machineID = 0, cl_state = 2\<rparr>
       7 FramePing (\<lambda>e w. w) [] = None"
proof
  fix fuel
  have c: "cursor_at (bucket_add newBucket [2] 3) 0" by (simp add: cursor_at_def bucket_add_def newBucket_def)
  show "AskOne fuel (\<lambda>m fs e w. (Some ErrConnClose, w))
       \<lparr>cl_sessions = [None, None, Some (1::nat), None], cl_channels = [7 \<mapsto> bucket_add newBucket [2] 3], machineID = 0, cl_state = 2\<rparr>
       7 FramePing (\<lambda>e w. w) [] = None"
    by (rule AskOne_spins [OF _ c]) (simp_all add: bucket_add_newBucket)
qed

text \<open>
  C30: In every state \<open>Run\<close> can reach after its initialisation, by any messages, the array of sessions
  keeps its 1024 entries and every channel in the table has a non-empty bucket whose recorded length
  is the number of its members and whose cursor points to one of them: \<open>next\<close> never panics.
\<close>

theorem cluster_tables:
  assumes "reach cluster_start cluster_trans (n, c)" "cl_channels c ch = Some b"
  shows "length (cl_sessions c) = 1024 \<and> bucket_ok b \<and> (\<exists>i l b'. bucket_next b = Some ((i, l), b') \<and> i \<in> set (members c ch))"
proof -
  have "cluster_inv (n, c)" using assms(1) by (rule cl.reach_inv)
  then show ?thesis using assms(2) bucket_next_ok [of b] by (auto simp: cluster_inv_def buckets_ok_def members_def)
qed

definition c_two :: "unit cluster" where
  "c_two = \<lparr>cl_sessions = replicate 1024 None, cl_channels = [7 \<mapsto> bucket_add newBucket [] 3], machineID = 0, cl_state = 2\<rparr>"

lemma cluster_tables_witness:
  "length (cl_sessions c_two) = 1024 \<and> bucket_ok (bucket_add newBucket [] 3)"
proof -
  let ?c = "\<lparr>cl_sessions = replicate 1024 None, cl_channels = \<lambda>_. None, machineID = 0, cl_state = 2\<rparr> :: unit cluster"
  have "cluster_start (0, ?c)"
    unfolding cluster_start_def by (intro exI [of _ "[]"] exI [of _ ?c]) (simp add: initStateAndChannels_def)
  moreover have "cluster_step ?c (ChannelMsg \<lparr>cm_id = 3, cm_channel = 7, cm_operation = 1\<rparr>) = Some (c_two, [], False)"
    by (simp add: channel_turn_add c_two_def members_def)
  then have "cluster_trans (0, ?c) (Suc 0, c_two)" by (rule cluster_trans.intros) simp
  ultimately have "reach cluster_start cluster_trans (Suc 0, c_two)" by (meson reach_init reach_step)
  from cluster_tables [OF this, of 7 "bucket_add newBucket [] 3"] show ?thesis by (simp add: c_two_def)
qed

text \<open>
  The directory and the node agree on names: the key and the value \<open>Run\<close> writes for a
  subscription or a state decode to the same machine id, channel and state on the watching side; the
  keys of two subscriptions differ and none is a prefix of another, so that \<open>DeleteKey\<close>, which deletes
  by prefix, removes exactly one of them.
\<close>

theorem directory_codecs:
  "keyTOChannelMsg (channelKey i ch) = Some \<lparr>cm_id = i, cm_channel = ch, cm_operation = 0\<rparr>
   \<and> valueTOChannelMsg (channelValue i ch) = Some \<lparr>cm_id = i, cm_channel = ch, cm_operation = 0\<rparr>
   \<and> bytesTOStateMsg (stateValue i st) = Some \<lparr>sm_id = i, sm_state = st, sm_operation = 0\<rparr>
   \<and> getNodeID (stateKey i) = Some i
   \<and> (take (length (channelKey i ch)) (channelKey j ch') = channelKey i ch \<longleftrightarrow> i = j \<and> ch = ch')"
proof -
  have "channelKey j ch' = channelKey i ch \<longleftrightarrow> i = j \<and> ch = ch'"
    by (auto simp: channelKey_bytes dest: u16.enc_inj)
  moreover have "take (length (channelKey i ch)) (channelKey j ch') = channelKey j ch'"
    by (simp add: channelKey_bytes)
  ultimately show ?thesis by (simp add: key_value_decode stateKey_bytes)
qed

text \<open>
  The loop panics exactly on a message with a machine id outside the array of 1024 sessions. The
  id of a connecting node is taken from its own frame without a check, so any peer can send one.
\<close>

theorem Run_panics_iff:
  assumes "length (cl_sessions c) = 1024"
  shows "cluster_step c m = None \<longleftrightarrow>
    (\<exists>nc. m = NodeMsg nc \<and> nm_operation nc \<in> {2, 3} \<and> 1024 \<le> unat (nm_id nc)) \<or>
    (\<exists>sc. m = StateMsg sc \<and> sm_operation sc = 1 \<and> 1024 \<le> unat (sm_id sc))"
proof (cases m)
  case (ChannelMsg cc)
  then show ?thesis by (cases "channel_turn c cc") simp
next
  case (StateMsg sc)
  then show ?thesis using assms by (auto simp: state_turn_def arr_get_def Let_def split: option.splits)
next
  case (NodeMsg nc)
  then show ?thesis using assms by (auto simp: node_turn_def arr_get_def arr_set_def split: option.splits bind_splits)
qed

lemma Run_panics_iff_witness:
  "cluster_step c_two (NodeMsg \<lparr>nm_id = 1024, nm_ss = None, nm_operation = 3\<rparr>) = None"
  by (subst Run_panics_iff) (simp_all add: c_two_def)

text \<open>
  \<open>SetState\<close> to the dead state is written to the directory, closes every session that is open,
  empties the array of sessions and ends the loop; after it the state is never changed again.
\<close>

theorem shutdown_closes_all:
  assumes "cl_state c \<noteq> StateDie"
  shows "\<exists>c' es. cluster_step c (StateMsg (SetState_msg StateDie)) = Some (c', es, True)
    \<and> cl_state c' = StateDie \<and> (\<forall>i < length (cl_sessions c). cl_sessions c' ! i = None)
    \<and> es = PutKey (stateKey (machineID c)) (stateValue (machineID c) StateDie)
        # map SessClose (map the (filter (\<lambda>m. m \<noteq> None) (cl_sessions c)))
    \<and> (\<forall>s. cluster_step c' (StateMsg (SetState_msg s)) = Some (c', [], False))"
  using assms by (simp add: state_turn_def SetState_msg_def Let_def)

lemma shutdown_closes_all_witness:
  "\<exists>c' es. cluster_step c_two (StateMsg (SetState_msg StateDie)) = Some (c', es, True)"
  using shutdown_closes_all [of c_two] by (simp add: c_two_def state_defs) blast

end
