(* ===== verification/Node.thy ===== *)
theory Node
  imports SerialSpec ClusterSpec SessionRead
begin

text \<open>
  \<open>node.go\<close>: the calls a user makes. \<open>Notify\<close>, \<open>Call\<close> and \<open>Publish\<close> build a frame and hand it to the cluster;
  a call carries the caller's machine id and the channel of the answer in the extension of its frame, and
  \<open>Reply\<close> sends the answer there.
\<close>

section \<open>Sending\<close>

datatype node_error = ReplyNoEx | ReplyBadEx | NodeSend send_error

definition Notify ::
  "nat \<Rightarrow> ('s, 'w) write_frame \<Rightarrow> 's cluster \<Rightarrow> u16 \<Rightarrow> u8 list \<Rightarrow> (node_error \<Rightarrow> 'w \<Rightarrow> 'w) \<Rightarrow> 'w
    \<Rightarrow> ('s cluster \<times> 'w) ended option" where
  "Notify fuel wr c channel data reject w =
     (case NewFrameSlice channel data [] of
        None \<Rightarrow> Some Crashed
      | Some fs \<Rightarrow> AskOne fuel wr c channel fs (reject \<circ> NodeSend) w)"

definition call_ex :: "u16 \<Rightarrow> u16 \<Rightarrow> u8 list option" where
  "call_ex mid resolve = do {
     ex \<leftarrow> upd_sub (replicate 4 0) 0 2 (\<lambda>s. CopyUint16 s mid);
     upd_sub ex 2 4 (\<lambda>s. CopyUint16 s resolve) }"

definition Call ::
  "nat \<Rightarrow> ('s, 'w) write_frame \<Rightarrow> 's cluster \<Rightarrow> u16 \<Rightarrow> u8 list \<Rightarrow> u16 \<Rightarrow> (node_error \<Rightarrow> 'w \<Rightarrow> 'w) \<Rightarrow> 'w
    \<Rightarrow> ('s cluster \<times> 'w) ended option" where
  "Call fuel wr c channel data resolve reject w =
     (case do { ex \<leftarrow> call_ex (machineID c) resolve; NewFrameSlice channel data ex } of
        None \<Rightarrow> Some Crashed
      | Some fs \<Rightarrow> AskOne fuel wr c channel fs (reject \<circ> NodeSend) w)"

definition Publish ::
  "('s, 'w) write_frame \<Rightarrow> 's cluster \<Rightarrow> u16 \<Rightarrow> u8 list \<Rightarrow> (node_error \<Rightarrow> 'w \<Rightarrow> 'w) \<Rightarrow> 'w \<Rightarrow> 'w ended" where
  "Publish wr c channel data reject w =
     (case NewFrameSlice channel data [] of
        None \<Rightarrow> Crashed
      | Some fs \<Rightarrow> AskAll wr c channel fs (reject \<circ> NodeSend) w)"

definition Reply ::
  "('s, 'w) write_frame \<Rightarrow> 's cluster \<Rightarrow> ContextMQ \<Rightarrow> u8 list \<Rightarrow> (node_error \<Rightarrow> 'w \<Rightarrow> 'w) \<Rightarrow> 'w \<Rightarrow> 'w ended" where
  "Reply wr c ctx data reject w =
     (case ctx_ex ctx of
        None \<Rightarrow> Ended (reject ReplyNoEx w)
      | Some ex \<Rightarrow>
          (if length ex \<noteq> 4 then Ended (reject ReplyBadEx w)
           else case do {
               x \<leftarrow> reslice (of_list ex) 0 2;
               mid \<leftarrow> BytesToUint16 x;
               y \<leftarrow> reslice (of_list ex) 2 4;
               channel \<leftarrow> BytesToUint16 y;
               fs \<leftarrow> NewFrameSlice channel data [];
               Some (mid, channel, fs) } of
               None \<Rightarrow> Crashed
             | Some (mid, channel, fs) \<Rightarrow> Specify wr c mid channel fs (reject \<circ> NodeSend) w))"

section \<open>Receiving\<close>

text \<open>The data of a frame with its capacity cut to its length.\<close>

definition trim_cap :: "'a slice \<Rightarrow> 'a slice" where
  "trim_cap s = Slice (take (slen s) (backing s)) (slen s)"

definition node_request :: "FrameSlice \<Rightarrow> u8 slice option" where
  "node_request fs = do { d \<leftarrow> GetData fs; Some (trim_cap d) }"

text \<open>A panic in the user's function is recovered and the wrapper returns nil.\<close>

definition processWrapper :: "(ContextMQ \<Rightarrow> 'w \<Rightarrow> bool \<times> 'w) \<Rightarrow> 'w handler_func" where
  "processWrapper f s w =
     (case do {
         fs \<leftarrow> sessGetFrameSlice s w;
         d \<leftarrow> node_request fs;
         e \<leftarrow> GetExtend fs;
         Some \<lparr>Request = elems d, ctx_ex = Some (elems e)\<rparr> } of
        None \<Rightarrow> Returned None w
      | Some c \<Rightarrow> (let (ok, w) = f c w in Returned None w))"

text \<open>What sending on the user's channel within a second comes to; a channel that is closed makes the send panic.\<close>

datatype 'w chan_send = Sent 'w | SendTimeout | SendClosed

definition watchChannelWrapper :: "(u8 list \<Rightarrow> 'w \<Rightarrow> 'w chan_send) \<Rightarrow> 'w handler_func" where
  "watchChannelWrapper send s w =
     (case do { fs \<leftarrow> sessGetFrameSlice s w; GetData fs } of
        None \<Rightarrow> Panicked w
      | Some fd \<Rightarrow>
          (let data = gocopy (replicate (slen fd) 0) (elems fd)
           in case send data w of
                Sent w \<Rightarrow> Returned None w
              | SendTimeout \<Rightarrow> Returned None w
              | SendClosed \<Rightarrow> Panicked w))"

text \<open>Subscription: the handler table and the message to the cluster.\<close>

definition node_Subscribe :: "u16 \<Rightarrow> (ContextMQ \<Rightarrow> 'w \<Rightarrow> bool \<times> 'w) \<Rightarrow> u16 \<Rightarrow> 'w Handler \<Rightarrow> 'w Handler \<times> channelMsg" where
  "node_Subscribe mid f channel h = (HandleFunc h channel (processWrapper f), SetChannel_msg mid channel 3)"

definition WatchChannel :: "u16 \<Rightarrow> (u8 list \<Rightarrow> 'w \<Rightarrow> 'w chan_send) \<Rightarrow> u16 \<Rightarrow> 'w Handler \<Rightarrow> 'w Handler \<times> channelMsg" where
  "WatchChannel mid send channel h = (HandleFunc h channel (watchChannelWrapper send), SetChannel_msg mid channel 3)"

definition IsWorking :: "'s cluster \<Rightarrow> bool" where
  "IsWorking c \<longleftrightarrow> cl_state c = StateWork"

section \<open>Calls and answers\<close>

lemma call_ex_bytes: "call_ex mid resolve = Some (bytes16 mid @ bytes16 resolve)"
  by (simp add: call_ex_def upd_sub_def CopyUint16_def eval_nat_numeral)

lemma reply_specify:
  assumes "ctx_ex ctx = Some (bytes16 mid @ bytes16 resolve)"
  shows "\<exists>f. elems (GetAll f) = frame_bytes resolve data [] \<and> wf_slice (GetAll f)
    \<and> Reply wr c ctx data reject w = Specify wr c mid resolve f (reject \<circ> NodeSend) w"
proof -
  obtain f where f: "NewFrameSlice resolve data [] = Some f" "GetAll f = of_list (frame_bytes resolve data [])"
    using NewFrameSlice_bytes [of resolve data "[]"] by (auto simp: GetAll_def)
  have "reslice (of_list (bytes16 mid @ bytes16 resolve)) 0 2 = Some (Slice (bytes16 mid @ bytes16 resolve) 2)"
    by (rule read16 [of _ "[]"]; simp)
  moreover have "reslice (of_list (bytes16 mid @ bytes16 resolve)) 2 4 = Some (Slice (bytes16 resolve @ []) 2)"
    by (rule read16 [of _ "bytes16 mid"]; simp)
  ultimately show ?thesis
    using f assms read16(2) [OF refl refl refl, of mid "bytes16 resolve"] read16(2) [OF refl refl refl, of resolve "[]"]
    by (intro exI [of _ f]) (simp add: Reply_def)
qed


text \<open>What the wrapper does with a well-formed frame.\<close>

lemma trim_cap_elems: "wf_slice s \<Longrightarrow> elems (trim_cap s) = elems s"
  by (simp add: trim_cap_def elems_def)

lemma processWrapper_frame:
  assumes "sessGetFrameSlice s w = Some g" "DecodeByBytes b = Some g" "wf_slice b" "elems b = frame_bytes ft d ex"
    and "length ex < 2 ^ 16"
  shows "processWrapper f s w = Returned None (snd (f \<lparr>Request = d, ctx_ex = Some ex\<rparr> w))"
proof -
  obtain x y where "GetData g = Some x" "wf_slice x" "elems x = d" "GetExtend g = Some y" "elems y = ex"
    using frame_parts [OF assms(3-5)] assms(2) by auto
  then show ?thesis
    using assms(1) by (simp add: processWrapper_def node_request_def trim_cap_elems split: prod.splits)
qed

text \<open>
  \<open>append\<close> of one element: in place when there is capacity, with the offset that is overwritten in the shared
  array, else into a new array.
\<close>

definition append1 :: "'a slice \<Rightarrow> 'a \<Rightarrow> 'a slice \<times> nat option" where
  "append1 s x =
     (if slen s < length (backing s) then (Slice ((backing s)[slen s := x]) (slen s + 1), Some (slen s))
      else (of_list (elems s @ [x]), None))"

section \<open>Properties\<close>

text \<open>
  A call comes back to its caller: \<open>Call\<close> hands the cluster one frame with the data and an extension of
  the caller's machine id and the channel for the answer; whichever slice the frame arrives in, the context
  the receiving node makes of it has that data, and \<open>Reply\<close> on this context sends the answer to exactly that
  machine, as a frame of exactly that channel.
\<close>

theorem call_reply:
  "\<exists>f. elems (GetAll f) = frame_bytes channel data (bytes16 (machineID c) @ bytes16 resolve)
    \<and> Call fuel wr c channel data resolve reject w = AskOne fuel wr c channel f (reject \<circ> NodeSend) w
    \<and> (\<forall>b g se v F. wf_slice b \<and> elems b = elems (GetAll f) \<and> DecodeByBytes b = Some g \<and> sessGetFrameSlice se v = Some g \<longrightarrow>
        processWrapper F se v = Returned None (snd (F \<lparr>Request = data, ctx_ex = Some (bytes16 (machineID c) @ bytes16 resolve)\<rparr> v)))
    \<and> (\<exists>a. elems (GetAll a) = frame_bytes resolve answer []
        \<and> Reply wr' c' \<lparr>Request = data, ctx_ex = Some (bytes16 (machineID c) @ bytes16 resolve)\<rparr> answer reject' v'
          = Specify wr' c' (machineID c) resolve a (reject' \<circ> NodeSend) v')"
proof -
  let ?ex = "bytes16 (machineID c) @ bytes16 resolve"
  obtain f where f: "NewFrameSlice channel data ?ex = Some f" "GetAll f = of_list (frame_bytes channel data ?ex)"
    using NewFrameSlice_bytes [of channel data ?ex] by (auto simp: GetAll_def)
  have "Call fuel wr c channel data resolve reject w = AskOne fuel wr c channel f (reject \<circ> NodeSend) w"
    by (simp add: Call_def call_ex_bytes f(1))
  moreover have "processWrapper F se v = Returned None (snd (F \<lparr>Request = data, ctx_ex = Some ?ex\<rparr> v))"
    if "wf_slice b" "elems b = elems (GetAll f)" "DecodeByBytes b = Some g" "sessGetFrameSlice se v = Some g" for b g se v F
    by (rule processWrapper_frame [OF that(4,3,1)]) (use that(2) f(2) in auto)
  moreover obtain a where "elems (GetAll a) = frame_bytes resolve answer []"
    "Reply wr' c' \<lparr>Request = data, ctx_ex = Some ?ex\<rparr> answer reject' v' = Specify wr' c' (machineID c) resolve a (reject' \<circ> NodeSend) v'"
    using reply_specify [of "\<lparr>Request = data, ctx_ex = Some ?ex\<rparr>" "machineID c" resolve answer wr' c' reject' v'] by auto
  ultimately show ?thesis using f(2) by (intro exI [of _ f]) auto
qed

definition node_three :: "nat cluster" where
  "node_three = \<lparr>cl_sessions = [], cl_channels = \<lambda>_. None, machineID = 3, cl_state = 2\<rparr>"

definition write_any :: "(nat, nat) write_frame" where
  "write_any m fs e w = (None, w + m)"

lemma call_reply_witness:
  "\<exists>f. elems (GetAll f) = frame_bytes 51 [1, 2] (bytes16 3 @ bytes16 70)
     \<and> Call 5 write_any node_three 51 [1, 2] 70 (\<lambda>e w. 0) 7 = AskOne 5 write_any node_three 51 f ((\<lambda>e w. 0) \<circ> NodeSend) 7"
proof -
  have "machineID node_three = 3" by (simp add: node_three_def)
  then show ?thesis
    using call_reply [where c = node_three and channel = 51 and data = "[1, 2]" and resolve = 70 and fuel = 5 and wr = write_any
        and reject = "\<lambda>e w. 0" and w = 7 and wr' = write_any and c' = node_three and answer = "[]" and reject' = "\<lambda>e w. w" and v' = 0]
    by metis
qed

text \<open>
  \<open>Reply\<close> refuses what is not a call: without an extension of exactly four bytes nothing is sent and the
  reject function gets the error; it never panics on the extension.
\<close>

theorem reply_guards:
  "Reply wr c \<lparr>Request = d, ctx_ex = None\<rparr> data reject w = Ended (reject ReplyNoEx w)
   \<and> (length ex \<noteq> 4 \<longrightarrow> Reply wr c \<lparr>Request = d, ctx_ex = Some ex\<rparr> data reject w = Ended (reject ReplyBadEx w))
   \<and> (length ex = 4 \<longrightarrow> (\<exists>mid channel f. ex = bytes16 mid @ bytes16 channel \<and> elems (GetAll f) = frame_bytes channel data []
        \<and> Reply wr c \<lparr>Request = d, ctx_ex = Some ex\<rparr> data reject w = Specify wr c mid channel f (reject \<circ> NodeSend) w))"
proof -
  have "\<exists>mid channel f. ex = bytes16 mid @ bytes16 channel \<and> elems (GetAll f) = frame_bytes channel data []
      \<and> Reply wr c \<lparr>Request = d, ctx_ex = Some ex\<rparr> data reject w = Specify wr c mid channel f (reject \<circ> NodeSend) w"
    if l: "length ex = 4"
  proof -
    have "ex = [ex ! 0, ex ! 1, ex ! 2, ex ! 3]" using take_nths4 [of ex] l by simp
    then obtain p q r s where ex: "ex = [p, q] @ [r, s]" by (metis append_Cons append_Nil)
    have e: "ex = bytes16 (ucast p OR push_bit 8 (ucast q)) @ bytes16 (ucast r OR push_bit 8 (ucast s))"
      unfolding ex by (simp only: bytes16_join)
    then show ?thesis
      using reply_specify [of "\<lparr>Request = d, ctx_ex = Some ex\<rparr>" "ucast p OR push_bit 8 (ucast q)" "ucast r OR push_bit 8 (ucast s)" data wr c reject w]
      by (metis ContextMQ.select_convs(2))
  qed
  then show ?thesis by (auto simp: Reply_def)
qed

lemma reply_guards_witness:
  "Reply (\<lambda>m fs e w. (None, w)) c_two \<lparr>Request = [], ctx_ex = Some [1, 2, 3]\<rparr> [9] (\<lambda>e w. w @ [e]) [] = Ended [ReplyBadEx]"
  using reply_guards [of "\<lambda>m fs e w. (None, w)" c_two "[]" "[9]" "\<lambda>e w. w @ [e]" "[]" "[1, 2, 3]"] by simp

text \<open>
  The request a node gives to a user's function has no spare capacity, so that appending to it never
  writes to the frame. The request a serial gives, \<open>GetData\<close> as it is, has the extension in its spare
  capacity: appending one byte overwrites the first byte of the extension, the caller's machine id.
\<close>

theorem request_capacity:
  assumes "wf_slice b" "elems b = frame_bytes ft d ex" "length ex < 2 ^ 16" "DecodeByBytes b = Some fs"
  shows "(\<exists>r. node_request fs = Some r \<and> elems r = d \<and> snd (append1 r x) = None)
    \<and> (ex \<noteq> [] \<longrightarrow> (\<exists>r s. GetData fs = Some r \<and> elems r = d \<and> append1 r x = (s, Some (length d))
        \<and> backing r = drop 8 (backing b)
        \<and> elems (Slice ((backing b)[8 + length d := x]) (slen b)) = frame_bytes ft d (x # tl ex)))"
proof -
  have fs: "fs = \<lparr>splitLength = int (8 + length d), base = b\<rparr>"
    using DecodeByBytes_frame [OF assms(1-3)] assms(4) by simp
  have len: "slen b = 8 + length d + length ex" using length_elems [OF assms(1)] assms(2) by simp
  have bl: "slen b \<le> length (backing b)" using assms(1) by (simp add: wf_slice_def)
  let ?r = "Slice (drop 8 (backing b)) (length d)"
  have get: "GetData fs = Some ?r" using len bl by (simp add: fs GetData_def FrameHeadLength_def reslice_def)
  have tk: "take (slen b) (backing b) = frame_bytes ft d ex" using assms(2) by (simp add: elems_def)
  have "take (length d) (drop 8 (backing b)) = take (length d) (drop 8 (take (slen b) (backing b)))"
    using len by (simp add: drop_take min_def)
  also have "\<dots> = d" unfolding tk by (simp add: frame_bytes_def)
  finally have d: "elems ?r = d" by (simp add: elems_def)
  have "node_request fs = Some (trim_cap ?r)" using get by (simp add: node_request_def)
  moreover have "elems (trim_cap ?r) = d" using d by (simp add: trim_cap_def elems_def)
  moreover have "snd (append1 (trim_cap ?r) x) = None" by (simp add: append1_def trim_cap_def)
  moreover have "append1 ?r x = (Slice ((drop 8 (backing b))[length d := x]) (length d + 1), Some (length d))" if "ex \<noteq> []"
  proof -
    have "0 < length ex" using that by simp
    then have "length d < length (backing b) - 8" using len bl by linarith
    then show ?thesis by (simp add: append1_def)
  qed
  moreover have "elems (Slice ((backing b)[8 + length d := x]) (slen b)) = frame_bytes ft d (x # tl ex)" if ne: "ex \<noteq> []"
  proof -
    have "take (slen b) ((backing b)[8 + length d := x]) = (take (slen b) (backing b))[8 + length d := x]"
      by (simp add: take_update_swap)
    also have "\<dots> = (frame_bytes ft d ex)[8 + length d := x]" by (simp add: tk)
    also have "\<dots> = frame_bytes ft d (x # tl ex)"
      using ne by (cases ex) (simp_all add: frame_bytes_def list_update_append)
    finally show ?thesis by (simp add: elems_def)
  qed
  ultimately show ?thesis using get d by auto
qed

lemma request_capacity_witness:
  "\<exists>fs r. DecodeByBytes (of_list (frame_bytes 51 [1] [5, 6, 7, 8])) = Some fs \<and> node_request fs = Some r \<and> snd (append1 r 9) = None"
proof -
  obtain fs where "DecodeByBytes (of_list (frame_bytes 51 [1] [5, 6, 7, 8])) = Some fs"
    using frame_parts [of "of_list (frame_bytes 51 [1] [5, 6, 7, 8])" 51 "[1]" "[5, 6, 7, 8]"] by auto
  with request_capacity [of "of_list (frame_bytes 51 [1] [5, 6, 7, 8])" 51 "[1]" "[5, 6, 7, 8]" fs 9] show ?thesis by auto
qed

end
