(* ===== verification/Breaker.thy ===== *)
theory Breaker
  imports Prelude
begin

text \<open>
  \<open>util/circuitBreaker.go\<close>: the breaker of a session. Errors are counted in buckets of about one
  millisecond; when the count reaches a threshold the breaker opens; while it is open, one probe is
  sent after the sleep window, and \<open>SetCircuitBreakerPass\<close>, called when the answer to the probe
  arrives, closes it.
\<close>

section \<open>State\<close>

record bucket =
  stamp :: u64
  bcount :: u64
  btotal :: u64

record CircuitBreakerConfigure =
  RollingBucketsNum :: u64
  RequestVolumeThreshold :: u64
  SleepWindow :: i64

record CircuitBreaker = CircuitBreakerConfigure +
  cb_state :: u32
  halfOpenToken :: u32
  cb_timestamp :: i64
  buckets :: "bucket list"

definition rollingBucketTimeDivide :: nat where
  "rollingBucketTimeDivide = 20"

definition NewCircuitBreakerConfigure :: CircuitBreakerConfigure where
  "NewCircuitBreakerConfigure =
     \<lparr>RollingBucketsNum = 2, RequestVolumeThreshold = 20, SleepWindow = 2000000000\<rparr>"

text \<open>The defaults are stored in the shared configuration itself.\<close>

definition NewCircuitBreaker :: "CircuitBreakerConfigure \<Rightarrow> CircuitBreaker" where
  "NewCircuitBreaker c =
     \<lparr>RollingBucketsNum = (if RollingBucketsNum c = 0 then 1 else RollingBucketsNum c),
      RequestVolumeThreshold = (if RequestVolumeThreshold c = 0 then 20 else RequestVolumeThreshold c),
      SleepWindow = (if sint (SleepWindow c) < 1000 then 2000000000 else SleepWindow c),
      cb_state = StateCircuitBreakerClosed, halfOpenToken = 0, cb_timestamp = 0, buckets = []\<rparr>"

section \<open>Operations\<close>

text \<open>
  The loop from the new bucket, at \<open>current\<close>, down: it adds the counts inside the window and cuts
  the list at the first bucket outside. The last argument is \<open>i + 1\<close>.
\<close>

fun roll :: "u64 \<Rightarrow> u64 \<Rightarrow> bucket list \<Rightarrow> nat \<Rightarrow> nat \<Rightarrow> bucket list" where
  "roll t num item current 0 = item"
| "roll t num item current (Suc i) =
     (if t - stamp (item ! i) < num
      then roll t num (item[current := (item ! current)\<lparr>btotal := btotal (item ! current) + bcount (item ! i)\<rparr>]) current i
      else take (current - i) (drop (Suc i) item))"

definition trip :: "u64 \<Rightarrow> i64 \<Rightarrow> CircuitBreaker \<Rightarrow> CircuitBreaker" where
  "trip n now cb =
     (if n \<ge> RequestVolumeThreshold cb \<and> cb_state cb = StateCircuitBreakerClosed
      then cb\<lparr>cb_state := StateCircuitBreakerOpen, cb_timestamp := now\<rparr> else cb)"

text \<open>\<open>now\<close> is the clock at the start, \<open>now'\<close> when the breaker opens.\<close>

definition ErrorRecord :: "i64 \<Rightarrow> i64 \<Rightarrow> CircuitBreaker \<Rightarrow> CircuitBreaker" where
  "ErrorRecord now now' cb =
     (let t = drop_bit rollingBucketTimeDivide now;
          item = buckets cb
      in if item = [] then trip 1 now' (cb\<lparr>buckets := [\<lparr>stamp = t, bcount = 1, btotal = 1\<rparr>]\<rparr>)
         else
          (let size = length item - 1;
               item =
                 (if stamp (item ! size) = t
                  then item[size := (item ! size)\<lparr>bcount := bcount (item ! size) + 1, btotal := btotal (item ! size) + 1\<rparr>]
                  else (let item = item @ [\<lparr>stamp = t, bcount = 1, btotal = 1\<rparr>];
                            current = length item - 1
                        in roll t (RollingBucketsNum cb) item current (Suc current)))
           in trip (btotal (item ! (length item - 1))) now' (cb\<lparr>buckets := item\<rparr>)))"

text \<open>\<open>HalfOpenFunc\<close> returns whether it failed; it acts on the state \<open>w\<close> of the session.\<close>

definition IsPass :: "('w \<Rightarrow> bool \<times> 'w) \<Rightarrow> i64 \<Rightarrow> i64 \<Rightarrow> CircuitBreaker \<Rightarrow> 'w \<Rightarrow> bool \<times> CircuitBreaker \<times> 'w" where
  "IsPass HalfOpenFunc now now' cb w =
     (if cb_state cb = StateCircuitBreakerClosed then (True, cb, w)
      else if sint (now - cb_timestamp cb) > sint (SleepWindow cb) \<and> halfOpenToken cb = 0
      then (let cb = cb\<lparr>halfOpenToken := StateCircuitBreakerHalfOpen, cb_timestamp := now'\<rparr>;
                (failed, w) = HalfOpenFunc w
            in (False, if failed then cb\<lparr>halfOpenToken := 0\<rparr> else cb, w))
      else (False, cb, w))"

definition SetCircuitBreakerPass :: "CircuitBreaker \<Rightarrow> CircuitBreaker" where
  "SetCircuitBreakerPass cb = cb\<lparr>cb_state := StateCircuitBreakerClosed, halfOpenToken := 0\<rparr>"

section \<open>The count of the window\<close>

text \<open>Errors are given by their bucket numbers, oldest first.\<close>

definition window_errors :: "u64 \<Rightarrow> u64 \<Rightarrow> u64 list \<Rightarrow> nat" where
  "window_errors num t ts = length (filter (\<lambda>x. t - x < num) ts)"

text \<open>What the code counts: the errors of the window and one more when the first bucket is left.\<close>

definition counted_errors :: "u64 \<Rightarrow> u64 list \<Rightarrow> nat" where
  "counted_errors num ts = window_errors num (last ts) ts + (if hd ts = last ts then 0 else 1)"

definition bucket_sum :: "u64 \<Rightarrow> u64 \<Rightarrow> bucket list \<Rightarrow> nat" where
  "bucket_sum num t bs = sum_list (map (\<lambda>b. unat (bcount b)) (filter (\<lambda>b. t - stamp b < num) bs))"

lemma bucket_sum_simps [simp]:
  "bucket_sum num t [] = 0"
  "bucket_sum num t (b # bs) = (if t - stamp b < num then unat (bcount b) else 0) + bucket_sum num t bs"
  "bucket_sum num t (bs @ cs) = bucket_sum num t bs + bucket_sum num t cs"
  by (simp_all add: bucket_sum_def)

lemma window_errors_simps [simp]:
  "window_errors num t [] = 0"
  "window_errors num t (x # xs) = (if t - x < num then 1 else 0) + window_errors num t xs"
  "window_errors num t (xs @ ys) = window_errors num t xs + window_errors num t ys"
  by (simp_all add: window_errors_def)

lemma in_window_mono:
  "x \<le> y \<Longrightarrow> y \<le> t \<Longrightarrow> (t :: u64) - x < num \<Longrightarrow> t - y < num"
  "x \<le> t \<Longrightarrow> t \<le> t' \<Longrightarrow> (t' :: u64) - x < num \<Longrightarrow> t - x < num"
  by (auto simp: word_less_nat_alt word_le_nat_alt unat_diff_nowrap)

text \<open>The loop keeps the buckets of the window and adds their counts to the last one.\<close>

lemma roll_result:
  "length item = Suc current \<Longrightarrow> i \<le> Suc current \<Longrightarrow>
   \<exists>k\<le>i. (k = 0 \<or> \<not> t - stamp (item ! (k - 1)) < num) \<and> (\<forall>m. k \<le> m \<and> m < i \<longrightarrow> t - stamp (item ! m) < num)
     \<and> roll t num item current i = drop k (item[current := (item ! current)
          \<lparr>btotal := btotal (item ! current) + sum_list (map bcount (drop k (take i item)))\<rparr>])"
proof (induction i arbitrary: item)
  case 0
  then show ?case by simp
next
  case (Suc i)
  let ?item = "item[current := (item ! current)\<lparr>btotal := btotal (item ! current) + bcount (item ! i)\<rparr>]"
  show ?case
  proof (cases "t - stamp (item ! i) < num")
    case False
    then have "roll t num item current (Suc i) = drop (Suc i) item" using Suc.prems by simp
    with False show ?thesis by (intro exI [of _ "Suc i"]) auto
  next
    case True
    have same: "stamp (?item ! m) = stamp (item ! m)" "bcount (?item ! m) = bcount (item ! m)" for m
      using Suc.prems by (cases "m = current"; simp)+
    have "length ?item = Suc current" "i \<le> Suc current" using Suc.prems by simp_all
    then obtain k where k: "k \<le> i" "k = 0 \<or> \<not> t - stamp (?item ! (k - 1)) < num"
      "\<forall>m. k \<le> m \<and> m < i \<longrightarrow> t - stamp (?item ! m) < num"
      "roll t num ?item current i = drop k (?item[current := (?item ! current)
          \<lparr>btotal := btotal (?item ! current) + sum_list (map bcount (drop k (take i ?item)))\<rparr>])"
      using Suc.IH [of ?item] by blast
    have counts: "map bcount ?item = map bcount item"
      using same Suc.prems by (intro nth_equalityI) auto
    have "map bcount (drop k (take i ?item)) = map bcount (drop k (take i item))"
      using counts by (metis drop_map take_map)
    moreover have "map bcount (drop k (take (Suc i) item)) = map bcount (drop k (take i item)) @ [bcount (item ! i)]"
      using k(1) Suc.prems by (simp add: take_Suc_conv_app_nth)
    ultimately have "roll t num item current (Suc i) = drop k (item[current := (item ! current)
          \<lparr>btotal := btotal (item ! current) + sum_list (map bcount (drop k (take (Suc i) item)))\<rparr>])"
      using True k(4) Suc.prems by (simp add: ac_simps)
    moreover have "\<forall>m. k \<le> m \<and> m < Suc i \<longrightarrow> t - stamp (item ! m) < num"
      using True k(3) same by (auto simp: less_Suc_eq)
    ultimately show ?thesis using k(1,2) same by (intro exI [of _ k]) auto
  qed
qed


lemma unat_sum_list:
  "sum_list (map unat xs) < 2 ^ LENGTH('a) \<Longrightarrow> unat (sum_list (xs :: 'a::len word list)) = sum_list (map unat xs)"
  by (induction xs) (auto simp: unat_add_nowrap)

lemma bucket_sum_inside: "\<forall>b\<in>set bs. t - stamp b < num \<Longrightarrow> bucket_sum num t bs = sum_list (map (\<lambda>b. unat (bcount b)) bs)"
  by (induction bs) auto

lemma bucket_sum_outside: "\<forall>b\<in>set bs. \<not> t - stamp b < num \<Longrightarrow> bucket_sum num t bs = 0"
  by (induction bs) auto

lemma window_errors_le: "window_errors num t ts \<le> length ts"
  by (simp add: window_errors_def)

text \<open>The buckets after the errors \<open>ts\<close>.\<close>

definition counts :: "CircuitBreaker \<Rightarrow> u64 list \<Rightarrow> bool" where
  "counts cb ts \<longleftrightarrow> buckets cb \<noteq> [] \<and> ts \<noteq> [] \<and> RollingBucketsNum cb \<noteq> 0 \<and> (\<forall>x\<in>set ts. x \<le> last ts)
     \<and> sorted_wrt (<) (map stamp (buckets cb)) \<and> stamp (last (buckets cb)) = last ts
     \<and> (\<forall>t\<ge>last ts. bucket_sum (RollingBucketsNum cb) t (buckets cb) = window_errors (RollingBucketsNum cb) t ts)
     \<and> unat (btotal (last (buckets cb))) = counted_errors (RollingBucketsNum cb) ts"

lemma trip_simps [simp]:
  "buckets (trip n now cb) = buckets cb" "RollingBucketsNum (trip n now cb) = RollingBucketsNum cb"
  "RequestVolumeThreshold (trip n now cb) = RequestVolumeThreshold cb" "halfOpenToken (trip n now cb) = halfOpenToken cb"
  "SleepWindow (trip n now cb) = SleepWindow cb"
  by (simp_all add: trip_def)

lemma trip_state: "cb_state (trip n now cb) =
    (if n \<ge> RequestVolumeThreshold cb \<and> cb_state cb = StateCircuitBreakerClosed then StateCircuitBreakerOpen else cb_state cb)"
  by (simp add: trip_def)

text \<open>An error in the bucket of the last one.\<close>

lemma same_bucket:
  assumes c: "counts cb ts" and small: "length ts + 2 < 2 ^ 64"
    and b: "b = (last (buckets cb))\<lparr>bcount := bcount (last (buckets cb)) + 1, btotal := btotal (last (buckets cb)) + 1\<rparr>"
  shows "counts (cb\<lparr>buckets := butlast (buckets cb) @ [b]\<rparr>) (ts @ [last ts])"
proof -
  let ?n = "RollingBucketsNum cb" and ?l = "last (buckets cb)"
  have bs: "buckets cb = butlast (buckets cb) @ [?l]" using c by (simp add: counts_def)
  have n: "0 < ?n" using c by (simp add: counts_def word_neq_0_conv)
  have "bucket_sum ?n (last ts) (buckets cb) = window_errors ?n (last ts) ts" using c by (simp add: counts_def)
  moreover have "stamp ?l = last ts" using c by (simp add: counts_def)
  then have "unat (bcount ?l) \<le> bucket_sum ?n (last ts) (butlast (buckets cb) @ [?l])"
    using n by simp
  then have "unat (bcount ?l) \<le> bucket_sum ?n (last ts) (buckets cb)" using bs by metis
  ultimately have "unat (bcount ?l) \<le> length ts" using window_errors_le le_trans by metis
  then have cnt: "unat (bcount ?l + 1) = unat (bcount ?l) + 1" using small by (subst unat_add_nowrap) auto
  have "counted_errors ?n ts \<le> length ts + 1" using window_errors_le [of ?n "last ts" ts] by (simp add: counted_errors_def)
  then have "unat (btotal ?l) \<le> length ts + 1" using c by (simp add: counts_def)
  then have tot: "unat (btotal ?l + 1) = unat (btotal ?l) + 1" using small by (subst unat_add_nowrap) auto
  have sum: "bucket_sum ?n t (butlast (buckets cb) @ [b]) = window_errors ?n t (ts @ [last ts])" if "last ts \<le> t" for t
  proof -
    have "bucket_sum ?n t (butlast (buckets cb) @ [?l]) = window_errors ?n t ts" using c that bs by (simp add: counts_def)
    then show ?thesis using c b cnt by (auto simp: counts_def split: if_splits)
  qed
  have "sorted_wrt (<) (map stamp (butlast (buckets cb) @ [?l]))" using c bs by (simp add: counts_def)
  then have "sorted_wrt (<) (map stamp (butlast (buckets cb) @ [b]))" using b by simp
  moreover have "hd (ts @ [last ts]) = hd ts" "ts \<noteq> []" using c by (simp_all add: counts_def)
  ultimately show ?thesis
    using c sum b tot n by (auto simp: counts_def counted_errors_def)
qed

text \<open>An error in a later bucket.\<close>

lemma new_bucket:
  assumes c: "counts cb ts" and later: "last ts < t" and small: "length ts + 2 < 2 ^ 64"
  shows "\<exists>bs. roll t (RollingBucketsNum cb) (buckets cb @ [\<lparr>stamp = t, bcount = 1, btotal = 1\<rparr>]) (length (buckets cb)) (Suc (length (buckets cb))) = bs
           \<and> counts (cb\<lparr>buckets := bs\<rparr>) (ts @ [t])"
proof -
  let ?n = "RollingBucketsNum cb" and ?bs = "buckets cb" and ?new = "\<lparr>stamp = t, bcount = 1, btotal = 1\<rparr>"
  have n: "0 < ?n" using c by (simp add: counts_def word_neq_0_conv)
  obtain k where k: "k \<le> Suc (length ?bs)" "k = 0 \<or> \<not> t - stamp ((?bs @ [?new]) ! (k - 1)) < ?n"
    "\<forall>m. k \<le> m \<and> m < Suc (length ?bs) \<longrightarrow> t - stamp ((?bs @ [?new]) ! m) < ?n"
    "roll t ?n (?bs @ [?new]) (length ?bs) (Suc (length ?bs)) = drop k ((?bs @ [?new])[length ?bs := ((?bs @ [?new]) ! length ?bs)
          \<lparr>btotal := btotal ((?bs @ [?new]) ! length ?bs) + sum_list (map bcount (drop k (take (Suc (length ?bs)) (?bs @ [?new]))))\<rparr>])"
    using roll_result [of "?bs @ [?new]" "length ?bs" "Suc (length ?bs)" t ?n] by auto
  have kl: "k \<le> length ?bs"
  proof (rule ccontr)
    assume "\<not> ?thesis"
    then have "k = Suc (length ?bs)" using k(1) by simp
    then show False using k(2) n by simp
  qed
  define W where "W = sum_list (map bcount (drop k ?bs))"
  have res: "roll t ?n (?bs @ [?new]) (length ?bs) (Suc (length ?bs)) = drop k ?bs @ [?new\<lparr>btotal := 1 + (W + 1)\<rparr>]"
    using k(4) kl by (simp add: W_def)
  have inside: "\<forall>b\<in>set (drop k ?bs). t - stamp b < ?n"
  proof
    fix b assume "b \<in> set (drop k ?bs)"
    then obtain i where "b = ?bs ! (k + i)" "k + i < length ?bs" by (auto simp: in_set_conv_nth)
    then show "t - stamp b < ?n" using k(3) [rule_format, of "k + i"] by (simp add: nth_append)
  qed
  have sorted: "stamp (?bs ! i) < stamp (?bs ! j)" if "i < j" "j < length ?bs" for i j
    using c that by (auto simp: counts_def sorted_wrt_iff_nth_less)
  have lastb: "stamp b \<le> last ts" if "b \<in> set ?bs" for b
  proof -
    obtain i where i: "b = ?bs ! i" "i < length ?bs" using \<open>b \<in> set ?bs\<close> by (metis in_set_conv_nth)
    have "last ts = stamp (last ?bs)" "?bs \<noteq> []" using c by (simp_all add: counts_def)
    then have "last ts = stamp (?bs ! (length ?bs - 1))" by (simp add: last_conv_nth [of ?bs])
    moreover have "i = length ?bs - 1 \<or> i < length ?bs - 1 \<and> length ?bs - 1 < length ?bs" using i by linarith
    ultimately show ?thesis using sorted [of i "length ?bs - 1"] i by (auto simp: less_imp_le)
  qed
  have outside: "\<not> t - stamp b < ?n" if "b \<in> set (take k ?bs)" for b
  proof -
    obtain i where i: "b = ?bs ! i" "i < k" using \<open>b \<in> set (take k ?bs)\<close> kl by (auto simp: in_set_conv_nth)
    have out: "\<not> t - stamp (?bs ! (k - 1)) < ?n" using k(2) i kl by (simp add: nth_append split: if_splits)
    have "i = k - 1 \<or> i < k - 1 \<and> k - 1 < length ?bs" using i kl by linarith
    then have "stamp b \<le> stamp (?bs ! (k - 1))" using sorted [of i "k - 1"] i by (auto simp: less_imp_le)
    moreover have "stamp (?bs ! (k - 1)) \<le> t" using lastb [of "?bs ! (k - 1)"] i kl later by simp
    ultimately show ?thesis using out in_window_mono(1) by blast
  qed
  have sums: "bucket_sum ?n t' (drop k ?bs) = window_errors ?n t' ts" if "t \<le> t'" for t'
  proof -
    have "\<not> t' - stamp b < ?n" if b: "b \<in> set (take k ?bs)" for b
    proof
      assume "t' - stamp b < ?n"
      moreover have "stamp b \<le> t" using lastb [OF in_set_takeD [OF b]] later by order
      ultimately show False using outside [OF b] in_window_mono(2) \<open>t \<le> t'\<close> by blast
    qed
    then have "bucket_sum ?n t' (take k ?bs) = 0" by (simp add: bucket_sum_outside)
    moreover have "bucket_sum ?n t' ?bs = window_errors ?n t' ts"
      using c \<open>t \<le> t'\<close> later by (simp add: counts_def)
    moreover have "bucket_sum ?n t' ?bs = bucket_sum ?n t' (take k ?bs) + bucket_sum ?n t' (drop k ?bs)"
      by (metis append_take_drop_id bucket_sum_simps(3))
    ultimately show ?thesis by simp
  qed
  have "sum_list (map unat (map bcount (drop k ?bs))) = window_errors ?n t ts"
    using sums [of t] bucket_sum_inside [OF inside] by (simp add: comp_def)
  moreover have "window_errors ?n t ts \<le> length ts" by (rule window_errors_le)
  ultimately have W: "unat W = window_errors ?n t ts"
    unfolding W_def using small by (subst unat_sum_list) auto
  have "unat (1 + (W + 1)) = unat W + 2"
    using W small window_errors_le [of ?n t ts] by (simp add: unat_add_nowrap)
  moreover have "hd ts \<in> set ts" "\<forall>x\<in>set ts. x \<le> last ts" using c by (simp_all add: counts_def)
  then have "hd (ts @ [t]) \<noteq> t" using later by (auto simp: hd_append)
  ultimately have total: "unat (1 + (W + 1)) = counted_errors ?n (ts @ [t])"
    using W n by (simp add: counted_errors_def)
  have "stamp b < t" if "b \<in> set ?bs" for b using lastb [OF that] later by order
  then have "sorted_wrt (<) (map stamp (drop k ?bs @ [?new]))"
    using c by (auto simp: counts_def sorted_wrt_append sorted_wrt_drop drop_map [symmetric] dest!: in_set_dropD)
  then have "counts (cb\<lparr>buckets := drop k ?bs @ [?new\<lparr>btotal := 1 + (W + 1)\<rparr>]\<rparr>) (ts @ [t])"
    using c later sums total n \<open>\<forall>x\<in>set ts. x \<le> last ts\<close> by (auto simp: counts_def)
  then show ?thesis using res by simp
qed


lemma ErrorRecord_config [simp]:
  "RollingBucketsNum (ErrorRecord now now' cb) = RollingBucketsNum cb"
  "RequestVolumeThreshold (ErrorRecord now now' cb) = RequestVolumeThreshold cb"
  "SleepWindow (ErrorRecord now now' cb) = SleepWindow cb"
  "halfOpenToken (ErrorRecord now now' cb) = halfOpenToken cb"
  by (simp_all add: ErrorRecord_def Let_def)

text \<open>The state after one more error is decided by the code's own count.\<close>

definition trips :: "CircuitBreaker \<Rightarrow> u64 list \<Rightarrow> bool" where
  "trips cb ts \<longleftrightarrow> unat (RequestVolumeThreshold cb) \<le> counted_errors (RollingBucketsNum cb) ts"

lemma ErrorRecord_first:
  assumes "buckets cb = []" "RollingBucketsNum cb \<noteq> 0"
  shows "counts (ErrorRecord now now' cb) [drop_bit 20 now]"
    "cb_state (ErrorRecord now now' cb) =
       (if trips cb [drop_bit 20 now] \<and> cb_state cb = StateCircuitBreakerClosed then StateCircuitBreakerOpen else cb_state cb)"
  using assms
  by (auto simp: ErrorRecord_def counts_def counted_errors_def Let_def rollingBucketTimeDivide_def trip_state trips_def
      word_le_nat_alt word_less_nat_alt unat_gt_0)

lemma ErrorRecord_next:
  assumes c: "counts cb ts" and t: "last ts \<le> drop_bit 20 now" and small: "length ts + 2 < 2 ^ 64"
  shows "counts (ErrorRecord now now' cb) (ts @ [drop_bit 20 now])"
    "cb_state (ErrorRecord now now' cb) =
       (if trips cb (ts @ [drop_bit 20 now]) \<and> cb_state cb = StateCircuitBreakerClosed then StateCircuitBreakerOpen else cb_state cb)"
proof -
  let ?t = "drop_bit 20 now" and ?bs = "buckets cb"
  have ne: "?bs \<noteq> []" "stamp (last ?bs) = last ts" using c by (auto simp: counts_def)
  obtain bs where bs: "ErrorRecord now now' cb = trip (btotal (last bs)) now' (cb\<lparr>buckets := bs\<rparr>)"
    "counts (cb\<lparr>buckets := bs\<rparr>) (ts @ [?t])"
  proof (cases "last ts = ?t")
    case True
    define b where "b = (last ?bs)\<lparr>bcount := bcount (last ?bs) + 1, btotal := btotal (last ?bs) + 1\<rparr>"
    have "?bs[length ?bs - 1 := b] = butlast ?bs @ [b]" 
      using ne(1) by (cases ?bs rule: rev_cases) (simp_all add: list_update_append)
    then have "ErrorRecord now now' cb = trip (btotal (last (butlast ?bs @ [b]))) now' (cb\<lparr>buckets := butlast ?bs @ [b]\<rparr>)"
      using ne True by (simp add: ErrorRecord_def Let_def last_conv_nth nth_append b_def rollingBucketTimeDivide_def)
    then show thesis using that same_bucket [OF c small b_def] True by metis
  next
    case False
    then have "last ts < ?t" using t by simp
    from new_bucket [OF c this small] obtain bs where r: "counts (cb\<lparr>buckets := bs\<rparr>) (ts @ [?t])"
      "roll ?t (RollingBucketsNum cb) (?bs @ [\<lparr>stamp = ?t, bcount = 1, btotal = 1\<rparr>]) (length ?bs) (Suc (length ?bs)) = bs"
      by blast
    moreover have "bs \<noteq> []" using r(1) by (simp add: counts_def)
    ultimately have "ErrorRecord now now' cb = trip (btotal (last bs)) now' (cb\<lparr>buckets := bs\<rparr>)"
      using ne False by (simp add: ErrorRecord_def Let_def last_conv_nth rollingBucketTimeDivide_def del: roll.simps)
    then show thesis using that r(1) by metis
  qed
  show "counts (ErrorRecord now now' cb) (ts @ [?t])" using bs by (simp add: counts_def)
  show "cb_state (ErrorRecord now now' cb) =
       (if trips cb (ts @ [?t]) \<and> cb_state cb = StateCircuitBreakerClosed then StateCircuitBreakerOpen else cb_state cb)"
    using bs by (simp add: counts_def trip_state trips_def word_le_nat_alt)
qed


section \<open>Runs\<close>

text \<open>The three calls of a session and their answers; the state of the session is the number of probes sent.\<close>

datatype breaker_event = Failure i64 i64 | Attempt i64 i64 bool | Answer

definition probe :: "bool \<Rightarrow> nat \<Rightarrow> bool \<times> nat" where
  "probe fails n = (fails, if fails then n else n + 1)"

fun breaker_step :: "CircuitBreaker \<times> nat \<times> bool list \<Rightarrow> breaker_event \<Rightarrow> CircuitBreaker \<times> nat \<times> bool list" where
  "breaker_step (cb, n, ps) (Failure now now') = (ErrorRecord now now' cb, n, ps)"
| "breaker_step (cb, n, ps) (Attempt now now' fails) =
     (let (p, cb, n) = IsPass (probe fails) now now' cb n in (cb, n, ps @ [p]))"
| "breaker_step (cb, n, ps) Answer = (SetCircuitBreakerPass cb, n, ps)"

definition breaker_inv :: "CircuitBreaker \<times> nat \<times> bool list \<Rightarrow> bool" where
  "breaker_inv s \<longleftrightarrow>
     (cb_state (fst s) = StateCircuitBreakerClosed \<and> halfOpenToken (fst s) = 0 \<or>
      cb_state (fst s) = StateCircuitBreakerOpen \<and> halfOpenToken (fst s) \<in> {0, StateCircuitBreakerHalfOpen})"

lemma ErrorRecord_state_cases:
  "cb_state (ErrorRecord now now' cb) = cb_state cb \<or>
   cb_state cb = StateCircuitBreakerClosed \<and> cb_state (ErrorRecord now now' cb) = StateCircuitBreakerOpen"
  by (simp add: ErrorRecord_def Let_def trip_def)

interpretation br: run_invariant breaker_step breaker_inv "\<lambda>_. True"
proof
  fix s e assume i: "breaker_inv s"
  obtain cb n ps where s: "s = (cb, n, ps)" by (cases s)
  show "breaker_inv (breaker_step s e)"
  proof (cases e)
    case (Failure now now')
    then show ?thesis using i s ErrorRecord_state_cases [of now now' cb] by (auto simp: breaker_inv_def state_defs)
  next
    case (Attempt now now' fails)
    then show ?thesis using i s by (auto simp: breaker_inv_def IsPass_def Let_def probe_def state_defs)
  next
    case Answer
    then show ?thesis using s by (simp add: breaker_inv_def SetCircuitBreakerPass_def)
  qed
qed

text \<open>While a probe is out, nothing but its answer changes anything.\<close>

definition probing :: "CircuitBreaker \<times> nat \<times> bool list \<Rightarrow> bool" where
  "probing s \<longleftrightarrow> cb_state (fst s) = StateCircuitBreakerOpen \<and> halfOpenToken (fst s) = StateCircuitBreakerHalfOpen"

lemma probing_step:
  assumes "probing (cb, n, ps)" "e \<noteq> Answer"
  shows "\<exists>cb' qs. breaker_step (cb, n, ps) e = (cb', n, ps @ qs) \<and> probing (cb', n, ps @ qs) \<and> list_all Not qs"
proof (cases e)
  case (Failure now now')
  then show ?thesis using assms(1) ErrorRecord_state_cases [of now now' cb] by (auto simp: probing_def state_defs)
next
  case (Attempt now now' fails)
  then show ?thesis using assms(1) by (auto simp: probing_def IsPass_def state_defs)
qed (use assms in simp)

lemma probing_run:
  assumes "probing (cb, n, ps)" "Answer \<notin> set es"
  shows "\<exists>cb' qs. foldl breaker_step (cb, n, ps) es = (cb', n, ps @ qs) \<and> probing (cb', n, ps @ qs) \<and> list_all Not qs"
  using assms
proof (induction es arbitrary: cb ps)
  case (Cons e es)
  then obtain cb1 qs where 1: "breaker_step (cb, n, ps) e = (cb1, n, ps @ qs)" "probing (cb1, n, ps @ qs)" "list_all Not qs"
    using probing_step [of cb n ps e] by auto
  then obtain cb2 rs where "foldl breaker_step (cb1, n, ps @ qs) es = (cb2, n, (ps @ qs) @ rs)"
    "probing (cb2, n, (ps @ qs) @ rs)" "list_all Not rs"
    using Cons.IH [of cb1 "ps @ qs"] Cons.prems(2) by auto
  then show ?case using 1 by (intro exI [of _ cb2] exI [of _ "qs @ rs"]) simp
qed simp


section \<open>Properties\<close>

text \<open>Errors at the times \<open>ns\<close>, in order, on a new breaker.\<close>

definition record_errors :: "CircuitBreaker \<Rightarrow> i64 list \<Rightarrow> CircuitBreaker" where
  "record_errors cb ns = foldl (\<lambda>cb now. ErrorRecord now now cb) cb ns"

lemma record_errors_snoc: "record_errors cb (ns @ [n]) = ErrorRecord n n (record_errors cb ns)"
  by (simp add: record_errors_def)

lemma record_errors_config [simp]:
  "RollingBucketsNum (record_errors cb ns) = RollingBucketsNum cb"
  "RequestVolumeThreshold (record_errors cb ns) = RequestVolumeThreshold cb"
  by (induction ns rule: rev_induct) (simp_all add: record_errors_snoc, simp_all add: record_errors_def)

lemma record_errors_state:
  assumes "buckets cb = []" "RollingBucketsNum cb \<noteq> 0" "cb_state cb = StateCircuitBreakerClosed"
    and "sorted (map (drop_bit 20) ns)" "length ns + 2 < 2 ^ 64"
  shows "(ns \<noteq> [] \<longrightarrow> counts (record_errors cb ns) (map (drop_bit 20) ns))
    \<and> cb_state (record_errors cb ns) = (if \<exists>k\<in>{1..length ns}. trips cb (map (drop_bit 20) (take k ns))
        then StateCircuitBreakerOpen else StateCircuitBreakerClosed)"
  using assms(4,5)
proof (induction ns rule: rev_induct)
  case Nil
  then show ?case using assms(3) by (simp add: record_errors_def)
next
  case (snoc n ns)
  let ?c = "record_errors cb ns" and ?ts = "map (drop_bit 20) ns"
  have IH: "ns \<noteq> [] \<longrightarrow> counts ?c ?ts" "cb_state ?c = (if \<exists>k\<in>{1..length ns}. trips cb (map (drop_bit 20) (take k ns))
        then StateCircuitBreakerOpen else StateCircuitBreakerClosed)"
    using snoc by (simp_all add: sorted_append)
  have trips_c: "trips ?c = trips cb" by (simp add: trips_def fun_eq_iff)
  have step: "counts (record_errors cb (ns @ [n])) (map (drop_bit 20) (ns @ [n])) \<and>
    cb_state (record_errors cb (ns @ [n])) = (if trips cb (map (drop_bit 20) (ns @ [n])) \<and> cb_state ?c = StateCircuitBreakerClosed
        then StateCircuitBreakerOpen else cb_state ?c)" (is ?step)
  proof (cases "ns = []")
    case True
    then have "?c = cb" by (simp add: record_errors_def)
    then show ?step
      using ErrorRecord_first [OF assms(1,2), of n n] True
      by (simp add: record_errors_snoc [of cb "[]" n, simplified])
  next
    case False
    have "last ?ts \<le> drop_bit 20 n" using snoc.prems(1) False by (simp add: sorted_append last_map)
    then show ?step
      using ErrorRecord_next [of ?c ?ts n n] IH(1) False snoc.prems(2) by (simp add: record_errors_snoc trips_c)
  qed
  have "(\<exists>k\<in>{1..length (ns @ [n])}. trips cb (map (drop_bit 20) (take k (ns @ [n])))) \<longleftrightarrow>
      (\<exists>k\<in>{1..length ns}. trips cb (map (drop_bit 20) (take k ns))) \<or> trips cb (map (drop_bit 20) (ns @ [n]))"
    by (auto simp: atLeastAtMostSuc_conv)
  then show ?case using step IH(2) by (auto simp: state_defs)
qed

text \<open>
  C27: A new breaker that sees errors at non-decreasing times opens exactly when some prefix of the
  errors reaches the threshold, where the code's count is the number of errors in the window of the
  last one, plus one as soon as they span two buckets: the newest bucket is counted twice.
\<close>

theorem breaker_opens_iff:
  assumes "cb = NewCircuitBreaker c" "sorted (map (drop_bit 20) ns)" "length ns + 2 < 2 ^ 64"
  shows "cb_state (record_errors cb ns) = StateCircuitBreakerOpen \<longleftrightarrow>
    (\<exists>k\<in>{1..length ns}. unat (RequestVolumeThreshold cb) \<le> counted_errors (RollingBucketsNum cb) (map (drop_bit 20) (take k ns)))"
proof -
  have "buckets cb = []" "RollingBucketsNum cb \<noteq> 0" "cb_state cb = StateCircuitBreakerClosed"
    using assms(1) by (simp_all add: NewCircuitBreaker_def)
  with record_errors_state [OF this assms(2,3)] show ?thesis by (simp add: trips_def state_defs)
qed

lemma breaker_opens_iff_witness:
  "cb_state (record_errors (NewCircuitBreaker \<lparr>RollingBucketsNum = 2, RequestVolumeThreshold = 2, SleepWindow = 5000\<rparr>)
      [0, 2 ^ 40]) = StateCircuitBreakerOpen \<longleftrightarrow>
    (\<exists>k\<in>{1..length [0 :: i64, 2 ^ 40]}. unat (RequestVolumeThreshold (NewCircuitBreaker \<lparr>RollingBucketsNum = 2, RequestVolumeThreshold = 2, SleepWindow = 5000\<rparr>))
      \<le> counted_errors (RollingBucketsNum (NewCircuitBreaker \<lparr>RollingBucketsNum = 2, RequestVolumeThreshold = 2, SleepWindow = 5000\<rparr>)) (map (drop_bit 20) (take k [0, 2 ^ 40])))"
  by (rule breaker_opens_iff [OF refl]) simp_all

text \<open>
  Two errors far apart open a breaker with threshold 2, although no window holds both: the last
  window holds one error and the code counts two.
\<close>

theorem two_far_errors_open:
  assumes "cb = NewCircuitBreaker c" "RequestVolumeThreshold c = 2"
    and "drop_bit 20 n1 + RollingBucketsNum cb \<le> drop_bit 20 (n2 :: i64)" "drop_bit 20 n1 < drop_bit 20 n2"
    and "unat (drop_bit 20 n1) + unat (RollingBucketsNum cb) < 2 ^ 64"
  shows "cb_state (record_errors cb [n1, n2]) = StateCircuitBreakerOpen
    \<and> window_errors (RollingBucketsNum cb) (drop_bit 20 n2) [drop_bit 20 n1, drop_bit 20 n2] = 1"
proof -
  have cb: "buckets cb = []" "RollingBucketsNum cb \<noteq> 0" "cb_state cb = StateCircuitBreakerClosed"
    "unat (RequestVolumeThreshold cb) = 2"
    using assms(1,2) by (simp_all add: NewCircuitBreaker_def)
  have far: "\<not> drop_bit 20 n2 - drop_bit 20 n1 < RollingBucketsNum cb"
    using assms(3-5) by (simp add: word_less_nat_alt word_le_nat_alt unat_diff_nowrap unat_add_nowrap)
  then have w: "window_errors (RollingBucketsNum cb) (drop_bit 20 n2) [drop_bit 20 n1, drop_bit 20 n2] = 1"
    using cb(2) by (simp add: word_neq_0_conv)
  have "sorted (map (drop_bit 20) [n1, n2])" using assms(4) by simp
  from record_errors_state [OF cb(1-3) this] have st: "cb_state (record_errors cb [n1, n2]) =
      (if \<exists>k\<in>{1..length [n1, n2]}. trips cb (map (drop_bit 20) (take k [n1, n2])) then StateCircuitBreakerOpen else StateCircuitBreakerClosed)"
    by simp
  have "trips cb (map (drop_bit 20) (take 2 [n1, n2]))"
    using w cb(4) assms(4) by (simp add: trips_def counted_errors_def)
  then have "\<exists>k\<in>{1..length [n1, n2]}. trips cb (map (drop_bit 20) (take k [n1, n2]))"
    by (intro bexI [of _ 2]) simp_all
  with st w show ?thesis by simp
qed

lemma two_far_errors_open_witness:
  "cb_state (record_errors (NewCircuitBreaker \<lparr>RollingBucketsNum = 2, RequestVolumeThreshold = 2, SleepWindow = 5000\<rparr>)
      [0, 2 ^ 40]) = StateCircuitBreakerOpen"
  by (rule two_far_errors_open [THEN conjunct1, OF refl]) (simp_all add: NewCircuitBreaker_def)

text \<open>
  In every run of a new breaker, under any order of failures, requests and answers, its state is
  closed or open and never anything else, and the probe token is taken only while it is open.
\<close>

theorem breaker_states:
  "breaker_inv (foldl breaker_step (NewCircuitBreaker c, n, ps) es)"
  by (rule br.run_inv) (simp_all add: breaker_inv_def NewCircuitBreaker_def list_all_iff)

text \<open>
  A probe whose answer never comes closes the session for good: from the moment one probe has
  been sent, and until an answer arrives, every request is refused and no further probe is sent,
  however much time passes.
\<close>

theorem lost_answer_is_final:
  assumes "cb_state cb = StateCircuitBreakerOpen" "halfOpenToken cb = 0"
    and "sint (SleepWindow cb) < sint (now - cb_timestamp cb)" "Answer \<notin> set es"
  shows "\<exists>cb' qs. foldl breaker_step (cb, n, ps) (Attempt now now' False # es) = (cb', n + 1, ps @ False # qs)
    \<and> cb_state cb' = StateCircuitBreakerOpen \<and> list_all Not qs"
proof -
  define cb1 where "cb1 = cb\<lparr>halfOpenToken := StateCircuitBreakerHalfOpen, cb_timestamp := now'\<rparr>"
  have "breaker_step (cb, n, ps) (Attempt now now' False) = (cb1, n + 1, ps @ [False])"
    using assms(1-3) by (simp add: IsPass_def Let_def probe_def cb1_def state_defs)
  moreover have "probing (cb1, n + 1, ps @ [False])" using assms(1) by (simp add: probing_def cb1_def)
  from probing_run [OF this assms(4)] obtain cb' qs where
    "foldl breaker_step (cb1, n + 1, ps @ [False]) es = (cb', n + 1, (ps @ [False]) @ qs)"
    "probing (cb', n + 1, (ps @ [False]) @ qs)" "list_all Not qs" by blast
  ultimately show ?thesis by (auto simp: probing_def)
qed

lemma lost_answer_is_final_witness:
  "\<exists>cb' qs. foldl breaker_step ((NewCircuitBreaker \<lparr>RollingBucketsNum = 1, RequestVolumeThreshold = 1, SleepWindow = 5000\<rparr>)\<lparr>cb_state := StateCircuitBreakerOpen\<rparr>, 0, [])
      (Attempt 6000 6001 False # [Attempt 9000000 9000001 False, Failure 7 8, Attempt 90000000 90000001 True]) = (cb', 0 + 1, [] @ False # qs)
    \<and> cb_state cb' = StateCircuitBreakerOpen \<and> list_all Not qs"
  by (rule lost_answer_is_final) (simp_all add: NewCircuitBreaker_def)

text \<open>
  Recovery: an open breaker with a free token that is asked after its sleep window sends exactly
  one probe and refuses the request; when the answer arrives it is closed, its token is free, and the
  next request passes without a probe.
\<close>

theorem breaker_recovers:
  assumes "cb_state cb = StateCircuitBreakerOpen" "halfOpenToken cb = 0"
    and "sint (SleepWindow cb) < sint (now - cb_timestamp cb)"
  shows "\<exists>cb'. foldl breaker_step (cb, n, []) [Attempt now now' False, Answer, Attempt t t' f] = (cb', n + 1, [False, True])
    \<and> cb_state cb' = StateCircuitBreakerClosed \<and> halfOpenToken cb' = 0 \<and> buckets cb' = buckets cb"
  using assms by (simp add: IsPass_def Let_def probe_def SetCircuitBreakerPass_def state_defs)

lemma breaker_recovers_witness:
  "\<exists>cb'. foldl breaker_step ((NewCircuitBreaker \<lparr>RollingBucketsNum = 1, RequestVolumeThreshold = 1, SleepWindow = 5000\<rparr>)\<lparr>cb_state := StateCircuitBreakerOpen\<rparr>, 0, [])
       [Attempt 6000 6001 False, Answer, Attempt 7000 7001 False] = (cb', 0 + 1, [False, True])"
  using breaker_recovers [of "(NewCircuitBreaker \<lparr>RollingBucketsNum = 1, RequestVolumeThreshold = 1, SleepWindow = 5000\<rparr>)\<lparr>cb_state := StateCircuitBreakerOpen\<rparr>"
      6000 0 6001 7000 7001 False]
  by (simp add: NewCircuitBreaker_def del: foldl_Cons foldl_Nil) blast

end
