(* ===== verification/SessionWrite.thy ===== *)
theory SessionWrite
  imports Handler Breaker
begin

text \<open>
  The sending side of a session, \<open>transport/tcp_session.go\<close>: frames are collected in a slot, a buffer with the error
  functions of its frames, and a worker sends the whole slot with one write. Operations run one at a time
  here. An error function is a number; \<open>called\<close> records the calls.
\<close>

section \<open>State\<close>

definition BytesPoolLenght :: nat where "BytesPoolLenght = 32768"
definition BytesPoolLenght32 :: u32 where "BytesPoolLenght32 = 32768"
definition SessionInternalTimeout :: i64 where "SessionInternalTimeout = 10000000000"

record slot =
  slot_buf :: "u8 list"
  slot_rejects :: "nat option list"
  slot_timestamp :: i64
  allotCursor :: u32
  slot_available :: u32
  writeLock :: i32
  rejectCursor :: u32

datatype job = SlotJob nat | SimpleJob FrameSlice nat

text \<open>
  \<open>wSlot\<close> points into \<open>slots\<close>. The two pools are stacks of what was put back, with its old content.
  \<open>sent\<close> are the successful writes to the connection; \<open>waiting\<close> is the counter of the wait group.
\<close>

record writer =
  ws_state :: u32
  wSlot :: nat
  slots :: "slot list"
  bytesPool :: "u8 list list"
  rejectPool :: "nat option list list"
  JobQueue :: "job list"
  waiting :: int
  circuitBreaker :: "CircuitBreaker option"
  sent :: "u8 list list"
  called :: "(nat \<times> transport_error) list"

text \<open>What the clock and the connection answer during an operation.\<close>

record io =
  now :: i64
  deadline_error :: "transport_error option"
  write_error :: "transport_error option"

section \<open>Slots\<close>

definition newSlot :: "writer \<Rightarrow> slot \<times> writer" where
  "newSlot w =
     (let (buf, bp) = (case bytesPool w of [] \<Rightarrow> (replicate BytesPoolLenght 0, []) | b # bs \<Rightarrow> (b, bs));
          (rj, rp) = (case rejectPool w of [] \<Rightarrow> (replicate (BytesPoolLenght div 8) None, []) | r # rs \<Rightarrow> (r, rs))
      in (\<lparr>slot_buf = buf, slot_rejects = rj, slot_timestamp = 0, allotCursor = 0, slot_available = 0, writeLock = 0,
           rejectCursor = 0\<rparr>, w\<lparr>bytesPool := bp, rejectPool := rp\<rparr>))"

definition release :: "slot \<Rightarrow> writer \<Rightarrow> writer" where
  "release s w = w\<lparr>bytesPool := slot_buf s # bytesPool w, rejectPool := slot_rejects s # rejectPool w\<rparr>"

definition upd_slot :: "nat \<Rightarrow> (slot \<Rightarrow> slot) \<Rightarrow> writer \<Rightarrow> writer" where
  "upd_slot a f w = w\<lparr>slots := (slots w)[a := f (slots w ! a)]\<rparr>"

definition install_slot :: "slot \<Rightarrow> writer \<Rightarrow> writer" where
  "install_slot s w = w\<lparr>slots := slots w @ [s], wSlot := length (slots w)\<rparr>"

definition breaker_error :: "io \<Rightarrow> writer \<Rightarrow> writer" where
  "breaker_error e w = w\<lparr>circuitBreaker := map_option (ErrorRecord (now e) (now e)) (circuitBreaker w)\<rparr>"

section \<open>Sending directly\<close>

definition WriteFrameDataPromptly :: "io \<Rightarrow> FrameSlice \<Rightarrow> writer \<Rightarrow> transport_error option \<times> writer" where
  "WriteFrameDataPromptly e f w =
     (if ws_state w \<noteq> StateWork then (Some ErrConnClose, w)
      else if GetFrameLength f \<ge> FrameHeadLength then
        (case deadline_error e of
           Some err \<Rightarrow> (Some err, w)
         | None \<Rightarrow>
            (case write_error e of
               Some err \<Rightarrow> (Some err, w)
             | None \<Rightarrow> (None, w\<lparr>sent := sent w @ [elems (base f)]\<rparr>)))
      else (None, w))"

definition sessionTCPPing :: "io \<Rightarrow> writer \<Rightarrow> bool \<times> writer" where
  "sessionTCPPing e w = (let (err, w) = WriteFrameDataPromptly e FramePing w in (err \<noteq> None, w))"

definition sessionTCPPong :: "writer \<Rightarrow> writer" where
  "sessionTCPPong w = w\<lparr>circuitBreaker := map_option SetCircuitBreakerPass (circuitBreaker w)\<rparr>"

section \<open>Writing to the cache\<close>

datatype write_end = Wrote "transport_error option" writer | WritePanic writer

text \<open>The loop of \<open>WriteFrameDataToCache\<close> from the label \<open>loop\<close> on; one unit of fuel per turn.\<close>

fun cache_loop :: "nat \<Rightarrow> u32 \<Rightarrow> io \<Rightarrow> FrameSlice \<Rightarrow> nat \<Rightarrow> u32 \<Rightarrow> writer \<Rightarrow> write_end option" where
  "cache_loop 0 busyLimit e f errFunc busy w = None"
| "cache_loop (Suc n) busyLimit e f errFunc busy w =
     (let len = of_nat (GetFrameLength f);
          my = wSlot w;
          w = upd_slot my (\<lambda>s. s\<lparr>writeLock := writeLock s + 1, allotCursor := allotCursor s + len\<rparr>) w;
          end' = allotCursor (slots w ! my);
          start = end' - len;
          unlock = upd_slot my (\<lambda>s. s\<lparr>writeLock := writeLock s - 1\<rparr>)
      in if end' > BytesPoolLenght32 then
           (if start > BytesPoolLenght32 then
              (if busy > busyLimit then Some (Wrote (Some ErrFailureBusy) (breaker_error e (unlock w)))
               else cache_loop n busyLimit e f errFunc (busy + 1) (unlock w))
            else
              (let (ns, w) = newSlot w;
                   w = (if wSlot w = my then install_slot ns w else release ns w)
               in cache_loop n busyLimit e f errFunc 0 (unlock w)))
         else
           (case upd_sub (slot_buf (slots w ! my)) (unat start) (unat end') (\<lambda>b. snd (WriteToBytes f b)) of
              None \<Rightarrow> Some (WritePanic w)
            | Some buf \<Rightarrow>
               (let w = upd_slot my (\<lambda>s. s\<lparr>slot_buf := buf, slot_available := slot_available s + len,
                       rejectCursor := rejectCursor s + 1\<rparr>) w;
                    rc = rejectCursor (slots w ! my)
                in case arr_set (slot_rejects (slots w ! my)) (unat rc) (Some errFunc) of
                     None \<Rightarrow> Some (WritePanic w)
                   | Some rj \<Rightarrow>
                      (let w = unlock (upd_slot my (\<lambda>s. s\<lparr>slot_rejects := rj\<rparr>) w)
                       in if start = 0
                          then Some (Wrote None ((upd_slot my (\<lambda>s. s\<lparr>slot_timestamp := now e\<rparr>) w)
                                 \<lparr>waiting := waiting w + 1, JobQueue := JobQueue w @ [SlotJob my]\<rparr>))
                          else Some (Wrote None w)))))"

definition WriteFrameDataToCache :: "nat \<Rightarrow> u32 \<Rightarrow> io \<Rightarrow> FrameSlice \<Rightarrow> nat \<Rightarrow> writer \<Rightarrow> write_end option" where
  "WriteFrameDataToCache fuel busyLimit e f errFunc w =
     (if ws_state w \<noteq> StateWork then Some (Wrote (Some ErrConnClose) w)
      else
       (let (pass, w) = (case circuitBreaker w of
              None \<Rightarrow> (True, w)
            | Some cb \<Rightarrow> (let (p, cb, w) = IsPass (sessionTCPPing e) (now e) (now e) cb w
                          in (p, w\<lparr>circuitBreaker := Some cb\<rparr>)))
        in if \<not> pass then Some (Wrote (Some ErrcircuitBreakerIsPass) w)
           else if GetFrameLength f \<ge> BytesPoolLenght then
             Some (Wrote None (w\<lparr>waiting := waiting w + 1, JobQueue := JobQueue w @ [SimpleJob f errFunc]\<rparr>))
           else cache_loop fuel busyLimit e f errFunc 0 w))"

section \<open>The jobs\<close>

fun reject_calls :: "nat option list \<Rightarrow> transport_error \<Rightarrow> (nat \<times> transport_error) list" where
  "reject_calls [] err = []"
| "reject_calls (None # fs) err = reject_calls fs err"
| "reject_calls (Some f # fs) err = (f, err) # reject_calls fs err"

definition rejectsRange :: "io \<Rightarrow> nat \<Rightarrow> transport_error \<Rightarrow> writer \<Rightarrow> writer" where
  "rejectsRange e a err w =
     (let w = breaker_error e w;
          s = slots w ! a
      in w\<lparr>called := called w @ reject_calls (take (unat (rejectCursor s)) (slot_rejects s)) err\<rparr>)"

text \<open>\<open>WorkFunc\<close> of a slot; \<^const>\<open>None\<close>: it spins on a write lock that nobody releases.\<close>

definition slot_WorkFunc :: "io \<Rightarrow> nat \<Rightarrow> writer \<Rightarrow> writer option" where
  "slot_WorkFunc e a w =
     (let (ns, w) = newSlot w;
          w = (if wSlot w = a then install_slot ns w else release ns w)
      in if writeLock (slots w ! a) \<noteq> 0 then None
         else
          (let w = (if sint (now e - slot_timestamp (slots w ! a)) > sint SessionInternalTimeout
                    then rejectsRange e a ErrInternalTimeout w else w);
               s = slots w ! a;
               w = (if slot_available s \<ge> of_nat FrameHeadLength then
                      (let w = (case deadline_error e of Some err \<Rightarrow> rejectsRange e a err w | None \<Rightarrow> w)
                       in case write_error e of
                            Some err \<Rightarrow> rejectsRange e a err w
                          | None \<Rightarrow> w\<lparr>sent := sent w @ [take (unat (slot_available s)) (slot_buf s)]\<rparr>)
                    else rejectsRange e a ErrAvailableCursor w);
               w = w\<lparr>waiting := waiting w - 1\<rparr>;
               n = unat (rejectCursor s);
               w = upd_slot a (\<lambda>s. s\<lparr>slot_rejects := overwrite (slot_rejects s) 0 (replicate n None)\<rparr>) w
           in Some (release (slots w ! a) w)))"

definition simple_WorkFunc :: "io \<Rightarrow> FrameSlice \<Rightarrow> nat \<Rightarrow> writer \<Rightarrow> writer" where
  "simple_WorkFunc e f errFunc w =
     (let (err, w) = WriteFrameDataPromptly e f w;
          w = (case err of
                 None \<Rightarrow> w
               | Some err \<Rightarrow> (let w = breaker_error e w in w\<lparr>called := called w @ [(errFunc, err)]\<rparr>))
      in w\<lparr>waiting := waiting w - 1\<rparr>)"

text \<open>A worker takes the first job of the queue.\<close>

definition run_job :: "io \<Rightarrow> writer \<Rightarrow> writer option" where
  "run_job e w =
     (case JobQueue w of
        [] \<Rightarrow> Some w
      | SlotJob a # js \<Rightarrow> slot_WorkFunc e a (w\<lparr>JobQueue := js\<rparr>)
      | SimpleJob f x # js \<Rightarrow> Some (simple_WorkFunc e f x (w\<lparr>JobQueue := js\<rparr>)))"

text \<open>\<open>NewSessionTCP\<close> and \<open>Close\<close>.\<close>

definition NewSessionTCP :: "CircuitBreakerConfigure \<Rightarrow> u8 list list \<Rightarrow> nat option list list \<Rightarrow> writer" where
  "NewSessionTCP cbc bp rp =
     (let w = \<lparr>ws_state = StateWork, wSlot = 0, slots = [], bytesPool = bp, rejectPool = rp, JobQueue = [], waiting = 0,
               circuitBreaker = Some (NewCircuitBreaker cbc), sent = [], called = []\<rparr>;
          (ns, w) = newSlot w
      in install_slot ns w)"

text \<open>\<open>Close\<close> marks the session; the connection is closed when \<open>waiting\<close> is 0.\<close>

definition Close :: "writer \<Rightarrow> writer" where
  "Close w = w\<lparr>ws_state := StateDie\<rparr>"

end
