(* ===== verification/SessionWriteSpec.thy ===== *)
theory SessionWriteSpec
  imports SessionWrite
begin

text \<open>
  What the sending side of \<open>transport/tcp_session.go\<close> promises and where it does not keep it: the frames go
  out whole and in order; the error function of the last frame of a slot is never called.
\<close>

section \<open>What a slot holds\<close>

text \<open>
  The messages of a slot, each with its error function. The functions are stored from index 1 on. A slot
  that has been replaced may have a larger \<open>allotCursor\<close>.
\<close>

definition msg_bytes :: "(u8 list \<times> nat) list \<Rightarrow> u8 list" where
  "msg_bytes ms = concat (map fst ms)"

lemma msg_bytes_simps [simp]:
  "msg_bytes [] = []" "msg_bytes (m # ms) = fst m @ msg_bytes ms" "msg_bytes (ms @ ns) = msg_bytes ms @ msg_bytes ns"
  by (simp_all add: msg_bytes_def)

definition slot_filled :: "slot \<Rightarrow> (u8 list \<times> nat) list \<Rightarrow> bool" where
  "slot_filled s ms \<longleftrightarrow> length (slot_buf s) = 32768 \<and> length (slot_rejects s) = 4096 \<and> writeLock s = 0
     \<and> slot_available s = of_nat (length (msg_bytes ms)) \<and> length (msg_bytes ms) \<le> 32768
     \<and> take (length (msg_bytes ms)) (slot_buf s) = msg_bytes ms
     \<and> rejectCursor s = of_nat (length ms) \<and> length ms < 4096 \<and> slot_rejects s ! 0 = None
     \<and> (\<forall>i<length ms. slot_rejects s ! Suc i = Some (snd (ms ! i)))"

definition slot_holds :: "slot \<Rightarrow> (u8 list \<times> nat) list \<Rightarrow> bool" where
  "slot_holds s ms \<longleftrightarrow> slot_filled s ms \<and> allotCursor s = slot_available s"

definition pools_ok :: "writer \<Rightarrow> bool" where
  "pools_ok w \<longleftrightarrow> (\<forall>b\<in>set (bytesPool w). length b = 32768) \<and> (\<forall>r\<in>set (rejectPool w). length r = 4096 \<and> r ! 0 = None)"

text \<open>Fields that the slots do not touch.\<close>

lemma upd_slot_simps [simp]:
  "wSlot (upd_slot a f w) = wSlot w" "length (slots (upd_slot a f w)) = length (slots w)"
  "ws_state (upd_slot a f w) = ws_state w" "bytesPool (upd_slot a f w) = bytesPool w" "rejectPool (upd_slot a f w) = rejectPool w"
  "JobQueue (upd_slot a f w) = JobQueue w" "waiting (upd_slot a f w) = waiting w"
  "circuitBreaker (upd_slot a f w) = circuitBreaker w" "sent (upd_slot a f w) = sent w" "called (upd_slot a f w) = called w"
  by (simp_all add: upd_slot_def)

lemma upd_slot_at: "a < length (slots w) \<Longrightarrow> slots (upd_slot a f w) ! a = f (slots w ! a)"
  by (simp add: upd_slot_def)

lemma newSlot_spec:
  assumes "pools_ok w"
  shows "\<exists>ns bp rp. newSlot w = (ns, w\<lparr>bytesPool := bp, rejectPool := rp\<rparr>) \<and> slot_holds ns []
    \<and> pools_ok (w\<lparr>bytesPool := bp, rejectPool := rp\<rparr>)"
  using assms
  by (intro exI [of _ "fst (newSlot w)"] exI [of _ "tl (bytesPool w)"] exI [of _ "tl (rejectPool w)"])
    (cases "bytesPool w"; cases "rejectPool w";
      simp add: newSlot_def pools_ok_def slot_holds_def slot_filled_def BytesPoolLenght_def)

section \<open>One frame into the cache\<close>

lemma cursor_add:
  assumes "a \<le> 32768" "l < 32768"
  shows "unat (of_nat a + of_nat l :: u32) = a + l" "(of_nat a + of_nat l :: u32) - of_nat l = of_nat a"
    "unat (of_nat a :: u32) = a"
proof -
  have "a + l < 2 ^ LENGTH(32)" using assms by simp
  then have "unat (of_nat (a + l) :: u32) = a + l" by (rule unat_of_nat_small)
  then show "unat (of_nat a + of_nat l :: u32) = a + l" by simp
  show "unat (of_nat a :: u32) = a" using assms by (intro unat_of_nat_small) simp
qed simp

lemma cache_fits:
  assumes holds: "slot_holds (slots w ! wSlot w) ms" "wSlot w < length (slots w)"
    and f: "wf_slice (base f)" "elems (base f) = d" "d \<noteq> []" "length d < 32768"
    and room: "length (msg_bytes ms) + length d \<le> 32768" "Suc (length ms) < 4096"
    and nonempty: "\<forall>m\<in>set ms. fst m \<noteq> []"
  shows "\<exists>s. cache_loop (Suc n) bl e f x busy w = Some (Wrote None (w\<lparr>slots := (slots w)[wSlot w := s],
      waiting := (if ms = [] then waiting w + 1 else waiting w),
      JobQueue := (if ms = [] then JobQueue w @ [SlotJob (wSlot w)] else JobQueue w)\<rparr>))
    \<and> slot_holds s (ms @ [(d, x)]) \<and> slot_timestamp s = (if ms = [] then now e else slot_timestamp (slots w ! wSlot w))"
proof -
  let ?my = "wSlot w" and ?a = "length (msg_bytes ms)" and ?l = "length d"
  define s0 where "s0 = slots w ! ?my"
  note H = holds(1) [unfolded slot_holds_def slot_filled_def, folded s0_def]
  have len: "GetFrameLength f = ?l" using f by (metis GetFrameLength_def length_elems)
  have a: "?a \<le> 32768" using room by simp
  note C = cursor_add [OF a f(4)]
  have cur: "allotCursor s0 = of_nat ?a" "slot_available s0 = of_nat ?a" using H by auto
  have notover: "\<not> (of_nat ?a + of_nat ?l :: u32) > BytesPoolLenght32"
    using C(1) room(1) by (simp add: BytesPoolLenght32_def word_less_nat_alt)
  have upd: "upd_sub (slot_buf s0) (unat (of_nat ?a :: u32)) (unat (of_nat ?a + of_nat ?l :: u32)) (\<lambda>b. snd (WriteToBytes f b))
      = Some (overwrite (slot_buf s0) ?a d)"
  proof -
    have "snd (WriteToBytes f b) = d" if "length b = ?l" for b
      using that f len by (simp add: WriteToBytes_def overwrite_def GetFrameLength_def)
    moreover have "length (slot_buf s0) = 32768" using H by simp
    ultimately show ?thesis using C(1,3) room(1) by (simp add: upd_sub_def overwrite_def)
  qed
  have rc: "unat (of_nat (length ms) + 1 :: u32) = Suc (length ms)"
  proof -
    have "unat (of_nat (Suc (length ms)) :: u32) = Suc (length ms)" using room(2) by (intro unat_of_nat_small) simp
    then show ?thesis by (simp add: add.commute)
  qed
  have rj: "arr_set (slot_rejects s0) (unat (rejectCursor s0 + 1)) (Some x) = Some ((slot_rejects s0)[Suc (length ms) := Some x])"
    using H rc room(2) by (simp add: arr_set_def)
  have start: "(of_nat ?a :: u32) = 0 \<longleftrightarrow> ms = []"
  proof -
    have "?a = 0" if "(of_nat ?a :: u32) = 0"
      using arg_cong [OF that, of unat] unfolding C(3) by simp
    then have "(of_nat ?a :: u32) = 0 \<longleftrightarrow> ?a = 0" by auto
    moreover have "?a = 0 \<longleftrightarrow> ms = []" using nonempty by (cases ms) auto
    ultimately show ?thesis by simp
  qed
  define s where "s = s0\<lparr>allotCursor := of_nat ?a + of_nat ?l, slot_buf := overwrite (slot_buf s0) ?a d,
     slot_available := of_nat ?a + of_nat ?l, rejectCursor := rejectCursor s0 + 1,
     slot_rejects := (slot_rejects s0)[Suc (length ms) := Some x],
     slot_timestamp := (if ms = [] then now e else slot_timestamp s0)\<rparr>"
  have "length (slot_buf s) = 32768" "length (slot_rejects s) = 4096" "writeLock s = 0" "slot_rejects s ! 0 = None"
    using H room(1) by (simp_all add: s_def)
  moreover have "slot_available s = of_nat (length (msg_bytes (ms @ [(d, x)])))" "allotCursor s = slot_available s"
    by (simp_all add: s_def)
  moreover have "take (length (msg_bytes (ms @ [(d, x)]))) (slot_buf s) = msg_bytes (ms @ [(d, x)])"
    using H room(1) take_overwrite [of ?a d "slot_buf s0"] by (simp add: s_def)
  moreover have "rejectCursor s = of_nat (length (ms @ [(d, x)]))" using H by (simp add: s_def)
  moreover have "slot_rejects s ! Suc i = Some (snd ((ms @ [(d, x)]) ! i))" if "i < length (ms @ [(d, x)])" for i
  proof (cases "i = length ms")
    case True
    then show ?thesis using H room(2) by (simp add: s_def)
  next
    case False
    then have "i < length ms" using that by simp
    then show ?thesis using H by (simp add: s_def nth_append)
  qed
  ultimately have "slot_holds s (ms @ [(d, x)])"
    using room unfolding slot_holds_def slot_filled_def by simp
  moreover have "cache_loop (Suc n) bl e f x busy w = Some (Wrote None (w\<lparr>slots := (slots w)[?my := s],
      waiting := (if ms = [] then waiting w + 1 else waiting w),
      JobQueue := (if ms = [] then JobQueue w @ [SlotJob ?my] else JobQueue w)\<rparr>))"
    using holds(2) cur notover upd rj start C(2)
    by (simp add: Let_def len upd_slot_def s0_def [symmetric] s_def)
  ultimately show ?thesis by (auto simp: s_def s0_def)
qed


lemma cache_overflows:
  assumes holds: "slot_holds (slots w ! wSlot w) ms" "wSlot w < length (slots w)" "pools_ok w"
    and f: "GetFrameLength f = l" "l < 32768" "32768 < length (msg_bytes ms) + l"
  shows "\<exists>s ns bp rp. cache_loop (Suc n) bl e f x busy w
      = cache_loop n bl e f x 0 (w\<lparr>slots := (slots w)[wSlot w := s] @ [ns], wSlot := length (slots w), bytesPool := bp, rejectPool := rp\<rparr>)
    \<and> slot_filled s ms \<and> slot_timestamp s = slot_timestamp (slots w ! wSlot w) \<and> slot_holds ns []
    \<and> pools_ok (w\<lparr>bytesPool := bp, rejectPool := rp\<rparr>)"
proof -
  let ?my = "wSlot w" and ?a = "length (msg_bytes ms)"
  define s0 where "s0 = slots w ! ?my"
  note H = holds(1) [unfolded slot_holds_def slot_filled_def, folded s0_def]
  have a: "?a \<le> 32768" using H by simp
  note C = cursor_add [OF a f(2)]
  have cur: "allotCursor s0 = of_nat ?a" using H by auto
  have over: "(of_nat ?a + of_nat l :: u32) > BytesPoolLenght32"
    using C(1) f(3) by (simp add: BytesPoolLenght32_def word_less_nat_alt)
  have start: "\<not> (of_nat ?a :: u32) > BytesPoolLenght32"
    using C(3) a by (simp add: BytesPoolLenght32_def word_less_nat_alt)
  define w1 where "w1 = upd_slot ?my (\<lambda>s. s\<lparr>writeLock := writeLock s + 1, allotCursor := allotCursor s + of_nat l\<rparr>) w"
  have "pools_ok w1" using holds(3) by (simp add: w1_def pools_ok_def)
  then obtain ns bp rp where ns: "newSlot w1 = (ns, w1\<lparr>bytesPool := bp, rejectPool := rp\<rparr>)" "slot_holds ns []"
    "pools_ok (w1\<lparr>bytesPool := bp, rejectPool := rp\<rparr>)"
    using newSlot_spec by blast
  define s where "s = s0\<lparr>allotCursor := of_nat ?a + of_nat l\<rparr>"
  have "cache_loop (Suc n) bl e f x busy w
      = cache_loop n bl e f x 0 (upd_slot ?my (\<lambda>s. s\<lparr>writeLock := writeLock s - 1\<rparr>) (install_slot ns (w1\<lparr>bytesPool := bp, rejectPool := rp\<rparr>)))"
    using cur over start C(2) ns(1) holds(2) f(1)
    by (simp add: Let_def upd_slot_at s0_def [symmetric] w1_def [symmetric]) (simp add: w1_def upd_slot_at s0_def)
  moreover have "upd_slot ?my (\<lambda>s. s\<lparr>writeLock := writeLock s - 1\<rparr>) (install_slot ns (w1\<lparr>bytesPool := bp, rejectPool := rp\<rparr>))
      = w\<lparr>slots := (slots w)[?my := s] @ [ns], wSlot := length (slots w), bytesPool := bp, rejectPool := rp\<rparr>"
    using holds(2) cur by (simp add: upd_slot_def install_slot_def w1_def s_def s0_def nth_append list_update_append)
  moreover have "slot_filled s ms" using H by (simp add: slot_filled_def s_def)
  moreover have "slot_timestamp s = slot_timestamp s0" by (simp add: s_def)
  moreover have "pools_ok (w\<lparr>bytesPool := bp, rejectPool := rp\<rparr>)" using ns(3) by (simp add: pools_ok_def)
  ultimately show ?thesis using ns(2) unfolding s0_def
    by (intro exI [of _ s] exI [of _ ns] exI [of _ bp] exI [of _ rp]) (simp only: simp_thms)
qed

declare cache_loop.simps(2) [simp del]

section \<open>The worker\<close>

definition in_time :: "io \<Rightarrow> slot \<Rightarrow> bool" where
  "in_time e s \<longleftrightarrow> sint (now e - slot_timestamp s) \<le> sint SessionInternalTimeout"

lemma reject_calls_filled:
  assumes "slot_filled s ms"
  shows "reject_calls (take (unat (rejectCursor s)) (slot_rejects s)) err = map (\<lambda>m. (snd m, err)) (butlast ms)"
proof -
  have n: "unat (rejectCursor s) = length ms" "length ms < 4096" "length (slot_rejects s) = 4096" "slot_rejects s ! 0 = None"
    using assms by (auto simp: slot_filled_def intro: unat_of_nat_small)
  have calls: "reject_calls (map Some fs) err = map (\<lambda>f. (f, err)) fs" for fs
    by (induction fs) simp_all
  show ?thesis
  proof (cases ms)
    case Nil
    then show ?thesis using n(1) by simp
  next
    case (Cons m ms')
    have "take (length ms) (slot_rejects s) = None # map (Some \<circ> snd) (butlast ms)"
    proof (rule nth_equalityI)
      show "length (take (length ms) (slot_rejects s)) = length (None # map (Some \<circ> snd) (butlast ms))"
        using n Cons by simp
      fix i assume "i < length (take (length ms) (slot_rejects s))"
      then show "take (length ms) (slot_rejects s) ! i = (None # map (Some \<circ> snd) (butlast ms)) ! i"
        using n assms by (cases i) (simp_all add: slot_filled_def nth_butlast)
    qed
    then show ?thesis using calls [of "map snd (butlast ms)"] by (simp add: n(1) comp_def)
  qed
qed

lemma slot_work:
  assumes s: "slot_filled (slots w ! a) ms" "a < length (slots w)" "8 \<le> length (msg_bytes ms)" "pools_ok w"
    and e: "deadline_error e = None" "in_time e (slots w ! a)"
  shows "\<exists>w' ns. slot_WorkFunc e a w = Some w'
    \<and> sent w' = (if write_error e = None then sent w @ [msg_bytes ms] else sent w)
    \<and> called w' = called w @ (case write_error e of None \<Rightarrow> [] | Some err \<Rightarrow> map (\<lambda>m. (snd m, err)) (butlast ms))
    \<and> (write_error e = None \<longrightarrow> circuitBreaker w' = circuitBreaker w)
    \<and> ws_state w' = ws_state w \<and> JobQueue w' = JobQueue w \<and> waiting w' = waiting w - 1 \<and> pools_ok w'
    \<and> (\<forall>b<length (slots w). b \<noteq> a \<longrightarrow> slots w' ! b = slots w ! b) \<and> slot_holds ns []
    \<and> (if wSlot w = a then wSlot w' = length (slots w) \<and> length (slots w') = Suc (length (slots w)) \<and> slots w' ! length (slots w) = ns
       else wSlot w' = wSlot w \<and> length (slots w') = length (slots w))"
proof -
  obtain ns bp rp where ns: "newSlot w = (ns, w\<lparr>bytesPool := bp, rejectPool := rp\<rparr>)" "slot_holds ns []"
    "pools_ok (w\<lparr>bytesPool := bp, rejectPool := rp\<rparr>)"
    using newSlot_spec [OF s(4)] by blast
  define w1 where "w1 = (if wSlot w = a then install_slot ns (w\<lparr>bytesPool := bp, rejectPool := rp\<rparr>)
      else release ns (w\<lparr>bytesPool := bp, rejectPool := rp\<rparr>))"
  have pool1: "pools_ok w1"
    using ns(2,3) by (auto simp: w1_def pools_ok_def install_slot_def release_def slot_holds_def slot_filled_def)
  have at: "slots w1 ! a = slots w ! a" "a < length (slots w1)"
    using s(2) by (simp_all add: w1_def install_slot_def release_def nth_append)
  define w2 where "w2 = (case write_error e of
        None \<Rightarrow> w1\<lparr>sent := sent w1 @ [msg_bytes ms]\<rparr>
      | Some err \<Rightarrow> (breaker_error e w1)\<lparr>called := called w1 @ map (\<lambda>m. (snd m, err)) (butlast ms)\<rparr>)"
  have len: "unat (slot_available (slots w ! a)) = length (msg_bytes ms)"
    using s(1) by (auto simp: slot_filled_def intro: unat_of_nat_small)
  then have "(of_nat FrameHeadLength :: u32) \<le> slot_available (slots w ! a)"
    using s(3) by (simp add: word_le_nat_alt FrameHeadLength_def)
  moreover have "take (unat (slot_available (slots w ! a))) (slot_buf (slots w ! a)) = msg_bytes ms"
    using s(1) len by (simp add: slot_filled_def)
  moreover have "writeLock (slots w ! a) = 0" using s(1) by (simp add: slot_filled_def)
  ultimately have "slot_WorkFunc e a w =
      (let w = w2\<lparr>waiting := waiting w2 - 1\<rparr>;
           n = unat (rejectCursor (slots w ! a));
           w = upd_slot a (\<lambda>s. s\<lparr>slot_rejects := overwrite (slot_rejects s) 0 (replicate n None)\<rparr>) w
       in Some (release (slots w ! a) w))" (is "_ = ?end")
    using e ns(1) at reject_calls_filled [OF s(1)]
    by (auto simp: slot_WorkFunc_def Let_def w1_def [symmetric] in_time_def w2_def rejectsRange_def breaker_error_def split: option.splits)
  moreover have n: "unat (rejectCursor (slots w ! a)) = length ms" "length ms < 4096"
    using s(1) by (auto simp: slot_filled_def intro: unat_of_nat_small)
  define s3 where "s3 = (slots w ! a)\<lparr>slot_rejects := overwrite (slot_rejects (slots w ! a)) 0 (replicate (length ms) None)\<rparr>"
  define w3 where "w3 = release s3 (w2\<lparr>waiting := waiting w2 - 1, slots := (slots w2)[a := s3]\<rparr>)"
  have w2: "slots w2 = slots w1" "bytesPool w2 = bytesPool w1" "rejectPool w2 = rejectPool w1" "wSlot w2 = wSlot w1"
    "ws_state w2 = ws_state w1" "JobQueue w2 = JobQueue w1" "waiting w2 = waiting w1"
    by (simp_all add: w2_def breaker_error_def split: option.splits)
  have "?end = Some w3"
    using at n(1) by (simp add: Let_def upd_slot_def w2 w3_def s3_def)
  ultimately have "slot_WorkFunc e a w = Some w3" by simp
  moreover have "sent w3 = (if write_error e = None then sent w @ [msg_bytes ms] else sent w)"
    "called w3 = called w @ (case write_error e of None \<Rightarrow> [] | Some err \<Rightarrow> map (\<lambda>m. (snd m, err)) (butlast ms))"
    "write_error e = None \<longrightarrow> circuitBreaker w3 = circuitBreaker w"
    by (simp_all add: w3_def release_def w2_def breaker_error_def w1_def install_slot_def split: option.splits)
  moreover have "ws_state w3 = ws_state w" "JobQueue w3 = JobQueue w" "waiting w3 = waiting w - 1"
    by (simp_all add: w3_def release_def w2 w1_def install_slot_def)
  moreover have "length (slot_buf s3) = 32768" "length (slot_rejects s3) = 4096" "slot_rejects s3 ! 0 = None"
    using s(1) n(2) by (auto simp: s3_def slot_filled_def nth_overwrite)
  then have "pools_ok w3" using pool1 by (simp add: pools_ok_def w3_def release_def w2)
  moreover have "\<forall>b<length (slots w). b \<noteq> a \<longrightarrow> slots w3 ! b = slots w ! b"
    by (simp add: w3_def release_def w2 w1_def install_slot_def nth_append)
  moreover have "if wSlot w = a then wSlot w3 = length (slots w) \<and> length (slots w3) = Suc (length (slots w)) \<and> slots w3 ! length (slots w) = ns
       else wSlot w3 = wSlot w \<and> length (slots w3) = length (slots w)"
    using s(2) by (simp add: w3_def release_def w2 w1_def install_slot_def nth_append nth_list_update)
  ultimately show ?thesis using ns(2) by (intro exI [of _ w3] exI [of _ ns]) (simp only: simp_thms)
qed


section \<open>Runs of a session\<close>

datatype wr_op = SendOp io FrameSlice nat | WorkOp io

fun wr_run :: "nat \<Rightarrow> u32 \<Rightarrow> writer \<Rightarrow> wr_op list \<Rightarrow> writer option" where
  "wr_run fuel bl w [] = Some w"
| "wr_run fuel bl w (SendOp e f x # ops) =
     (case WriteFrameDataToCache fuel bl e f x w of Some (Wrote None w) \<Rightarrow> wr_run fuel bl w ops | _ \<Rightarrow> None)"
| "wr_run fuel bl w (WorkOp e # ops) = (case run_job e w of Some w \<Rightarrow> wr_run fuel bl w ops | None \<Rightarrow> None)"

text \<open>The connection works and the clock stays within ten seconds of \<open>t0\<close>.\<close>

definition quiet :: "int \<Rightarrow> io \<Rightarrow> bool" where
  "quiet t0 e \<longleftrightarrow> deadline_error e = None \<and> write_error e = None \<and> t0 \<le> sint (now e) \<and> sint (now e) \<le> t0 + 10000000000"

fun wr_op_ok :: "int \<Rightarrow> wr_op \<Rightarrow> bool" where
  "wr_op_ok t0 (SendOp e f x) = (quiet t0 e \<and> wf_slice (base f) \<and> 9 \<le> length (elems (base f)) \<and> length (elems (base f)) < 32768)"
| "wr_op_ok t0 (WorkOp e) = quiet t0 e"

fun wr_frames :: "wr_op list \<Rightarrow> u8 list list" where
  "wr_frames [] = []"
| "wr_frames (SendOp e f x # ops) = elems (base f) # wr_frames ops"
| "wr_frames (WorkOp e # ops) = wr_frames ops"

definition stamped :: "int \<Rightarrow> slot \<Rightarrow> bool" where
  "stamped t0 s \<longleftrightarrow> t0 \<le> sint (slot_timestamp s) \<and> sint (slot_timestamp s) \<le> t0 + 10000000000"

definition waiting_slot :: "int \<Rightarrow> writer \<Rightarrow> nat \<Rightarrow> (u8 list \<times> nat) list \<Rightarrow> bool" where
  "waiting_slot t0 w a g \<longleftrightarrow> a < length (slots w) \<and> a \<noteq> wSlot w \<and> slot_filled (slots w ! a) g \<and> g \<noteq> [] \<and> stamped t0 (slots w ! a)"

definition long_msgs :: "(u8 list \<times> nat) list \<Rightarrow> bool" where
  "long_msgs ms \<longleftrightarrow> (\<forall>m\<in>set ms. 9 \<le> length (fst m))"

text \<open>\<open>as\<close> are the full slots whose jobs are queued, \<open>gs\<close> their messages, \<open>cur\<close> those of the current slot.\<close>

definition writer_abs :: "int \<Rightarrow> writer \<Rightarrow> nat list \<Rightarrow> (u8 list \<times> nat) list list \<Rightarrow> (u8 list \<times> nat) list \<Rightarrow> bool" where
  "writer_abs t0 w as gs cur \<longleftrightarrow>
     list_all2 (waiting_slot t0 w) as gs \<and> distinct as \<and> list_all long_msgs gs \<and> long_msgs cur
     \<and> wSlot w < length (slots w) \<and> slot_holds (slots w ! wSlot w) cur \<and> (cur \<noteq> [] \<longrightarrow> stamped t0 (slots w ! wSlot w))
     \<and> JobQueue w = map SlotJob as @ (if cur = [] then [] else [SlotJob (wSlot w)])
     \<and> pools_ok w \<and> ws_state w = StateWork \<and> called w = []
     \<and> (\<forall>cb. circuitBreaker w = Some cb \<longrightarrow> cb_state cb = StateCircuitBreakerClosed)"

definition unsent :: "(u8 list \<times> nat) list list \<Rightarrow> (u8 list \<times> nat) list \<Rightarrow> u8 list" where
  "unsent gs cur = concat (map msg_bytes gs) @ msg_bytes cur"

lemma long_msgs_length: "long_msgs ms \<Longrightarrow> 9 * length ms \<le> length (msg_bytes ms)"
  by (induction ms) (auto simp: long_msgs_def)

lemma quiet_in_time:
  assumes "quiet t0 e" "stamped t0 s" "0 \<le> t0" "t0 < 2 ^ 62"
  shows "in_time e s"
proof -
  have "sint (now e - slot_timestamp s) = signed_take_bit 63 (sint (now e) - sint (slot_timestamp s))"
    by (simp add: sint_word_ariths)
  also have "\<dots> = sint (now e) - sint (slot_timestamp s)"
    by (rule signed_take_bit_int_eq_self) (use assms in \<open>auto simp: quiet_def stamped_def\<close>)
  also have "\<dots> \<le> 10000000000" using assms by (auto simp: quiet_def stamped_def)
  finally show ?thesis by (simp add: in_time_def SessionInternalTimeout_def)
qed

lemma waiting_slot_cong:
  assumes "list_all2 (waiting_slot t0 w) as gs" "length (slots w) \<le> length (slots w')"
    and "\<And>a. a \<in> set as \<Longrightarrow> slots w' ! a = slots w ! a \<and> a \<noteq> wSlot w'"
  shows "list_all2 (waiting_slot t0 w') as gs"
  unfolding list_all2_conv_all_nth
proof (intro conjI allI impI)
  show "length as = length gs" using assms(1) by (rule list_all2_lengthD)
  fix i assume i: "i < length as"
  then have "waiting_slot t0 w (as ! i) (gs ! i)" using assms(1) by (simp add: list_all2_conv_all_nth)
  then show "waiting_slot t0 w' (as ! i) (gs ! i)" using assms(2) assms(3) [of "as ! i"] i by (simp add: waiting_slot_def)
qed

lemma list_all2_waiting: "list_all2 (waiting_slot t0 w) as gs \<Longrightarrow> a \<in> set as \<Longrightarrow> a < length (slots w) \<and> a \<noteq> wSlot w"
  by (induction rule: list_all2_induct) (auto simp: waiting_slot_def)

lemma wr_op_okD:
  assumes "wr_op_ok t0 (SendOp e f x)"
  shows "quiet t0 e" "wf_slice (base f)" "9 \<le> length (elems (base f))" "length (elems (base f)) < 32768"
    "elems (base f) \<noteq> []" "GetFrameLength f = length (elems (base f))"
proof -
  note o = assms [unfolded wr_op_ok.simps]
  show "quiet t0 e" "wf_slice (base f)" "9 \<le> length (elems (base f))" "length (elems (base f)) < 32768"
    using o by (simp_all only: simp_thms)
  show "elems (base f) \<noteq> []" using \<open>9 \<le> length (elems (base f))\<close> by fastforce
  show "GetFrameLength f = length (elems (base f))" using \<open>wf_slice (base f)\<close> by (simp add: GetFrameLength_def)
qed

text \<open>One frame: into the current slot, or into a fresh one.\<close>

lemma send_fits:
  assumes abs: "writer_abs t0 w as gs cur" and op: "wr_op_ok t0 (SendOp e f x)"
    and room: "length (msg_bytes cur) + length (elems (base f)) \<le> 32768"
  shows "\<exists>w'. cache_loop (Suc n) bl e f x busy w = Some (Wrote None w') \<and> writer_abs t0 w' as gs (cur @ [(elems (base f), x)])
    \<and> sent w' = sent w"
proof -
  let ?d = "elems (base f)"
  note A = abs [unfolded writer_abs_def]
  have cnt: "Suc (length cur) < 4096" using long_msgs_length [of cur] A room op by simp
  have ne: "\<forall>m\<in>set cur. fst m \<noteq> []" using A by (auto simp: long_msgs_def)
  note d = wr_op_okD [OF op]
  obtain s where s: "cache_loop (Suc n) bl e f x busy w = Some (Wrote None (w\<lparr>slots := (slots w)[wSlot w := s],
      waiting := (if cur = [] then waiting w + 1 else waiting w),
      JobQueue := (if cur = [] then JobQueue w @ [SlotJob (wSlot w)] else JobQueue w)\<rparr>))"
    "slot_holds s (cur @ [(?d, x)])" "slot_timestamp s = (if cur = [] then now e else slot_timestamp (slots w ! wSlot w))"
    using cache_fits [of w cur f ?d n bl e x busy] A op room cnt ne d by auto
  let ?w = "w\<lparr>slots := (slots w)[wSlot w := s], waiting := (if cur = [] then waiting w + 1 else waiting w),
      JobQueue := (if cur = [] then JobQueue w @ [SlotJob (wSlot w)] else JobQueue w)\<rparr>"
  have "list_all2 (waiting_slot t0 ?w) as gs"
    by (rule waiting_slot_cong [of t0 w]) (use A in \<open>auto dest: list_all2_waiting\<close>)
  moreover have "stamped t0 s" using s(3) A op by (auto simp: stamped_def quiet_def)
  moreover have "pools_ok ?w" using A by (simp add: pools_ok_def)
  moreover have "long_msgs (cur @ [(?d, x)])" using A d(3) by (simp add: long_msgs_def)
  ultimately have "writer_abs t0 ?w as gs (cur @ [(?d, x)])"
    unfolding writer_abs_def using A s(2) by simp
  then show ?thesis using s(1) by (intro exI [of _ ?w]) simp
qed

lemma send_overflows:
  assumes abs: "writer_abs t0 w as gs cur" and op: "wr_op_ok t0 (SendOp e f x)"
    and full: "32768 < length (msg_bytes cur) + length (elems (base f))"
  shows "\<exists>w'. cache_loop (Suc (Suc n)) bl e f x busy w = Some (Wrote None w')
    \<and> writer_abs t0 w' (as @ [wSlot w]) (gs @ [cur]) [(elems (base f), x)] \<and> sent w' = sent w"
proof -
  let ?d = "elems (base f)"
  note A = abs [unfolded writer_abs_def]
  have cur: "cur \<noteq> []" using full op by auto
  note len = wr_op_okD(6) [OF op]
  obtain s ns bp rp where o: "cache_loop (Suc (Suc n)) bl e f x busy w
      = cache_loop (Suc n) bl e f x 0 (w\<lparr>slots := (slots w)[wSlot w := s] @ [ns], wSlot := length (slots w), bytesPool := bp, rejectPool := rp\<rparr>)"
    "slot_filled s cur" "slot_timestamp s = slot_timestamp (slots w ! wSlot w)" "slot_holds ns []"
    "pools_ok (w\<lparr>bytesPool := bp, rejectPool := rp\<rparr>)"
    using cache_overflows [of w cur f "length ?d" "Suc n" bl e x busy] A len op full by auto
  let ?w = "w\<lparr>slots := (slots w)[wSlot w := s] @ [ns], wSlot := length (slots w), bytesPool := bp, rejectPool := rp\<rparr>"
  have "list_all2 (waiting_slot t0 ?w) as gs"
    by (rule waiting_slot_cong [of t0 w]) (use A in \<open>auto dest!: list_all2_waiting simp: nth_append\<close>)
  moreover have "waiting_slot t0 ?w (wSlot w) cur"
    using A o(2,3) cur by (auto simp: waiting_slot_def nth_append stamped_def)
  ultimately have "list_all2 (waiting_slot t0 ?w) (as @ [wSlot w]) (gs @ [cur])" by (simp add: list_all2_appendI)
  moreover have "wSlot w \<notin> set as" using A by (auto dest: list_all2_waiting)
  moreover have "pools_ok ?w" using o(5) by (simp add: pools_ok_def)
  ultimately have "writer_abs t0 ?w (as @ [wSlot w]) (gs @ [cur]) []"
    unfolding writer_abs_def using A o(4) cur by (simp add: nth_append long_msgs_def)
  from send_fits [OF this op, of n bl 0] op o(1) show ?thesis by auto
qed

lemma write_entry:
  assumes "ws_state w = StateWork" "\<forall>cb. circuitBreaker w = Some cb \<longrightarrow> cb_state cb = StateCircuitBreakerClosed"
  shows "WriteFrameDataToCache fuel bl e f x w =
     (if GetFrameLength f \<ge> BytesPoolLenght
      then Some (Wrote None (w\<lparr>waiting := waiting w + 1, JobQueue := JobQueue w @ [SimpleJob f x]\<rparr>))
      else cache_loop fuel bl e f x 0 w)"
proof (cases "circuitBreaker w")
  case (Some cb)
  define w1 where "w1 = w\<lparr>circuitBreaker := Some cb\<rparr>"
  have "w1 = w" using Some by (simp add: w1_def)
  then show ?thesis using assms Some by (simp add: WriteFrameDataToCache_def IsPass_def w1_def [symmetric])
qed (use assms in \<open>simp add: WriteFrameDataToCache_def\<close>)

lemma send_op:
  assumes abs: "writer_abs t0 w as gs cur" and op: "wr_op_ok t0 (SendOp e f x)" and fuel: "2 \<le> fuel"
  shows "\<exists>w' as' gs' cur'. WriteFrameDataToCache fuel bl e f x w = Some (Wrote None w') \<and> writer_abs t0 w' as' gs' cur'
    \<and> sent w' = sent w \<and> unsent gs' cur' = unsent gs cur @ elems (base f) \<and> length (JobQueue w') \<le> Suc (length (JobQueue w))"
proof -
  note A = abs [unfolded writer_abs_def]
  define n where "n = fuel - 2"
  have n: "fuel = Suc (Suc n)" using fuel by (simp add: n_def)
  have "GetFrameLength f < BytesPoolLenght" using wr_op_okD(4,6) [OF op] by (simp add: BytesPoolLenght_def)
  then have entry: "WriteFrameDataToCache fuel bl e f x w = cache_loop fuel bl e f x 0 w"
    using write_entry [of w fuel bl e f x] A by simp
  have jobs: "length (JobQueue w') = length as' + (if cur' = [] then 0 else 1)" if "writer_abs t0 w' as' gs' cur'" for w' as' gs' cur'
    using that by (simp add: writer_abs_def)
  show ?thesis
  proof (cases "length (msg_bytes cur) + length (elems (base f)) \<le> 32768")
    case True
    from send_fits [OF abs op True, of "Suc n" bl 0] obtain w' where
      w': "cache_loop fuel bl e f x 0 w = Some (Wrote None w')" "writer_abs t0 w' as gs (cur @ [(elems (base f), x)])" "sent w' = sent w"
      unfolding n by blast
    show ?thesis using entry w' jobs [OF w'(2)] jobs [OF abs]
      by (intro exI [of _ w'] exI [of _ as] exI [of _ gs] exI [of _ "cur @ [(elems (base f), x)]"]) (simp add: unsent_def)
  next
    case False
    then have ne: "cur \<noteq> []" using wr_op_okD(4) [OF op] by auto
    from send_overflows [OF abs op, of n bl 0] False obtain w' where
      w': "cache_loop fuel bl e f x 0 w = Some (Wrote None w')" "writer_abs t0 w' (as @ [wSlot w]) (gs @ [cur]) [(elems (base f), x)]"
      "sent w' = sent w" unfolding n by auto
    show ?thesis using entry w' jobs [OF w'(2)] jobs [OF abs] ne
      by (intro exI [of _ w'] exI [of _ "as @ [wSlot w]"] exI [of _ "gs @ [cur]"] exI [of _ "[(elems (base f), x)]"]) (simp add: unsent_def)
  qed
qed

text \<open>One job: the oldest slot goes out whole.\<close>

lemma work_op:
  assumes abs: "writer_abs t0 w as gs cur" and e: "quiet t0 e" and t0: "0 \<le> t0" "t0 < 2 ^ 62"
  shows "\<exists>w' as' gs' cur'. run_job e w = Some w' \<and> writer_abs t0 w' as' gs' cur'
    \<and> concat (sent w') @ unsent gs' cur' = concat (sent w) @ unsent gs cur
    \<and> length (JobQueue w') = length (JobQueue w) - 1"
proof -
  note A = abs [unfolded writer_abs_def]
  have io: "deadline_error e = None" "write_error e = None" using e by (auto simp: quiet_def)
  have bytes: "8 \<le> length (msg_bytes ms)" if "long_msgs ms" "ms \<noteq> []" for ms
    using long_msgs_length [OF that(1)] that(2) by (cases ms) simp_all
  show ?thesis
  proof (cases as)
    case (Cons a as1)
    then obtain g gs1 where gs: "gs = g # gs1" "waiting_slot t0 w a g" "list_all2 (waiting_slot t0 w) as1 gs1"
      using A by (cases gs) auto
    define w1 where "w1 = w\<lparr>JobQueue := map SlotJob as1 @ (if cur = [] then [] else [SlotJob (wSlot w)])\<rparr>"
    have a: "a < length (slots w1)" "a \<noteq> wSlot w1" "slot_filled (slots w1 ! a) g" "g \<noteq> []" "stamped t0 (slots w1 ! a)"
      using gs(2) by (auto simp: waiting_slot_def w1_def)
    have "run_job e w = slot_WorkFunc e a w1" using A Cons by (simp add: run_job_def w1_def)
    moreover have "pools_ok w1" using A by (simp add: pools_ok_def w1_def)
    moreover have "8 \<le> length (msg_bytes g)" using bytes A gs(1) a(4) by simp
    ultimately obtain w' where w': "run_job e w = Some w'" "sent w' = sent w1 @ [msg_bytes g]" "called w' = called w1"
      "circuitBreaker w' = circuitBreaker w1" "ws_state w' = ws_state w1" "JobQueue w' = JobQueue w1" "pools_ok w'"
      "\<forall>b<length (slots w1). b \<noteq> a \<longrightarrow> slots w' ! b = slots w1 ! b" "wSlot w' = wSlot w1" "length (slots w') = length (slots w1)"
      using slot_work [OF a(3,1) _ _ io(1) quiet_in_time [OF e a(5) t0]] io(2) a(2) by auto
    have "list_all2 (waiting_slot t0 w') as1 gs1"
      by (rule waiting_slot_cong [OF gs(3)])
        (use w'(8-10) A Cons gs(3) in \<open>auto simp: w1_def dest: list_all2_waiting\<close>)
    then have "writer_abs t0 w' as1 gs1 cur"
      unfolding writer_abs_def using A Cons gs(1) w' a(2) by (simp add: w1_def)
    then show ?thesis using w'(1,2,6) gs(1) A Cons by (fastforce simp: unsent_def w1_def)
  next
    case Nil
    then have gs: "gs = []" using A by simp
    show ?thesis
    proof (cases "cur = []")
      case True
      then show ?thesis using Nil A abs by (fastforce simp: run_job_def)
    next
      case False
      define w1 where "w1 = w\<lparr>JobQueue := []\<rparr>"
      have run: "run_job e w = slot_WorkFunc e (wSlot w) w1" using A Nil False by (simp add: run_job_def w1_def)
      have a: "wSlot w < length (slots w1)" "slot_filled (slots w1 ! wSlot w) cur" "stamped t0 (slots w1 ! wSlot w)" "pools_ok w1"
        using A False by (auto simp: slot_holds_def w1_def pools_ok_def)
      have c8: "8 \<le> length (msg_bytes cur)" using bytes A False by simp
      have my: "wSlot w1 = wSlot w" by (simp add: w1_def)
      obtain w' ns where w': "slot_WorkFunc e (wSlot w) w1 = Some w'" "sent w' = sent w1 @ [msg_bytes cur]" "called w' = called w1"
        "circuitBreaker w' = circuitBreaker w1" "ws_state w' = ws_state w1" "JobQueue w' = JobQueue w1" "pools_ok w'"
        "slot_holds ns []" "wSlot w' = length (slots w1)" "length (slots w') = Suc (length (slots w1))" "slots w' ! length (slots w1) = ns"
        using slot_work [OF a(2,1) c8 a(4) io(1) quiet_in_time [OF e a(3) t0]] io(2) my by auto
      have "writer_abs t0 w' [] [] []"
        unfolding writer_abs_def using A w' by (simp add: w1_def long_msgs_def)
      then show ?thesis using run w'(1,2,6) gs A Nil False
        by (intro exI [of _ w'] exI [of _ "[]"]) (simp add: unsent_def w1_def)
    qed
  qed
qed

lemma wr_run_abs:
  assumes "writer_abs t0 w as gs cur" "list_all (wr_op_ok t0) ops" "0 \<le> t0" "t0 < 2 ^ 62" "2 \<le> fuel"
  shows "\<exists>w' as' gs' cur'. wr_run fuel bl w ops = Some w' \<and> writer_abs t0 w' as' gs' cur'
    \<and> concat (sent w') @ unsent gs' cur' = concat (sent w) @ unsent gs cur @ concat (wr_frames ops)
    \<and> length (JobQueue w') \<le> length (JobQueue w) + length ops"
  using assms(1,2)
proof (induction ops arbitrary: w as gs cur)
  case (Cons op ops)
  show ?case
  proof (cases op)
    case (SendOp e f x)
    then have "wr_op_ok t0 (SendOp e f x)" using Cons.prems(2) unfolding SendOp list.pred_inject by blast
    from send_op [OF Cons.prems(1) this assms(5), of bl] obtain w1 as1 gs1 cur1 where
      s: "WriteFrameDataToCache fuel bl e f x w = Some (Wrote None w1)" "writer_abs t0 w1 as1 gs1 cur1"
      "sent w1 = sent w" "unsent gs1 cur1 = unsent gs cur @ elems (base f)" "length (JobQueue w1) \<le> Suc (length (JobQueue w))" by blast
    from Cons.IH [OF s(2)] Cons.prems(2) obtain w' as' gs' cur' where
      "wr_run fuel bl w1 ops = Some w'" "writer_abs t0 w' as' gs' cur'"
      "concat (sent w') @ unsent gs' cur' = concat (sent w1) @ unsent gs1 cur1 @ concat (wr_frames ops)"
      "length (JobQueue w') \<le> length (JobQueue w1) + length ops" by auto
    then show ?thesis using s SendOp by (intro exI [of _ w'] exI [of _ as'] exI [of _ gs'] exI [of _ cur']) simp
  next
    case (WorkOp e)
    then have "quiet t0 e" using Cons.prems(2) by simp
    from work_op [OF Cons.prems(1) this assms(3,4)] obtain w1 as1 gs1 cur1 where
      s: "run_job e w = Some w1" "writer_abs t0 w1 as1 gs1 cur1"
      "concat (sent w1) @ unsent gs1 cur1 = concat (sent w) @ unsent gs cur" "length (JobQueue w1) = length (JobQueue w) - 1" by blast
    from Cons.IH [OF s(2)] Cons.prems(2) obtain w' as' gs' cur' where
      "wr_run fuel bl w1 ops = Some w'" "writer_abs t0 w' as' gs' cur'"
      "concat (sent w') @ unsent gs' cur' = concat (sent w1) @ unsent gs1 cur1 @ concat (wr_frames ops)"
      "length (JobQueue w') \<le> length (JobQueue w1) + length ops" by auto
    then show ?thesis using s WorkOp
      by (intro exI [of _ w'] exI [of _ as'] exI [of _ gs'] exI [of _ cur']) (simp flip: append_assoc)
  qed
qed auto

lemma new_session_abs:
  assumes "\<forall>b\<in>set bp. length b = 32768" "\<forall>r\<in>set rp. length r = 4096 \<and> r ! 0 = None"
  shows "writer_abs t0 (NewSessionTCP cbc bp rp) [] [] []" "sent (NewSessionTCP cbc bp rp) = []"
proof -
  define w where "w = \<lparr>ws_state = StateWork, wSlot = 0, slots = [], bytesPool = bp, rejectPool = rp, JobQueue = [], waiting = 0,
               circuitBreaker = Some (NewCircuitBreaker cbc), sent = [], called = []\<rparr>"
  have "pools_ok w" using assms by (simp add: w_def pools_ok_def)
  then obtain ns bp' rp' where ns: "newSlot w = (ns, w\<lparr>bytesPool := bp', rejectPool := rp'\<rparr>)" "slot_holds ns []"
    "pools_ok (w\<lparr>bytesPool := bp', rejectPool := rp'\<rparr>)"
    using newSlot_spec by blast
  have new: "NewSessionTCP cbc bp rp = install_slot ns (w\<lparr>bytesPool := bp', rejectPool := rp'\<rparr>)"
    using ns(1) by (simp add: NewSessionTCP_def w_def)
  show "writer_abs t0 (NewSessionTCP cbc bp rp) [] [] []"
    unfolding writer_abs_def new
    using ns(2,3) by (simp add: install_slot_def w_def pools_ok_def long_msgs_def NewCircuitBreaker_def)
  show "sent (NewSessionTCP cbc bp rp) = []" unfolding new by (simp add: install_slot_def w_def)
qed

section \<open>One slot, from its first frame to its job\<close>

text \<open>A session that has only filled its first slot with the messages \<open>ms\<close>.\<close>

definition filling :: "writer \<Rightarrow> (u8 list \<times> nat) list \<Rightarrow> i64 \<Rightarrow> bool" where
  "filling w ms t \<longleftrightarrow> wSlot w < length (slots w) \<and> slot_holds (slots w ! wSlot w) ms \<and> pools_ok w
     \<and> ws_state w = StateWork \<and> (\<forall>cb. circuitBreaker w = Some cb \<longrightarrow> cb_state cb = StateCircuitBreakerClosed)
     \<and> JobQueue w = (if ms = [] then [] else [SlotJob (wSlot w)]) \<and> sent w = [] \<and> called w = []
     \<and> (\<forall>m\<in>set ms. fst m \<noteq> []) \<and> (ms \<noteq> [] \<longrightarrow> slot_timestamp (slots w ! wSlot w) = t)"

lemma new_session_filling:
  assumes "\<forall>b\<in>set bp. length b = 32768" "\<forall>r\<in>set rp. length r = 4096 \<and> r ! 0 = None"
  shows "filling (NewSessionTCP cbc bp rp) [] t"
  using new_session_abs [OF assms, where cbc = cbc] by (simp add: writer_abs_def filling_def)

definition send_msg :: "io \<times> FrameSlice \<times> nat \<Rightarrow> u8 list \<times> nat" where
  "send_msg m = (elems (base (fst (snd m))), snd (snd m))"

definition send_ops :: "(io \<times> FrameSlice \<times> nat) list \<Rightarrow> wr_op list" where
  "send_ops ms = map (\<lambda>(e, f, x). SendOp e f x) ms"

definition small_frame :: "FrameSlice \<Rightarrow> bool" where
  "small_frame f \<longleftrightarrow> wf_slice (base f) \<and> 8 \<le> length (elems (base f)) \<and> length (elems (base f)) < 32768"

text \<open>Frames that fit into the first slot with their error functions.\<close>

definition one_slot :: "(io \<times> FrameSlice \<times> nat) list \<Rightarrow> bool" where
  "one_slot ms \<longleftrightarrow> list_all (\<lambda>(e, f, x). small_frame f) ms \<and> length ms < 4096
     \<and> length (msg_bytes (map send_msg ms)) \<le> 32768"

definition first_now :: "(io \<times> FrameSlice \<times> nat) list \<Rightarrow> i64" where
  "first_now ms = now (fst (hd ms))"

lemma fill_one:
  assumes w: "filling w ms t" "small_frame f" "Suc (length ms) < 4096" "length (msg_bytes ms) + length (elems (base f)) \<le> 32768"
  shows "\<exists>w'. WriteFrameDataToCache (Suc n) bl e f x w = Some (Wrote None w')
     \<and> filling w' (ms @ [(elems (base f), x)]) (if ms = [] then now e else t)"
proof -
  let ?d = "elems (base f)"
  note F = w(1) [unfolded filling_def]
  have f: "wf_slice (base f)" "?d \<noteq> []" "length ?d < 32768" "GetFrameLength f < BytesPoolLenght"
    using w(2) by (auto simp: small_frame_def GetFrameLength_def BytesPoolLenght_def)
  obtain s where s: "cache_loop (Suc n) bl e f x 0 w = Some (Wrote None (w\<lparr>slots := (slots w)[wSlot w := s],
      waiting := (if ms = [] then waiting w + 1 else waiting w),
      JobQueue := (if ms = [] then JobQueue w @ [SlotJob (wSlot w)] else JobQueue w)\<rparr>))"
    "slot_holds s (ms @ [(?d, x)])" "slot_timestamp s = (if ms = [] then now e else slot_timestamp (slots w ! wSlot w))"
    using cache_fits [of w ms f ?d n bl e x 0] F f w(3,4) by auto
  then show ?thesis using write_entry [of w "Suc n" bl e f x] F f
    by (auto simp: filling_def pools_ok_def)
qed

lemma fill_slot:
  assumes "filling w ms t" "list_all (\<lambda>(e, f, x). small_frame f) sends" "length ms + length sends < 4096"
    "length (msg_bytes (ms @ map send_msg sends)) \<le> 32768" "ms = [] \<longrightarrow> sends \<noteq> [] \<longrightarrow> t = first_now sends"
  shows "\<exists>w'. wr_run (Suc n) bl w (send_ops sends) = Some w' \<and> filling w' (ms @ map send_msg sends) t"
  using assms
proof (induction sends arbitrary: w ms)
  case (Cons m sends)
  obtain e f x where m: "m = (e, f, x)" by (cases m)
  have t: "(if ms = [] then now e else t) = t" using Cons.prems(5) by (auto simp: first_now_def m)
  from fill_one [OF Cons.prems(1), of f n bl e x] obtain w1 where
    w1: "WriteFrameDataToCache (Suc n) bl e f x w = Some (Wrote None w1)" "filling w1 (ms @ [(elems (base f), x)]) t"
    using Cons.prems(2-4) t by (auto simp: m send_msg_def)
  from Cons.IH [OF w1(2)] Cons.prems(2-4) show ?case
    using w1(1) by (simp add: m send_ops_def send_msg_def)
qed (simp add: send_ops_def)

lemma fill_new:
  assumes "\<forall>b\<in>set bp. length b = 32768" "\<forall>r\<in>set rp. length r = 4096 \<and> r ! 0 = None" "one_slot sends" "0 < fuel"
  shows "\<exists>w. wr_run fuel bl (NewSessionTCP cbc bp rp) (send_ops sends) = Some w \<and> filling w (map send_msg sends) (first_now sends)"
proof -
  from assms(4) obtain n where n: "fuel = Suc n" by (cases fuel) auto
  show ?thesis
    using fill_slot [OF new_session_filling [OF assms(1,2), where cbc = cbc and t = "first_now sends"], of sends n bl] assms(3)
    by (simp add: one_slot_def n)
qed

lemma drain_jobs:
  assumes "writer_abs t0 w as gs cur" "list_all (quiet t0) es" "length (JobQueue w) \<le> length es" "0 \<le> t0" "t0 < 2 ^ 62"
  shows "\<exists>w'. wr_run fuel bl w (map WorkOp es) = Some w' \<and> concat (sent w') = concat (sent w) @ unsent gs cur
    \<and> JobQueue w' = [] \<and> called w' = []"
  using assms(1-3)
proof (induction es arbitrary: w as gs cur)
  case Nil
  then have "gs = []" "cur = []" by (auto simp: writer_abs_def split: if_splits)
  then show ?case using Nil by (auto simp: writer_abs_def unsent_def)
next
  case (Cons e es)
  from work_op [OF Cons.prems(1) _ assms(4,5), of e] Cons.prems(2) obtain w1 as1 gs1 cur1 where
    w1: "run_job e w = Some w1" "writer_abs t0 w1 as1 gs1 cur1"
    "concat (sent w1) @ unsent gs1 cur1 = concat (sent w) @ unsent gs cur" "length (JobQueue w1) = length (JobQueue w) - 1" by auto
  then show ?case using Cons.IH [OF w1(2)] Cons.prems(2,3) by simp
qed

text \<open>The write fails, or the job comes too late.\<close>

definition late_io :: "io \<Rightarrow> i64 \<Rightarrow> bool" where
  "late_io e t \<longleftrightarrow> deadline_error e = None \<and> write_error e = None \<and> sint SessionInternalTimeout < sint (now e - t)"

lemma slot_late:
  assumes s: "slot_filled (slots w ! a) ms" "a < length (slots w)" "8 \<le> length (msg_bytes ms)" "late_io e (slot_timestamp (slots w ! a))"
  shows "\<exists>w'. slot_WorkFunc e a w = Some w' \<and> sent w' = sent w @ [msg_bytes ms]
    \<and> called w' = called w @ map (\<lambda>m. (snd m, ErrInternalTimeout)) (butlast ms)"
proof -
  obtain ns w0 where ns: "newSlot w = (ns, w0)" by (cases "newSlot w")
  have w0: "slots w0 = slots w" "sent w0 = sent w" "called w0 = called w"
    using ns by (auto simp: newSlot_def split: list.splits)
  define w1 where "w1 = (if wSlot w0 = a then install_slot ns w0 else release ns w0)"
  have w1: "slots w1 ! a = slots w ! a" "sent w1 = sent w" "called w1 = called w"
    using s(2) w0 by (simp_all add: w1_def install_slot_def release_def nth_append)
  have len: "unat (slot_available (slots w ! a)) = length (msg_bytes ms)"
    using s(1) by (auto simp: slot_filled_def intro: unat_of_nat_small)
  then have "(of_nat FrameHeadLength :: u32) \<le> slot_available (slots w ! a)"
    using s(3) by (simp add: word_le_nat_alt FrameHeadLength_def)
  moreover have "take (unat (slot_available (slots w ! a))) (slot_buf (slots w ! a)) = msg_bytes ms"
    using s(1) len by (simp add: slot_filled_def)
  moreover have "writeLock (slots w ! a) = 0" using s(1) by (simp add: slot_filled_def)
  ultimately show ?thesis
    using s(4) ns w1 reject_calls_filled [OF s(1)]
    by (simp add: slot_WorkFunc_def Let_def w1_def [symmetric] late_io_def rejectsRange_def breaker_error_def release_def)
qed

lemma slot_spins: "newSlot w = (ns, w0) \<Longrightarrow> a < length (slots w) \<Longrightarrow> writeLock (slots w ! a) \<noteq> 0 \<Longrightarrow> slot_WorkFunc e a w = None"
  by (auto simp: slot_WorkFunc_def newSlot_def install_slot_def release_def nth_append split: list.splits)

lemma cache_panics:
  assumes holds: "slot_holds (slots w ! wSlot w) ms" "wSlot w < length (slots w)" "length ms = 4095"
    and f: "wf_slice (base f)" "elems (base f) = d" "length d < 32768" "length (msg_bytes ms) + length d \<le> 32768"
  shows "\<exists>w'. cache_loop (Suc n) bl e f x busy w = Some (WritePanic w') \<and> wSlot w' = wSlot w
    \<and> writeLock (slots w' ! wSlot w) = 1 \<and> JobQueue w' = JobQueue w \<and> sent w' = sent w \<and> length (slots w') = length (slots w)"
proof -
  let ?my = "wSlot w" and ?a = "length (msg_bytes ms)" and ?l = "length d"
  define s0 where "s0 = slots w ! ?my"
  note H = holds(1) [unfolded slot_holds_def slot_filled_def, folded s0_def]
  have len: "GetFrameLength f = ?l" using f by (metis GetFrameLength_def length_elems)
  have a: "?a \<le> 32768" using f by simp
  note C = cursor_add [OF a f(3)]
  have cur: "allotCursor s0 = of_nat ?a" "slot_available s0 = of_nat ?a" "rejectCursor s0 = 4095" using H holds(3) by auto
  have notover: "\<not> (of_nat ?a + of_nat ?l :: u32) > BytesPoolLenght32"
    using C(1) f(4) by (simp add: BytesPoolLenght32_def word_less_nat_alt)
  have "length (slot_buf s0) = 32768" using H by simp
  then obtain buf where upd: "upd_sub (slot_buf s0) (unat (of_nat ?a :: u32)) (unat (of_nat ?a + of_nat ?l :: u32)) (\<lambda>b. snd (WriteToBytes f b)) = Some buf"
    using C(1,3) f(4) by (simp add: upd_sub_def)
  have rj: "arr_set (slot_rejects s0) 4096 (Some x) = None" using H by (simp add: arr_set_def)
  show ?thesis
    using holds(2) cur notover upd rj C(2) H
    by (simp add: cache_loop.simps(2) Let_def len upd_slot_def s0_def [symmetric])
qed

section \<open>Properties\<close>


text \<open>C38: when the write of a slot fails, the error functions of all its frames but the last are called, and the
  frames are gone: the last caller never learns of the error, nor does the only one of a slot with one frame.\<close>

theorem last_reject_lost:
  assumes "\<forall>b\<in>set bp. length b = 32768" "\<forall>r\<in>set rp. length r = 4096 \<and> r ! 0 = None"
    and "one_slot sends" "sends \<noteq> []" "0 < fuel"
    and "deadline_error e = None" "write_error e = Some err" "sint (now e - first_now sends) \<le> sint SessionInternalTimeout"
  shows "\<exists>w w'. wr_run fuel bl (NewSessionTCP cbc bp rp) (send_ops sends) = Some w \<and> run_job e w = Some w'
      \<and> sent w' = [] \<and> JobQueue w' = [] \<and> called w' = map (\<lambda>(_, _, x). (x, err)) (butlast sends)"
proof -
  from fill_new [OF assms(1-3,5), of bl cbc] obtain w where
    w: "wr_run fuel bl (NewSessionTCP cbc bp rp) (send_ops sends) = Some w" "filling w (map send_msg sends) (first_now sends)" by blast
  note F = w(2) [unfolded filling_def]
  define w1 where "w1 = w\<lparr>JobQueue := []\<rparr>"
  have "run_job e w = slot_WorkFunc e (wSlot w) w1" using F assms(4) by (simp add: run_job_def w1_def)
  moreover have "slot_filled (slots w1 ! wSlot w) (map send_msg sends)" "wSlot w < length (slots w1)" "pools_ok w1"
    "in_time e (slots w1 ! wSlot w)"
    using F assms(4,8) by (auto simp: slot_holds_def w1_def pools_ok_def in_time_def)
  moreover have "8 \<le> length (msg_bytes (map send_msg sends))"
    using assms(3,4) by (cases sends) (auto simp: one_slot_def small_frame_def send_msg_def)
  ultimately obtain w' where "run_job e w = Some w'" "sent w' = sent w1" "JobQueue w' = JobQueue w1"
    "called w' = called w1 @ map (\<lambda>m. (snd m, err)) (butlast (map send_msg sends))"
    using slot_work [of w1 "wSlot w" "map send_msg sends" e] assms(6,7) by auto
  moreover have "map (\<lambda>m. (snd m, err)) (butlast (map send_msg sends)) = map (\<lambda>(_, _, x). (x, err)) (butlast sends)"
    by (simp add: map_butlast send_msg_def case_prod_unfold comp_def)
  ultimately show ?thesis using w(1) F by (auto simp: w1_def)
qed

text \<open>a slot whose job runs more than ten seconds after its first frame is rejected and sent all the same: the
  callers are told \<open>ErrInternalTimeout\<close> for frames that reach the peer.\<close>

theorem late_slot_rejected_and_sent:
  assumes "\<forall>b\<in>set bp. length b = 32768" "\<forall>r\<in>set rp. length r = 4096 \<and> r ! 0 = None"
    and "one_slot sends" "sends \<noteq> []" "0 < fuel" "late_io e (first_now sends)"
  shows "\<exists>w w'. wr_run fuel bl (NewSessionTCP cbc bp rp) (send_ops sends) = Some w \<and> run_job e w = Some w'
      \<and> sent w' = [concat (map (\<lambda>(_, f, _). elems (base f)) sends)]
      \<and> called w' = map (\<lambda>(_, _, x). (x, ErrInternalTimeout)) (butlast sends)"
proof -
  from fill_new [OF assms(1-3,5), of bl cbc] obtain w where
    w: "wr_run fuel bl (NewSessionTCP cbc bp rp) (send_ops sends) = Some w" "filling w (map send_msg sends) (first_now sends)" by blast
  note F = w(2) [unfolded filling_def]
  define w1 where "w1 = w\<lparr>JobQueue := []\<rparr>"
  have "run_job e w = slot_WorkFunc e (wSlot w) w1" using F assms(4) by (simp add: run_job_def w1_def)
  moreover have "slot_filled (slots w1 ! wSlot w) (map send_msg sends)" "wSlot w < length (slots w1)"
    "late_io e (slot_timestamp (slots w1 ! wSlot w))"
    using F assms(4,6) by (auto simp: slot_holds_def w1_def)
  moreover have "8 \<le> length (msg_bytes (map send_msg sends))"
    using assms(3,4) by (cases sends) (auto simp: one_slot_def small_frame_def send_msg_def)
  ultimately obtain w' where "run_job e w = Some w'" "sent w' = sent w1 @ [msg_bytes (map send_msg sends)]"
    "called w' = called w1 @ map (\<lambda>m. (snd m, ErrInternalTimeout)) (butlast (map send_msg sends))"
    using slot_late [of w1 "wSlot w" "map send_msg sends" e] by auto
  moreover have "map (\<lambda>m. (snd m, ErrInternalTimeout)) (butlast (map send_msg sends)) = map (\<lambda>(_, _, x). (x, ErrInternalTimeout)) (butlast sends)"
    "msg_bytes (map send_msg sends) = concat (map (\<lambda>(_, f, _). elems (base f)) sends)"
    by (simp_all add: map_butlast send_msg_def msg_bytes_def case_prod_unfold comp_def)
  ultimately show ?thesis using w(1) F by (auto simp: w1_def)
qed

text \<open>4095 frames of 8 bytes fill the table of error functions but not the buffer of a slot. The next small frame
  panics in its caller with the write lock taken, and the worker then spins forever on the slot: nothing of
  it is sent.\<close>

theorem reject_table_full:
  assumes "\<forall>b\<in>set bp. length b = 32768" "\<forall>r\<in>set rp. length r = 4096 \<and> r ! 0 = None"
    and "length sends = 4095" "list_all (\<lambda>(e, f, x). wf_slice (base f) \<and> slen (base f) = 8) sends"
    and "wf_slice (base f)" "slen (base f) = 8" "0 < fuel"
  shows "\<exists>w w'. wr_run fuel bl (NewSessionTCP cbc bp rp) (send_ops sends) = Some w
      \<and> WriteFrameDataToCache fuel bl e f x w = Some (WritePanic w') \<and> sent w' = [] \<and> (\<forall>e'. run_job e' w' = None)"
proof -
  have bytes: "length (msg_bytes (map send_msg ms)) = 8 * length ms"
    if "list_all (\<lambda>(e, f, x). wf_slice (base f) \<and> slen (base f) = 8) ms" for ms
    using that by (induction ms) (auto simp: send_msg_def)
  have "list_all (\<lambda>(e, f, x). small_frame f) sends"
    using assms(4) by (auto simp: list_all_iff small_frame_def)
  then have "one_slot sends" using bytes [OF assms(4)] assms(3) by (simp add: one_slot_def)
  from fill_new [OF assms(1,2) this assms(7), of bl cbc] obtain w where
    w: "wr_run fuel bl (NewSessionTCP cbc bp rp) (send_ops sends) = Some w" "filling w (map send_msg sends) (first_now sends)" by blast
  note F = w(2) [unfolded filling_def]
  from assms(7) obtain n where n: "fuel = Suc n" by (cases fuel) auto
  have len: "length (elems (base f)) = 8" using assms(5,6) by simp
  obtain w' where w': "cache_loop (Suc n) bl e f x 0 w = Some (WritePanic w')" "wSlot w' = wSlot w"
    "writeLock (slots w' ! wSlot w) = 1" "JobQueue w' = JobQueue w" "sent w' = sent w" "length (slots w') = length (slots w)"
    using cache_panics [of w "map send_msg sends" f "elems (base f)" n bl e x 0] F bytes [OF assms(4)] assms(3,5) len by auto
  have ne: "map send_msg sends \<noteq> []" using assms(3) by auto
  have "run_job e' w' = None" for e'
  proof -
    define w1 where "w1 = w'\<lparr>JobQueue := []\<rparr>"
    obtain ns w0 where "newSlot w1 = (ns, w0)" by (cases "newSlot w1")
    then have "slot_WorkFunc e' (wSlot w) w1 = None"
      using slot_spins [of w1 ns w0 "wSlot w" e'] w' F by (simp add: w1_def)
    then show ?thesis using F w'(4) ne by (simp add: run_job_def w1_def)
  qed
  moreover have "WriteFrameDataToCache fuel bl e f x w = Some (WritePanic w')"
    using write_entry [of w fuel bl e f x] F w'(1) n assms(6) by (simp add: GetFrameLength_def BytesPoolLenght_def)
  ultimately show ?thesis using w(1) w'(5) F by auto
qed

text \<open>a frame of 32768 bytes or more takes its own place in the job queue, while a later small frame still joins
  the slot that is already queued: the peer gets the small frame first.\<close>

theorem big_frame_overtaken:
  assumes "\<forall>b\<in>set bp. length b = 32768" "\<forall>r\<in>set rp. length r = 4096 \<and> r ! 0 = None"
    and "small_frame f1" "small_frame f3" "length (elems (base f1)) + length (elems (base f3)) \<le> 32768"
    and "wf_slice (base f2)" "32768 \<le> slen (base f2)"
    and "quiet t0 e" "0 \<le> t0" "t0 < 2 ^ 62" "0 < fuel"
  shows "\<exists>w w'. wr_run fuel bl (NewSessionTCP cbc bp rp) [SendOp e f1 x1, SendOp e f2 x2, SendOp e f3 x3] = Some w
      \<and> wr_run fuel bl w [WorkOp e, WorkOp e] = Some w'
      \<and> sent w' = [elems (base f1) @ elems (base f3), elems (base f2)]"
proof -
  let ?d1 = "elems (base f1)" and ?d3 = "elems (base f3)"
  from assms(11) obtain n where n: "fuel = Suc n" by (cases fuel) auto
  have io: "deadline_error e = None" "write_error e = None" using assms(8) by (auto simp: quiet_def)
  have d: "8 \<le> length ?d1" "length ?d1 < 32768" "8 \<le> length ?d3" "length ?d3 < 32768" "wf_slice (base f3)"
    using assms(3,4) by (auto simp: small_frame_def)
  obtain w1 where w1: "WriteFrameDataToCache fuel bl e f1 x1 (NewSessionTCP cbc bp rp) = Some (Wrote None w1)"
    "filling w1 [(?d1, x1)] (now e)"
    using fill_one [OF new_session_filling [OF assms(1,2), of cbc 0] assms(3), of n bl e x1] d n by auto
  note F = w1(2) [unfolded filling_def]
  define w2 where "w2 = w1\<lparr>waiting := waiting w1 + 1, JobQueue := [SlotJob (wSlot w1), SimpleJob f2 x2]\<rparr>"
  have send2: "WriteFrameDataToCache fuel bl e f2 x2 w1 = Some (Wrote None w2)"
    using write_entry [of w1 fuel bl e f2 x2] F assms(7) by (simp add: w2_def GetFrameLength_def BytesPoolLenght_def)
  have fit: "slot_holds (slots w2 ! wSlot w2) [(?d1, x1)]" "wSlot w2 < length (slots w2)"
    "length (msg_bytes [(?d1, x1)]) + length ?d3 \<le> 32768" "Suc (length [(?d1, x1)]) < 4096"
    "\<forall>m\<in>set [(?d1, x1)]. fst m \<noteq> []"
    using F d(1,2) assms(5) by (auto simp: w2_def)
  have "?d3 \<noteq> []" using d(3) by (metis list.size(3) not_numeral_le_zero)
  have ts2: "slot_timestamp (slots w2 ! wSlot w2) = now e" "\<And>sl. w2\<lparr>slots := sl, waiting := waiting w2, JobQueue := JobQueue w2\<rparr> = w2\<lparr>slots := sl\<rparr>"
    using F by (simp_all add: w2_def)
  obtain s where s: "cache_loop fuel bl e f3 x3 0 w2 = Some (Wrote None (w2\<lparr>slots := (slots w2)[wSlot w2 := s]\<rparr>))"
    "slot_holds s [(?d1, x1), (?d3, x3)]" "slot_timestamp s = now e"
    using cache_fits [OF fit(1,2) d(5) refl \<open>?d3 \<noteq> []\<close> d(4) fit(3,4,5), of n bl e x3 0] ts2 n by auto
  define w3 where "w3 = w2\<lparr>slots := (slots w2)[wSlot w2 := s]\<rparr>"
  have send3: "WriteFrameDataToCache fuel bl e f3 x3 w2 = Some (Wrote None w3)"
    using write_entry [of w2 fuel bl e f3 x3] F d s(1) by (simp add: w2_def w3_def GetFrameLength_def BytesPoolLenght_def)
  define w4 where "w4 = w3\<lparr>JobQueue := [SimpleJob f2 x2]\<rparr>"
  have my: "wSlot w4 = wSlot w1" "slots w4 ! wSlot w1 = s" "wSlot w1 < length (slots w4)"
    using F by (simp_all add: w4_def w3_def w2_def)
  have "stamped t0 s" using s(3) assms(8) by (simp add: stamped_def quiet_def)
  then have "in_time e (slots w4 ! wSlot w1)" using quiet_in_time [OF assms(8) _ assms(9,10)] my(2) by simp
  moreover have "slot_filled (slots w4 ! wSlot w1) [(?d1, x1), (?d3, x3)]" "8 \<le> length (msg_bytes [(?d1, x1), (?d3, x3)])" "pools_ok w4"
    using s(2) my F d by (auto simp: slot_holds_def pools_ok_def w4_def w3_def w2_def)
  ultimately obtain w5 where w5: "slot_WorkFunc e (wSlot w1) w4 = Some w5" "sent w5 = sent w4 @ [?d1 @ ?d3]"
    "ws_state w5 = ws_state w4" "JobQueue w5 = JobQueue w4"
    using slot_work [of w4 "wSlot w1" "[(?d1, x1), (?d3, x3)]" e] my(3) io by auto
  have "run_job e w3 = Some w5" using w5(1) by (simp add: run_job_def w3_def w2_def w4_def)
  moreover have "run_job e w5 = Some (simple_WorkFunc e f2 x2 (w5\<lparr>JobQueue := []\<rparr>))"
    using w5(4) by (simp add: run_job_def w4_def)
  moreover have "sent (simple_WorkFunc e f2 x2 (w5\<lparr>JobQueue := []\<rparr>)) = [?d1 @ ?d3, elems (base f2)]"
    using w5(2,3) F io assms(7)
    by (simp add: simple_WorkFunc_def WriteFrameDataPromptly_def GetFrameLength_def FrameHeadLength_def w4_def w3_def w2_def)
  ultimately show ?thesis using w1(1) send2 send3 by simp
qed

section \<open>Witnesses\<close>

text \<open>Plain frames of 20 and of 8 bytes at time 1000 s.\<close>

definition demo_io :: io where
  "demo_io = \<lparr>now = 1000000000000, deadline_error = None, write_error = None\<rparr>"

definition demo_frame :: "nat \<Rightarrow> FrameSlice" where
  "demo_frame n = \<lparr>splitLength = int n, base = of_list (replicate n 7)\<rparr>"

definition demo_sends :: "(io \<times> FrameSlice \<times> nat) list" where
  "demo_sends = [(demo_io, demo_frame 20, 1), (demo_io, demo_frame 10, 2)]"

lemma demo_simps [simp]:
  "now demo_io = 1000000000000" "deadline_error demo_io = None" "write_error demo_io = None"
  "base (demo_frame n) = of_list (replicate n 7)" "small_frame (demo_frame n) \<longleftrightarrow> 8 \<le> n \<and> n < 32768"
  "quiet 1000000000000 demo_io" "one_slot demo_sends" "first_now demo_sends = 1000000000000" "demo_sends \<noteq> []"
  by (simp_all add: demo_io_def demo_frame_def small_frame_def quiet_def one_slot_def demo_sends_def send_msg_def first_now_def)


lemma last_reject_lost_witness:
  "\<exists>w w'. wr_run 1 8 (NewSessionTCP NewCircuitBreakerConfigure [] []) (send_ops demo_sends) = Some w
     \<and> run_job (demo_io\<lparr>write_error := Some ErrConnClose\<rparr>) w = Some w' \<and> sent w' = [] \<and> JobQueue w' = []
     \<and> called w' = [(1, ErrConnClose)]"
  using last_reject_lost [of "[]" "[]" demo_sends 1 "demo_io\<lparr>write_error := Some ErrConnClose\<rparr>" ErrConnClose 8 NewCircuitBreakerConfigure]
  by (simp add: SessionInternalTimeout_def) (simp add: demo_sends_def)

lemma late_slot_rejected_and_sent_witness:
  "\<exists>w w'. wr_run 1 8 (NewSessionTCP NewCircuitBreakerConfigure [] []) (send_ops demo_sends) = Some w
     \<and> run_job (demo_io\<lparr>now := 1020000000000\<rparr>) w = Some w' \<and> sent w' = [replicate 20 7 @ replicate 10 7]
     \<and> called w' = [(1, ErrInternalTimeout)]"
  using late_slot_rejected_and_sent [of "[]" "[]" demo_sends 1 "demo_io\<lparr>now := 1020000000000\<rparr>" 8 NewCircuitBreakerConfigure]
  by (simp add: SessionInternalTimeout_def late_io_def) (simp add: demo_sends_def)

lemma reject_table_full_witness:
  "\<exists>w w'. wr_run 1 8 (NewSessionTCP NewCircuitBreakerConfigure [] []) (send_ops (replicate 4095 (demo_io, demo_frame 8, 1))) = Some w
     \<and> WriteFrameDataToCache 1 8 demo_io (demo_frame 8) 2 w = Some (WritePanic w') \<and> sent w' = [] \<and> (\<forall>e'. run_job e' w' = None)"
  by (rule reject_table_full) (simp_all add: list_all_iff)

lemma big_frame_overtaken_witness:
  "\<exists>w w'. wr_run 1 8 (NewSessionTCP NewCircuitBreakerConfigure [] [])
       [SendOp demo_io (demo_frame 20) 1, SendOp demo_io (demo_frame 40000) 2, SendOp demo_io (demo_frame 10) 3] = Some w
     \<and> wr_run 1 8 w [WorkOp demo_io, WorkOp demo_io] = Some w'
     \<and> sent w' = [elems (base (demo_frame 20)) @ elems (base (demo_frame 10)), elems (base (demo_frame 40000))]"
  by (rule big_frame_overtaken [of "[]" "[]" _ _ _ 1000000000000]) simp_all

end
