(* ===== verification/Wire.thy ===== *)
theory Wire
  imports Node SessionWriteSpec
begin

text \<open>
  What carries the frames of a node: the method \<open>WriteFrameDataToCache\<close> of its sessions. The simplest carrier is a log of
  what was written to whom; the locale says what any carrier promises, and in it every operation of the node
  does with the carrier what it does with the log. The sessions of \<open>transport/tcp_session.go\<close>, with their slots and
  jobs, are such a carrier.
\<close>

section \<open>The log as a carrier\<close>

type_synonym 's wire_log = "('s \<times> u8 list) list"

definition wire :: "('s, 's wire_log) write_frame" where
  "wire m fs e w = (None, w @ [(m, elems (base fs))])"

definition stream_to :: "'s \<Rightarrow> 's wire_log \<Rightarrow> u8 list" where
  "stream_to m w = concat (map snd (filter (\<lambda>x. fst x = m) w))"

definition streams :: "'s wire_log \<Rightarrow> 's \<Rightarrow> u8 list" where
  "streams w m = stream_to m w"

lemma streams_snoc: "streams (w @ [(m, f)]) = (streams w)(m := streams w m @ f)"
  by (rule ext) (simp add: streams_def stream_to_def)

section \<open>Operations of a node, one after the other\<close>

text \<open>\<open>DoWork\<close> is a turn of the sender of a session, in the background.\<close>

datatype 's node_op =
    DoNotify u16 "u8 list" | DoCall u16 "u8 list" u16 | DoPublish u16 "u8 list" | DoReply ContextMQ "u8 list" | DoWork 's

definition keep :: "'s cluster \<Rightarrow> 'w ended \<Rightarrow> ('s cluster \<times> 'w) ended option" where
  "keep c r = Some (case r of Ended w \<Rightarrow> Ended (c, w) | Crashed \<Rightarrow> Crashed)"

fun node_do ::
  "nat \<Rightarrow> ('s, 'w) write_frame \<Rightarrow> ('s \<Rightarrow> 'w \<Rightarrow> 'w) \<Rightarrow> (node_error \<Rightarrow> 'w \<Rightarrow> 'w) \<Rightarrow> 's node_op \<Rightarrow> 's cluster \<Rightarrow> 'w
    \<Rightarrow> ('s cluster \<times> 'w) ended option" where
  "node_do fuel wr work rej (DoNotify ch d) c w = Notify fuel wr c ch d rej w"
| "node_do fuel wr work rej (DoCall ch d r) c w = Call fuel wr c ch d r rej w"
| "node_do fuel wr work rej (DoPublish ch d) c w = keep c (Publish wr c ch d rej w)"
| "node_do fuel wr work rej (DoReply ctx d) c w = keep c (Reply wr c ctx d rej w)"
| "node_do fuel wr work rej (DoWork m) c w = Some (Ended (c, work m w))"

fun node_run ::
  "nat \<Rightarrow> ('s, 'w) write_frame \<Rightarrow> ('s \<Rightarrow> 'w \<Rightarrow> 'w) \<Rightarrow> (node_error \<Rightarrow> 'w \<Rightarrow> 'w) \<Rightarrow> 's node_op list \<Rightarrow> 's cluster \<Rightarrow> 'w
    \<Rightarrow> ('s cluster \<times> 'w) ended option" where
  "node_run fuel wr work rej [] c w = Some (Ended (c, w))"
| "node_run fuel wr work rej (x # xs) c w =
     (case node_do fuel wr work rej x c w of
        Some (Ended (c, w)) \<Rightarrow> node_run fuel wr work rej xs c w
      | r \<Rightarrow> r)"

text \<open>The size of the frame of an operation.\<close>

fun op_size :: "'s node_op \<Rightarrow> nat" where
  "op_size (DoNotify ch d) = 8 + length d"
| "op_size (DoCall ch d r) = 12 + length d"
| "op_size (DoPublish ch d) = 8 + length d"
| "op_size (DoReply ctx d) = 8 + length d"
| "op_size (DoWork m) = 0"

fun is_work :: "'s node_op \<Rightarrow> bool" where
  "is_work (DoWork m) = True"
| "is_work _ = False"

definition sessions_of :: "'s cluster \<Rightarrow> 's set" where
  "sessions_of c = {m. Some m \<in> set (cl_sessions c)}"

section \<open>What a carrier promises\<close>

text \<open>
  \<open>holds w out\<close>: in state \<open>w\<close> the bytes \<open>out m\<close> have been handed over for each session \<open>m\<close>. A frame of a size that fits is taken,
  whatever the error function, and its bytes are added to the stream of its session; a turn in the
  background changes no stream.
\<close>

locale frame_carrier =
  fixes wr :: "('s, 'w) write_frame"
    and work :: "'s \<Rightarrow> 'w \<Rightarrow> 'w"
    and holds :: "'w \<Rightarrow> ('s \<Rightarrow> u8 list) \<Rightarrow> bool"
    and fits :: "'s \<Rightarrow> nat \<Rightarrow> bool"
  assumes takes: "holds w out \<Longrightarrow> wf_slice (base f) \<Longrightarrow> fits m (slen (base f))
      \<Longrightarrow> \<exists>w'. wr m f e w = (None, w') \<and> holds w' (out(m := out m @ elems (base f)))"
    and work_holds: "holds w out \<Longrightarrow> holds (work m w) out"
begin

lemma write_sim:
  assumes "holds w (streams log)" "wf_slice (base f)" "fits m (slen (base f))"
  obtains w' where "wr m f e w = (None, w')" "holds w' (streams (log @ [(m, elems (base f))]))"
  using takes [OF assms, of e] by (auto simp: streams_snoc)

lemma ask_loop_sim:
  assumes "holds w (streams log)" "wf_slice (base f)" "\<forall>m. Some m \<in> set ss \<longrightarrow> fits m (slen (base f))"
    and err: "\<And>x w log. holds w (streams log) \<Longrightarrow> holds (E x w) (streams (E' x log))"
  shows "rel_option (rel_ended (rel_prod (=) (\<lambda>w log. holds w (streams log)))) (ask_loop n wr ss b ch f E w) (ask_loop n wire ss b ch f E' log)"
  using assms(1)
proof (induction n arbitrary: b w log)
  case (Suc n)
  show ?case
  proof (cases "bucket_next b")
    case (Some a)
    then obtain i l b1 where next': "bucket_next b = Some ((i, l), b1)" by (metis prod.collapse)
    show ?thesis
    proof (cases "arr_get ss (unat i)")
      case (Some m)
      then have m: "m \<in> set ss" by (auto simp: arr_get_def split: if_splits)
      show ?thesis
      proof (cases m)
        case None
        then show ?thesis using next' Some Suc.IH [OF Suc.prems] err [OF Suc.prems] by (simp add: Let_def)
      next
        case (Some s)
        obtain w' where "wr s f (E \<circ> SendFailed) w = (None, w')" "holds w' (streams (log @ [(s, elems (base f))]))"
          using write_sim [OF Suc.prems assms(2)] assms(3) m Some by blast
        then show ?thesis using next' \<open>arr_get ss (unat i) = Some m\<close> Some by (simp add: Let_def wire_def)
      qed
    qed (use next' in simp)
  qed simp
qed simp

lemma AskOne_sim:
  assumes "holds w (streams log)" "wf_slice (base f)" "\<forall>m\<in>sessions_of c. fits m (slen (base f))"
    and "\<And>x w log. holds w (streams log) \<Longrightarrow> holds (E x w) (streams (E' x log))"
  shows "rel_option (rel_ended (rel_prod (=) (\<lambda>w log. holds w (streams log)))) (AskOne n wr c ch f E w) (AskOne n wire c ch f E' log)"
proof (cases "cl_channels c ch")
  case (Some b)
  have "rel_option (rel_ended (rel_prod (=) (\<lambda>w log. holds w (streams log))))
      (ask_loop n wr (cl_sessions c) b ch f E w) (ask_loop n wire (cl_sessions c) b ch f E' log)"
    by (rule ask_loop_sim [OF assms(1,2) _ assms(4)]) (use assms(3) in \<open>auto simp: sessions_of_def\<close>)
  then show ?thesis using Some
    by (auto simp: AskOne_def elim!: option.rel_cases ended.rel_cases split: option.splits ended.splits)
qed (use assms(1,4) in \<open>simp add: AskOne_def\<close>)

lemma Specify_sim:
  assumes "holds w (streams log)" "wf_slice (base f)" "\<forall>m\<in>sessions_of c. fits m (slen (base f))"
    and "\<And>x w log. holds w (streams log) \<Longrightarrow> holds (E x w) (streams (E' x log))"
  shows "rel_ended (\<lambda>w log. holds w (streams log)) (Specify wr c i ch f E w) (Specify wire c i ch f E' log)"
proof (cases "arr_get (cl_sessions c) (unat i)")
  case (Some m)
  then have "m \<in> set (cl_sessions c)" by (auto simp: arr_get_def split: if_splits)
  show ?thesis
  proof (cases m)
    case None
    then show ?thesis using Some assms(1,4) by (simp add: Specify_def)
  next
    case (Some s)
    then have "fits s (slen (base f))" using assms(3) \<open>m \<in> set (cl_sessions c)\<close> by (auto simp: sessions_of_def)
    from write_sim [OF assms(1,2) this, of "E \<circ> SendFailed"] obtain w' where
      "wr s f (E \<circ> SendFailed) w = (None, w')" "holds w' (streams (log @ [(s, elems (base f))]))" .
    then show ?thesis using \<open>arr_get (cl_sessions c) (unat i) = Some m\<close> Some by (simp add: Specify_def wire_def)
  qed
qed (simp add: Specify_def)

lemma ask_all_sim:
  assumes "holds w (streams log)" "wf_slice (base f)" "\<forall>m. Some m \<in> set ss \<longrightarrow> fits m (slen (base f))"
  shows "rel_ended (\<lambda>w log. holds w (streams log)) (ask_all_loop wr ss is f E w) (ask_all_loop wire ss is f E' log)"
  using assms(1)
proof (induction "is" arbitrary: w log)
  case (Cons i "is")
  show ?case
  proof (cases "arr_get ss (unat i)")
    case (Some m)
    then have m: "m \<in> set ss" by (auto simp: arr_get_def split: if_splits)
    show ?thesis
    proof (cases m)
      case None
      then show ?thesis using Some Cons by simp
    next
      case (Some s)
      obtain w' where "wr s f (E \<circ> SendFailed) w = (None, w')" "holds w' (streams (log @ [(s, elems (base f))]))"
        using write_sim [OF Cons.prems assms(2)] assms(3) m Some by blast
      then show ?thesis using \<open>arr_get ss (unat i) = Some m\<close> Some Cons.IH by (simp add: wire_def)
    qed
  qed simp
qed simp

lemma AskAll_sim:
  assumes "holds w (streams log)" "wf_slice (base f)" "\<forall>m\<in>sessions_of c. fits m (slen (base f))"
    and "\<And>x w log. holds w (streams log) \<Longrightarrow> holds (E x w) (streams (E' x log))"
  shows "rel_ended (\<lambda>w log. holds w (streams log)) (AskAll wr c ch f E w) (AskAll wire c ch f E' log)"
  using assms(1,4) ask_all_sim [OF assms(1,2), of "cl_sessions c"] assms(3)
  by (auto simp: AskAll_def sessions_of_def split: option.splits)

text \<open>The operations of the node.\<close>

lemma new_frame: "NewFrameSlice ch d ex = Some f \<Longrightarrow> wf_slice (base f) \<and> slen (base f) = 8 + length d + length ex"
  by (auto simp: NewFrameSlice_bytes)

lemma node_do_sim:
  assumes "holds w (streams log)" "is_work x \<or> (\<forall>m\<in>sessions_of c. fits m (op_size x))"
    and "\<And>x w log. holds w (streams log) \<Longrightarrow> holds (rej x w) (streams (rej' x log))"
  shows "rel_option (rel_ended (rel_prod (=) (\<lambda>w log. holds w (streams log))))
    (node_do fuel wr work rej x c w) (node_do fuel wire (\<lambda>_ w. w) rej' x c log)"
proof -
  have r: "\<And>x w log. holds w (streams log) \<Longrightarrow> holds ((rej \<circ> NodeSend) x w) (streams ((rej' \<circ> NodeSend) x log))"
    using assms(3) by simp
  note ask = AskOne_sim [where E = "rej \<circ> NodeSend" and E' = "rej' \<circ> NodeSend", OF assms(1) _ _ r]
  note all = AskAll_sim [where E = "rej \<circ> NodeSend" and E' = "rej' \<circ> NodeSend", OF assms(1) _ _ r]
  note one = Specify_sim [where E = "rej \<circ> NodeSend" and E' = "rej' \<circ> NodeSend", OF assms(1) _ _ r]
  have keep: "rel_option (rel_ended (rel_prod (=) R)) (keep c p) (keep c q)" if "rel_ended R p q" for p q and R :: "'w \<Rightarrow> 's wire_log \<Rightarrow> bool"
    using that by (cases p; cases q) (simp_all add: keep_def)
  show ?thesis
  proof (cases x)
    case (DoNotify ch d)
    obtain f where f: "NewFrameSlice ch d [] = Some f" by (simp add: NewFrameSlice_bytes)
    have fit: "\<forall>m\<in>sessions_of c. fits m (slen (base f))" using assms(2) DoNotify new_frame [OF f] by simp
    show ?thesis using ask [OF _ fit] new_frame [OF f] f DoNotify by (simp add: Notify_def)
  next
    case (DoCall ch d rs)
    obtain f where f: "NewFrameSlice ch d (bytes16 (machineID c) @ bytes16 rs) = Some f" by (simp add: NewFrameSlice_bytes)
    have fit: "\<forall>m\<in>sessions_of c. fits m (slen (base f))" using assms(2) DoCall new_frame [OF f] by (simp add: add.commute)
    show ?thesis using ask [OF _ fit] new_frame [OF f] f DoCall by (simp add: Call_def call_ex_bytes)
  next
    case (DoPublish ch d)
    obtain f where f: "NewFrameSlice ch d [] = Some f" by (simp add: NewFrameSlice_bytes)
    have fit: "\<forall>m\<in>sessions_of c. fits m (slen (base f))" using assms(2) DoPublish new_frame [OF f] by simp
    show ?thesis using keep [OF all [OF _ fit]] new_frame [OF f] f DoPublish by (simp add: Publish_def)
  next
    case (DoReply ctx d)
    have "rel_ended (\<lambda>w log. holds w (streams log)) (Reply wr c ctx d rej w) (Reply wire c ctx d rej' log)"
    proof (cases "\<exists>ex. ctx_ex ctx = Some ex \<and> length ex = 4")
      case False
      then show ?thesis using assms(1,3) by (cases "ctx_ex ctx") (auto simp: Reply_def)
    next
      case True
      then obtain ex where ex: "ctx_ex ctx = Some ex" "length ex = 4" by blast
      show ?thesis
        using ex assms(1,2) DoReply
        by (auto simp: Reply_def NewFrameSlice_bytes split: bind_splits intro!: one)
    qed
    then show ?thesis using keep DoReply by simp
  qed (use assms(1) work_holds in simp)
qed

lemma node_do_sessions: "node_do fuel wire (\<lambda>_ w. w) rej' x c log = Some (Ended (c', log')) \<Longrightarrow> cl_sessions c' = cl_sessions c"
  by (cases x) (auto simp: Notify_def Call_def AskOne_def keep_def split: option.splits ended.splits)

lemma node_run_sim:
  assumes "holds w (streams log)" "\<forall>x\<in>set xs. is_work x \<or> (\<forall>m\<in>sessions_of c. fits m (op_size x))"
    and rej: "\<And>x w log. holds w (streams log) \<Longrightarrow> holds (rej x w) (streams (rej' x log))"
  shows "rel_option (rel_ended (rel_prod (=) (\<lambda>w log. holds w (streams log))))
    (node_run fuel wr work rej xs c w) (node_run fuel wire (\<lambda>_ w. w) rej' xs c log)"
  using assms(1,2)
proof (induction xs arbitrary: c w log)
  case (Cons x xs)
  let ?R = "\<lambda>w log. holds w (streams log)"
  have d: "rel_option (rel_ended (rel_prod (=) ?R)) (node_do fuel wr work rej x c w) (node_do fuel wire (\<lambda>_ w. w) rej' x c log)"
    by (rule node_do_sim [OF Cons.prems(1) _ rej]) (use Cons.prems(2) in simp_all)
  show ?case
  proof (cases "node_do fuel wire (\<lambda>_ w. w) rej' x c log")
    case (Some r)
    show ?thesis
    proof (cases r)
      case (Ended cw)
      obtain c' log' where cw: "cw = (c', log')" by (cases cw)
      obtain w' where w': "node_do fuel wr work rej x c w = Some (Ended (c', w'))" "?R w' log'"
        using d Some Ended cw by (auto elim!: option.rel_cases ended.rel_cases)
      have "sessions_of c' = sessions_of c" using node_do_sessions Some Ended cw by (fastforce simp: sessions_of_def)
      then show ?thesis using Cons.IH [OF w'(2), of c'] Cons.prems(2) w'(1) Some Ended cw by simp
    next
      case Crashed
      then show ?thesis using d Some by (auto elim!: option.rel_cases ended.rel_cases)
    qed
  qed (use d in \<open>auto elim!: option.rel_cases\<close>)
qed simp

end

interpretation log: frame_carrier wire "\<lambda>_ w. w" "\<lambda>w out. out = streams w" "\<lambda>_ _. True"
  by unfold_locales (auto simp: wire_def streams_snoc)

section \<open>The sessions as a carrier\<close>

text \<open>
  Session \<open>m\<close> is the sending side number \<open>m\<close>; every call and every job sees the next answers \<open>clock i\<close> of the clock and of the
  connection. A call that panics or does not return has no result; the last case is never reached below.
\<close>

definition cached_write :: "nat \<Rightarrow> u32 \<Rightarrow> (nat \<Rightarrow> io) \<Rightarrow> nat \<Rightarrow> (nat, nat \<times> writer list) write_frame" where
  "cached_write fuel bl clock x m f e iw =
     (case WriteFrameDataToCache fuel bl (clock (fst iw)) f x (snd iw ! m) of
        Some (Wrote r w) \<Rightarrow> (r, (Suc (fst iw), (snd iw)[m := w]))
      | _ \<Rightarrow> (Some ErrClosedConnection, iw))"

definition cached_work :: "(nat \<Rightarrow> io) \<Rightarrow> nat \<Rightarrow> nat \<times> writer list \<Rightarrow> nat \<times> writer list" where
  "cached_work clock m iw =
     (case run_job (clock (fst iw)) (snd iw ! m) of
        Some w \<Rightarrow> (Suc (fst iw), (snd iw)[m := w])
      | None \<Rightarrow> iw)"

text \<open>What has gone out and what is still in the slots make up the stream.\<close>

definition writer_holds :: "int \<Rightarrow> writer \<Rightarrow> u8 list \<Rightarrow> bool" where
  "writer_holds t0 w bs \<longleftrightarrow> (\<exists>as gs cur. writer_abs t0 w as gs cur \<and> bs = concat (sent w) @ unsent gs cur)"

definition cached_holds :: "nat \<Rightarrow> (nat \<Rightarrow> io) \<Rightarrow> int \<Rightarrow> nat \<Rightarrow> nat \<times> writer list \<Rightarrow> (nat \<Rightarrow> u8 list) \<Rightarrow> bool" where
  "cached_holds fuel clock t0 n iw out \<longleftrightarrow>
     (\<forall>i. quiet t0 (clock i)) \<and> 0 \<le> t0 \<and> t0 < 2 ^ 62 \<and> 2 \<le> fuel \<and> length (snd iw) = n \<and> (\<forall>m<n. writer_holds t0 (snd iw ! m) (out m))"

lemma writer_holds_send:
  assumes "writer_holds t0 w bs" "quiet t0 e" "wf_slice (base f)" "9 \<le> slen (base f)" "slen (base f) < 32768" "2 \<le> fuel"
  shows "\<exists>w'. WriteFrameDataToCache fuel bl e f x w = Some (Wrote None w') \<and> writer_holds t0 w' (bs @ elems (base f))"
proof -
  obtain as gs cur where a: "writer_abs t0 w as gs cur" "bs = concat (sent w) @ unsent gs cur"
    using assms(1) by (auto simp: writer_holds_def)
  have "wr_op_ok t0 (SendOp e f x)" using assms by simp
  from send_op [OF a(1) this assms(6), of bl] a(2) show ?thesis by (auto simp: writer_holds_def) (metis append_assoc)
qed

lemma writer_holds_work:
  assumes "writer_holds t0 w bs" "quiet t0 e" "0 \<le> t0" "t0 < 2 ^ 62"
  shows "\<exists>w'. run_job e w = Some w' \<and> writer_holds t0 w' bs \<and> length (JobQueue w') = length (JobQueue w) - 1"
proof -
  obtain as gs cur where a: "writer_abs t0 w as gs cur" "bs = concat (sent w) @ unsent gs cur"
    using assms(1) by (auto simp: writer_holds_def)
  from work_op [OF a(1) assms(2-4)] obtain w' as' gs' cur' where
    "run_job e w = Some w'" "writer_abs t0 w' as' gs' cur'" "concat (sent w') @ unsent gs' cur' = concat (sent w) @ unsent gs cur"
    "length (JobQueue w') = length (JobQueue w) - 1" by blast
  then show ?thesis using a(2) unfolding writer_holds_def by metis
qed

interpretation cached: frame_carrier "cached_write fuel bl clock x" "cached_work clock" "cached_holds fuel clock t0 n"
  "\<lambda>m l. m < n \<and> 9 \<le> l \<and> l < 32768"
proof
  fix iw :: "nat \<times> writer list" and out and f :: FrameSlice and m and e :: "transport_error \<Rightarrow> nat \<times> writer list \<Rightarrow> nat \<times> writer list"
  assume h: "cached_holds fuel clock t0 n iw out" "wf_slice (base f)" "m < n \<and> 9 \<le> slen (base f) \<and> slen (base f) < 32768"
  then obtain w' where w': "WriteFrameDataToCache fuel bl (clock (fst iw)) f x (snd iw ! m) = Some (Wrote None w')"
    "writer_holds t0 w' (out m @ elems (base f))"
    using writer_holds_send [of t0 "snd iw ! m" "out m" "clock (fst iw)" f fuel bl x] by (auto simp: cached_holds_def)
  then show "\<exists>w'. cached_write fuel bl clock x m f e iw = (None, w') \<and> cached_holds fuel clock t0 n w' (out(m := out m @ elems (base f)))"
    using h by (auto simp: cached_write_def cached_holds_def nth_list_update)
next
  fix iw out m
  assume h: "cached_holds fuel clock t0 n iw out"
  show "cached_holds fuel clock t0 n (cached_work clock m iw) out"
  proof (cases "m < n")
    case True
    then obtain w' where "run_job (clock (fst iw)) (snd iw ! m) = Some w'" "writer_holds t0 w' (out m)"
      using h writer_holds_work [of t0 "snd iw ! m" "out m" "clock (fst iw)"] by (auto simp: cached_holds_def)
    then show ?thesis using h True by (auto simp: cached_work_def cached_holds_def nth_list_update)
  next
    case False
    then show ?thesis using h by (auto simp: cached_work_def cached_holds_def split: option.splits)
  qed
qed

lemma writer_holds_new:
  assumes "\<forall>b\<in>set bp. length b = 32768" "\<forall>r\<in>set rp. length r = 4096 \<and> r ! 0 = None"
  shows "writer_holds t0 (NewSessionTCP cbc bp rp) []"
  unfolding writer_holds_def using new_session_abs(1) [OF assms, of t0 cbc] new_session_abs(2) [OF assms, of cbc]
  by (intro exI [of _ "[]"]) (simp add: unsent_def)

lemma writer_holds_end:
  assumes "writer_holds t0 w bs"
  shows "called w = [] \<and> (\<exists>rest. bs = concat (sent w) @ rest) \<and> (JobQueue w = [] \<longrightarrow> concat (sent w) = bs)"
  using assms by (auto simp: writer_holds_def writer_abs_def unsent_def split: if_splits)

section \<open>Frames at the subscriber\<close>

text \<open>Frames of user channels are routed like any other.\<close>

lemma plain_frame_bytes:
  assumes "ch < FrameTypeNil" "length ex < 2 ^ 16" "8 + length d + length ex < 2 ^ 32"
  shows "plain_frame (frame_bytes ch d ex)"
  unfolding plain_frame_def wf_frame_def
  using assms by (intro conjI exI [of _ ch] exI [of _ d] exI [of _ ex]) (auto simp: frame_type_defs)

text \<open>The context that the wrapper makes of the bytes of a frame.\<close>

definition context_of :: "u8 list \<Rightarrow> ContextMQ" where
  "context_of f = (case do { g \<leftarrow> DecodeByBytes (of_list f); d \<leftarrow> GetData g; e \<leftarrow> GetExtend g; Some (elems d, elems e) } of
     None \<Rightarrow> \<lparr>Request = [], ctx_ex = None\<rparr> | Some (d, e) \<Rightarrow> \<lparr>Request = d, ctx_ex = Some e\<rparr>)"

lemma context_of_frame: "length ex < 2 ^ 16 \<Longrightarrow> context_of (frame_bytes ft d ex) = \<lparr>Request = d, ctx_ex = Some ex\<rparr>"
proof -
  assume ex: "length ex < 2 ^ 16"
  obtain f x y where "DecodeByBytes (of_list (frame_bytes ft d ex)) = Some f" "GetData f = Some x" "elems x = d"
    "GetExtend f = Some y" "elems y = ex"
    using frame_parts [OF wf_of_list elems_of_list ex] by metis
  then show ?thesis by (simp add: context_of_def)
qed

lemma subscriber_handles:
  assumes "length ex < 2 ^ 16"
  shows "handles se (fst (node_Subscribe mid F ch h)) (\<lambda>f w. (None, snd (F (context_of f) w))) (frame_bytes ch d ex)"
  unfolding handles_def
proof (intro exI conjI allI impI)
  show "fst (node_Subscribe mid F ch h) (frame_type (frame_bytes ch d ex)) = Some (processWrapper F)"
    by (simp add: node_Subscribe_def HandleFunc_def)
  fix s w g b
  assume "GetFrameSlice s = Some g \<and> DecodeByBytes b = Some g \<and> wf_slice b \<and> elems b = frame_bytes ch d ex"
  then show "processWrapper F (session_view se s) w
      = Returned (fst (None, snd (F (context_of (frame_bytes ch d ex)) w))) (snd (None, snd (F (context_of (frame_bytes ch d ex)) w)))"
    using processWrapper_frame [of "session_view se s" w g b ch d ex F] assms
    by (simp add: context_of_frame session_view_def)
qed

section \<open>Properties\<close>


definition one_session :: "nat cluster" where
  "one_session = \<lparr>cl_sessions = [None, Some 0], cl_channels = (\<lambda>_. Some (bucket_add newBucket [] 1)), machineID = 0, cl_state = StateWork\<rparr>"

definition some_ops :: "nat node_op list" where
  "some_ops = [DoNotify 51 [1], DoWork 0, DoPublish 51 [2, 3], DoWork 0]"


end
