(* ===== verification/Calls.thy ===== *)
theory Calls
  imports Wire
begin

text \<open>
  Calls and answers (\<open>node.go\<close>) across caller, connection, routing loop, wrapper and reply, over the log of what nodes write:
  what a caller writes, what a subscriber that answers makes of it, and a reader that gets a whole stream.
\<close>

section \<open>A reader of a stream\<close>

text \<open>A reader that has nothing pending and room for frames of \<open>n\<close> bytes.\<close>

definition fresh_reader :: "SessionRd \<Rightarrow> nat \<Rightarrow> nat \<Rightarrow> bool" where
  "fresh_reader s fuel n \<longleftrightarrow> rd_w s = 0 \<and> rd_r s = 0 \<and> 0 < length (rBuf s) \<and> n \<le> length (rBuf s) \<and> length (rBuf s) < fuel \<and> length (rBuf s) < 2 ^ 32"

lemma receive_fresh:
  assumes "fresh_reader s fuel n" "\<forall>f\<in>set fs. plain_frame f \<and> length f \<le> n \<and> handles se h eff f" "h FrameTypeNil = Some nil_handler"
    and "\<forall>k\<in>set sizes. 0 < k" "length (concat fs) \<le> length sizes"
  shows "\<exists>s' l'. receive fuel h lim se s l w (concat fs) sizes = (Some (IoWaiting s' l' (deliver eff fs w)), [])"
  using receive_all [of s fuel fs se h eff sizes lim l w] assms by (fastforce simp: fresh_reader_def)

section \<open>Calls over a log\<close>

text \<open>A caller that makes calls with data \<open>d\<close>, to be answered on channel \<open>r\<close>, and a subscriber that answers with \<open>g d\<close>.\<close>

fun make_calls :: "'s cluster \<Rightarrow> u16 \<Rightarrow> (u8 list \<times> u16) list \<Rightarrow> 's wire_log \<Rightarrow> 's wire_log option" where
  "make_calls c ch [] w = Some w"
| "make_calls c ch ((d, r) # xs) w =
     (case Call 1 wire c ch d r (\<lambda>_ w. w) w of
        Some (Ended (c, w)) \<Rightarrow> make_calls c ch xs w
      | _ \<Rightarrow> None)"

definition answering :: "'s cluster \<Rightarrow> (u8 list \<Rightarrow> u8 list) \<Rightarrow> ContextMQ \<Rightarrow> 's wire_log \<Rightarrow> bool \<times> 's wire_log" where
  "answering c g ctx w =
     (case Reply wire c ctx (g (Request ctx)) (\<lambda>_ w. w) w of Ended w \<Rightarrow> (True, w) | Crashed \<Rightarrow> (False, w))"

text \<open>What the calls write when the channel has one subscriber.\<close>

definition call_frame :: "u16 \<Rightarrow> u16 \<Rightarrow> u8 list \<times> u16 \<Rightarrow> u8 list" where
  "call_frame mid ch x = frame_bytes ch (fst x) (bytes16 mid @ bytes16 (snd x))"

lemma Call_one:
  assumes "cl_channels c ch = Some b" "cursor_at b p" "sets b = [j]" "unat j < length (cl_sessions c)" "cl_sessions c ! unat j = Some m"
  shows "\<exists>b' p'. Call 1 wire c ch d r reject w
      = Some (Ended (c\<lparr>cl_channels := (cl_channels c)(ch \<mapsto> b')\<rparr>, w @ [(m, call_frame (machineID c) ch (d, r))]))
    \<and> cursor_at b' p' \<and> sets b' = [j]"
proof -
  obtain b' where "bucket_next b = Some ((j, 1), b')" "cursor_at b' 0" "sets b' = [j]"
    using cursor_next [OF assms(2)] assms(3) by auto
  then show ?thesis using assms(1,4,5)
    by (intro exI [of _ b'] exI [of _ 0])
      (simp add: Call_def call_ex_bytes NewFrameSlice_bytes AskOne_def wire_def arr_get_def Let_def call_frame_def)
qed

lemma make_calls_log:
  assumes "cl_channels c ch = Some b" "cursor_at b p" "sets b = [j]" "unat j < length (cl_sessions c)" "cl_sessions c ! unat j = Some m"
  shows "make_calls c ch xs w = Some (w @ map (\<lambda>x. (m, call_frame (machineID c) ch x)) xs)"
  using assms
proof (induction xs arbitrary: c b p w)
  case (Cons x xs)
  obtain d r where x: "x = (d, r)" by (cases x)
  obtain b' p' where call: "Call 1 wire c ch d r (\<lambda>_ w. w) w
      = Some (Ended (c\<lparr>cl_channels := (cl_channels c)(ch \<mapsto> b')\<rparr>, w @ [(m, call_frame (machineID c) ch (d, r))]))"
    "cursor_at b' p'" "sets b' = [j]"
    using Call_one [OF Cons.prems, of d r "\<lambda>_ w. w" w] by blast
  then show ?case
    using Cons.IH [of "c\<lparr>cl_channels := (cl_channels c)(ch \<mapsto> b')\<rparr>" b' p'] Cons.prems(4,5) x by simp
qed simp

text \<open>What the subscriber writes for one call.\<close>

lemma answer_call:
  assumes "unat mid < length (cl_sessions c)" "cl_sessions c ! unat mid = Some a"
  shows "snd (answering c g (context_of (call_frame mid ch (d, r))) w) = w @ [(a, frame_bytes r (g d) [])]"
proof -
  have ctx: "context_of (call_frame mid ch (d, r)) = \<lparr>Request = d, ctx_ex = Some (bytes16 mid @ bytes16 r)\<rparr>"
    by (simp add: call_frame_def context_of_frame)
  obtain f where "elems (GetAll f) = frame_bytes r (g d) []"
    "Reply wire c \<lparr>Request = d, ctx_ex = Some (bytes16 mid @ bytes16 r)\<rparr> (g d) (\<lambda>_ w. w) w
      = Specify wire c mid r f ((\<lambda>_ w. w) \<circ> NodeSend) w"
    using reply_specify [of "\<lparr>Request = d, ctx_ex = Some (bytes16 mid @ bytes16 r)\<rparr>" mid r "g d" wire c "\<lambda>_ w. w" w] by auto
  then show ?thesis using assms ctx by (simp add: answering_def Specify_def arr_get_def wire_def GetAll_def)
qed

lemma plain_call_frame:
  assumes "ch < FrameTypeNil" "12 + length (fst x) < 2 ^ 32"
  shows "plain_frame (call_frame mid ch x)"
  unfolding call_frame_def by (rule plain_frame_bytes) (use assms in simp_all)

lemma deliver_answers:
  assumes "unat mid < length (cl_sessions c)" "cl_sessions c ! unat mid = Some a"
  shows "deliver (\<lambda>f w. (None, snd (answering c g (context_of f) w))) (map (call_frame mid ch) xs) w
    = w @ map (\<lambda>(d, r). (a, frame_bytes r (g d) [])) xs"
proof (induction xs arbitrary: w)
  case (Cons x xs)
  then show ?case using answer_call [OF assms] by (cases x) simp
qed simp

text \<open>Any function subscribed to a channel gets the calls on it, whatever the cuts of their stream.\<close>

lemma calls_routed:
  assumes "rd_w s = 0" "rd_r s = 0" "0 < length (rBuf s)" "length (rBuf s) < 2 ^ 32" "length (rBuf s) < fuel"
    and "\<forall>(d, r)\<in>set xs. 12 + length d \<le> length (rBuf s)" "h FrameTypeNil = Some nil_handler" "ch < FrameTypeNil"
    and "\<forall>k\<in>set sizes. 0 < k" "length (concat (map (call_frame cm ch) xs)) \<le> length sizes"
  shows "\<exists>s' l'. receive fuel (fst (node_Subscribe mid F ch h)) lim se s l w (concat (map (call_frame cm ch) xs)) sizes
    = (Some (IoWaiting s' l' (deliver (\<lambda>f w. (None, snd (F (context_of f) w))) (map (call_frame cm ch) xs) w)), [])"
proof -
  let ?h = "fst (node_Subscribe mid F ch h)"
  let ?eff = "\<lambda>f w. (None, snd (F (context_of f) w))"
  have frames: "\<forall>f\<in>set (map (call_frame cm ch) xs). plain_frame f \<and> length f \<le> length (rBuf s) \<and> handles se ?h ?eff f"
  proof
    fix f assume "f \<in> set (map (call_frame cm ch) xs)"
    then obtain d r where f: "(d, r) \<in> set xs" "f = call_frame cm ch (d, r)" by auto
    then have "12 + length d \<le> length (rBuf s)" using assms(6) by auto
    then show "plain_frame f \<and> length f \<le> length (rBuf s) \<and> handles se ?h ?eff f"
      using plain_call_frame [OF assms(8), of "(d, r)" cm] assms(4) f
        subscriber_handles [of "bytes16 cm @ bytes16 r" se mid F ch h d] by (simp add: call_frame_def)
  qed
  have nil: "?h FrameTypeNil = Some nil_handler" using assms(7,8) by (auto simp: node_Subscribe_def HandleFunc_def)
  show ?thesis using receive_all [OF assms(1-3,5) frames nil assms(9,10), of lim l w] by blast
qed

end
