(* ===== verification/Room.thy ===== *)
theory Room
  imports Regions
begin

text \<open>
  The chat room of \<open>examples/chat/eficientlyRoom/room.go\<close>: a service that counts its users in handlers, which run in the reading
  goroutines of the sessions, and whose \<open>Run\<close> must not end before the last user has left. The handlers
  and \<open>Run\<close> mix at their atomic operations.
\<close>

section \<open>Channels of the chat programs\<close>

definition ChannelRoom :: u16 where "ChannelRoom = 50"
definition ChannelMsg_chat :: u16 where "ChannelMsg_chat = 51"
definition ChannelJoin :: u16 where "ChannelJoin = 52"
definition ChannelLeave :: u16 where "ChannelLeave = 53"

lemmas chat_channel_defs = ChannelRoom_def ChannelMsg_chat_def ChannelJoin_def ChannelLeave_def

section \<open>Model\<close>

text \<open>What \<open>Run\<close> does next, and what a call of \<open>leave\<close> that has brought the count to 0 does next.\<close>

datatype run_pc = RunDone | RunLoad | RunStop | RunWait | RunCancel | RunReturned

datatype leave_pc = LeaveCheck | LeaveStop

text \<open>\<open>r_ctx\<close>: the context of the program is done. \<open>r_stopChan\<close>: the channel is closed. \<open>r_cancelled\<close>: \<open>Cancel\<close> has been called.\<close>

record room =
  r_ctx :: bool
  r_cancelled :: bool
  r_stopChan :: bool
  r_count :: i32
  r_closeOnce :: bool
  r_run :: run_pc
  r_leaves :: "leave_pc list"

definition new_room :: room where
  "new_room = \<lparr>r_ctx = False, r_cancelled = False, r_stopChan = False, r_count = 0, r_closeOnce = False,
     r_run = RunDone, r_leaves = []\<rparr>"

text \<open>\<^const>\<open>None\<close>: closing a closed channel panics.\<close>

definition room_stop :: "room \<Rightarrow> room option" where
  "room_stop r =
     (if r_closeOnce r then Some r
      else if r_stopChan r then None
      else Some (r\<lparr>r_closeOnce := True, r_stopChan := True\<rparr>))"

text \<open>One step of \<open>Run\<close>; \<^const>\<open>None\<close>: it blocks or has returned.\<close>

definition room_Run :: "room \<Rightarrow> room option" where
  "room_Run r =
     (case r_run r of
        RunDone \<Rightarrow> if r_ctx r then Some (r\<lparr>r_run := RunLoad\<rparr>) else None
      | RunLoad \<Rightarrow> Some (r\<lparr>r_run := if r_count r = 0 then RunStop else RunWait\<rparr>)
      | RunStop \<Rightarrow> do { r \<leftarrow> room_stop r; Some (r\<lparr>r_run := RunWait\<rparr>) }
      | RunWait \<Rightarrow> if r_stopChan r then Some (r\<lparr>r_run := RunCancel\<rparr>) else None
      | RunCancel \<Rightarrow> Some (r\<lparr>r_cancelled := True, r_run := RunReturned\<rparr>)
      | RunReturned \<Rightarrow> None)"

definition join :: "room \<Rightarrow> room" where
  "join r = r\<lparr>r_count := r_count r + 1\<rparr>"

text \<open>\<open>leave\<close>: the decrement, and what a call at 0 does after it.\<close>

definition leave :: "room \<Rightarrow> room" where
  "leave r =
     (let nc = r_count r - 1
      in r\<lparr>r_count := nc, r_leaves := r_leaves r @ (if nc = 0 then [LeaveCheck] else [])\<rparr>)"

definition drop_leave :: "nat \<Rightarrow> room \<Rightarrow> room" where
  "drop_leave k r = r\<lparr>r_leaves := take k (r_leaves r) @ drop (Suc k) (r_leaves r)\<rparr>"

definition leave_go :: "nat \<Rightarrow> room \<Rightarrow> room option" where
  "leave_go k r =
     (if k < length (r_leaves r) then
        (case r_leaves r ! k of
           LeaveCheck \<Rightarrow> Some (if r_ctx r then r\<lparr>r_leaves := (r_leaves r)[k := LeaveStop]\<rparr> else drop_leave k r)
         | LeaveStop \<Rightarrow> do { r \<leftarrow> room_stop r; Some (drop_leave k r) })
      else None)"

datatype room_action = CtxIsDone | Join | Leave | RunGo | LeaveGo nat

fun room_act :: "room_action \<Rightarrow> room \<Rightarrow> room option" where
  "room_act CtxIsDone r = Some (r\<lparr>r_ctx := True\<rparr>)"
| "room_act Join r = Some (join r)"
| "room_act Leave r = Some (leave r)"
| "room_act RunGo r = room_Run r"
| "room_act (LeaveGo k) r = leave_go k r"

fun room_run :: "room_action list \<Rightarrow> room \<Rightarrow> room option" where
  "room_run [] r = Some r"
| "room_run (a # as) r = do { r \<leftarrow> room_act a r; room_run as r }"

text \<open>The steps of a room that never has more leaves than joins.\<close>

inductive room_step :: "room \<Rightarrow> room \<Rightarrow> bool" where
  "room_act a r = Some r' \<Longrightarrow> 0 \<le>s r_count r' \<Longrightarrow> room_step r r'"

inductive_cases room_stepE: "room_step r r'"

section \<open>Nobody misses the last leave\<close>

definition room_inv :: "room \<Rightarrow> bool" where
  "room_inv r \<longleftrightarrow> (r_closeOnce r \<longleftrightarrow> r_stopChan r) \<and> 0 \<le>s r_count r
     \<and> (r_run r \<noteq> RunDone \<longrightarrow> r_ctx r) \<and> (LeaveStop \<in> set (r_leaves r) \<longrightarrow> r_ctx r) \<and> (r_stopChan r \<longrightarrow> r_ctx r)
     \<and> (r_run r = RunCancel \<or> r_run r = RunReturned \<longrightarrow> r_stopChan r) \<and> (r_cancelled r \<longleftrightarrow> r_run r = RunReturned)
     \<and> (r_run r = RunWait \<and> \<not> r_stopChan r \<and> r_count r = 0 \<longrightarrow> r_leaves r \<noteq> [])"

lemma room_stop_inv: "room_inv r \<Longrightarrow> room_stop r = Some (r\<lparr>r_closeOnce := True, r_stopChan := True\<rparr>)"
  by (simp add: room_inv_def room_stop_def)

lemma minus_one_slt: "0 \<le>s (c :: i32) \<Longrightarrow> c + 1 \<noteq> 0"
  by (auto simp: eq_neg_iff_add_eq_0 [symmetric] word_sle_eq)

lemma drop_leave_simps [simp]:
  "r_ctx (drop_leave k r) = r_ctx r" "r_cancelled (drop_leave k r) = r_cancelled r" "r_stopChan (drop_leave k r) = r_stopChan r"
  "r_count (drop_leave k r) = r_count r" "r_closeOnce (drop_leave k r) = r_closeOnce r" "r_run (drop_leave k r) = r_run r"
  by (simp_all add: drop_leave_def)

lemma set_drop_leave: "x \<in> set (r_leaves (drop_leave k r)) \<Longrightarrow> x \<in> set (r_leaves r)"
  by (auto simp: drop_leave_def dest: in_set_takeD in_set_dropD)

lemma room_Run_inv: "room_inv r \<Longrightarrow> room_Run r = Some r' \<Longrightarrow> room_inv r'"
  by (cases "r_run r") (auto simp: room_Run_def room_stop_inv room_inv_def split: if_splits)

lemma leave_go_inv: "room_inv r \<Longrightarrow> leave_go k r = Some r' \<Longrightarrow> room_inv r'"
proof -
  assume i: "room_inv r" and g: "leave_go k r = Some r'"
  then have k: "k < length (r_leaves r)" by (simp add: leave_go_def split: if_splits)
  show ?thesis
  proof (cases "r_leaves r ! k")
    case LeaveCheck
    show ?thesis
    proof (cases "r_ctx r")
      case True
      then have "r' = r\<lparr>r_leaves := (r_leaves r)[k := LeaveStop]\<rparr>" using LeaveCheck g k by (simp add: leave_go_def)
      then show ?thesis using i True by (simp add: room_inv_def)
    next
      case False
      then have "r' = drop_leave k r" using LeaveCheck g k by (simp add: leave_go_def)
      then show ?thesis using i False by (auto simp: room_inv_def dest: set_drop_leave)
    qed
  next
    case LeaveStop
    let ?r = "r\<lparr>r_closeOnce := True, r_stopChan := True\<rparr>"
    have "r_ctx r" using LeaveStop k i nth_mem [OF k] by (auto simp: room_inv_def)
    moreover have "r' = drop_leave k ?r" using LeaveStop g k room_stop_inv [OF i] by (simp add: leave_go_def)
    ultimately show ?thesis using i by (auto simp: room_inv_def)
  qed
qed

interpretation room: step_invariant "\<lambda>r. r = new_room" room_step room_inv
proof
  fix r r' assume i: "room_inv r" and "room_step r r'"
  then obtain a where a: "room_act a r = Some r'" "0 \<le>s r_count r'" by (auto elim: room_stepE)
  show "room_inv r'"
  proof (cases a)
    case Join
    then have "r' = join r" using a by simp
    moreover have "r_count r + 1 \<noteq> 0" using i by (intro minus_one_slt) (simp add: room_inv_def)
    ultimately show ?thesis using a(2) i by (simp add: room_inv_def join_def)
  next
    case Leave
    define nc where "nc = r_count r - 1"
    have "r' = r\<lparr>r_count := nc, r_leaves := r_leaves r @ (if nc = 0 then [LeaveCheck] else [])\<rparr>"
      using Leave a by (simp add: leave_def nc_def [symmetric])
    then show ?thesis using a(2) i by (cases "nc = 0") (simp_all add: room_inv_def)
  next
    case CtxIsDone
    then have "r' = r\<lparr>r_ctx := True\<rparr>" using a by simp
    then show ?thesis using i by (simp add: room_inv_def)
  next
    case RunGo
    then show ?thesis using room_Run_inv [OF i] a(1) by simp
  next
    case (LeaveGo k)
    then show ?thesis using leave_go_inv [OF i] a(1) by simp
  qed
qed (simp add: room_inv_def new_room_def)

section \<open>The room ends\<close>

text \<open>The steps that are left to \<open>Run\<close> and to calls of \<open>leave\<close>: each of their own steps takes one off, at least.\<close>

fun own :: "room_action \<Rightarrow> bool" where
  "own RunGo = True" | "own (LeaveGo k) = True" | "own _ = False"

fun run_rank :: "run_pc \<Rightarrow> nat" where
  "run_rank RunDone = 5" | "run_rank RunLoad = 4" | "run_rank RunStop = 3" | "run_rank RunWait = 2" | "run_rank RunCancel = 1"
| "run_rank RunReturned = 0"

fun leave_rank :: "leave_pc \<Rightarrow> nat" where
  "leave_rank LeaveCheck = 2" | "leave_rank LeaveStop = 1"

definition room_work :: "room \<Rightarrow> nat" where
  "room_work r = run_rank (r_run r) + sum_list (map leave_rank (r_leaves r))"

lemma drop_leave_work: "k < length (r_leaves r) \<Longrightarrow> room_work (drop_leave k r) + leave_rank (r_leaves r ! k) = room_work r"
  using arg_cong [OF id_take_nth_drop [of k "r_leaves r"], of "\<lambda>ls. sum_list (map leave_rank ls)"]
  by (simp add: room_work_def drop_leave_def)

lemma update_leave_work:
  "k < length ls \<Longrightarrow> sum_list (map leave_rank (ls[k := l])) + leave_rank (ls ! k) = sum_list (map leave_rank ls) + leave_rank l"
  by (induction ls arbitrary: k) (auto split: nat.splits simp: nth_Cons)

lemma own_step:
  assumes "room_inv r" "r_ctx r" "r_count r = 0" "own a" "room_act a r = Some r'"
  shows "room_work r' < room_work r \<and> r_ctx r' \<and> r_count r' = 0"
proof (cases a)
  case RunGo
  then show ?thesis using assms
    by (cases "r_run r") (auto simp: room_Run_def room_stop_inv room_work_def split: if_splits)
next
  case (LeaveGo k)
  then have g: "leave_go k r = Some r'" and k: "k < length (r_leaves r)"
    using assms(5) by (auto simp: leave_go_def split: if_splits)
  show ?thesis
  proof (cases "r_leaves r ! k")
    case LeaveCheck
    then show ?thesis using g k assms(2,3) update_leave_work [OF k, of LeaveStop] by (auto simp: leave_go_def room_work_def)
  next
    case LeaveStop
    let ?r = "r\<lparr>r_closeOnce := True, r_stopChan := True\<rparr>"
    have "r' = drop_leave k ?r" using LeaveStop g k room_stop_inv [OF assms(1)] by (simp add: leave_go_def)
    moreover have "room_work ?r = room_work r" by (simp add: room_work_def)
    ultimately show ?thesis using drop_leave_work [of k ?r] LeaveStop k assms(2,3) by simp
  qed
qed (use assms(4) in simp_all)

lemma own_enabled:
  assumes "room_inv r" "r_ctx r" "r_count r = 0" "r_run r \<noteq> RunReturned"
  shows "\<exists>a. own a \<and> room_act a r \<noteq> None"
proof (cases "room_Run r")
  case None
  then have w: "r_run r = RunWait" "\<not> r_stopChan r"
    using assms room_stop_inv [OF assms(1)] by (cases "r_run r"; auto simp: room_Run_def)+
  then have "r_leaves r \<noteq> []" using assms by (auto simp: room_inv_def)
  then have "leave_go 0 r \<noteq> None"
    using room_stop_inv [OF assms(1)] by (cases "r_leaves r ! 0") (auto simp: leave_go_def)
  then show ?thesis by (intro exI [of _ "LeaveGo 0"]) simp
qed (intro exI [of _ RunGo], simp)

lemma own_run:
  assumes "room_inv r" "r_ctx r" "r_count r = 0" "list_all own as" "room_run as r = Some r'"
  shows "length as + room_work r' \<le> room_work r \<and> room_inv r' \<and> r_ctx r' \<and> r_count r' = 0"
  using assms
proof (induction as arbitrary: r)
  case (Cons a as)
  then obtain r1 where r1: "room_act a r = Some r1" "room_run as r1 = Some r'" by (auto split: bind_splits)
  note s = own_step [OF Cons.prems(1-3) _ r1(1)]
  have "room_inv r1" using s Cons.prems r1(1) by (intro room.step_inv [OF Cons.prems(1)] room_step.intros) auto
  then show ?case using Cons.IH [of r1] s Cons.prems(4) r1(2) by fastforce
qed simp

section \<open>Properties\<close>

lemma room_never_panics: "reach (\<lambda>r. r = new_room) room_step r \<Longrightarrow> room_stop r \<noteq> None"
  using room_stop_inv [OF room.reach_inv] by simp


text \<open>A user who joins before the end of the context, is seen by \<open>Run\<close>, and leaves.\<close>

definition one_user :: "room_action list" where
  "one_user = [Join, CtxIsDone, RunGo, RunGo, Leave]"

definition last_steps :: "room_action list" where
  "last_steps = [LeaveGo 0, LeaveGo 0, RunGo, RunGo]"

definition left_room :: room where
  "left_room = \<lparr>r_ctx = True, r_cancelled = False, r_stopChan = False, r_count = 0, r_closeOnce = False,
     r_run = RunWait, r_leaves = [LeaveCheck]\<rparr>"

lemma room_run_reach:
  "reach (\<lambda>r. r = new_room) room_step r \<Longrightarrow> room_act a r = Some r' \<Longrightarrow> 0 \<le>s r_count r' \<Longrightarrow> reach (\<lambda>r. r = new_room) room_step r'"
  by (blast intro: reach_step room_step.intros)

lemma left_room_reach: "reach (\<lambda>r. r = new_room) room_step left_room"
proof -
  have "reach (\<lambda>r. r = new_room) room_step new_room" by (rule reach_init) (rule refl)
  then have "reach (\<lambda>r. r = new_room) room_step (new_room\<lparr>r_count := 1\<rparr>)"
    by (rule room_run_reach [where a = Join]) (simp_all add: new_room_def join_def word_sle_eq)
  then have "reach (\<lambda>r. r = new_room) room_step (new_room\<lparr>r_count := 1, r_ctx := True\<rparr>)"
    by (rule room_run_reach [where a = CtxIsDone]) (simp_all add: new_room_def word_sle_eq)
  then have "reach (\<lambda>r. r = new_room) room_step (new_room\<lparr>r_count := 1, r_ctx := True, r_run := RunLoad\<rparr>)"
    by (rule room_run_reach [where a = RunGo]) (simp_all add: new_room_def room_Run_def word_sle_eq)
  then have "reach (\<lambda>r. r = new_room) room_step (new_room\<lparr>r_count := 1, r_ctx := True, r_run := RunWait\<rparr>)"
    by (rule room_run_reach [where a = RunGo]) (simp_all add: new_room_def room_Run_def word_sle_eq)
  then show ?thesis
    by (rule room_run_reach [where a = Leave]) (simp_all add: new_room_def left_room_def leave_def word_sle_eq)
qed


text \<open>A room that gets a \<open>leave\<close> before the \<open>join\<close> it belongs to: if \<open>Run\<close> looks at the count in between, no step is left
  that could end it, although the context is done and the count is 0.\<close>

lemma early_leave_strands_room:
  "\<exists>r. room_run [CtxIsDone, RunGo, Leave, RunGo, Join] new_room = Some r \<and> r_ctx r \<and> r_count r = 0 \<and> \<not> r_cancelled r
    \<and> (\<forall>a. own a \<longrightarrow> room_act a r = None)"
proof -
  have "own a \<longrightarrow> room_act a (new_room\<lparr>r_ctx := True, r_run := RunWait\<rparr>) = None" for a
    by (cases a) (simp_all add: new_room_def room_Run_def leave_go_def)
  then show ?thesis by (simp add: new_room_def room_Run_def leave_def join_def)
qed

end
