(* ===== verification/Gateway.thy ===== *)
theory Gateway
  imports Room
begin

text \<open>
  The gateway of \<open>examples/chat/gateway/gateway.go\<close>: one goroutine per web socket (\<open>serveWs\<close>) announces its user, passes the
  messages on and takes leave, and \<open>Run\<close> cancels the node when the program is being stopped and every web
  socket is finished. The goroutines mix at these steps. The web socket library is left to its answers.
\<close>

section \<open>Model\<close>

datatype gw_step =
    WgAdd | WgDone | MapStore | MapDelete | NodeNotify u16 "u8 list" | LogLine string | ConnClose

text \<open>
  What \<open>serveWs\<close> does, its deferred calls in their order at the end. \<open>addr\<close>: \<open>RemoteAddr\<close> of the connection that \<open>Upgrade\<close>
  returned gives an address (it is called before the error is looked at, and a panic leaves only the
  deferred \<open>Close\<close>); \<open>ok\<close>: \<open>Upgrade\<close> returned no error; \<open>msgs\<close>: what is read until \<open>ReadMessage\<close> fails.
\<close>

definition serveWs :: "bool \<Rightarrow> bool \<Rightarrow> u8 list list \<Rightarrow> gw_step list" where
  "serveWs addr ok msgs =
     (if \<not> addr then [ConnClose]
      else [LogLine ''start'', WgAdd]
        @ (if \<not> ok then [LogLine ''Upgrade'']
           else [MapStore, NodeNotify ChannelJoin []] @ map (NodeNotify ChannelMsg_chat) msgs
             @ [NodeNotify ChannelLeave [], MapDelete])
        @ [WgDone, LogLine ''exit'', ConnClose])"

datatype gw_pc = GwCtx | GwWait | GwCancel | GwReturned

text \<open>
  A client is its program and the number of its steps done. \<open>g_connMap\<close> are the clients in the map, \<open>g_notes\<close> the
  notifications sent, \<open>g_wait\<close> the wait group. \<open>g_fatal\<close>: a notification has failed, and \<open>reject\<close> ends the process.
\<close>

record gateway =
  g_ctx :: bool
  g_cancelled :: bool
  g_connMap :: "nat list"
  g_wait :: int
  g_fatal :: bool
  g_run :: gw_pc
  g_clients :: "(gw_step list \<times> nat) list"
  g_notes :: "(nat \<times> u16 \<times> u8 list) list"

definition new_gateway :: gateway where
  "new_gateway = \<lparr>g_ctx = False, g_cancelled = False, g_connMap = [], g_wait = 0, g_fatal = False, g_run = GwCtx,
     g_clients = [], g_notes = []\<rparr>"

text \<open>\<open>sent\<close>: the node takes the notification.\<close>

fun gw_exec :: "bool \<Rightarrow> nat \<Rightarrow> gw_step \<Rightarrow> gateway \<Rightarrow> gateway" where
  "gw_exec sent k WgAdd g = g\<lparr>g_wait := g_wait g + 1\<rparr>"
| "gw_exec sent k WgDone g = g\<lparr>g_wait := g_wait g - 1\<rparr>"
| "gw_exec sent k MapStore g = g\<lparr>g_connMap := k # removeAll k (g_connMap g)\<rparr>"
| "gw_exec sent k MapDelete g = g\<lparr>g_connMap := removeAll k (g_connMap g)\<rparr>"
| "gw_exec sent k (NodeNotify ch d) g = (if sent then g\<lparr>g_notes := g_notes g @ [(k, ch, d)]\<rparr> else g\<lparr>g_fatal := True\<rparr>)"
| "gw_exec sent k (LogLine s) g = g"
| "gw_exec sent k ConnClose g = g"

definition client_go :: "bool \<Rightarrow> nat \<Rightarrow> gateway \<Rightarrow> gateway option" where
  "client_go sent k g =
     (if k < length (g_clients g) then
        (let (p, n) = g_clients g ! k
         in if n < length p then Some (gw_exec sent k (p ! n) (g\<lparr>g_clients := (g_clients g)[k := (p, Suc n)]\<rparr>)) else None)
      else None)"

definition gateway_Run :: "gateway \<Rightarrow> gateway option" where
  "gateway_Run g =
     (case g_run g of
        GwCtx \<Rightarrow> if g_ctx g then Some (g\<lparr>g_run := GwWait\<rparr>) else None
      | GwWait \<Rightarrow> if g_wait g = 0 then Some (g\<lparr>g_run := GwCancel\<rparr>) else None
      | GwCancel \<Rightarrow> Some (g\<lparr>g_cancelled := True, g_run := GwReturned\<rparr>)
      | GwReturned \<Rightarrow> None)"

datatype gw_action = GwCtxIsDone | NewClient bool bool "u8 list list" | ClientGo bool nat | GwRunGo

fun gw_act :: "gw_action \<Rightarrow> gateway \<Rightarrow> gateway option" where
  "gw_act GwCtxIsDone g = (if g_fatal g then None else Some (g\<lparr>g_ctx := True\<rparr>))"
| "gw_act (NewClient addr ok msgs) g =
     (if g_fatal g then None else Some (g\<lparr>g_clients := g_clients g @ [(serveWs addr ok msgs, 0)]\<rparr>))"
| "gw_act (ClientGo sent k) g = (if g_fatal g then None else client_go sent k g)"
| "gw_act GwRunGo g = (if g_fatal g then None else gateway_Run g)"

fun gw_run :: "gw_action list \<Rightarrow> gateway \<Rightarrow> gateway option" where
  "gw_run [] g = Some g"
| "gw_run (a # as) g = do { g \<leftarrow> gw_act a g; gw_run as g }"

text \<open>\<open>rev\<close>: every web socket in the map gets the request.\<close>

definition gate_rev :: "nat list \<Rightarrow> u8 list \<Rightarrow> (nat \<times> u8 list) list" where
  "gate_rev conns request = map (\<lambda>k. (k, request)) conns"

section \<open>What a client has done\<close>

fun note_of :: "gw_step \<Rightarrow> (u16 \<times> u8 list) list" where
  "note_of (NodeNotify ch d) = [(ch, d)]"
| "note_of _ = []"

definition done_steps :: "gw_step list \<times> nat \<Rightarrow> gw_step list" where
  "done_steps c = take (snd c) (fst c)"

definition notes_done :: "gw_step list \<Rightarrow> (u16 \<times> u8 list) list" where
  "notes_done ss = concat (map note_of ss)"

definition wg_of :: "gw_step list \<Rightarrow> int" where
  "wg_of ss = int (num (\<lambda>s. s = WgAdd) ss) - int (num (\<lambda>s. s = WgDone) ss)"

text \<open>Users announced and not yet gone, as the notifications tell.\<close>

definition users :: "(u16 \<times> u8 list) list \<Rightarrow> int" where
  "users ns = int (num (\<lambda>n. fst n = ChannelJoin) ns) - int (num (\<lambda>n. fst n = ChannelLeave) ns)"

lemma snoc_simps [simp]:
  "notes_done (ss @ [s]) = notes_done ss @ note_of s"
  "wg_of (ss @ [s]) = wg_of ss + (if s = WgAdd then 1 else 0) - (if s = WgDone then 1 else 0)"
  "users (ns @ ms) = users ns + users ms"
  by (simp_all add: notes_done_def wg_of_def users_def)

lemma done_Suc: "n < length p \<Longrightarrow> done_steps (p, Suc n) = done_steps (p, n) @ [p ! n]"
  by (simp add: done_steps_def take_Suc_conv_app_nth)

text \<open>A client is in the map after its last \<open>Store\<close>, until its \<open>Delete\<close>.\<close>

definition stored :: "gw_step list \<Rightarrow> bool" where
  "stored ss \<longleftrightarrow> (case filter (\<lambda>s. s = MapStore \<or> s = MapDelete) (rev ss) of [] \<Rightarrow> False | s # _ \<Rightarrow> s = MapStore)"

lemma stored_snoc [simp]: "stored (ss @ [s]) = (if s = MapStore then True else if s = MapDelete then False else stored ss)"
  by (simp add: stored_def)

lemma empty_simps [simp]: "notes_done [] = []" "wg_of [] = 0" "\<not> stored []" "users [] = 0"
  by (simp_all add: notes_done_def wg_of_def stored_def users_def)

definition notes_by :: "nat \<Rightarrow> (nat \<times> u16 \<times> u8 list) list \<Rightarrow> (u16 \<times> u8 list) list" where
  "notes_by k ns = map snd (filter (\<lambda>n. fst n = k) ns)"

lemma notes_by_simps [simp]: "notes_by k [] = []" "notes_by k (ns @ ms) = notes_by k ns @ notes_by k ms"
  "notes_by k [(j, n)] = (if j = k then [n] else [])"
  by (simp_all add: notes_by_def)

section \<open>The invariant\<close>

definition serving :: "gw_step list \<times> nat \<Rightarrow> bool" where
  "serving c \<longleftrightarrow> (\<exists>addr ok msgs. fst c = serveWs addr ok msgs)"

definition gw_inv :: "gateway \<Rightarrow> bool" where
  "gw_inv g \<longleftrightarrow> (\<forall>c\<in>set (g_clients g). serving c)
     \<and> g_wait g = sum_list (map (\<lambda>c. wg_of (done_steps c)) (g_clients g))
     \<and> users (map snd (g_notes g)) = sum_list (map (\<lambda>c. users (notes_done (done_steps c))) (g_clients g))
     \<and> (\<forall>k<length (g_clients g). notes_by k (g_notes g) = notes_done (done_steps (g_clients g ! k)))
     \<and> (\<forall>k. k \<in> set (g_connMap g) \<longleftrightarrow> k < length (g_clients g) \<and> stored (done_steps (g_clients g ! k)))
     \<and> (\<forall>n\<in>set (g_notes g). fst n < length (g_clients g)) \<and> distinct (g_connMap g)"

lemma gw_inv_simps [simp]:
  "gw_inv (g\<lparr>g_run := r\<rparr>) = gw_inv g" "gw_inv (g\<lparr>g_ctx := b\<rparr>) = gw_inv g" "gw_inv (g\<lparr>g_cancelled := b\<rparr>) = gw_inv g"
  by (simp_all add: gw_inv_def)

inductive gw_trans :: "gateway \<Rightarrow> gateway \<Rightarrow> bool" where
  "gw_act a g = Some g' \<Longrightarrow> gw_trans g g'"

inductive_cases gw_transE: "gw_trans g g'"

lemma sum_list_map_update:
  fixes f :: "'a \<Rightarrow> int"
  shows "k < length xs \<Longrightarrow> sum_list (map f (xs[k := x])) = sum_list (map f xs) + f x - f (xs ! k)"
  by (induction xs arbitrary: k) (auto simp: nth_Cons split: nat.splits)

lemma client_go_inv:
  assumes "gw_inv g" "client_go sent k g = Some g'" "sent"
  shows "gw_inv g'"
proof -
  obtain p n where c: "k < length (g_clients g)" "g_clients g ! k = (p, n)" "n < length p"
    "g' = gw_exec sent k (p ! n) (g\<lparr>g_clients := (g_clients g)[k := (p, Suc n)]\<rparr>)"
    using assms(2) by (auto simp: client_go_def Let_def split: if_splits prod.splits)
  note I = assms(1) [unfolded gw_inv_def]
  have "serving (p, n)" using I c(1,2) by (metis nth_mem)
  then have S: "serving (p, Suc n)" by (simp add: serving_def)
  have serve: "\<forall>c\<in>set ((g_clients g)[k := (p, Suc n)]). serving c"
  proof
    fix c assume "c \<in> set ((g_clients g)[k := (p, Suc n)])"
    then have "c = (p, Suc n) \<or> c \<in> set (g_clients g)" using set_update_subset_insert by fast
    then show "serving c" using I S by blast
  qed
  have d: "done_steps (p, Suc n) = done_steps (p, n) @ [p ! n]" using c(3) by (rule done_Suc)
  have by_k: "notes_by k (g_notes g) = notes_done (done_steps (p, n))" using I c(1,2) by fastforce
  have map': "k \<in> set (g_connMap g) \<longleftrightarrow> stored (done_steps (p, n))" using I c(1,2) by fastforce
  show ?thesis
    unfolding gw_inv_def
    using I serve c(1,2) d by_k map' assms(3)
    by (cases "p ! n") (simp_all add: c(4) sum_list_map_update nth_list_update users_def distinct_removeAll split: if_splits)
qed

lemma client_fatal:
  assumes "gw_inv g" "client_go False k g = Some g'"
  shows "gw_inv g' \<or> g_fatal g'"
proof -
  obtain p n where c: "g' = gw_exec False k (p ! n) (g\<lparr>g_clients := (g_clients g)[k := (p, Suc n)]\<rparr>)"
    "client_go True k g = Some (gw_exec True k (p ! n) (g\<lparr>g_clients := (g_clients g)[k := (p, Suc n)]\<rparr>))"
    using assms(2) by (auto simp: client_go_def Let_def split: if_splits prod.splits)
  show ?thesis using client_go_inv [OF assms(1) c(2)] c(1) by (cases "p ! n") simp_all
qed

interpretation gw: step_invariant "\<lambda>g. g = new_gateway" gw_trans "\<lambda>g. gw_inv g \<or> g_fatal g"
proof
  fix g g' assume "gw_inv g \<or> g_fatal g" "gw_trans g g'"
  then obtain a where a: "gw_act a g = Some g'" by (auto elim: gw_transE)
  then have f: "\<not> g_fatal g" by (cases a) (auto split: if_splits)
  with \<open>gw_inv g \<or> g_fatal g\<close> have i: "gw_inv g" by simp
  show "gw_inv g' \<or> g_fatal g'"
  proof (cases a)
    case (NewClient addr ok msgs)
    then have "g' = g\<lparr>g_clients := g_clients g @ [(serveWs addr ok msgs, 0)]\<rparr>" using a f by simp
    moreover have "done_steps (serveWs addr ok msgs, 0) = []" by (simp add: done_steps_def)
    moreover have "notes_by (length (g_clients g)) (g_notes g) = []"
      using i by (auto simp: gw_inv_def notes_by_def filter_empty_conv)
    ultimately have "gw_inv g'"
      using i by (auto simp: gw_inv_def serving_def nth_append less_Suc_eq)
    then show ?thesis ..
  next
    case (ClientGo sent k)
    then show ?thesis using a f client_go_inv [OF i] client_fatal [OF i] by (cases sent) auto
  next
    case GwRunGo
    then show ?thesis using a f i by (auto simp: gateway_Run_def split: gw_pc.splits if_splits)
  next
    case GwCtxIsDone
    then show ?thesis using a f i by auto
  qed
qed (simp add: gw_inv_def new_gateway_def)

section \<open>Prefixes of a client\<close>

text \<open>Between \<open>Add\<close> and \<open>Done\<close> a client counts in the wait group; in it lies its time in the map, and in this its time as a user.\<close>

definition client_ok :: "gw_step list \<Rightarrow> bool" where
  "client_ok ss \<longleftrightarrow> 0 \<le> users (notes_done ss) \<and> users (notes_done ss) \<le> (if stored ss then 1 else 0)
     \<and> (if stored ss then 1 else 0) \<le> wg_of ss \<and> wg_of ss \<le> 1"

lemma step_append:
  "notes_done (ss @ ts) = notes_done ss @ notes_done ts" "wg_of (ss @ ts) = wg_of ss + wg_of ts"
  "stored (ss @ ts) = (if MapStore \<in> set ts \<or> MapDelete \<in> set ts then stored ts else stored ss)"
proof -
  show "stored (ss @ ts) = (if MapStore \<in> set ts \<or> MapDelete \<in> set ts then stored ts else stored ss)"
    by (induction ts rule: rev_induct) (auto simp flip: append_assoc)
qed (simp_all add: notes_done_def wg_of_def)

lemma step_Cons:
  "notes_done (s # ss) = note_of s @ notes_done ss" "wg_of (s # ss) = (if s = WgAdd then 1 else 0) - (if s = WgDone then 1 else 0) + wg_of ss"
  "stored (s # ss) = (if MapStore \<in> set ss \<or> MapDelete \<in> set ss then stored ss else s = MapStore)"
  using step_append [of "[s]" ss] by (simp_all add: notes_done_def wg_of_def stored_def)

lemma users_Cons: "users (n # ns) = (if fst n = ChannelJoin then 1 else 0) - (if fst n = ChannelLeave then 1 else 0) + users ns"
  by (simp add: users_def)

lemma middle_simps:
  "notes_done (map (NodeNotify ChannelMsg_chat) ms) = map (Pair ChannelMsg_chat) ms" "wg_of (map (NodeNotify ChannelMsg_chat) ms) = 0"
  "MapStore \<notin> set (map (NodeNotify ChannelMsg_chat) ms)" "MapDelete \<notin> set (map (NodeNotify ChannelMsg_chat) ms)"
  "users (map (Pair ChannelMsg_chat) ms) = 0"
  by (induction ms) (simp_all add: step_Cons users_Cons chat_channel_defs)

lemma client_ok_short: "client_ok (take n [LogLine a, WgAdd, LogLine b, WgDone, LogLine c, ConnClose])" "client_ok (take n [ConnClose])"
  by (auto simp: take_Cons' client_ok_def step_Cons)

lemma channels_differ: "ChannelJoin \<noteq> ChannelLeave" "ChannelLeave \<noteq> ChannelJoin" "ChannelMsg_chat \<noteq> ChannelJoin" "ChannelMsg_chat \<noteq> ChannelLeave"
  by (simp_all add: chat_channel_defs)

lemma client_ok_user:
  "client_ok (take n [LogLine a, WgAdd, MapStore, NodeNotify ChannelJoin []])"
  "client_ok ([LogLine a, WgAdd, MapStore, NodeNotify ChannelJoin []] @ map (NodeNotify ChannelMsg_chat) ms
     @ take n [NodeNotify ChannelLeave [], MapDelete, WgDone, LogLine b, ConnClose])"
  by (auto simp: take_Cons' client_ok_def step_Cons step_append middle_simps users_Cons channels_differ)

lemma client_prefix: "client_ok (take n (serveWs addr ok msgs))"
proof (cases "addr \<and> ok")
  case False
  then show ?thesis using client_ok_short by (auto simp: serveWs_def)
next
  case True
  let ?head = "[LogLine ''start'', WgAdd, MapStore, NodeNotify ChannelJoin []]"
    and ?tail = "[NodeNotify ChannelLeave [], MapDelete, WgDone, LogLine ''exit'', ConnClose]"
  have p: "serveWs addr ok msgs = ?head @ map (NodeNotify ChannelMsg_chat) msgs @ ?tail" using True by (simp add: serveWs_def)
  show ?thesis
  proof (cases "n \<le> 4")
    case True
    then show ?thesis unfolding p using client_ok_user(1) [of n] by (simp del: append_Cons add: take_append)
  next
    case False
    then have "take n (serveWs addr ok msgs) = ?head @ map (NodeNotify ChannelMsg_chat) (take (n - 4) msgs) @ take (n - 4 - length msgs) ?tail"
      using False unfolding p by (simp only: take_append take_map) (simp add: numeral_eq_Suc)
    then show ?thesis using client_ok_user(2) by simp
  qed
qed

lemma user_notes:
  "notes_done (serveWs addr ok msgs) = (if addr \<and> ok then (ChannelJoin, []) # map (Pair ChannelMsg_chat) msgs @ [(ChannelLeave, [])] else [])"
  by (simp add: serveWs_def step_Cons step_append middle_simps)

lemma sum_list_between:
  fixes f g :: "'a \<Rightarrow> int"
  shows "\<forall>c\<in>set cs. 0 \<le> f c \<and> f c \<le> g c \<Longrightarrow> 0 \<le> sum_list (map f cs) \<and> sum_list (map f cs) \<le> sum_list (map g cs)"
  by (induction cs) auto

lemma sum_stored: "sum_list (map (\<lambda>c. if P c then 1 else 0) cs) = int (card {k. k < length cs \<and> P (cs ! k)})"
proof -
  have "sum_list (map (\<lambda>c. if P c then 1 else 0) cs) = int (length (filter P cs))" by (induction cs) auto
  then show ?thesis by (simp add: length_filter_conv_card)
qed

lemma map_size:
  assumes "gw_inv g"
  shows "int (length (g_connMap g)) = sum_list (map (\<lambda>c. if stored (done_steps c) then 1 else 0) (g_clients g))"
proof -
  have "set (g_connMap g) = {k. k < length (g_clients g) \<and> stored (done_steps (g_clients g ! k))}" "distinct (g_connMap g)"
    using assms by (auto simp: gw_inv_def)
  then show ?thesis by (metis distinct_card sum_stored [where P = "\<lambda>c. stored (done_steps c)"])
qed

lemma serving_ok: "serving c \<Longrightarrow> client_ok (done_steps c)"
  using client_prefix by (auto simp: serving_def done_steps_def)

lemma gw_counts:
  assumes "gw_inv g"
  shows "0 \<le> users (map snd (g_notes g)) \<and> users (map snd (g_notes g)) \<le> int (length (g_connMap g)) \<and> int (length (g_connMap g)) \<le> g_wait g"
proof -
  have c: "\<forall>c\<in>set (g_clients g). client_ok (done_steps c)" using assms serving_ok by (simp add: gw_inv_def)
  let ?s = "\<lambda>c. if stored (done_steps c) then 1 else 0 :: int"
  have "sum_list (map (\<lambda>c. users (notes_done (done_steps c))) (g_clients g)) \<le> sum_list (map ?s (g_clients g))"
    "0 \<le> sum_list (map (\<lambda>c. users (notes_done (done_steps c))) (g_clients g))"
    using sum_list_between [of "g_clients g" "\<lambda>c. users (notes_done (done_steps c))" ?s] c by (auto simp: client_ok_def)
  moreover have "sum_list (map ?s (g_clients g)) \<le> sum_list (map (\<lambda>c. wg_of (done_steps c)) (g_clients g))"
    using sum_list_between [of "g_clients g" ?s "\<lambda>c. wg_of (done_steps c)"] c by (auto simp: client_ok_def)
  ultimately show ?thesis using assms map_size [OF assms] by (simp add: gw_inv_def)
qed

text \<open>Hence at no time has a gateway sent more leaves than joins.\<close>

definition never_below :: "(u16 \<times> u8 list) list \<Rightarrow> bool" where
  "never_below ns \<longleftrightarrow> (\<forall>k. 0 \<le> users (take k ns))"

lemma never_below_snoc: "never_below (ns @ [n]) \<longleftrightarrow> never_below ns \<and> 0 \<le> users (ns @ [n])"
proof -
  have "take k (ns @ [n]) = (if k \<le> length ns then take k ns else ns @ [n])" for k by simp
  then show ?thesis unfolding never_below_def by (metis append.right_neutral nat_le_linear not_less_eq_eq take_all_iff take_all)
qed

lemma gw_act_notes: "gw_act a g = Some g' \<Longrightarrow> g_notes g' = g_notes g \<or> (\<exists>x. g_notes g' = g_notes g @ [x])"
proof (cases a)
  case (ClientGo sent k)
  assume "gw_act a g = Some g'"
  then obtain s g1 where "g' = gw_exec sent k s g1" "g_notes g1 = g_notes g"
    using ClientGo by (auto simp: client_go_def Let_def split: if_splits prod.splits)
  then show ?thesis by (cases s) auto
qed (auto simp: gateway_Run_def split: if_splits gw_pc.splits)

interpretation gwn: step_invariant "\<lambda>g. g = new_gateway" gw_trans "\<lambda>g. gw_inv g \<and> never_below (map snd (g_notes g)) \<or> g_fatal g"
proof
  fix g g' assume h: "gw_inv g \<and> never_below (map snd (g_notes g)) \<or> g_fatal g" and t: "gw_trans g g'"
  obtain a where a: "gw_act a g = Some g'" using t by (auto elim: gw_transE)
  then have n: "never_below (map snd (g_notes g))" using h by (cases a) (auto split: if_splits)
  have i: "gw_inv g' \<or> g_fatal g'" using gw.step_inv [OF _ t] h by blast
  have "never_below (map snd (g_notes g'))" if "gw_inv g'"
    using gw_act_notes [OF a] n gw_counts [OF that] by (auto simp: never_below_snoc)
  then show "gw_inv g' \<and> never_below (map snd (g_notes g')) \<or> g_fatal g'" using i by blast
qed (use gw.init_inv in \<open>auto simp: never_below_def new_gateway_def gw_inv_def\<close>)

section \<open>Properties\<close>

text \<open>C17: as long as every notification is taken, in any interleaving of the web sockets and \<open>Run\<close>: what each client has made the
  gateway send is a beginning of its join, its messages in order, and its leave; there are never more users
  announced than web sockets in the map, nor more of these than the wait group counts; and when \<open>Run\<close> gets past the
  wait group, every user announced has taken leave and the map is empty.\<close>

theorem gateway_protocol:
  assumes "reach (\<lambda>g. g = new_gateway) gw_trans g" "\<not> g_fatal g"
  shows "(\<forall>k<length (g_clients g). \<exists>addr ok msgs rest. fst (g_clients g ! k) = serveWs addr ok msgs
        \<and> (if addr \<and> ok then (ChannelJoin, []) # map (Pair ChannelMsg_chat) msgs @ [(ChannelLeave, [])] else []) = notes_by k (g_notes g) @ rest)
    \<and> 0 \<le> users (map snd (g_notes g)) \<and> users (map snd (g_notes g)) \<le> int (length (g_connMap g)) \<and> int (length (g_connMap g)) \<le> g_wait g
    \<and> (g_run g = GwWait \<and> gw_act GwRunGo g \<noteq> None \<longrightarrow> users (map snd (g_notes g)) = 0 \<and> g_connMap g = [])"
proof -
  have i: "gw_inv g" using gw.reach_inv [OF assms(1)] assms(2) by simp
  have "\<exists>addr ok msgs rest. fst (g_clients g ! k) = serveWs addr ok msgs
      \<and> (if addr \<and> ok then (ChannelJoin, []) # map (Pair ChannelMsg_chat) msgs @ [(ChannelLeave, [])] else []) = notes_by k (g_notes g) @ rest"
    if "k < length (g_clients g)" for k
  proof -
    obtain p n where c: "g_clients g ! k = (p, n)" by fastforce
    have "serving (p, n)" using i that c by (metis gw_inv_def nth_mem)
    then obtain addr ok msgs where p: "p = serveWs addr ok msgs" by (auto simp: serving_def)
    have "notes_by k (g_notes g) = notes_done (take n p)" using i that c by (simp add: gw_inv_def done_steps_def)
    moreover have "notes_done p = notes_done (take n p) @ notes_done (drop n p)" by (metis append_take_drop_id step_append(1))
    ultimately show ?thesis using c p user_notes [of addr ok msgs] by (metis fst_conv)
  qed
  moreover have "users (map snd (g_notes g)) = 0 \<and> g_connMap g = []" if "g_run g = GwWait" "gw_act GwRunGo g \<noteq> None"
  proof -
    have "g_wait g = 0" using that by (auto simp: gateway_Run_def split: if_splits)
    then show ?thesis using gw_counts [OF i] by auto
  qed
  ultimately show ?thesis using gw_counts [OF i] by blast
qed

lemma gw_run_reach:
  "reach (\<lambda>g. g = new_gateway) gw_trans g \<Longrightarrow> gw_run as g = Some g' \<Longrightarrow> reach (\<lambda>g. g = new_gateway) gw_trans g'"
  by (induction as arbitrary: g) (auto split: bind_splits intro: reach_step gw_trans.intros)

definition one_client :: "gw_action list" where
  "one_client = NewClient True True [[1, 2]] # replicate 5 (ClientGo True 0)"

lemma one_client_gateway:
  "\<exists>g. gw_run one_client new_gateway = Some g \<and> reach (\<lambda>g. g = new_gateway) gw_trans g \<and> \<not> g_fatal g
    \<and> g_notes g = [(0, ChannelJoin, []), (0, ChannelMsg_chat, [1, 2])]"
proof -
  obtain g where g: "gw_run one_client new_gateway = Some g" "g_notes g = [(0, ChannelJoin, []), (0, ChannelMsg_chat, [1, 2])]" "\<not> g_fatal g"
    by (simp add: one_client_def new_gateway_def serveWs_def client_go_def eval_nat_numeral)
  then show ?thesis using gw_run_reach [OF reach_init g(1)] by simp
qed

lemma gateway_protocol_witness:
  "\<exists>g. gw_run one_client new_gateway = Some g \<and> g_notes g = [(0, ChannelJoin, []), (0, ChannelMsg_chat, [1, 2])]
    \<and> users (map snd (g_notes g)) \<le> int (length (g_connMap g)) \<and> int (length (g_connMap g)) \<le> g_wait g"
proof -
  obtain g where g: "gw_run one_client new_gateway = Some g" "reach (\<lambda>g. g = new_gateway) gw_trans g" "\<not> g_fatal g"
    "g_notes g = [(0, ChannelJoin, []), (0, ChannelMsg_chat, [1, 2])]" using one_client_gateway by blast
  from gateway_protocol [OF g(2,3)] g(1,4) show ?thesis by blast
qed

text \<open>Web sockets are accepted until \<open>Guard\<close> has returned: a user can join after \<open>Run\<close> has cancelled the node.\<close>

lemma late_client:
  "\<exists>g. gw_run ([GwCtxIsDone, GwRunGo, GwRunGo, GwRunGo] @ one_client) new_gateway = Some g \<and> g_cancelled g \<and> users (map snd (g_notes g)) = 1"
  by (simp add: one_client_def new_gateway_def serveWs_def client_go_def gateway_Run_def users_def chat_channel_defs eval_nat_numeral)

end
