(* ===== verification/Chat.thy ===== *)
theory Chat
  imports Calls Gateway
begin

text \<open>
  The chat of \<open>examples/chat\<close> put together: what the notifications of a gateway make of the rooms, what a room publishes
  and what the gateways pass on to their web sockets. Nodes write to a log; by \<open>Wire\<close> the same holds over sessions.
\<close>

section \<open>The handlers of a room\<close>

text \<open>\<open>rec\<close> of both rooms, on what the node has written.\<close>

definition room_rec :: "('s, 'w) write_frame \<Rightarrow> 's cluster \<Rightarrow> ContextMQ \<Rightarrow> 'w \<Rightarrow> bool \<times> 'w" where
  "room_rec wr c ctx w =
     (case Publish wr c ChannelRoom (Request ctx) (\<lambda>_ w. w) w of Ended w \<Rightarrow> (True, w) | Crashed \<Rightarrow> (False, w))"

definition handle_rec :: "'s cluster \<Rightarrow> ContextMQ \<Rightarrow> room \<times> 's wire_log \<Rightarrow> bool \<times> room \<times> 's wire_log" where
  "handle_rec c ctx rw = (let (ok, w) = room_rec wire c ctx (snd rw) in (ok, (fst rw, w)))"

definition handle_join :: "ContextMQ \<Rightarrow> room \<times> 's wire_log \<Rightarrow> bool \<times> room \<times> 's wire_log" where
  "handle_join ctx rw = (True, (join (fst rw), snd rw))"

definition handle_leave :: "ContextMQ \<Rightarrow> room \<times> 's wire_log \<Rightarrow> bool \<times> room \<times> 's wire_log" where
  "handle_leave ctx rw = (True, (leave (fst rw), snd rw))"

text \<open>The subscriptions of \<open>main\<close>: the handler table and the messages to the cluster.\<close>

definition room_main :: "u16 \<Rightarrow> 's cluster \<Rightarrow> (room \<times> 's wire_log) Handler \<Rightarrow> (room \<times> 's wire_log) Handler \<times> channelMsg list" where
  "room_main mid c h =
     (let (h, m1) = node_Subscribe mid (handle_rec c) ChannelMsg_chat h;
          (h, m2) = node_Subscribe mid handle_join ChannelJoin h;
          (h, m3) = node_Subscribe mid handle_leave ChannelLeave h
      in (h, [m1, m2, m3]))"

text \<open>The gateway's subscription; the state is what was written to the web sockets.\<close>

definition handle_rev :: "nat list \<Rightarrow> ContextMQ \<Rightarrow> (nat \<times> u8 list) list \<Rightarrow> bool \<times> (nat \<times> u8 list) list" where
  "handle_rev conns ctx w = (True, w @ gate_rev conns (Request ctx))"

definition gateway_main :: "u16 \<Rightarrow> nat list \<Rightarrow> (nat \<times> u8 list) list Handler \<Rightarrow> (nat \<times> u8 list) list Handler \<times> channelMsg" where
  "gateway_main mid conns h = node_Subscribe mid (handle_rev conns) ChannelRoom h"

section \<open>Notifications over a log\<close>

definition note_frame :: "u16 \<times> u8 list \<Rightarrow> u8 list" where
  "note_frame n = frame_bytes (fst n) (snd n) []"

fun notify_all :: "'s cluster \<Rightarrow> (u16 \<times> u8 list) list \<Rightarrow> 's wire_log \<Rightarrow> ('s cluster \<times> 's wire_log) option" where
  "notify_all c [] w = Some (c, w)"
| "notify_all c ((ch, d) # ns) w =
     (case Notify 1 wire c ch d (\<lambda>_ w. w) w of
        Some (Ended (c, w)) \<Rightarrow> notify_all c ns w
      | _ \<Rightarrow> None)"

text \<open>The members of a channel all have sessions, and the cursor is at \<open>p\<close>.\<close>

definition served :: "'s cluster \<Rightarrow> u16 \<Rightarrow> u16 list \<Rightarrow> nat \<Rightarrow> bool" where
  "served c ch is p \<longleftrightarrow> (\<exists>b. cl_channels c ch = Some b \<and> cursor_at b p \<and> sets b = is)
     \<and> (\<forall>i\<in>set is. unat i < length (cl_sessions c) \<and> cl_sessions c ! unat i \<noteq> None)"

definition session_of :: "'s cluster \<Rightarrow> u16 \<Rightarrow> 's" where
  "session_of c i = the (cl_sessions c ! unat i)"

lemma Notify_served:
  assumes "served c ch is p"
  shows "\<exists>c'. Notify 1 wire c ch d rej w = Some (Ended (c', w @ [(session_of c (is ! (Suc p mod length is)), frame_bytes ch d [])]))
    \<and> served c' ch is (Suc p mod length is) \<and> cl_sessions c' = cl_sessions c
    \<and> (\<forall>ch' js q. ch' \<noteq> ch \<longrightarrow> served c' ch' js q = served c ch' js q)"
proof -
  obtain b where b: "cl_channels c ch = Some b" "cursor_at b p" "sets b = is" using assms by (auto simp: served_def)
  obtain b' where b': "bucket_next b = Some ((is ! (Suc p mod length is), of_nat (length is)), b')"
    "cursor_at b' (Suc p mod length is)" "sets b' = is" using cursor_next [OF b(2)] b(3) by auto
  have "0 < length is" using b by (auto simp: cursor_at_def)
  then have "is ! (Suc p mod length is) \<in> set is" by simp
  then obtain m where m: "unat (is ! (Suc p mod length is)) < length (cl_sessions c)"
    "cl_sessions c ! unat (is ! (Suc p mod length is)) = Some m" using assms by (auto simp: served_def)
  let ?c = "c\<lparr>cl_channels := (cl_channels c)(ch \<mapsto> b')\<rparr>"
  have "Notify 1 wire c ch d rej w = Some (Ended (?c, w @ [(m, frame_bytes ch d [])]))"
    using b b' m by (simp add: Notify_def NewFrameSlice_bytes AskOne_def arr_get_def wire_def Let_def)
  then show ?thesis using m b' assms by (intro exI [of _ ?c]) (simp add: served_def session_of_def)
qed

text \<open>Who gets which notification: \<open>ids\<close> are the members of each channel, \<open>pos\<close> the cursors.\<close>

fun spread :: "(u16 \<Rightarrow> 's) \<Rightarrow> (u16 \<Rightarrow> u16 list) \<Rightarrow> (u16 \<Rightarrow> nat) \<Rightarrow> (u16 \<times> u8 list) list \<Rightarrow> 's wire_log" where
  "spread f ids pos [] = []"
| "spread f ids pos (n # ns) =
     (let p = Suc (pos (fst n)) mod length (ids (fst n))
      in (f (ids (fst n) ! p), note_frame n) # spread f ids (pos(fst n := p)) ns)"

lemma notify_all_spread:
  assumes "\<forall>n\<in>set ns. served c (fst n) (ids (fst n)) (pos (fst n))"
  shows "\<exists>c'. notify_all c ns w = Some (c', w @ spread (session_of c) ids pos ns)"
  using assms
proof (induction ns arbitrary: c pos w)
  case (Cons n ns)
  obtain ch d where n: "n = (ch, d)" by (cases n)
  let ?p = "Suc (pos ch) mod length (ids ch)"
  have "served c ch (ids ch) (pos ch)" using Cons.prems n by simp
  from Notify_served [OF this, of d "\<lambda>_ w. w" w] obtain c' where
    c': "Notify 1 wire c ch d (\<lambda>_ w. w) w = Some (Ended (c', w @ [(session_of c (ids ch ! ?p), note_frame n)]))"
    "served c' ch (ids ch) ?p" "cl_sessions c' = cl_sessions c" "\<And>ch' js q. ch' \<noteq> ch \<Longrightarrow> served c' ch' js q = served c ch' js q"
    unfolding n note_frame_def by auto
  have "\<forall>m\<in>set ns. served c' (fst m) (ids (fst m)) ((pos(ch := ?p)) (fst m))" using Cons.prems c'(2,4) by auto
  from Cons.IH [OF this, of "w @ [(session_of c (ids ch ! ?p), note_frame n)]"] c'(1,3) n
  show ?case by (auto simp: session_of_def [abs_def] Let_def fun_upd_def)
qed simp

lemma spread_take: "take k (spread f ids pos ns) = spread f ids pos (take k ns)"
  by (induction ns arbitrary: k pos) (auto simp: take_Cons' Let_def)

lemma spread_channel:
  "map fst (filter (\<lambda>x. frame_type (snd x) = ch) (spread f ids pos ns))
    = map f (order_from (ids ch) (Suc (pos ch)) (num (\<lambda>n. fst n = ch) ns))"
proof (induction ns arbitrary: pos)
  case (Cons n ns)
  have "order_from (ids ch) (Suc (Suc (pos ch) mod length (ids ch))) k = order_from (ids ch) (Suc (Suc (pos ch))) k" for k
    using order_from_mod [of "ids ch" "Suc (Suc (pos ch) mod length (ids ch))" k] order_from_mod [of "ids ch" "Suc (Suc (pos ch))" k]
    by (simp add: mod_Suc_eq)
  then show ?case using Cons.IH by (auto simp: Let_def note_frame_def)
qed simp

text \<open>The users that one room has been told of.\<close>

definition notes_to :: "'s \<Rightarrow> 's wire_log \<Rightarrow> (u16 \<times> u8 list) list" where
  "notes_to m log = map (\<lambda>x. (frame_type (snd x), snd x)) (filter (\<lambda>x. fst x = m) log)"

lemma notes_to_num:
  "num (\<lambda>n. fst n = ch) (notes_to m (spread f ids pos ns))
    = num (\<lambda>x. x = m) (map f (order_from (ids ch) (Suc (pos ch)) (num (\<lambda>n. fst n = ch) ns)))"
proof -
  have "num (\<lambda>n. fst n = ch) (notes_to m log) = num (\<lambda>x. x = m) (map fst (filter (\<lambda>x. frame_type (snd x) = ch) log))" for log
    by (induction log) (auto simp: notes_to_def)
  then show ?thesis by (simp add: spread_channel)
qed

lemma num_order_mono:
  assumes "k \<le> l"
  shows "num P (map f (order_from xs c k)) \<le> num P (map f (order_from xs c l))"
proof -
  have "order_from xs c l = order_from xs c k @ map (\<lambda>i. xs ! ((c + i) mod length xs)) [k..<l]"
    using assms upt_add_eq_append [of 0 k "l - k"] by (simp add: order_from_def)
  then show ?thesis by simp
qed

lemma users_num: "users ns = int (num (\<lambda>n. fst n = ChannelJoin) ns) - int (num (\<lambda>n. fst n = ChannelLeave) ns)"
  by (simp add: users_def)

lemma users_spread:
  assumes "ids ChannelJoin = ids ChannelLeave" "pos ChannelJoin = pos ChannelLeave" "0 \<le> users ns"
  shows "0 \<le> users (notes_to m (spread f ids pos ns)) \<and> (users ns = 0 \<longrightarrow> users (notes_to m (spread f ids pos ns)) = 0)"
proof -
  have "num (\<lambda>n. fst n = ChannelLeave) ns \<le> num (\<lambda>n. fst n = ChannelJoin) ns" using assms(3) by (simp add: users_num)
  from num_order_mono [OF this, of "\<lambda>x. x = m" f "ids ChannelLeave" "Suc (pos ChannelLeave)"] show ?thesis
    using assms(1,2) by (simp add: users_num notes_to_num)
qed

section \<open>What a room does with the notifications\<close>

definition subscribers :: "'s cluster \<Rightarrow> u16 \<Rightarrow> 's list" where
  "subscribers c ch = map (session_of c) (members c ch)"

lemma Publish_served:
  assumes "served c ch is p"
  shows "Publish wire c ch d rej w = Ended (w @ map (\<lambda>m. (m, frame_bytes ch d [])) (subscribers c ch))"
proof -
  obtain b where b: "cl_channels c ch = Some b" "sets b = is" using assms by (auto simp: served_def)
  have "ask_all_loop wire (cl_sessions c) js f E w = Ended (w @ map (\<lambda>i. (session_of c i, elems (base f))) js)"
    if "set js \<subseteq> set is" for js f w and E :: "send_error \<Rightarrow> 'a wire_log \<Rightarrow> 'a wire_log"
    using that
  proof (induction js arbitrary: w)
    case (Cons j js)
    then have "unat j < length (cl_sessions c)" "cl_sessions c ! unat j \<noteq> None" using assms by (auto simp: served_def)
    then show ?case using Cons by (auto simp: arr_get_def wire_def session_of_def)
  qed simp
  from this [of "is"] show ?thesis using b
    by (simp add: Publish_def NewFrameSlice_bytes AskAll_def subscribers_def members_def comp_def)
qed

fun room_note :: "u16 \<times> u8 list \<Rightarrow> room \<Rightarrow> room" where
  "room_note (ch, d) r = (if ch = ChannelJoin then join r else if ch = ChannelLeave then leave r else r)"

definition messages :: "(u16 \<times> u8 list) list \<Rightarrow> u8 list list" where
  "messages ns = map snd (filter (\<lambda>n. fst n = ChannelMsg_chat) ns)"

definition room_effect :: "'s cluster \<Rightarrow> u8 list \<Rightarrow> room \<times> 's wire_log \<Rightarrow> transport_error option \<times> room \<times> 's wire_log" where
  "room_effect c f rw = (None,
     if frame_type f = ChannelMsg_chat then snd (handle_rec c (context_of f) rw)
     else if frame_type f = ChannelJoin then (join (fst rw), snd rw)
     else (leave (fst rw), snd rw))"

definition chat_note :: "u16 \<times> u8 list \<Rightarrow> bool" where
  "chat_note n \<longleftrightarrow> fst n = ChannelMsg_chat \<or> fst n = ChannelJoin \<or> fst n = ChannelLeave"

lemma handles_eff_cong:
  "handles se h eff f \<Longrightarrow> h' (frame_type f) = h (frame_type f) \<Longrightarrow> (\<And>w. eff' f w = eff f w) \<Longrightarrow> handles se h' eff' f"
  by (simp add: handles_def)

lemma room_main_table:
  "fst (room_main mid c h) ChannelMsg_chat = Some (processWrapper (handle_rec c))"
  "fst (room_main mid c h) ChannelJoin = Some (processWrapper handle_join)"
  "fst (room_main mid c h) ChannelLeave = Some (processWrapper handle_leave)"
  "fst (room_main mid c h) FrameTypeNil = h FrameTypeNil"
  by (simp_all add: room_main_def node_Subscribe_def HandleFunc_def chat_channel_defs frame_type_defs)

lemma room_handles:
  assumes "chat_note n"
  shows "handles se (fst (room_main mid c h)) (room_effect c) (note_frame n)"
proof -
  have sub: "handles se (fst (room_main mid c h)) (room_effect c) (note_frame n)"
    if "fst (room_main mid c h) (fst n) = Some (processWrapper F)"
      "\<And>w. room_effect c (note_frame n) w = (None, snd (F (context_of (note_frame n)) w))" for F
    by (rule handles_eff_cong [OF subscriber_handles [of "[]" se mid F "fst n" h "snd n", folded note_frame_def]])
      (simp_all add: that [unfolded note_frame_def] node_Subscribe_def HandleFunc_def note_frame_def)
  show ?thesis
    using assms unfolding chat_note_def
    apply (elim disjE)
    subgoal by (rule sub [of "handle_rec c"]) (simp_all add: room_main_table room_effect_def note_frame_def
      handle_join_def handle_leave_def channels_differ channels_differ [symmetric])
    subgoal by (rule sub [of handle_join]) (simp_all add: room_main_table room_effect_def note_frame_def
      handle_join_def handle_leave_def channels_differ channels_differ [symmetric])
    subgoal by (rule sub [of handle_leave]) (simp_all add: room_main_table room_effect_def note_frame_def
      handle_join_def handle_leave_def channels_differ channels_differ [symmetric])
    done
qed

lemma room_delivers:
  assumes "served c ChannelRoom is p" "\<forall>n\<in>set ns. chat_note n"
  shows "deliver (room_effect c) (map note_frame ns) (r, w)
    = (fold room_note ns r, w @ concat (map (\<lambda>d. map (\<lambda>m. (m, frame_bytes ChannelRoom d [])) (subscribers c ChannelRoom)) (messages ns)))"
  using assms(2)
proof (induction ns arbitrary: r w)
  case (Cons n ns)
  obtain ch d where n: "n = (ch, d)" by (cases n)
  have ctx: "context_of (frame_bytes ChannelMsg_chat d []) = \<lparr>Request = d, ctx_ex = Some []\<rparr>" by (simp add: context_of_frame)
  have "snd (handle_rec c (context_of (frame_bytes ChannelMsg_chat d [])) (r, w))
      = (r, w @ map (\<lambda>m. (m, frame_bytes ChannelRoom d [])) (subscribers c ChannelRoom))"
    using Publish_served [OF assms(1), of d "\<lambda>_ w. w" w] by (simp add: ctx handle_rec_def room_rec_def)
  then show ?case using Cons n
    by (auto simp: deliver_simps room_effect_def note_frame_def messages_def chat_note_def channels_differ channels_differ [symmetric])
qed (simp add: messages_def)

lemma room_count: "r_count (fold room_note ns r) = r_count r + of_int (users ns)"
  by (induction ns arbitrary: r) (auto simp: users_Cons join_def leave_def Let_def channels_differ users_def split: prod.splits)

lemma plain_note:
  assumes "chat_note n" "8 + length (snd n) < 2 ^ 32"
  shows "plain_frame (note_frame n)"
  unfolding note_frame_def
  by (rule plain_frame_bytes) (use assms in \<open>auto simp: chat_note_def chat_channel_defs FrameTypeNil_def\<close>)

section \<open>What a gateway does with the published messages\<close>

lemma gateway_delivers:
  "deliver (\<lambda>f w. (None, snd (handle_rev conns (context_of f) w))) (map (\<lambda>d. frame_bytes ChannelRoom d []) ds) w
    = w @ concat (map (gate_rev conns) ds)"
  by (induction ds arbitrary: w) (simp_all add: context_of_frame handle_rev_def)

lemma stream_published:
  assumes "distinct subs" "a \<in> set subs"
  shows "stream_to a (concat (map (\<lambda>d. map (\<lambda>m. (m, F d)) subs) ds)) = concat (map F ds)"
proof -
  have "filter (\<lambda>m. m = a) subs = [a]" using assms by (induction subs) (auto simp: filter_empty_conv)
  then have "filter (\<lambda>x. fst x = a) (map (\<lambda>m. (m, y)) subs) = [(a, y)]" for y :: "u8 list" by (simp add: filter_map comp_def)
  then show ?thesis by (induction ds) (simp_all add: stream_to_def)
qed

lemma spread_one: "ids = (\<lambda>_. [j]) \<Longrightarrow> spread f ids pos ns = map (\<lambda>n. (f j, note_frame n)) ns"
  by (induction ns arbitrary: pos) simp_all

lemma stream_to_one: "stream_to m (map (\<lambda>x. (m, F x)) xs) = concat (map F xs)"
  by (simp add: stream_to_def comp_def)

lemma gw_notes_chat:
  assumes "gw_inv g" "x \<in> set (g_notes g)"
  shows "chat_note (snd x)"
proof -
  obtain p n where c: "g_clients g ! fst x = (p, n)" by fastforce
  have k: "fst x < length (g_clients g)" using assms by (simp add: gw_inv_def)
  then have "serving (p, n)" using assms(1) c by (metis gw_inv_def nth_mem)
  then obtain addr ok msgs where p: "p = serveWs addr ok msgs" by (auto simp: serving_def)
  have "snd x \<in> set (notes_by (fst x) (g_notes g))" using assms(2) by (auto simp: notes_by_def)
  then have "snd x \<in> set (notes_done (take n p))" using assms(1) k c by (simp add: gw_inv_def done_steps_def)
  then have "snd x \<in> set (notes_done p)" by (metis Un_iff append_take_drop_id set_append step_append(1))
  then show ?thesis unfolding p user_notes by (auto simp: chat_note_def split: if_splits)
qed

section \<open>Properties\<close>


definition two_rooms :: "nat cluster" where
  "two_rooms = \<lparr>cl_sessions = [None, Some 7, Some 8], cl_channels = (\<lambda>_. Some (bucket_add newBucket [1] 2)), machineID = 0, cl_state = StateWork\<rparr>"

lemma served_two_rooms: "served two_rooms ch [1, 2] 0"
  by (simp add: served_def two_rooms_def bucket_add_newBucket) (simp add: cursor_at_def bucket_add_def newBucket_def)


text \<open>C16: a message that a client sends reaches the web sockets of a gateway. What a gateway notifies to its room, read there in
  pieces of any size, makes the room count the users present and publish the messages in order, and what it has
  written for a gateway, again read in pieces of any size, makes that gateway write every message, once and in
  order, to every web socket of its map.\<close>

theorem chat_delivered:
  assumes "reach (\<lambda>g. g = new_gateway) gw_trans g" "\<not> g_fatal g"
    and "\<forall>n\<in>set (map snd (g_notes g)). served c (fst n) [j] 0 \<and> 8 + length (snd n) \<le> cap"
    and room: "served c' ChannelRoom ids p" "distinct (subscribers c' ChannelRoom)" "a \<in> set (subscribers c' ChannelRoom)"
      "h FrameTypeNil = Some nil_handler" "fresh_reader s fuel cap"
    and gate: "h' FrameTypeNil = Some nil_handler" "fresh_reader rd fuelg cap"
  shows "\<exists>c1 log out. notify_all c (map snd (g_notes g)) [] = Some (c1, log)
    \<and> (\<forall>sizes. (\<forall>k\<in>set sizes. 0 < k) \<and> length (stream_to (session_of c j) log) \<le> length sizes \<longrightarrow>
        (\<exists>s' l' r. receive fuel (fst (room_main mid c' h)) lim se s l (new_room, []) (stream_to (session_of c j) log) sizes
            = (Some (IoWaiting s' l' (r, out)), []) \<and> r_count r = of_int (users (map snd (g_notes g)))))
    \<and> (\<forall>sizes. (\<forall>k\<in>set sizes. 0 < k) \<and> length (stream_to a out) \<le> length sizes \<longrightarrow>
        (\<exists>s' l'. receive fuelg (fst (gateway_main mid' conns h')) lim' se' rd lg [] (stream_to a out) sizes
            = (Some (IoWaiting s' l' (concat (map (gate_rev conns) (messages (map snd (g_notes g)))))), [])))"
proof -
  define ns where "ns = map snd (g_notes g)"
  let ?F = "\<lambda>d. frame_bytes ChannelRoom d []"
  let ?log = "map (\<lambda>n. (session_of c j, note_frame n)) ns"
    and ?out = "concat (map (\<lambda>d. map (\<lambda>m. (m, ?F d)) (subscribers c' ChannelRoom)) (messages ns))"
  have chat: "\<forall>n\<in>set ns. chat_note n" using gw.reach_inv [OF assms(1)] assms(2) gw_notes_chat by (auto simp: ns_def)
  note served = assms(3) [folded ns_def]
  have new_room: "r_count new_room = 0" by (simp add: new_room_def)
  have cap: "cap < 2 ^ 32" using room(5) by (simp add: fresh_reader_def)
  obtain c1 where log: "notify_all c ns [] = Some (c1, ?log)"
    using notify_all_spread [of ns c "\<lambda>_. [j]" "\<lambda>_. 0" "[]"] served by (auto simp: spread_one)
  have fits: "\<forall>f\<in>set (map note_frame ns). plain_frame f \<and> length f \<le> cap \<and> handles se (fst (room_main mid c' h)) (room_effect c') f"
    using chat served cap plain_note room_handles by (fastforce simp: note_frame_def)
  have nil: "fst (room_main mid c' h) FrameTypeNil = Some nil_handler" using room(4) by (simp add: room_main_table)
  have "\<exists>s' l' r. receive fuel (fst (room_main mid c' h)) lim se s l (new_room, []) (stream_to (session_of c j) ?log) sizes
        = (Some (IoWaiting s' l' (r, ?out)), []) \<and> r_count r = of_int (users ns)"
    if "\<forall>k\<in>set sizes. 0 < k" "length (stream_to (session_of c j) ?log) \<le> length sizes" for sizes
    using receive_fresh [OF room(5) fits nil that(1), of lim l "(new_room, [])"] that(2) room_delivers [OF room(1) chat, of new_room "[]"]
      room_count [of ns new_room] new_room by (simp add: stream_to_one) blast
  moreover have pub: "\<forall>f\<in>set (map ?F (messages ns)). plain_frame f \<and> length f \<le> cap
      \<and> handles se' (fst (gateway_main mid' conns h')) (\<lambda>f w. (None, snd (handle_rev conns (context_of f) w))) f"
  proof
    fix f assume "f \<in> set (map ?F (messages ns))"
    then obtain n where n: "f = ?F (snd n)" "n \<in> set ns" by (auto simp: messages_def)
    have "length f \<le> cap" using n served by simp
    moreover have "plain_frame f"
      unfolding n(1) by (rule plain_frame_bytes) (use \<open>length f \<le> cap\<close> cap n(1) in \<open>auto simp: chat_channel_defs FrameTypeNil_def\<close>)
    ultimately show "plain_frame f \<and> length f \<le> cap
        \<and> handles se' (fst (gateway_main mid' conns h')) (\<lambda>f w. (None, snd (handle_rev conns (context_of f) w))) f"
      unfolding gateway_main_def n(1) using subscriber_handles [of "[]" se' mid' "handle_rev conns" ChannelRoom h'] by simp
  qed
  have nil': "fst (gateway_main mid' conns h') FrameTypeNil = Some nil_handler"
    using gate(1) by (simp add: gateway_main_def node_Subscribe_def HandleFunc_def chat_channel_defs frame_type_defs)
  have "\<exists>s' l'. receive fuelg (fst (gateway_main mid' conns h')) lim' se' rd lg [] (stream_to a ?out) sizes
        = (Some (IoWaiting s' l' (concat (map (gate_rev conns) (messages ns)))), [])"
    if "\<forall>k\<in>set sizes. 0 < k" "length (stream_to a ?out) \<le> length sizes" for sizes
    using receive_fresh [OF gate(2) pub nil' that(1), of lim' lg "[]"] that(2) stream_published [OF room(2,3), of ?F "messages ns"]
    by (simp add: gateway_delivers)
  ultimately show ?thesis using log unfolding ns_def [symmetric] by blast
qed

definition chat_gateway :: "nat cluster" where
  "chat_gateway = \<lparr>cl_sessions = [None, Some 7, Some 8], cl_channels = (\<lambda>_. Some (bucket_add newBucket [] 1)), machineID = 0, cl_state = StateWork\<rparr>"

definition chat_session :: "'w Session" where
  "chat_session = \<lparr>sessGetFrameSlice = \<lambda>_. None, sessWriteFrameDataPromptly = \<lambda>_ w. (None, w),
     sessWriteFrameDataToCache = \<lambda>_ _ w. (None, w), sessClose = \<lambda>w. w\<rparr>"

definition chat_reader :: SessionRd where
  "chat_reader = \<lparr>rBuf = replicate 32 0, rd_w = 0, rd_r = 0\<rparr>"

lemma served_one: "served chat_gateway ch [1] 0"
  by (simp add: served_def chat_gateway_def bucket_add_newBucket) (simp add: cursor_at_def bucket_add_def newBucket_def)

lemma NewHandler_nil: "NewHandler FrameTypeNil = Some nil_handler"
  by (rule NewHandler_simps(1))

lemma chat_delivered_witness:
  "\<exists>c1 log out. notify_all chat_gateway [(ChannelJoin, []), (ChannelMsg_chat, [1, 2])] [] = Some (c1, log)
    \<and> (\<exists>s' l'. receive 33 (fst (gateway_main 0 [4, 5] NewHandler)) (\<lambda>n l. l) chat_session chat_reader () [] (stream_to (7 :: nat) out)
          (replicate (length (stream_to 7 out)) 3)
        = (Some (IoWaiting s' l' [(4, [1, 2]), (5, [1, 2])]), []))"
proof -
  obtain g where g: "reach (\<lambda>g. g = new_gateway) gw_trans g" "\<not> g_fatal g"
    "g_notes g = [(0, ChannelJoin, []), (0, ChannelMsg_chat, [1, 2])]" using one_client_gateway by blast
  have rd: "fresh_reader chat_reader 33 32" by (simp add: fresh_reader_def chat_reader_def)
  have "subscribers chat_gateway ChannelRoom = [7]"
    by (simp add: subscribers_def members_def chat_gateway_def bucket_add_newBucket session_of_def)
  then have subs: "distinct (subscribers chat_gateway ChannelRoom)" "7 \<in> set (subscribers chat_gateway ChannelRoom)" by simp_all
  have ns: "\<forall>n\<in>set (map snd (g_notes g)). served chat_gateway (fst n) [1] 0 \<and> 8 + length (snd n) \<le> 32"
    using g(3) served_one by simp
  have out: "concat (map (gate_rev [4, 5]) (messages (map snd (g_notes g)))) = [(4, [1, 2]), (5, [1, 2])]"
    using g(3) by (simp add: messages_def gate_rev_def chat_channel_defs)
  from chat_delivered [where h = NewHandler and h' = NewHandler, OF g(1,2) ns served_one subs NewHandler_nil rd NewHandler_nil rd,
      where conns = "[4, 5]" and mid' = 0 and lim' = "\<lambda>n l. l" and se' = chat_session and lg = "()"
        and mid = 0 and lim = "\<lambda>n l. l" and se = chat_session and l = "()"]
  obtain c1 log out where "notify_all chat_gateway (map snd (g_notes g)) [] = Some (c1, log)"
    and "\<forall>sizes. (\<forall>k\<in>set sizes. 0 < k) \<and> length (stream_to (7 :: nat) out) \<le> length sizes \<longrightarrow>
        (\<exists>s' l'. receive 33 (fst (gateway_main 0 [4, 5] NewHandler)) (\<lambda>n l. l) chat_session chat_reader () [] (stream_to 7 out) sizes
            = (Some (IoWaiting s' l' [(4, [1, 2]), (5, [1, 2])]), []))"
    unfolding out by (elim exE conjE) (rule that; assumption)
  then show ?thesis using g(3) by (intro exI [of _ c1] exI [of _ log] exI [of _ out]) simp
qed

text \<open>C40: a room that comes up while a user is present can be told of the leave of a user it does not know: the join went to
  the only room there was, and the leave goes to the new one, whose count becomes -1, while the first room
  counts the user for ever.\<close>

theorem late_room_takes_leave:
  assumes "served c ChannelJoin [i] 0" "served c ChannelLeave [i] 0"
    and "unat j < length (cl_sessions c)" "cl_sessions c ! unat j = Some b"
  shows "\<exists>c1 c2 c3 log. Notify 1 wire c ChannelJoin [] rej [] = Some (Ended (c1, [(session_of c i, note_frame (ChannelJoin, []))]))
    \<and> cluster_run c1 (map ChannelMsg [\<lparr>cm_id = j, cm_channel = ChannelJoin, cm_operation = 1\<rparr>,
          \<lparr>cm_id = j, cm_channel = ChannelLeave, cm_operation = 1\<rparr>]) = Some (c2, [])
    \<and> Notify 1 wire c2 ChannelLeave [] rej' [(session_of c i, note_frame (ChannelJoin, []))] = Some (Ended (c3, log))
    \<and> log = [(session_of c i, note_frame (ChannelJoin, [])), (b, note_frame (ChannelLeave, []))]
    \<and> (session_of c i \<noteq> b \<longrightarrow> users (notes_to (session_of c i) log) = 1 \<and> users (notes_to b log) = - 1)"
proof -
  obtain c1 where c1: "Notify 1 wire c ChannelJoin [] rej [] = Some (Ended (c1, [(session_of c i, note_frame (ChannelJoin, []))]))"
    "cl_sessions c1 = cl_sessions c" "served c1 ChannelLeave [i] 0"
    using Notify_served [OF assms(1), of "[]" rej "[]"] assms(2) channels_differ by (auto simp: note_frame_def)
  have "members c1 ChannelLeave = [i]" using c1(3) by (auto simp: served_def members_def)
  then obtain c2 where c2: "cluster_run c1 (map ChannelMsg [\<lparr>cm_id = j, cm_channel = ChannelJoin, cm_operation = 1\<rparr>,
          \<lparr>cm_id = j, cm_channel = ChannelLeave, cm_operation = 1\<rparr>]) = Some (c2, [])"
    "cl_channels c2 ChannelLeave = Some (bucket_add newBucket [i] j)" "cl_sessions c2 = cl_sessions c"
    using c1(2) channels_differ by (auto simp: channel_turn_add members_def)
  have "cursor_at (bucket_add newBucket [i] j) 0" "sets (bucket_add newBucket [i] j) = [i, j]"
    by (simp add: cursor_at_def bucket_add_def newBucket_def) (simp add: bucket_add_newBucket)
  then have "served c2 ChannelLeave [i, j] 0" using c2 assms by (auto simp: served_def)
  from Notify_served [OF this, of "[]" rej' "[(session_of c i, note_frame (ChannelJoin, []))]"] obtain c3 where
    "Notify 1 wire c2 ChannelLeave [] rej' [(session_of c i, note_frame (ChannelJoin, []))]
      = Some (Ended (c3, [(session_of c i, note_frame (ChannelJoin, [])), (b, note_frame (ChannelLeave, []))]))"
    using c2(3) assms(4) by (auto simp: note_frame_def session_of_def)
  then show ?thesis using c1(1) c2(1) channels_differ
    by (auto simp: notes_to_def note_frame_def users_Cons)
qed

lemma late_room_takes_leave_witness:
  "\<exists>c2 c3. Notify 1 wire c2 ChannelLeave [] (\<lambda>_ w. w) [(7 :: nat, note_frame (ChannelJoin, []))]
      = Some (Ended (c3, [(7, note_frame (ChannelJoin, [])), (8, note_frame (ChannelLeave, []))]))
    \<and> users (notes_to 8 [(7 :: nat, note_frame (ChannelJoin, [])), (8, note_frame (ChannelLeave, []))]) = - 1"
  using late_room_takes_leave [OF served_one served_one, of 2 8 "\<lambda>_ w. w" "\<lambda>_ w. w"]
  by (auto simp: chat_gateway_def session_of_def)

end
