(* ===== verification/GenteelRoom.thy ===== *)
theory GenteelRoom
  imports Chat
begin

text \<open>
  The chat room of \<open>examples/chat/genteelRoom/room.go\<close>: \<open>WatchChannel\<close> puts what arrives into three channels, and \<open>Run\<close> takes
  from them in one loop. Arrivals and turns of the loop mix; which ready case a turn takes is left open, as
  in Go.
\<close>

section \<open>Model\<close>

datatype room_chan = RecChan | JoinChan | LeaveChan

fun chan_cap :: "room_chan \<Rightarrow> nat" where
  "chan_cap RecChan = 254" | "chan_cap JoinChan = 64" | "chan_cap LeaveChan = 64"

text \<open>\<open>gr_arrived\<close>, \<open>gr_taken\<close>: what was put into each channel and taken from it; \<open>gr_lost\<close> what timed out; \<open>gr_panics\<close> counts handlers
  that panicked; \<open>gr_published\<close> is what \<open>Publish\<close> was called with.\<close>

record genteel =
  gr_ctx :: bool
  gr_cancelled :: bool
  gr_chans :: "room_chan \<Rightarrow> u8 list list"
  gr_closed :: bool
  gr_count :: i32
  gr_returned :: bool
  gr_arrived :: "room_chan \<Rightarrow> u8 list list"
  gr_taken :: "room_chan \<Rightarrow> u8 list list"
  gr_lost :: "(room_chan \<times> u8 list) list"
  gr_panics :: nat
  gr_published :: "u8 list list"

definition new_genteel :: genteel where
  "new_genteel = \<lparr>gr_ctx = False, gr_cancelled = False, gr_chans = \<lambda>_. [], gr_closed = False, gr_count = 0, gr_returned = False,
     gr_arrived = \<lambda>_. [], gr_taken = \<lambda>_. [], gr_lost = [], gr_panics = 0, gr_published = []\<rparr>"

text \<open>The send of \<open>watchChannelWrapper\<close>, when nothing is taken from the channel in the second that it waits.\<close>

definition chan_put :: "room_chan \<Rightarrow> u8 list \<Rightarrow> genteel \<Rightarrow> genteel chan_send" where
  "chan_put k d g =
     (if gr_closed g then SendClosed
      else if length (gr_chans g k) < chan_cap k
      then Sent (g\<lparr>gr_chans := (gr_chans g)(k := gr_chans g k @ [d]), gr_arrived := (gr_arrived g)(k := gr_arrived g k @ [d])\<rparr>)
      else SendTimeout)"

definition genteel_main :: "u16 \<Rightarrow> genteel Handler \<Rightarrow> genteel Handler \<times> channelMsg list" where
  "genteel_main mid h =
     (let (h, m1) = WatchChannel mid (chan_put RecChan) ChannelMsg_chat h;
          (h, m2) = WatchChannel mid (chan_put JoinChan) ChannelJoin h;
          (h, m3) = WatchChannel mid (chan_put LeaveChan) ChannelLeave h
      in (h, [m1, m2, m3]))"

text \<open>One case of the \<open>select\<close>; \<^const>\<open>None\<close>: the case is not ready. With users left, the case of the context only sleeps.\<close>

datatype select_case = CaseChan room_chan | CaseDone

definition take_chan :: "room_chan \<Rightarrow> genteel \<Rightarrow> (u8 list \<times> genteel) option" where
  "take_chan k g =
     (case gr_chans g k of
        [] \<Rightarrow> None
      | d # ds \<Rightarrow> Some (d, g\<lparr>gr_chans := (gr_chans g)(k := ds), gr_taken := (gr_taken g)(k := gr_taken g k @ [d])\<rparr>))"

definition genteel_turn :: "select_case \<Rightarrow> genteel \<Rightarrow> genteel option" where
  "genteel_turn c g =
     (if gr_returned g then None
      else case c of
        CaseChan RecChan \<Rightarrow> do { (d, g) \<leftarrow> take_chan RecChan g; Some (g\<lparr>gr_published := gr_published g @ [d]\<rparr>) }
      | CaseChan JoinChan \<Rightarrow> do { (d, g) \<leftarrow> take_chan JoinChan g; Some (g\<lparr>gr_count := gr_count g + 1\<rparr>) }
      | CaseChan LeaveChan \<Rightarrow> do { (d, g) \<leftarrow> take_chan LeaveChan g; Some (g\<lparr>gr_count := gr_count g - 1\<rparr>) }
      | CaseDone \<Rightarrow>
          (if \<not> gr_ctx g then None
           else if gr_count g = 0 then Some (g\<lparr>gr_cancelled := True, gr_closed := True, gr_returned := True\<rparr>)
           else Some g))"

datatype genteel_action = GrCtxIsDone | Arrive room_chan "u8 list" | Turn select_case

fun genteel_act :: "genteel_action \<Rightarrow> genteel \<Rightarrow> genteel option" where
  "genteel_act GrCtxIsDone g = Some (g\<lparr>gr_ctx := True\<rparr>)"
| "genteel_act (Arrive k d) g =
     Some (case chan_put k d g of
        Sent g \<Rightarrow> g
      | SendTimeout \<Rightarrow> g\<lparr>gr_lost := gr_lost g @ [(k, d)]\<rparr>
      | SendClosed \<Rightarrow> g\<lparr>gr_panics := gr_panics g + 1\<rparr>)"
| "genteel_act (Turn c) g = genteel_turn c g"

fun genteel_run :: "genteel_action list \<Rightarrow> genteel \<Rightarrow> genteel option" where
  "genteel_run [] g = Some g"
| "genteel_run (a # as) g = do { g \<leftarrow> genteel_act a g; genteel_run as g }"

inductive genteel_step :: "genteel \<Rightarrow> genteel \<Rightarrow> bool" where
  "genteel_act a g = Some g' \<Longrightarrow> genteel_step g g'"

inductive_cases genteel_stepE: "genteel_step g g'"

section \<open>The invariant\<close>

definition genteel_inv :: "genteel \<Rightarrow> bool" where
  "genteel_inv g \<longleftrightarrow> (\<forall>k. gr_arrived g k = gr_taken g k @ gr_chans g k \<and> length (gr_chans g k) \<le> chan_cap k)
     \<and> gr_published g = gr_taken g RecChan
     \<and> gr_count g = of_int (int (length (gr_taken g JoinChan)) - int (length (gr_taken g LeaveChan)))
     \<and> (gr_returned g \<longleftrightarrow> gr_closed g) \<and> (gr_returned g \<longleftrightarrow> gr_cancelled g) \<and> (gr_returned g \<longrightarrow> gr_count g = 0 \<and> gr_ctx g)
     \<and> (\<not> gr_closed g \<longrightarrow> gr_panics g = 0)"

lemma chan_put_inv:
  assumes "genteel_inv g"
  shows "genteel_inv (case chan_put k d g of Sent g \<Rightarrow> g | SendTimeout \<Rightarrow> g\<lparr>gr_lost := gr_lost g @ [(k, d)]\<rparr>
    | SendClosed \<Rightarrow> g\<lparr>gr_panics := gr_panics g + 1\<rparr>)"
  using assms unfolding chan_put_def by (auto simp: genteel_inv_def)

lemma take_chan_inv:
  assumes "genteel_inv g" "take_chan k g = Some (d, g')"
  shows "gr_arrived g' = gr_arrived g" "\<forall>j. gr_arrived g j = gr_taken g' j @ gr_chans g' j \<and> length (gr_chans g' j) \<le> chan_cap j"
    "gr_taken g' = (gr_taken g)(k := gr_taken g k @ [d])" "gr_published g' = gr_published g" "gr_count g' = gr_count g"
    "gr_returned g' = gr_returned g" "gr_closed g' = gr_closed g" "gr_cancelled g' = gr_cancelled g" "gr_ctx g' = gr_ctx g"
    "gr_panics g' = gr_panics g"
proof -
  obtain ds where c: "gr_chans g k = d # ds"
    and g': "g' = g\<lparr>gr_chans := (gr_chans g)(k := ds), gr_taken := (gr_taken g)(k := gr_taken g k @ [d])\<rparr>"
    using assms(2) by (auto simp: take_chan_def split: list.splits)
  have i: "gr_arrived g j = gr_taken g j @ gr_chans g j" "length (gr_chans g j) \<le> chan_cap j" for j
    using assms(1) by (simp_all add: genteel_inv_def)
  show "\<forall>j. gr_arrived g j = gr_taken g' j @ gr_chans g' j \<and> length (gr_chans g' j) \<le> chan_cap j"
    using i i [of k] c by (simp add: g')
qed (use assms in \<open>auto simp: take_chan_def split: list.splits\<close>)

lemma genteel_turn_inv:
  assumes "genteel_inv g" "genteel_turn c g = Some g'"
  shows "genteel_inv g'"
proof (cases c)
  case (CaseChan k)
  have r: "\<not> gr_returned g" using assms(2) by (auto simp: genteel_turn_def)
  obtain d g1 where t: "take_chan k g = Some (d, g1)"
    and g': "g' = (case k of RecChan \<Rightarrow> g1\<lparr>gr_published := gr_published g1 @ [d]\<rparr> | JoinChan \<Rightarrow> g1\<lparr>gr_count := gr_count g1 + 1\<rparr>
        | LeaveChan \<Rightarrow> g1\<lparr>gr_count := gr_count g1 - 1\<rparr>)"
    using assms(2) CaseChan r by (cases k) (auto simp: genteel_turn_def split: bind_splits)
  note T = take_chan_inv [OF assms(1) t]
  show ?thesis using T assms(1) r g' by (cases k) (simp_all add: genteel_inv_def)
next
  case CaseDone
  then show ?thesis using assms by (auto simp: genteel_turn_def genteel_inv_def split: if_splits)
qed

interpretation genteel: step_invariant "\<lambda>g. g = new_genteel" genteel_step genteel_inv
proof
  fix g g' assume i: "genteel_inv g" and "genteel_step g g'"
  then obtain a where a: "genteel_act a g = Some g'" by (auto elim: genteel_stepE)
  show "genteel_inv g'"
  proof (cases a)
    case (Arrive k d)
    then show ?thesis using a chan_put_inv [OF i, of k d] by simp
  next
    case (Turn c)
    then show ?thesis using a genteel_turn_inv [OF i] by simp
  qed (use a i in \<open>auto simp: genteel_inv_def\<close>)
qed (simp add: genteel_inv_def new_genteel_def)

section \<open>After the end\<close>

lemma returned_step:
  assumes "genteel_inv g" "gr_returned g" "genteel_act a g = Some g'"
  shows "gr_returned g' \<and> gr_published g' = gr_published g \<and> gr_chans g' = gr_chans g
    \<and> gr_panics g' = gr_panics g + (case a of Arrive k d \<Rightarrow> 1 | _ \<Rightarrow> 0)"
  using assms by (cases a) (auto simp: chan_put_def genteel_turn_def genteel_inv_def)

fun is_arrival :: "genteel_action \<Rightarrow> bool" where
  "is_arrival (Arrive k d) = True"
| "is_arrival _ = False"

lemma returned_run:
  assumes "genteel_inv g" "gr_returned g" "genteel_run as g = Some g'"
  shows "gr_published g' = gr_published g \<and> gr_chans g' = gr_chans g \<and> gr_panics g' = gr_panics g + num is_arrival as"
  using assms
proof (induction as arbitrary: g)
  case (Cons a as)
  then obtain g1 where g1: "genteel_act a g = Some g1" "genteel_run as g1 = Some g'" by (auto split: bind_splits)
  have "genteel_inv g1" using genteel.step_inv [OF Cons.prems(1)] g1(1) by (blast intro: genteel_step.intros)
  then show ?case using Cons.IH [of g1] g1(2) returned_step [OF Cons.prems(1,2) g1(1)] by (cases a) auto
qed simp

lemma genteel_reach:
  "reach (\<lambda>g. g = new_genteel) genteel_step g \<Longrightarrow> genteel_run as g = Some g' \<Longrightarrow> reach (\<lambda>g. g = new_genteel) genteel_step g'"
  by (induction as arbitrary: g) (auto split: bind_splits intro: reach_step genteel_step.intros)

section \<open>Properties\<close>

text \<open>C31: in every interleaving of arrivals and turns: what has been published is a beginning of the messages that came into their
  channel, in order, and the rest is still in it; the count is the joins less the leaves that \<open>Run\<close> has taken; \<open>Run\<close> ends
  only after the end of the context and with a count of 0, and no handler panics before it has ended.\<close>

theorem genteel_order:
  assumes "reach (\<lambda>g. g = new_genteel) genteel_step g"
  shows "gr_arrived g RecChan = gr_published g @ gr_chans g RecChan \<and> (\<forall>k. length (gr_chans g k) \<le> chan_cap k)
    \<and> gr_count g = of_int (int (length (gr_taken g JoinChan)) - int (length (gr_taken g LeaveChan)))
    \<and> (gr_returned g \<longrightarrow> gr_ctx g \<and> gr_count g = 0 \<and> gr_cancelled g) \<and> (\<not> gr_returned g \<longrightarrow> gr_panics g = 0)"
  using genteel.reach_inv [OF assms] by (auto simp: genteel_inv_def)

definition one_message :: "genteel_action list" where
  "one_message = [Arrive JoinChan [], Turn (CaseChan JoinChan), Arrive RecChan [1], Arrive RecChan [2], Turn (CaseChan RecChan)]"

lemma genteel_order_witness:
  "\<exists>g. genteel_run one_message new_genteel = Some g \<and> gr_arrived g RecChan = [[1], [2]] \<and> [[1], [2]] = gr_published g @ gr_chans g RecChan"
proof -
  obtain g where g: "genteel_run one_message new_genteel = Some g" "gr_arrived g RecChan = [[1], [2]]"
    by (simp add: one_message_def new_genteel_def chan_put_def genteel_turn_def take_chan_def)
  have "reach (\<lambda>g. g = new_genteel) genteel_step g" by (rule genteel_reach [OF reach_init g(1)]) (rule refl)
  from genteel_order [OF this] g show ?thesis by auto
qed

text \<open>a message can be lost although its sender left only after it: \<open>Run\<close> takes the leave first, finds the count 0, and ends; the
  message stays in its channel for ever, and from then on every frame of the room's channels makes the handler, and with it the
  reading goroutine, panic.\<close>

theorem leave_overtakes_message:
  "\<exists>g. genteel_run [Arrive JoinChan [], Turn (CaseChan JoinChan), Arrive RecChan d, Arrive LeaveChan [], GrCtxIsDone,
        Turn (CaseChan LeaveChan), Turn CaseDone] new_genteel = Some g
    \<and> gr_arrived g RecChan = [d] \<and> gr_returned g
    \<and> (\<forall>as g'. genteel_run as g = Some g' \<longrightarrow> gr_published g' = [] \<and> gr_chans g' RecChan = [d] \<and> gr_panics g' = num is_arrival as)
    \<and> (\<forall>ch\<in>{ChannelMsg_chat, ChannelJoin, ChannelLeave}. \<forall>s fs fd. sessGetFrameSlice s g = Some fs \<and> GetData fs = Some fd \<longrightarrow>
         route (fst (genteel_main mid h)) ch s g = Panicked g)"
proof -
  obtain g where g: "genteel_run [Arrive JoinChan [], Turn (CaseChan JoinChan), Arrive RecChan d, Arrive LeaveChan [], GrCtxIsDone,
        Turn (CaseChan LeaveChan), Turn CaseDone] new_genteel = Some g" "gr_arrived g RecChan = [d]" "gr_returned g"
    "gr_published g = []" "gr_chans g RecChan = [d]" "gr_panics g = 0" "gr_closed g"
    by (simp add: new_genteel_def chan_put_def genteel_turn_def take_chan_def)
  have "reach (\<lambda>g. g = new_genteel) genteel_step g" by (rule genteel_reach [OF reach_init g(1)]) (rule refl)
  then have "genteel_inv g" by (rule genteel.reach_inv)
  then have "gr_published g' = [] \<and> gr_chans g' RecChan = [d] \<and> gr_panics g' = num is_arrival as" if "genteel_run as g = Some g'" for as g'
    using returned_run [of g as g'] that g by simp
  moreover have "route (fst (genteel_main mid h)) ch s g = Panicked g"
    if "ch \<in> {ChannelMsg_chat, ChannelJoin, ChannelLeave}" "sessGetFrameSlice s g = Some fs" "GetData fs = Some fd" for ch s fs fd
    using that g(7) by (auto simp: route_def genteel_main_def WatchChannel_def HandleFunc_def watchChannelWrapper_def chan_put_def
        channels_differ channels_differ [symmetric])
  ultimately show ?thesis using g by blast
qed

lemma leave_overtakes_message_witness:
  "\<exists>g g'. gr_arrived g RecChan = [[7]] \<and> genteel_run [Arrive RecChan [9]] g = Some g' \<and> gr_published g' = [] \<and> gr_panics g' = 1"
proof -
  obtain g where g: "gr_arrived g RecChan = [[7]]"
    "\<forall>as g'. genteel_run as g = Some g' \<longrightarrow> gr_published g' = [] \<and> gr_chans g' RecChan = [[7]] \<and> gr_panics g' = num is_arrival as"
    using leave_overtakes_message [of "[7]" 0 NewHandler] by blast
  obtain g' where "genteel_run [Arrive RecChan [9]] g = Some g'" by simp
  with g show ?thesis by fastforce
qed

end
