(* ===== verification/Echo.thy ===== *)
theory Echo
  imports Calls
begin

text \<open>
  \<open>examples/echo\<close> and \<open>examples/protobuf3\<close>: a server that answers calls and a client that makes one call, prints the answer
  and ends. A process prints lines, writes frames and may exit; after that nothing it does has an effect.
\<close>

section \<open>Processes\<close>

datatype line = Printed "u8 list" | PrintedError node_error | PrintedFailure

record 's process =
  pr_out :: "line list"
  pr_wire :: "'s wire_log"
  pr_exit :: "int option"

definition new_process :: "'s process" where
  "new_process = \<lparr>pr_out = [], pr_wire = [], pr_exit = None\<rparr>"

definition alive :: "('s process \<Rightarrow> 's process) \<Rightarrow> 's process \<Rightarrow> 's process" where
  "alive f p = (if pr_exit p = None then f p else p)"

text \<open>\<open>log.Println\<close>, \<open>os.Exit\<close> and \<open>log.Fatalln\<close>.\<close>

definition say :: "line \<Rightarrow> 's process \<Rightarrow> 's process" where
  "say x = alive (\<lambda>p. p\<lparr>pr_out := pr_out p @ [x]\<rparr>)"

definition os_exit :: "int \<Rightarrow> 's process \<Rightarrow> 's process" where
  "os_exit code = alive (\<lambda>p. p\<lparr>pr_exit := Some code\<rparr>)"

definition fatal :: "line \<Rightarrow> 's process \<Rightarrow> 's process" where
  "fatal x p = os_exit 1 (say x p)"

definition process_write :: "('s, 's process) write_frame" where
  "process_write m fs e p = (None, alive (\<lambda>p. p\<lparr>pr_wire := pr_wire p @ [(m, elems (GetAll fs))]\<rparr>) p)"

text \<open>A handler that ends in an answer.\<close>

definition answer_with :: "'s cluster \<Rightarrow> ContextMQ \<Rightarrow> u8 list \<Rightarrow> 's process \<Rightarrow> bool \<times> 's process" where
  "answer_with c ctx d p =
     (case Reply process_write c ctx d (\<lambda>e. say (PrintedError e)) p of Ended p \<Rightarrow> (True, p) | Crashed \<Rightarrow> (False, p))"

section \<open>The echo server and client\<close>

definition ChannelMsg_echo :: u16 where "ChannelMsg_echo = 50"

definition ChannelRpl :: u16 where "ChannelRpl = 51"

definition ping :: "'s cluster \<Rightarrow> ContextMQ \<Rightarrow> 's process \<Rightarrow> bool \<times> 's process" where
  "ping c ctx p = answer_with c ctx (ascii ''pong'') (say (Printed (Request ctx)) p)"

definition echo_server :: "u16 \<Rightarrow> 's cluster \<Rightarrow> 's process Handler \<Rightarrow> 's process Handler \<times> channelMsg" where
  "echo_server mid c h = node_Subscribe mid (ping c) ChannelMsg_echo h"

definition pong :: "ContextMQ \<Rightarrow> 's process \<Rightarrow> bool \<times> 's process" where
  "pong ctx p = (True, os_exit 0 (say (Printed (Request ctx)) p))"

text \<open>What the client does before it is guarded: its handler table, the message to the cluster and the call.\<close>

definition echo_client ::
  "nat \<Rightarrow> u16 \<Rightarrow> 's cluster \<Rightarrow> 's process Handler \<Rightarrow> ('s process Handler \<times> channelMsg) \<times> ('s cluster \<times> 's process) ended option" where
  "echo_client fuel mid c h =
     (node_Subscribe mid pong ChannelRpl h,
      Call fuel process_write c ChannelMsg_echo (ascii ''ping'') ChannelRpl (\<lambda>e. fatal (PrintedError e)) new_process)"

section \<open>The server and client with messages\<close>

text \<open>
  \<open>strings.ToUpper\<close>: on ASCII it works byte by byte; \<open>unicode_upper\<close> stands for the tables of the other characters. \<open>unmarshal\<close> and
  \<open>marshal\<close> are the calls of the protobuf library on messages with one string.
\<close>

definition upper_byte :: "u8 \<Rightarrow> u8" where
  "upper_byte x = (if 97 \<le> x \<and> x \<le> 122 then x - 32 else x)"

definition ToUpper :: "(u8 list \<Rightarrow> u8 list) \<Rightarrow> u8 list \<Rightarrow> u8 list" where
  "ToUpper unicode_upper s = (if \<forall>x\<in>set s. x < 128 then map upper_byte s else unicode_upper s)"

definition reply_proto ::
  "(u8 list \<Rightarrow> u8 list option) \<Rightarrow> (u8 list \<Rightarrow> u8 list) \<Rightarrow> 's cluster \<Rightarrow> ContextMQ \<Rightarrow> 's process \<Rightarrow> bool \<times> 's process" where
  "reply_proto unmarshal unicode_upper c ctx p =
     (case unmarshal (Request ctx) of
        None \<Rightarrow> (True, fatal PrintedFailure p)
      | Some d \<Rightarrow> answer_with c ctx (ToUpper unicode_upper d) (say (Printed d) p))"

definition proto_server ::
  "(u8 list \<Rightarrow> u8 list option) \<Rightarrow> (u8 list \<Rightarrow> u8 list) \<Rightarrow> u16 \<Rightarrow> 's cluster \<Rightarrow> 's process Handler \<Rightarrow> 's process Handler \<times> channelMsg" where
  "proto_server unmarshal unicode_upper mid c h = node_Subscribe mid (reply_proto unmarshal unicode_upper c) ChannelMsg_echo h"

definition request :: "ContextMQ \<Rightarrow> 's process \<Rightarrow> bool \<times> 's process" where
  "request ctx p = (True, os_exit 0 (say (Printed (Request ctx)) p))"

text \<open>Without an argument \<open>main\<close> returns, which ends the process with code 0.\<close>

definition proto_client ::
  "nat \<Rightarrow> (u8 list \<Rightarrow> u8 list option) \<Rightarrow> u8 list list \<Rightarrow> u16 \<Rightarrow> 's cluster \<Rightarrow> 's process Handler
    \<Rightarrow> ('s process Handler \<times> channelMsg) \<times> ('s cluster \<times> 's process) ended option" where
  "proto_client fuel marshal args mid c h =
     (node_Subscribe mid request ChannelRpl h,
      case args of
        [] \<Rightarrow> Some (Ended (c, os_exit 0 new_process))
      | d # _ \<Rightarrow>
          (case marshal d of
             None \<Rightarrow> Some (Ended (c, fatal PrintedFailure new_process))
           | Some out \<Rightarrow> Call fuel process_write c ChannelMsg_echo out ChannelRpl (\<lambda>e. fatal (PrintedError e)) new_process))"


section \<open>One call and its answer\<close>

lemma process_call:
  assumes "cl_channels c ch = Some b" "cursor_at b p" "sets b = [j]" "unat j < length (cl_sessions c)" "cl_sessions c ! unat j = Some m"
    and "pr_exit q = None"
  shows "\<exists>c'. Call (Suc n) process_write c ch d r reject q
    = Some (Ended (c', q\<lparr>pr_wire := pr_wire q @ [(m, call_frame (machineID c) ch (d, r))]\<rparr>))"
proof -
  obtain b' where "bucket_next b = Some ((j, 1), b')" "cursor_at b' 0" "sets b' = [j]"
    using cursor_next [OF assms(2)] assms(3) by auto
  then show ?thesis using assms(1,4-6)
    by (simp add: Call_def call_ex_bytes NewFrameSlice_bytes AskOne_def process_write_def alive_def GetAll_def arr_get_def Let_def call_frame_def)
qed

lemma answer_with_ok:
  assumes "unat mid < length (cl_sessions c)" "cl_sessions c ! unat mid = Some a" "pr_exit p = None"
  shows "answer_with c \<lparr>Request = d, ctx_ex = Some (bytes16 mid @ bytes16 r)\<rparr> x p
    = (True, p\<lparr>pr_wire := pr_wire p @ [(a, frame_bytes r x [])]\<rparr>)"
proof -
  obtain f where "elems (GetAll f) = frame_bytes r x []"
    "Reply process_write c \<lparr>Request = d, ctx_ex = Some (bytes16 mid @ bytes16 r)\<rparr> x (\<lambda>e. say (PrintedError e)) p
      = Specify process_write c mid r f ((\<lambda>e. say (PrintedError e)) \<circ> NodeSend) p"
    using reply_specify [of "\<lparr>Request = d, ctx_ex = Some (bytes16 mid @ bytes16 r)\<rparr>" mid r x process_write c "\<lambda>e. say (PrintedError e)" p]
    by auto
  then show ?thesis using assms by (simp add: answer_with_def Specify_def arr_get_def process_write_def alive_def)
qed

lemma exits:
  "pr_exit p = None \<Longrightarrow> os_exit k (say x p) = p\<lparr>pr_out := pr_out p @ [x], pr_exit := Some k\<rparr>"
  "pr_exit p = None \<Longrightarrow> fatal x p = p\<lparr>pr_out := pr_out p @ [x], pr_exit := Some 1\<rparr>"
  by (simp_all add: os_exit_def say_def fatal_def alive_def)

lemma stopped:
  assumes "pr_exit p = Some k"
  shows "say x p = p" "fatal x p = p" "answer_with c ctx d p = (b, p') \<Longrightarrow> p' = p"
proof -
  show 1: "say x p = p" "fatal x p = p" for x using assms by (simp_all add: os_exit_def say_def fatal_def alive_def)
  assume "answer_with c ctx d p = (b, p')"
  moreover have "process_write m fs e p = (None, p)" for m fs e using assms by (simp add: process_write_def alive_def)
  ultimately show "p' = p" using 1
    by (auto simp: answer_with_def Reply_def Specify_def split: option.splits ended.splits if_splits)
qed

text \<open>A client that prints the answer and exits, and the subscriber of its call.\<close>

lemma exchange:
  assumes subscriber: "h FrameTypeNil = Some nil_handler" "ch < FrameTypeNil" "fresh_reader s fuel (12 + length d)"
    and serves: "snd (F \<lparr>Request = d, ctx_ex = Some (bytes16 mid @ bytes16 r)\<rparr> new_process) = p2"
    and writes: "pr_wire p2 = [(a, frame_bytes r ans [])]"
    and client: "h' FrameTypeNil = Some nil_handler" "r < FrameTypeNil" "fresh_reader s' fuel' (8 + length ans)" "pr_exit p = None"
    and sizes: "\<forall>k\<in>set sizes. 0 < k" "12 + length d \<le> length sizes" "\<forall>k\<in>set sizes'. 0 < k" "8 + length ans \<le> length sizes'"
  shows "\<exists>t l'. receive fuel (fst (node_Subscribe n F ch h)) lim se s l new_process (call_frame mid ch (d, r)) sizes = (Some (IoWaiting t l' p2), [])"
    and "\<exists>t l'. receive fuel' (fst (node_Subscribe n' (\<lambda>ctx p. (True, os_exit 0 (say (Printed (Request ctx)) p))) r h')) lim' se' s' k p
        (stream_to a (pr_wire p2)) sizes'
      = (Some (IoWaiting t l' (p\<lparr>pr_out := pr_out p @ [Printed ans], pr_exit := Some 0\<rparr>)), [])"
proof -
  let ?f = "call_frame mid ch (d, r)"
  have small: "12 + length d < 2 ^ 32" "8 + length ans < 2 ^ 32"
    using subscriber(3) client(3) unfolding fresh_reader_def by linarith+
  have "plain_frame ?f" using plain_call_frame [OF subscriber(2), of "(d, r)"] small(1) by simp
  then have "\<forall>f\<in>set [?f]. plain_frame f \<and> length f \<le> 12 + length d
      \<and> handles se (fst (node_Subscribe n F ch h)) (\<lambda>f w. (None, snd (F (context_of f) w))) f"
    using subscriber_handles [of "bytes16 mid @ bytes16 r" se n F ch h d] by (simp add: call_frame_def)
  moreover have "fst (node_Subscribe n F ch h) FrameTypeNil = Some nil_handler"
    using subscriber by (auto simp: node_Subscribe_def HandleFunc_def)
  ultimately have "\<exists>t l'. receive fuel (fst (node_Subscribe n F ch h)) lim se s l new_process (concat [?f]) sizes
      = (Some (IoWaiting t l' (deliver (\<lambda>f w. (None, snd (F (context_of f) w))) [?f] new_process)), [])"
    by (intro receive_fresh [OF subscriber(3)]) (use sizes(1,2) in \<open>auto simp: call_frame_def\<close>)
  then show "\<exists>t l'. receive fuel (fst (node_Subscribe n F ch h)) lim se s l new_process ?f sizes = (Some (IoWaiting t l' p2), [])"
    using serves by (simp add: call_frame_def context_of_frame)
  let ?G = "\<lambda>ctx p. (True, os_exit 0 (say (Printed (Request ctx)) p))" and ?a = "frame_bytes r ans []"
  have "plain_frame ?a" by (rule plain_frame_bytes) (use client(2) small(2) in simp_all)
  then have "\<forall>f\<in>set [?a]. plain_frame f \<and> length f \<le> 8 + length ans
      \<and> handles se' (fst (node_Subscribe n' ?G r h')) (\<lambda>f w. (None, snd (?G (context_of f) w))) f"
    using subscriber_handles [of "[]" se' n' ?G r h' ans] by simp
  moreover have "fst (node_Subscribe n' ?G r h') FrameTypeNil = Some nil_handler"
    using client by (auto simp: node_Subscribe_def HandleFunc_def)
  ultimately have "\<exists>t l'. receive fuel' (fst (node_Subscribe n' ?G r h')) lim' se' s' k p (concat [?a]) sizes'
      = (Some (IoWaiting t l' (deliver (\<lambda>f w. (None, snd (?G (context_of f) w))) [?a] p)), [])"
    by (intro receive_fresh [OF client(3)]) (use sizes(3,4) in auto)
  then show "\<exists>t l'. receive fuel' (fst (node_Subscribe n' ?G r h')) lim' se' s' k p (stream_to a (pr_wire p2)) sizes'
      = (Some (IoWaiting t l' (p\<lparr>pr_out := pr_out p @ [Printed ans], pr_exit := Some 0\<rparr>)), [])"
    using client(4) writes by (simp add: context_of_frame exits stream_to_def)
qed


section \<open>Properties\<close>

lemma channels_user: "ChannelMsg_echo < FrameTypeNil" "ChannelRpl < FrameTypeNil"
  by (simp_all add: ChannelMsg_echo_def ChannelRpl_def FrameTypeNil_def)

text \<open>the echo client gets its answer: when the channel has one subscriber, the server, the client writes one frame, the
  server, whatever the cuts of the stream, prints ''ping'' and writes one frame back, and the client, whatever
  the cuts again, prints ''pong'' and exits with code 0.\<close>

theorem echo_answered:
  assumes caller: "cl_channels c ChannelMsg_echo = Some b" "cursor_at b p" "sets b = [j]" "unat j < length (cl_sessions c)"
      "cl_sessions c ! unat j = Some m" "h' FrameTypeNil = Some nil_handler" "fresh_reader s' fuel' 12"
    and server: "unat (machineID c) < length (cl_sessions c')" "cl_sessions c' ! unat (machineID c) = Some a"
      "h FrameTypeNil = Some nil_handler" "fresh_reader s fuel 16"
    and sizes: "\<forall>k\<in>set sizes. 0 < k" "16 \<le> length sizes" "\<forall>k\<in>set sizes'. 0 < k" "12 \<le> length sizes'"
  shows "\<exists>c1 p1 t l1 p2 t' l2. snd (echo_client (Suc n) cm c h') = Some (Ended (c1, p1))
    \<and> receive fuel (fst (echo_server mid c' h)) lim se s l new_process (stream_to m (pr_wire p1)) sizes = (Some (IoWaiting t l1 p2), [])
    \<and> pr_out p2 = [Printed (ascii ''ping'')] \<and> pr_exit p2 = None
    \<and> receive fuel' (fst (fst (echo_client (Suc n) cm c h'))) lim' se' s' l' p1 (stream_to a (pr_wire p2)) sizes'
      = (Some (IoWaiting t' l2 (p1\<lparr>pr_out := [Printed (ascii ''pong'')], pr_exit := Some 0\<rparr>)), [])"
proof -
  have len: "length (ascii ''ping'') = 4" "length (ascii ''pong'') = 4" by (simp_all add: ascii_def)
  let ?p1 = "new_process\<lparr>pr_wire := [(m, call_frame (machineID c) ChannelMsg_echo (ascii ''ping'', ChannelRpl))]\<rparr> :: 'a process"
  let ?p2 = "new_process\<lparr>pr_out := [Printed (ascii ''ping'')], pr_wire := [(a, frame_bytes ChannelRpl (ascii ''pong'') [])]\<rparr> :: 'b process"
  have s0: "pr_exit (new_process :: 'a process) = None" "pr_wire (new_process :: 'a process) = []" by (simp_all add: new_process_def)
  obtain c1 where call: "snd (echo_client (Suc n) cm c h') = Some (Ended (c1, ?p1))"
    using process_call [OF caller(1-5) s0(1), of n "ascii ''ping''" ChannelRpl "\<lambda>e. fatal (PrintedError e)"]
    by (auto simp: echo_client_def s0(2))
  have srv: "snd (ping c' \<lparr>Request = ascii ''ping'', ctx_ex = Some (bytes16 (machineID c) @ bytes16 ChannelRpl)\<rparr> new_process) = ?p2"
    by (simp add: ping_def say_def alive_def new_process_def answer_with_ok [OF server(1,2)])
  have pong: "pong = (\<lambda>ctx p. (True, os_exit 0 (say (Printed (Request ctx)) p)))" by (simp add: pong_def fun_eq_iff)
  note ex = exchange [where F = "ping c'" and ans = "ascii ''pong''" and mid = "machineID c" and p = ?p1 and a = a
      and fuel = fuel and fuel' = fuel' and sizes = sizes and sizes' = sizes' and s = s and s' = s' and h = h and h' = h',
      OF server(3) channels_user(1) _ srv _ caller(6) channels_user(2)]
  have "\<exists>t l1. receive fuel (fst (echo_server mid c' h)) lim se s l new_process (stream_to m (pr_wire ?p1)) sizes = (Some (IoWaiting t l1 ?p2), [])"
    using ex(1) [where n = mid and lim = lim and se = se and l = l] server(4) caller(7) sizes len
    by (simp add: echo_server_def stream_to_def new_process_def)
  moreover have "\<exists>t' l2. receive fuel' (fst (fst (echo_client (Suc n) cm c h'))) lim' se' s' l' ?p1 (stream_to a (pr_wire ?p2)) sizes'
      = (Some (IoWaiting t' l2 (?p1\<lparr>pr_out := [Printed (ascii ''pong'')], pr_exit := Some 0\<rparr>)), [])"
    using ex(2) [where n' = cm and lim' = lim' and se' = se' and k = l'] server(4) caller(7) sizes len
    by (simp add: echo_client_def pong new_process_def)
  ultimately show ?thesis using call by (fastforce simp: new_process_def)
qed


definition echo_caller :: "nat cluster" where
  "echo_caller = \<lparr>cl_sessions = [None, Some 7], cl_channels = (\<lambda>_. Some (bucket_add newBucket [] 1)), machineID = 0, cl_state = StateWork\<rparr>"

definition echo_subscriber :: "nat cluster" where
  "echo_subscriber = \<lparr>cl_sessions = [Some 4], cl_channels = Map.empty, machineID = 1, cl_state = StateWork\<rparr>"

definition echo_session :: "'w Session" where
  "echo_session = \<lparr>sessGetFrameSlice = \<lambda>_. None, sessWriteFrameDataPromptly = \<lambda>_ w. (None, w),
     sessWriteFrameDataToCache = \<lambda>_ _ w. (None, w), sessClose = \<lambda>w. w\<rparr>"

definition echo_reader :: SessionRd where
  "echo_reader = \<lparr>rBuf = replicate 32 0, rd_w = 0, rd_r = 0\<rparr>"

lemma echo_setup:
  "cl_channels echo_caller ch = Some (bucket_add newBucket [] 1)" "cursor_at (bucket_add newBucket [] 1) 0" "sets (bucket_add newBucket [] 1) = [1]"
  "unat 1 < length (cl_sessions echo_caller)" "cl_sessions echo_caller ! unat 1 = Some 7"
  "unat (machineID echo_caller) < length (cl_sessions echo_subscriber)" "cl_sessions echo_subscriber ! unat (machineID echo_caller) = Some 4"
  "n \<le> 32 \<Longrightarrow> fresh_reader echo_reader 33 n" "NewHandler FrameTypeNil = Some nil_handler"
  using NewHandler_simps(1) by (simp_all add: echo_caller_def echo_subscriber_def echo_reader_def fresh_reader_def bucket_add_newBucket)
    (simp add: cursor_at_def bucket_add_def newBucket_def)

lemma echo_answered_witness:
  "\<exists>c1 p1. snd (echo_client 1 0 echo_caller NewHandler) = Some (Ended (c1, p1))
    \<and> (\<exists>t l1 p2. receive 33 (fst (echo_server 1 echo_subscriber NewHandler)) (\<lambda>n l. l) echo_session echo_reader () new_process
          (stream_to 7 (pr_wire p1)) (replicate 16 1) = (Some (IoWaiting t l1 p2), []) \<and> pr_out p2 = [Printed (ascii ''ping'')])"
proof -
  have f: "fresh_reader echo_reader 33 12" "fresh_reader echo_reader 33 16" by (simp_all add: echo_setup(8))
  show ?thesis
    using echo_answered [where sizes = "replicate 16 1" and sizes' = "replicate 12 1" and n = 0 and cm = 0 and mid = 1 and lim = "\<lambda>n l. l"
        and se = echo_session and l = "()" and lim' = "\<lambda>n l. l" and se' = echo_session and l' = "()" and s = echo_reader and s' = echo_reader and h = NewHandler and h' = NewHandler,
        OF echo_setup(1-5,9) f(1) echo_setup(6,7,9) f(2)] by auto
qed

text \<open>C22: the protobuf client gets its string back in capital letters: with an argument that the library packs into bytes
  from which it unpacks the same string, the server prints the string and answers once, and the client prints the
  string in capital letters, byte for byte if it is ASCII, and exits with code 0.\<close>

theorem proto_answered:
  assumes library: "marshal d = Some out" "unmarshal out = Some d"
    and caller: "cl_channels c ChannelMsg_echo = Some b" "cursor_at b p" "sets b = [j]" "unat j < length (cl_sessions c)"
      "cl_sessions c ! unat j = Some m" "h' FrameTypeNil = Some nil_handler" "fresh_reader s' fuel' (8 + length (ToUpper uni d))"
    and server: "unat (machineID c) < length (cl_sessions c')" "cl_sessions c' ! unat (machineID c) = Some a"
      "h FrameTypeNil = Some nil_handler" "fresh_reader s fuel (12 + length out)"
    and sizes: "\<forall>k\<in>set sizes. 0 < k" "12 + length out \<le> length sizes" "\<forall>k\<in>set sizes'. 0 < k" "8 + length (ToUpper uni d) \<le> length sizes'"
  shows "\<exists>c1 p1 t l1 p2 t' l2. snd (proto_client (Suc n) marshal (d # ds) cm c h') = Some (Ended (c1, p1))
    \<and> receive fuel (fst (proto_server unmarshal uni mid c' h)) lim se s l new_process (stream_to m (pr_wire p1)) sizes = (Some (IoWaiting t l1 p2), [])
    \<and> pr_out p2 = [Printed d] \<and> pr_exit p2 = None
    \<and> receive fuel' (fst (fst (proto_client (Suc n) marshal (d # ds) cm c h'))) lim' se' s' l' p1 (stream_to a (pr_wire p2)) sizes'
      = (Some (IoWaiting t' l2 (p1\<lparr>pr_out := [Printed (ToUpper uni d)], pr_exit := Some 0\<rparr>)), [])
    \<and> ((\<forall>x\<in>set d. x < 128) \<longrightarrow> ToUpper uni d = map upper_byte d)"
proof -
  let ?p1 = "new_process\<lparr>pr_wire := [(m, call_frame (machineID c) ChannelMsg_echo (out, ChannelRpl))]\<rparr> :: 'a process"
  let ?p2 = "new_process\<lparr>pr_out := [Printed d], pr_wire := [(a, frame_bytes ChannelRpl (ToUpper uni d) [])]\<rparr> :: 'b process"
  have s0: "pr_exit (new_process :: 'a process) = None" "pr_wire (new_process :: 'a process) = []" by (simp_all add: new_process_def)
  obtain c1 where call: "snd (proto_client (Suc n) marshal (d # ds) cm c h') = Some (Ended (c1, ?p1))"
    using process_call [OF caller(1-5) s0(1), of n out ChannelRpl "\<lambda>e. fatal (PrintedError e)"]
    by (auto simp: proto_client_def s0(2) library(1))
  have srv: "snd (reply_proto unmarshal uni c' \<lparr>Request = out, ctx_ex = Some (bytes16 (machineID c) @ bytes16 ChannelRpl)\<rparr> new_process) = ?p2"
    by (simp add: reply_proto_def library(2) say_def alive_def new_process_def answer_with_ok [OF server(1,2)])
  have req: "request = (\<lambda>ctx p. (True, os_exit 0 (say (Printed (Request ctx)) p)))" by (simp add: request_def fun_eq_iff)
  note ex = exchange [where F = "reply_proto unmarshal uni c'" and ans = "ToUpper uni d" and mid = "machineID c" and p = ?p1 and a = a
      and fuel = fuel and fuel' = fuel' and sizes = sizes and sizes' = sizes' and s = s and s' = s' and h = h and h' = h',
      OF server(3) channels_user(1) _ srv _ caller(6) channels_user(2)]
  have "\<exists>t l1. receive fuel (fst (proto_server unmarshal uni mid c' h)) lim se s l new_process (stream_to m (pr_wire ?p1)) sizes
      = (Some (IoWaiting t l1 ?p2), [])"
    using ex(1) [where n = mid and lim = lim and se = se and l = l] server(4) caller(7) sizes
    by (simp add: proto_server_def stream_to_def new_process_def)
  moreover have "\<exists>t' l2. receive fuel' (fst (fst (proto_client (Suc n) marshal (d # ds) cm c h'))) lim' se' s' l' ?p1 (stream_to a (pr_wire ?p2)) sizes'
      = (Some (IoWaiting t' l2 (?p1\<lparr>pr_out := [Printed (ToUpper uni d)], pr_exit := Some 0\<rparr>)), [])"
    using ex(2) [where n' = cm and lim' = lim' and se' = se' and k = l'] server(4) caller(7) sizes
    by (simp add: proto_client_def req new_process_def)
  ultimately show ?thesis using call by (fastforce simp: new_process_def ToUpper_def)
qed

lemma proto_answered_witness:
  "\<exists>t' l2 p1 w. receive 33 (fst (fst (proto_client 1 (\<lambda>d. Some (10 # d)) [[104, 105]] 0 echo_caller NewHandler))) (\<lambda>n l. l) echo_session echo_reader ()
      p1 (stream_to (4 :: nat) w) (replicate 10 1)
    = (Some (IoWaiting t' l2 (p1\<lparr>pr_out := [Printed [72, 73]], pr_exit := Some 0\<rparr>)), [])"
proof -
  let ?un = "\<lambda>x. case x of [] \<Rightarrow> None | y # d \<Rightarrow> Some d"
  have u: "ToUpper id [104, 105] = [72, 73]" by (simp add: ToUpper_def upper_byte_def)
  have f: "fresh_reader echo_reader 33 (8 + length (ToUpper id [104, 105]))" "fresh_reader echo_reader 33 (12 + length [10, 104, 105 :: u8])"
    by (simp_all add: echo_setup(8) u)
  show ?thesis
    using proto_answered [where sizes = "replicate 15 1" and sizes' = "replicate 10 1" and n = 0 and cm = 0 and mid = 1 and lim = "\<lambda>n l. l"
        and se = echo_session and l = "()" and lim' = "\<lambda>n l. l" and se' = echo_session and l' = "()" and s = echo_reader and s' = echo_reader and h = NewHandler and h' = NewHandler and ds = "[]"
        and marshal = "\<lambda>d. Some (10 # d)" and unmarshal = ?un and uni = id,
        OF refl _ echo_setup(1-5,9) f(1) echo_setup(6,7,9) f(2)] u
    by (simp del: split_paired_Ex) blast
qed

text \<open>What the server makes of calls, in order: from a request on that cannot be unpacked it does nothing more.\<close>

definition proto_answers :: "(u8 list \<Rightarrow> u8 list option) \<Rightarrow> (u8 list \<Rightarrow> u8 list) \<Rightarrow> 's \<Rightarrow> (u8 list \<times> u16) list \<Rightarrow> 's wire_log" where
  "proto_answers unmarshal uni a xs =
     map (\<lambda>(d, r). (a, frame_bytes r (ToUpper uni (the (unmarshal d))) [])) (takeWhile (\<lambda>x. unmarshal (fst x) \<noteq> None) xs)"

lemma deliver_stopped:
  assumes "pr_exit p = Some k"
  shows "deliver (\<lambda>f w. (None, snd (reply_proto unmarshal uni c (context_of f) w))) fs p = p"
  using assms
proof (induction fs)
  case (Cons f fs)
  have "snd (reply_proto unmarshal uni c (context_of f) p) = p"
    using stopped(1,2) [OF Cons.prems] stopped(3) [OF Cons.prems] by (auto simp: reply_proto_def split: option.splits) (metis prod.collapse)
  then show ?case using Cons by simp
qed simp

lemma deliver_proto:
  assumes "unat mid < length (cl_sessions c)" "cl_sessions c ! unat mid = Some a" "pr_exit p = None"
  shows "let p' = deliver (\<lambda>f w. (None, snd (reply_proto unmarshal uni c (context_of f) w))) (map (call_frame mid ch) xs) p
    in pr_wire p' = pr_wire p @ proto_answers unmarshal uni a xs
      \<and> pr_exit p' = (if \<exists>x\<in>set xs. unmarshal (fst x) = None then Some 1 else None)"
  using assms(3)
proof (induction xs arbitrary: p)
  case (Cons x xs)
  obtain d r where x: "x = (d, r)" by (cases x)
  have ctx: "context_of (call_frame mid ch (d, r)) = \<lparr>Request = d, ctx_ex = Some (bytes16 mid @ bytes16 r)\<rparr>"
    by (simp add: call_frame_def context_of_frame)
  show ?case
  proof (cases "unmarshal d")
    case None
    then have "snd (reply_proto unmarshal uni c (context_of (call_frame mid ch x)) p) = fatal PrintedFailure p"
      by (simp add: x ctx reply_proto_def)
    then show ?thesis using None deliver_stopped [of "fatal PrintedFailure p" 1 unmarshal uni c "map (call_frame mid ch) xs"] Cons.prems
      by (simp add: exits x proto_answers_def)
  next
    case (Some y)
    have "snd (reply_proto unmarshal uni c (context_of (call_frame mid ch x)) p)
        = p\<lparr>pr_out := pr_out p @ [Printed y], pr_wire := pr_wire p @ [(a, frame_bytes r (ToUpper uni y) [])]\<rparr>" (is "_ = ?p")
      using Cons.prems by (simp add: x ctx reply_proto_def Some say_def alive_def answer_with_ok [OF assms(1,2)])
    then show ?thesis using Cons.IH [of ?p] Cons.prems Some by (simp add: x Let_def proto_answers_def)
  qed
qed (simp add: proto_answers_def)

text \<open>one bad request ends the protobuf server: of the calls that reach it, whatever the cuts of their stream, it answers in
  order those before the first whose data cannot be unpacked, and none after it, since there it exits with code
  1.\<close>

theorem bad_request_ends_server:
  assumes "unat mid < length (cl_sessions c)" "cl_sessions c ! unat mid = Some a" "h FrameTypeNil = Some nil_handler"
    and reader: "rd_w s = 0" "rd_r s = 0" "0 < length (rBuf s)" "length (rBuf s) < 2 ^ 32" "length (rBuf s) < fuel"
      "\<forall>(d, r)\<in>set xs. 12 + length d \<le> length (rBuf s)"
    and sizes: "\<forall>k\<in>set sizes. 0 < k" "length (concat (map (call_frame mid ChannelMsg_echo) xs)) \<le> length sizes"
  shows "\<exists>s' l' p. receive fuel (fst (proto_server unmarshal uni n c h)) lim se s l new_process
        (concat (map (call_frame mid ChannelMsg_echo) xs)) sizes = (Some (IoWaiting s' l' p), [])
    \<and> pr_wire p = proto_answers unmarshal uni a xs
    \<and> (if \<exists>x\<in>set xs. unmarshal (fst x) = None then pr_exit p = Some 1 else pr_exit p = None)"
proof -
  let ?F = "reply_proto unmarshal uni c"
  have "pr_exit (new_process :: 'a process) = None" "pr_wire (new_process :: 'a process) = []" by (simp_all add: new_process_def)
  then have d: "pr_wire p' = proto_answers unmarshal uni a xs
      \<and> (if \<exists>x\<in>set xs. unmarshal (fst x) = None then pr_exit p' = Some 1 else pr_exit p' = None)"
    if "p' = deliver (\<lambda>f w. (None, snd (?F (context_of f) w))) (map (call_frame mid ChannelMsg_echo) xs) new_process" for p'
    using deliver_proto [OF assms(1,2), of new_process unmarshal uni ChannelMsg_echo xs] that by (auto simp: Let_def)
  show ?thesis
    using calls_routed [where F = ?F and cm = mid and w = new_process and s = s and xs = xs and h = h and mid = n and lim = lim and se = se and l = l,
        OF reader assms(3) channels_user(1) sizes] d [OF refl] unfolding proto_server_def by blast
qed

lemma bad_request_ends_server_witness:
  "\<exists>s' l' p. receive 33 (fst (proto_server (\<lambda>d. if d = [] then None else Some d) id 1 echo_subscriber NewHandler)) (\<lambda>n l. l) echo_session echo_reader ()
      new_process (concat (map (call_frame 0 ChannelMsg_echo) [([104], 70), ([], 70), ([105], 70)])) (replicate 38 1) = (Some (IoWaiting s' l' p), [])
    \<and> pr_wire p = [(4, frame_bytes 70 [72] [])] \<and> pr_exit p = Some 1"
proof -
  let ?xs = "[([104], 70), ([], 70), ([105], 70)] :: (u8 list \<times> u16) list"
  have r: "rd_w echo_reader = 0" "rd_r echo_reader = 0" "0 < length (rBuf echo_reader)" "length (rBuf echo_reader) < 2 ^ 32"
    "length (rBuf echo_reader) < 33" "\<forall>(d, r)\<in>set ?xs. 12 + length d \<le> length (rBuf echo_reader)"
    by (simp_all add: echo_reader_def)
  have c: "unat 0 < length (cl_sessions echo_subscriber)" "cl_sessions echo_subscriber ! unat 0 = Some 4" by (simp_all add: echo_subscriber_def)
  have "proto_answers (\<lambda>d. if d = [] then None else Some d) id 4 ?xs = [(4 :: nat, frame_bytes 70 [72] [])]"
    by (simp add: proto_answers_def ToUpper_def upper_byte_def)
  then show ?thesis
    using bad_request_ends_server [where h = NewHandler and s = echo_reader and xs = ?xs and sizes = "replicate 38 1" and n = 1 and se = echo_session
        and unmarshal = "\<lambda>d. if d = [] then None else Some d" and uni = id and lim = "\<lambda>n l. l" and l = "()", OF c echo_setup(9) r]
    by (auto simp: call_frame_def)
qed

end
