(* ===== verification/SerialReject.thy ===== *)
theory SerialReject
  imports Node
begin

text \<open>
  \<open>serial.go\<close>: the errors of what a serial sends. \<open>Notify\<close>, \<open>Call\<close> and \<open>Publish\<close> of a serial wrap the reject function: an error, from
  whichever goroutine, goes through a channel to the goroutine of \<open>Run\<close>, which alone calls the function.
\<close>

section \<open>Model\<close>

text \<open>\<open>errAndFunc\<close>; the function answers false when it panics.\<close>

datatype 'w errAndFunc = ErrAndFunc node_error "node_error \<Rightarrow> 'w \<Rightarrow> bool \<times> 'w"

text \<open>
  \<open>rq_chan\<close> is the buffer of \<open>rejectFuncChan\<close>, \<open>rq_waiting\<close> are the goroutines whose sends wait for room: \<^const>\<open>True\<close> is that of
  \<open>Run\<close> itself. \<open>rq_ended\<close>: \<open>Run\<close> has recovered from a panic.
\<close>

record 'w rejects =
  rq_serial :: "'w Serial"
  rq_world :: 'w
  rq_chan :: "'w errAndFunc list"
  rq_waiting :: "(bool \<times> 'w errAndFunc) list"
  rq_ended :: bool

definition reject_cap :: nat where "reject_cap = 1024"

definition new_rejects :: "'w Serial \<Rightarrow> 'w \<Rightarrow> 'w rejects" where
  "new_rejects s w = \<lparr>rq_serial = s, rq_world = w, rq_chan = [], rq_waiting = [], rq_ended = False\<rparr>"

text \<open>\<open>Run\<close> waits for itself.\<close>

definition run_stuck :: "'w rejects \<Rightarrow> bool" where
  "run_stuck q \<longleftrightarrow> True \<in> fst ` set (rq_waiting q)"

definition reject_send :: "bool \<Rightarrow> 'w errAndFunc \<Rightarrow> 'w rejects \<Rightarrow> 'w rejects" where
  "reject_send own x q =
     (if length (rq_chan q) < reject_cap then q\<lparr>rq_chan := rq_chan q @ [x]\<rparr>
      else q\<lparr>rq_waiting := rq_waiting q @ [(own, x)]\<rparr>)"

text \<open>What a goroutine that waits in a send does afterwards never happens: a stuck \<open>Run\<close> makes no further error.\<close>

definition serialRejectFuncWrapper :: "bool \<Rightarrow> (node_error \<Rightarrow> 'w \<Rightarrow> bool \<times> 'w) \<Rightarrow> node_error \<Rightarrow> 'w rejects \<Rightarrow> 'w rejects" where
  "serialRejectFuncWrapper own f err q =
     (if HasWork (sr_ring (rq_serial q)) then reject_send own (ErrAndFunc err f) q else q)"

definition serial_Notify ::
  "nat \<Rightarrow> bool \<Rightarrow> ('s, 'w rejects) write_frame \<Rightarrow> 's cluster \<Rightarrow> u16 \<Rightarrow> u8 list \<Rightarrow> (node_error \<Rightarrow> 'w \<Rightarrow> bool \<times> 'w)
    \<Rightarrow> 'w rejects \<Rightarrow> ('s cluster \<times> 'w rejects) ended option" where
  "serial_Notify fuel own wr c channel data reject q = Notify fuel wr c channel data (serialRejectFuncWrapper own reject) q"

definition serial_Call ::
  "nat \<Rightarrow> bool \<Rightarrow> ('s, 'w rejects) write_frame \<Rightarrow> 's cluster \<Rightarrow> u16 \<Rightarrow> u8 list \<Rightarrow> u16 \<Rightarrow> (node_error \<Rightarrow> 'w \<Rightarrow> bool \<times> 'w)
    \<Rightarrow> 'w rejects \<Rightarrow> ('s cluster \<times> 'w rejects) ended option" where
  "serial_Call fuel own wr c channel data resolve reject q = Call fuel wr c channel data resolve (serialRejectFuncWrapper own reject) q"

definition serial_Publish ::
  "bool \<Rightarrow> ('s, 'w rejects) write_frame \<Rightarrow> 's cluster \<Rightarrow> u16 \<Rightarrow> u8 list \<Rightarrow> (node_error \<Rightarrow> 'w \<Rightarrow> bool \<times> 'w)
    \<Rightarrow> 'w rejects \<Rightarrow> 'w rejects ended" where
  "serial_Publish own wr c channel data reject q = Publish wr c channel data (serialRejectFuncWrapper own reject) q"

text \<open>The case of \<open>rejectFuncChan\<close> in \<open>Run\<close>: a goroutine that waits puts its error into the place that becomes free.\<close>

definition chan_receive :: "'w rejects \<Rightarrow> ('w errAndFunc \<times> 'w rejects) option" where
  "chan_receive q =
     (case rq_chan q of
        [] \<Rightarrow> None
      | x # xs \<Rightarrow> Some (x, q\<lparr>rq_chan := xs @ map snd (take 1 (rq_waiting q)), rq_waiting := drop 1 (rq_waiting q)\<rparr>))"

fun reject_event :: "'w errAndFunc \<Rightarrow> 'w serial_event" where
  "reject_event (ErrAndFunc err f) = RejectFunc (f err)"

definition reject_turn :: "nat \<Rightarrow> u16 \<Rightarrow> 'w rejects \<Rightarrow> 'w rejects option" where
  "reject_turn fuel mid q =
     (if rq_ended q \<or> run_stuck q then None
      else do {
        (x, q) \<leftarrow> chan_receive q;
        case serial_turn fuel mid (rq_serial q) (rq_world q) (reject_event x) of
          Some (Looping s w) \<Rightarrow> Some (q\<lparr>rq_serial := s, rq_world := w\<rparr>)
        | Some (Recovered s w) \<Rightarrow> Some (q\<lparr>rq_serial := s, rq_world := w, rq_ended := True\<rparr>)
        | _ \<Rightarrow> None })"

text \<open>An error reaches the wrapper in \<open>Run\<close> itself, from a handler of the serial, or elsewhere, in a worker that writes frames.\<close>

datatype 'w reject_action = Fails bool "'w errAndFunc" | RejectTurn

fun reject_act :: "nat \<Rightarrow> u16 \<Rightarrow> 'w reject_action \<Rightarrow> 'w rejects \<Rightarrow> 'w rejects option" where
  "reject_act fuel mid (Fails own (ErrAndFunc err f)) q =
     (if own \<and> (rq_ended q \<or> run_stuck q) then None else Some (serialRejectFuncWrapper own f err q))"
| "reject_act fuel mid RejectTurn q = reject_turn fuel mid q"

fun reject_run :: "nat \<Rightarrow> u16 \<Rightarrow> 'w reject_action list \<Rightarrow> 'w rejects \<Rightarrow> 'w rejects option" where
  "reject_run fuel mid [] q = Some q"
| "reject_run fuel mid (a # as) q = do { q \<leftarrow> reject_act fuel mid a q; reject_run fuel mid as q }"

section \<open>Every error once, in order\<close>

fun failures :: "'w reject_action list \<Rightarrow> 'w errAndFunc list" where
  "failures [] = []"
| "failures (Fails own x # as) = x # failures as"
| "failures (RejectTurn # as) = failures as"

fun call_reject :: "'w errAndFunc \<Rightarrow> 'w \<Rightarrow> bool \<times> 'w" where
  "call_reject (ErrAndFunc err f) w = f err w"

fun call_rejects :: "'w errAndFunc list \<Rightarrow> 'w \<Rightarrow> bool \<times> 'w" where
  "call_rejects [] w = (True, w)"
| "call_rejects (x # xs) w = (let (ok, w) = call_reject x w in if ok then call_rejects xs w else (False, w))"

definition queued :: "'w rejects \<Rightarrow> 'w errAndFunc list" where
  "queued q = rq_chan q @ map snd (rq_waiting q)"

text \<open>Nobody waits while there is room.\<close>

definition rejects_ok :: "'w rejects \<Rightarrow> bool" where
  "rejects_ok q \<longleftrightarrow> length (rq_chan q) \<le> reject_cap \<and> (rq_waiting q \<noteq> [] \<longrightarrow> length (rq_chan q) = reject_cap)"

lemma send_queued: "rejects_ok q \<Longrightarrow> rejects_ok (reject_send own x q) \<and> queued (reject_send own x q) = queued q @ [x]"
  by (auto simp: rejects_ok_def reject_send_def queued_def)

lemma receive_queued:
  assumes "rejects_ok q" "chan_receive q = Some (x, q')"
  shows "rejects_ok q' \<and> queued q = x # queued q' \<and> rq_serial q' = rq_serial q \<and> rq_world q' = rq_world q \<and> rq_ended q' = rq_ended q"
proof -
  obtain xs where "rq_chan q = x # xs" "q' = q\<lparr>rq_chan := xs @ map snd (take 1 (rq_waiting q)), rq_waiting := drop 1 (rq_waiting q)\<rparr>"
    using assms(2) by (auto simp: chan_receive_def split: list.splits)
  then show ?thesis using assms(1)
    by (cases "rq_waiting q") (auto simp: rejects_ok_def queued_def)
qed

lemma reject_turn_cases:
  assumes "reject_turn fuel mid q = Some q'" "rejects_ok q"
  obtains x ok w where "queued q = x # queued q'" "call_reject x (rq_world q) = (ok, w)" "rejects_ok q'"
    "rq_world q' = w" "rq_ended q' = (\<not> ok)" "rq_serial q' = rq_serial q" "\<not> rq_ended q"
proof -
  from assms(1) obtain x p where p: "chan_receive q = Some (x, p)" "\<not> rq_ended q"
    and t: "(case serial_turn fuel mid (rq_serial p) (rq_world p) (reject_event x) of
          Some (Looping s w) \<Rightarrow> Some (p\<lparr>rq_serial := s, rq_world := w\<rparr>)
        | Some (Recovered s w) \<Rightarrow> Some (p\<lparr>rq_serial := s, rq_world := w, rq_ended := True\<rparr>)
        | _ \<Rightarrow> None) = Some q'"
    by (auto simp: reject_turn_def split: if_splits Option.bind_splits)
  note r = receive_queued [OF assms(2) p(1)]
  obtain err f where x: "x = ErrAndFunc err f" by (cases x)
  obtain ok w where f: "f err (rq_world q) = (ok, w)" by fastforce
  have "q' = (if ok then p\<lparr>rq_serial := rq_serial q, rq_world := w\<rparr> else p\<lparr>rq_serial := rq_serial q, rq_world := w, rq_ended := True\<rparr>)"
    using t r f x by (auto split: if_splits)
  then show ?thesis using that [of x ok w] r f x p(2) by (auto simp: rejects_ok_def queued_def)
qed


lemma call_rejects_snoc:
  "call_rejects (xs @ [x]) w = (let (ok, w) = call_rejects xs w in if ok then call_reject x w else (False, w))"
  by (induction xs arbitrary: w) (auto simp: Let_def split: prod.splits)

definition rejects_inv :: "'w \<Rightarrow> 'w Serial \<Rightarrow> 'w errAndFunc list \<Rightarrow> nat \<Rightarrow> 'w rejects \<Rightarrow> bool" where
  "rejects_inv w s errs turns q \<longleftrightarrow> rejects_ok q \<and> rq_serial q = s
     \<and> (\<exists>called. errs = called @ queued q \<and> call_rejects called w = (\<not> rq_ended q, rq_world q) \<and> length called = turns)"

fun turns :: "'w reject_action list \<Rightarrow> nat" where
  "turns [] = 0"
| "turns (Fails own x # as) = turns as"
| "turns (RejectTurn # as) = Suc (turns as)"

lemma rejects_inv_act:
  assumes "rejects_inv w s errs n q" "HasWork (sr_ring s)" "reject_act fuel mid a q = Some q'"
  shows "rejects_inv w s (errs @ failures [a]) (n + turns [a]) q'"
proof (cases a)
  case (Fails own x)
  obtain err f where "x = ErrAndFunc err f" by (cases x)
  then have q': "q' = reject_send own x q"
    using assms Fails by (auto simp: serialRejectFuncWrapper_def rejects_inv_def split: if_splits)
  have "rq_serial q' = rq_serial q \<and> rq_world q' = rq_world q \<and> rq_ended q' = rq_ended q" by (simp add: q' reject_send_def)
  then show ?thesis using assms(1) Fails send_queued [of q own x] q' by (auto simp: rejects_inv_def)
next
  case RejectTurn
  obtain called where c: "rejects_ok q" "errs = called @ queued q" "call_rejects called w = (\<not> rq_ended q, rq_world q)" "length called = n"
    "rq_serial q = s" using assms(1) by (auto simp: rejects_inv_def)
  have "reject_turn fuel mid q = Some q'" using assms(3) RejectTurn by simp
  then obtain x ok v where t: "queued q = x # queued q'" "call_reject x (rq_world q) = (ok, v)" "rejects_ok q'"
    "rq_world q' = v" "rq_ended q' = (\<not> ok)" "rq_serial q' = rq_serial q" "\<not> rq_ended q"
    using c(1) by (rule reject_turn_cases)
  have "call_rejects (called @ [x]) w = (\<not> rq_ended q', rq_world q')" using c(3) t by (simp add: call_rejects_snoc)
  then show ?thesis using c t RejectTurn unfolding rejects_inv_def by (auto intro!: exI [of _ "called @ [x]"])
qed

lemma rejects_inv_run:
  "rejects_inv w s errs n q \<Longrightarrow> HasWork (sr_ring s) \<Longrightarrow> reject_run fuel mid as q = Some q'
    \<Longrightarrow> rejects_inv w s (errs @ failures as) (n + turns as) q'"
proof (induction as arbitrary: q errs n)
  case (Cons a as)
  then obtain p where p: "reject_act fuel mid a q = Some p" "reject_run fuel mid as p = Some q'" by (auto split: Option.bind_splits)
  have "failures (a # as) = failures [a] @ failures as" "turns (a # as) = turns [a] + turns as" by (cases a; simp)+
  then show ?case using Cons.IH [OF rejects_inv_act [OF Cons.prems(1,2) p(1)] Cons.prems(2) p(2)] by (simp add: ac_simps)
qed simp

section \<open>A serial that waits for itself\<close>

lemma reject_send_simps [simp]:
  "rq_world (reject_send own x q) = rq_world q" "rq_serial (reject_send own x q) = rq_serial q" "rq_ended (reject_send own x q) = rq_ended q"
  by (simp_all add: reject_send_def)

lemma stuck_send: "run_stuck q \<Longrightarrow> run_stuck (reject_send own x q)"
  by (auto simp: run_stuck_def reject_send_def image_iff)

lemma stuck_act:
  assumes "run_stuck q" "reject_act fuel mid a q = Some q'"
  shows "run_stuck q' \<and> rq_world q' = rq_world q \<and> turns [a] = 0"
proof (cases a)
  case (Fails own x)
  obtain err f where "x = ErrAndFunc err f" by (cases x)
  then have "q' = q \<or> q' = reject_send own x q" using assms Fails by (auto simp: serialRejectFuncWrapper_def split: if_splits)
  then show ?thesis using assms(1) Fails stuck_send by auto
qed (use assms in \<open>simp add: reject_turn_def\<close>)

lemma stuck_run:
  "run_stuck q \<Longrightarrow> reject_run fuel mid as q = Some q' \<Longrightarrow> run_stuck q' \<and> rq_world q' = rq_world q \<and> turns as = 0"
proof (induction as arbitrary: q)
  case (Cons a as)
  then obtain p where p: "reject_act fuel mid a q = Some p" "reject_run fuel mid as p = Some q'" by (auto split: Option.bind_splits)
  have "turns (a # as) = turns [a] + turns as" by (cases a; simp)
  then show ?case using stuck_act [OF Cons.prems(1) p(1)] Cons.IH [OF _ p(2)] by simp
qed simp

text \<open>A handler of the serial that notifies one channel after the other; in a send that waits it stays.\<close>

fun notify_each ::
  "nat \<Rightarrow> ('s, 'w rejects) write_frame \<Rightarrow> 's cluster \<Rightarrow> (u16 \<times> u8 list) list \<Rightarrow> (node_error \<Rightarrow> 'w \<Rightarrow> bool \<times> 'w) \<Rightarrow> 'w rejects
    \<Rightarrow> ('s cluster \<times> 'w rejects) ended option" where
  "notify_each fuel wr c [] reject q = Some (Ended (c, q))"
| "notify_each fuel wr c ((ch, d) # xs) reject q =
     (if run_stuck q then Some (Ended (c, q))
      else case serial_Notify fuel True wr c ch d reject q of
          Some (Ended (c, q)) \<Rightarrow> notify_each fuel wr c xs reject q
        | res \<Rightarrow> res)"

lemma notify_no_channel:
  assumes "cl_channels c ch = None" "HasWork (sr_ring (rq_serial q))"
  shows "serial_Notify fuel True wr c ch d reject q
    = Some (Ended (c, reject_send True (ErrAndFunc (NodeSend (AskOneNoChannel ch)) reject) q))"
  using assms by (simp add: serial_Notify_def Notify_def NewFrameSlice_bytes AskOne_def serialRejectFuncWrapper_def)

lemma notify_each_no_channel:
  assumes "\<forall>x\<in>set xs. cl_channels c (fst x) = None" "HasWork (sr_ring (rq_serial q))" "rq_waiting q = []" "length (rq_chan q) \<le> reject_cap"
  shows "\<exists>q'. notify_each fuel wr c xs reject q = Some (Ended (c, q')) \<and> (run_stuck q' \<longleftrightarrow> reject_cap < length (rq_chan q) + length xs)
    \<and> rq_world q' = rq_world q"
  using assms
proof (induction xs arbitrary: q)
  case (Cons x xs)
  obtain ch d where x: "x = (ch, d)" by (cases x)
  let ?q = "reject_send True (ErrAndFunc (NodeSend (AskOneNoChannel ch)) reject) q"
  have step: "notify_each fuel wr c (x # xs) reject q = notify_each fuel wr c xs reject ?q"
    using notify_no_channel [of c ch q fuel wr d reject] Cons.prems x by (simp add: run_stuck_def)
  show ?case
  proof (cases "length (rq_chan q) < reject_cap")
    case True
    then have "rq_waiting ?q = []" "length (rq_chan ?q) = Suc (length (rq_chan q))" using Cons.prems(3) by (simp_all add: reject_send_def)
    then show ?thesis using Cons.IH [of ?q] Cons.prems True step by simp
  next
    case False
    then have stuck: "run_stuck ?q" by (simp add: reject_send_def run_stuck_def)
    then have "notify_each fuel wr c xs reject ?q = Some (Ended (c, ?q))" by (cases xs) auto
    then show ?thesis using stuck step False by simp
  qed
qed (simp add: run_stuck_def)

section \<open>Properties\<close>

text \<open>C23: every error of a working serial is told once and in order: of the errors that its senders and its own handlers have met,
  in the order in which they met them, \<open>Run\<close> has called the functions of the first ones, one per turn and each
  with its own error, and the others wait in the channel or in a send, as long as no function has panicked.\<close>

theorem errors_in_order:
  assumes "HasWork (sr_ring s)" "reject_run fuel mid as (new_rejects s w) = Some q"
  shows "\<exists>called. failures as = called @ rq_chan q @ map snd (rq_waiting q) \<and> length called = turns as
    \<and> call_rejects called w = (\<not> rq_ended q, rq_world q) \<and> length (rq_chan q) \<le> 1024 \<and> (rq_waiting q \<noteq> [] \<longrightarrow> length (rq_chan q) = 1024)"
proof -
  have "rejects_inv w s [] 0 (new_rejects s w)"
    by (auto simp: rejects_inv_def rejects_ok_def new_rejects_def queued_def)
  from rejects_inv_run [OF this assms] show ?thesis by (auto simp: rejects_inv_def rejects_ok_def queued_def reject_cap_def)
qed

definition working_serial :: "nat list Serial" where
  "working_serial = \<lparr>sr_ring = \<lparr>ringBufferShift = 0, ringBufferSize = 1, rbState = StateWork, ring = [], submitRing = [], askCursor = 0, availableCursor = 0\<rparr>,
     channelMap = {}, sr_bags = [], bag_heap = [], globalContextMQHandler = Map.empty\<rparr>"

definition note_error :: "nat \<Rightarrow> node_error \<Rightarrow> nat list \<Rightarrow> bool \<times> nat list" where
  "note_error k e w = (True, w @ [k])"

lemma errors_in_order_witness:
  "\<exists>q. reject_run 1 0 [Fails True (ErrAndFunc ReplyNoEx (note_error 1)), Fails False (ErrAndFunc ReplyBadEx (note_error 2)), RejectTurn]
      (new_rejects working_serial []) = Some q \<and> rq_chan q = [ErrAndFunc ReplyBadEx (note_error 2)] \<and> rq_world q = [1]"
proof -
  let ?as = "[Fails True (ErrAndFunc ReplyNoEx (note_error 1)), Fails False (ErrAndFunc ReplyBadEx (note_error 2)), RejectTurn]"
  have w: "HasWork (sr_ring working_serial)" by (simp add: working_serial_def HasWork_def)
  obtain q where q: "reject_run 1 0 ?as (new_rejects working_serial []) = Some q" "rq_waiting q = []"
    using w by (simp add: serialRejectFuncWrapper_def reject_send_def new_rejects_def reject_turn_def run_stuck_def chan_receive_def
        note_error_def reject_cap_def)
  from errors_in_order [OF w q(1)] obtain called where c:
    "failures ?as = called @ rq_chan q @ map snd (rq_waiting q)" "length called = turns ?as" "call_rejects called [] = (\<not> rq_ended q, rq_world q)"
    by blast
  then obtain x where x: "called = [x]" by (auto simp: length_Suc_conv)
  show ?thesis using q c(1,3) by (intro exI [of _ q]) (auto simp: x note_error_def)
qed

text \<open>C36: a serial can wait for itself for ever: a handler of the serial that notifies more channels without a subscriber than the
  error channel has room for, 1024 less what is queued, blocks \<open>Run\<close> in its own send, and exactly then;
  whatever happens afterwards, \<open>Run\<close> makes no turn and calls no function any more.\<close>

theorem serial_waits_for_itself:
  assumes "\<forall>x\<in>set xs. cl_channels c (fst x) = None" "HasWork (sr_ring (rq_serial q))" "rq_waiting q = []" "length (rq_chan q) \<le> 1024"
  shows "\<exists>q'. notify_each fuel wr c xs reject q = Some (Ended (c, q')) \<and> (run_stuck q' \<longleftrightarrow> 1024 < length (rq_chan q) + length xs)
    \<and> (run_stuck q' \<longrightarrow> (\<forall>fuel mid as q''. reject_run fuel mid as q' = Some q'' \<longrightarrow> turns as = 0 \<and> rq_world q'' = rq_world q \<and> run_stuck q''))"
proof -
  obtain q' where "notify_each fuel wr c xs reject q = Some (Ended (c, q'))" "run_stuck q' \<longleftrightarrow> reject_cap < length (rq_chan q) + length xs"
    "rq_world q' = rq_world q"
    using notify_each_no_channel [of xs c q fuel wr reject] assms by (auto simp: reject_cap_def)
  then show ?thesis using stuck_run by (fastforce simp: reject_cap_def)
qed

lemma serial_waits_for_itself_witness:
  "\<exists>q'. notify_each 1 (\<lambda>m fs e q. (None, q)) \<lparr>cl_sessions = [], cl_channels = Map.empty, machineID = 0, cl_state = StateWork\<rparr>
      (replicate 1025 (51, [])) (note_error 1) (new_rejects working_serial []) = Some (Ended
        (\<lparr>cl_sessions = ([] :: nat option list), cl_channels = Map.empty, machineID = 0, cl_state = StateWork\<rparr>, q')) \<and> run_stuck q'"
proof -
  have "HasWork (sr_ring (rq_serial (new_rejects working_serial [])))" by (simp add: working_serial_def HasWork_def new_rejects_def)
  then show ?thesis
    using serial_waits_for_itself [of "replicate 1025 (51, [])" "\<lparr>cl_sessions = ([] :: nat option list), cl_channels = Map.empty, machineID = 0, cl_state = StateWork\<rparr>"
        "new_rejects working_serial []" 1 "\<lambda>m fs e q. (None, q)" "note_error 1"] by (auto simp: new_rejects_def)
qed

text \<open>Once the serial is told to die, errors are dropped: the reject functions are not called.\<close>

lemma errors_after_death: "\<not> HasWork (sr_ring (rq_serial q)) \<Longrightarrow> serialRejectFuncWrapper own f err q = q"
  by (simp add: serialRejectFuncWrapper_def)

end
