(* ===== verification/SerialEnd.thy ===== *)
theory SerialEnd
  imports SerialSpec
begin

text \<open>
  \<open>serial.go\<close>: a serial from the start of \<open>Run\<close> to the release of its memory, with the sessions that write to its ring, any number
  of calls of \<open>Close\<close>, the end of the context and the channel to the cluster on which the subscriptions are cancelled.
\<close>

section \<open>Steps\<close>

text \<open>\<open>Close\<close> is about to set the state; sleeps; has returned.\<close>

datatype close_pc = CloseMarks | CloseSleeps | CloseReturned

text \<open>
  \<open>Run\<close> has not started; is at the \<open>select\<close>; is in \<open>Close\<close>, at the end of the context; has these channels still to cancel; is
  before its last task; has returned; has ended with a panic.
\<close>

datatype serial_pc = SerialNew | SerialSelects | SerialCloses close_pc | SerialCancels "u16 set" | SerialLast | SerialReturned | SerialCrashed

text \<open>
  \<open>sl_stop\<close>: \<open>stopChan\<close> is closed; \<open>sl_chan\<close>: the buffer of the channel to the cluster, of which \<open>sl_cluster\<close> says that it
  still reads; \<open>sl_accepted\<close> and \<open>sl_early\<close> are for the specification: the frames stored with a nil error, and that a
  \<open>Close\<close> has come before \<open>Run\<close>.
\<close>

record 'w serial_life =
  sl_serial :: "'w Serial"
  sl_world :: 'w
  sl_run :: serial_pc
  sl_closers :: "close_pc list"
  sl_once :: bool
  sl_stop :: bool
  sl_ctx :: bool
  sl_chan :: "channelMsg list"
  sl_cluster :: bool
  sl_released :: bool
  sl_accepted :: "u8 list list"
  sl_early :: bool

definition ChannelChan_cap :: nat where "ChannelChan_cap = 128"

definition new_life :: "'w Serial \<Rightarrow> 'w \<Rightarrow> 'w serial_life" where
  "new_life s w = \<lparr>sl_serial = s, sl_world = w, sl_run = SerialNew, sl_closers = [], sl_once = False, sl_stop = False, sl_ctx = False,
     sl_chan = [], sl_cluster = True, sl_released = False, sl_accepted = [], sl_early = False\<rparr>"

text \<open>The two steps of \<open>Close\<close> around its sleep.\<close>

definition close_mark :: "'w serial_life \<Rightarrow> 'w serial_life" where
  "close_mark l = l\<lparr>sl_serial := (sl_serial l)\<lparr>sr_ring := SetState (sr_ring (sl_serial l)) StateDie\<rparr>, sl_early := (sl_early l \<or> sl_run l = SerialNew)\<rparr>"

definition close_stop :: "'w serial_life \<Rightarrow> 'w serial_life" where
  "close_stop l = (if sl_once l then l else l\<lparr>sl_once := True, sl_stop := True\<rparr>)"

fun serial_Close :: "close_pc \<Rightarrow> 'w serial_life \<Rightarrow> (close_pc \<times> 'w serial_life) option" where
  "serial_Close CloseMarks l = Some (CloseSleeps, close_mark l)"
| "serial_Close CloseSleeps l = Some (CloseReturned, close_stop l)"
| "serial_Close CloseReturned l = None"

text \<open>A frame for the serial, in the goroutine of a session.\<close>

definition deliver_frame :: "FrameSlice \<Rightarrow> 'w serial_life \<Rightarrow> 'w serial_life option" where
  "deliver_frame fs l = do {
     (e, s) \<leftarrow> serialProcessWrapper fs (sl_serial l);
     Some (l\<lparr>sl_serial := s, sl_accepted := sl_accepted l @ (if HasWork (sr_ring (sl_serial l)) \<and> e = None then [elems (GetAll fs)] else [])\<rparr>) }"

text \<open>A send to the cluster waits for room.\<close>

definition send_channel :: "channelMsg \<Rightarrow> 'w serial_life \<Rightarrow> 'w serial_life option" where
  "send_channel m l = (if length (sl_chan l) < ChannelChan_cap then Some (l\<lparr>sl_chan := sl_chan l @ [m]\<rparr>) else None)"

text \<open>A case of the \<open>select\<close> that stays in the loop, or panics.\<close>

definition select_turn :: "nat \<Rightarrow> u16 \<Rightarrow> 'w serial_event \<Rightarrow> 'w serial_life \<Rightarrow> 'w serial_life option" where
  "select_turn fuel mid e l =
     (case serial_turn fuel mid (sl_serial l) (sl_world l) e of
        Some (Looping s w) \<Rightarrow> Some (l\<lparr>sl_serial := s, sl_world := w\<rparr>)
      | Some (Recovered s w) \<Rightarrow> Some (l\<lparr>sl_serial := s, sl_world := w, sl_run := SerialCrashed\<rparr>)
      | _ \<Rightarrow> None)"

text \<open>
  \<open>Run\<close>. The event is the case that \<open>select\<close> takes; the channel is the one that the loop over \<open>channelMap\<close> comes to next, in any
  order.
\<close>

fun run_serial :: "nat \<Rightarrow> u16 \<Rightarrow> 'w serial_event \<Rightarrow> u16 \<Rightarrow> 'w serial_life \<Rightarrow> 'w serial_life option" where
  "run_serial fuel mid e k l =
     (case sl_run l of
        SerialNew \<Rightarrow> Some (l\<lparr>sl_serial := (sl_serial l)\<lparr>sr_ring := SetState (sr_ring (sl_serial l)) StateWork\<rparr>, sl_run := SerialSelects\<rparr>)
      | SerialSelects \<Rightarrow>
          (case e of
             CtxDone \<Rightarrow> if sl_ctx l then Some (l\<lparr>sl_run := SerialCloses CloseMarks\<rparr>) else None
           | StopMsg \<Rightarrow> if sl_stop l then Some (l\<lparr>sl_run := SerialCancels (channelMap (sl_serial l))\<rparr>) else None
           | _ \<Rightarrow> select_turn fuel mid e l)
      | SerialCloses c \<Rightarrow>
          (case serial_Close c l of None \<Rightarrow> Some (l\<lparr>sl_run := SerialSelects\<rparr>) | Some (c, l) \<Rightarrow> Some (l\<lparr>sl_run := SerialCloses c\<rparr>))
      | SerialCancels ks \<Rightarrow>
          (if ks = {} then Some (l\<lparr>sl_run := SerialLast\<rparr>)
           else if k \<in> ks then map_option (sl_run_update (\<lambda>_. SerialCancels (ks - {k}))) (send_channel (Unsubscribe_msg mid k) l)
           else None)
      | SerialLast \<Rightarrow>
          (case serial_assignmentTask fuel (sl_serial l) (sl_world l) of
             Some (TaskDone s w) \<Rightarrow> Some (l\<lparr>sl_serial := s, sl_world := w, sl_run := SerialReturned\<rparr>)
           | Some (TaskPanic s w) \<Rightarrow> Some (l\<lparr>sl_serial := s, sl_world := w, sl_run := SerialCrashed\<rparr>)
           | None \<Rightarrow> None)
      | _ \<Rightarrow> None)"

text \<open>The function that the timer runs five minutes after \<open>Run\<close> has returned.\<close>

definition serial_release :: "'w serial_life \<Rightarrow> 'w serial_life option" where
  "serial_release l =
     (if sl_run l = SerialReturned \<and> \<not> sl_released l
      then Some (l\<lparr>sl_serial := (sl_serial l)\<lparr>channelMap := {}, sr_ring := ReleaseRingBuffer (sr_ring (sl_serial l)), sr_bags := []\<rparr>, sl_released := True\<rparr>)
      else None)"

datatype 'w life_action =
    Delivers FrameSlice | RunSerial "'w serial_event" u16 | CallsClose | CloserGoes nat | ContextEnds | OtherSends channelMsg
  | ClusterReads | ClusterEnds | Releases

fun life_act :: "nat \<Rightarrow> u16 \<Rightarrow> 'w life_action \<Rightarrow> 'w serial_life \<Rightarrow> 'w serial_life option" where
  "life_act fuel mid (Delivers fs) l = deliver_frame fs l"
| "life_act fuel mid (RunSerial e k) l = run_serial fuel mid e k l"
| "life_act fuel mid CallsClose l = Some (l\<lparr>sl_closers := sl_closers l @ [CloseMarks]\<rparr>)"
| "life_act fuel mid (CloserGoes i) l =
     (if i < length (sl_closers l)
      then map_option (\<lambda>(c, l). l\<lparr>sl_closers := (sl_closers l)[i := c]\<rparr>) (serial_Close (sl_closers l ! i) l) else None)"
| "life_act fuel mid ContextEnds l = Some (l\<lparr>sl_ctx := True\<rparr>)"
| "life_act fuel mid (OtherSends m) l = send_channel m l"
| "life_act fuel mid ClusterReads l = (if sl_cluster l \<and> sl_chan l \<noteq> [] then Some (l\<lparr>sl_chan := tl (sl_chan l)\<rparr>) else None)"
| "life_act fuel mid ClusterEnds l = Some (l\<lparr>sl_cluster := False\<rparr>)"
| "life_act fuel mid Releases l = serial_release l"

fun life_acts :: "nat \<Rightarrow> u16 \<Rightarrow> 'w life_action list \<Rightarrow> 'w serial_life \<Rightarrow> 'w serial_life option" where
  "life_acts fuel mid [] l = Some l"
| "life_acts fuel mid (a # as) l = do { l \<leftarrow> life_act fuel mid a l; life_acts fuel mid as l }"

text \<open>
  The steps with frames that a user's function serves (\<^const>\<open>serves\<close>), fewer than 2^64 bytes in all, and with more fuel than the ring has
  bytes, which is enough for every task. What the reject functions do is left to \<open>SerialReject\<close>.
\<close>

fun served_act :: "(u8 list \<Rightarrow> 'w \<Rightarrow> 'w) \<Rightarrow> nat \<Rightarrow> 'w serial_life \<Rightarrow> 'w life_action \<Rightarrow> bool" where
  "served_act eff fuel l (Delivers fs) =
     (serves (sl_serial l) eff (elems (GetAll fs)) \<and> unat (askCursor (sr_ring (sl_serial l))) + length (elems (GetAll fs)) < 2 ^ 64)"
| "served_act eff fuel l (RunSerial (RejectFunc f) k) = False"
| "served_act eff fuel l (RunSerial e k) = (length (ring (sr_ring (sl_serial l))) < fuel)"
| "served_act eff fuel l a = True"

inductive life_step :: "(u8 list \<Rightarrow> 'w \<Rightarrow> 'w) \<Rightarrow> u16 \<Rightarrow> 'w serial_life \<Rightarrow> 'w serial_life \<Rightarrow> bool" for eff mid where
  "life_act fuel mid a l = Some l' \<Longrightarrow> served_act eff fuel l a \<Longrightarrow> life_step eff mid l l'"

inductive_cases life_stepE: "life_step eff mid l l'"

section \<open>A task in any state\<close>

text \<open>The loop over the ring does not look at the state.\<close>

lemma getBytes_state [simp]: "getBytes (r\<lparr>rbState := x\<rparr>) = getBytes r"
  by (simp add: getBytes_def fun_eq_iff Let_def)

lemma state_update [simp]:
  "ReadFromRingBuffer (SetState r x) = ReadFromRingBuffer r"
  "SetAvailableCursor (SetState r x) v = map_option (\<lambda>r. SetState r x) (SetAvailableCursor r v)"
  "ring_inv (SetState r x) = ring_inv r" "ring (SetState r x) = ring r" "askCursor (SetState r x) = askCursor r" "rbState (SetState r x) = x"
  "SetState (SetState r y) x = SetState r x" "SetState r (rbState r) = r"
  by (auto simp: SetState_def ReadFromRingBuffer_def SetAvailableCursor_def arr_set_def ring_inv_def ring_sized_def fun_eq_iff Let_def
      split: option.splits cong: if_cong)

fun end_state :: "u32 \<Rightarrow> 'w task_end \<Rightarrow> 'w task_end" where
  "end_state x (TaskDone s w) = TaskDone (s\<lparr>sr_ring := SetState (sr_ring s) x\<rparr>) w"
| "end_state x (TaskPanic s w) = TaskPanic (s\<lparr>sr_ring := SetState (sr_ring s) x\<rparr>) w"

lemma drain_ring_state: "drain_ring n (s\<lparr>sr_ring := SetState (sr_ring s) x\<rparr>) w = map_option (end_state x) (drain_ring n s w)"
proof (induction n arbitrary: s w)
  case (Suc n)
  have "drain_ring n (s\<lparr>bag_heap := heap, sr_ring := SetState r x\<rparr>) w = map_option (end_state x) (drain_ring n (s\<lparr>bag_heap := heap, sr_ring := r\<rparr>) w)"
    for heap r w using Suc.IH [of "s\<lparr>bag_heap := heap, sr_ring := r\<rparr>" w] by simp
  then show ?case by (simp add: Let_def split: option.split prod.split)
qed simp

lemma serves_handlers: "globalContextMQHandler s = globalContextMQHandler s' \<Longrightarrow> serves s = serves s'"
  by (simp add: serves_def fun_eq_iff)

text \<open>So a task handles what is in the ring also when the serial has been told to die.\<close>

lemma task_in_any_state:
  assumes "ring_inv (sr_ring s) fs" "list_all (serves s eff) fs" "sr_bags s = []" "length fs < fuel"
  shows "\<exists>r. serial_assignmentTask fuel s w = Some (TaskDone (s\<lparr>sr_ring := r\<rparr>) (fold eff fs w)) \<and> ring_inv r [] \<and> rbState r = rbState (sr_ring s)"
proof -
  define t where "t = s\<lparr>sr_ring := SetState (sr_ring s) StateWork\<rparr>"
  have t: "ring_holds (sr_ring t) fs" "list_all (serves t eff) fs" using assms(1,2) serves_handlers [of t s]
    by (simp_all add: t_def ring_holds_def HasWork_def)
  obtain r where r: "drain_ring fuel t w = Some (TaskDone (t\<lparr>sr_ring := r\<rparr>) (fold eff fs w))" "ring_holds r []"
    using drain_ring_in_order [OF t assms(4)] by blast
  have "drain_ring fuel s w = Some (TaskDone (s\<lparr>sr_ring := SetState r (rbState (sr_ring s))\<rparr>) (fold eff fs w))"
    using drain_ring_state [of fuel t "rbState (sr_ring s)" w] r(1) by (simp add: t_def)
  then show ?thesis using assms(3) r(2)
    by (intro exI [of _ "SetState r (rbState (sr_ring s))"]) (simp add: serial_assignmentTask_def ring_holds_def)
qed

lemma frame_valid: "wf_frame f \<Longrightarrow> valid_msg f"
  by (simp add: wf_frame_iff valid_msg_def)

section \<open>Invariant\<close>

text \<open>The frames accepted are those handled, in order, and those still in the ring.\<close>

definition frames_split :: "(u8 list \<Rightarrow> 'w \<Rightarrow> 'w) \<Rightarrow> 'w \<Rightarrow> 'w serial_life \<Rightarrow> u8 list list \<Rightarrow> u8 list list \<Rightarrow> bool" where
  "frames_split eff w l handled pending \<longleftrightarrow> sl_accepted l = handled @ pending \<and> sl_world l = fold eff handled w
     \<and> list_all (serves (sl_serial l) eff) pending \<and> (sl_released l \<or> ring_inv (sr_ring (sl_serial l)) pending)
     \<and> (sl_early l \<or> sl_run l \<noteq> SerialReturned \<or> pending = []) \<and> sr_bags (sl_serial l) = [] \<and> sl_run l \<noteq> SerialCrashed"

definition frames_inv :: "(u8 list \<Rightarrow> 'w \<Rightarrow> 'w) \<Rightarrow> 'w \<Rightarrow> 'w serial_life \<Rightarrow> bool" where
  "frames_inv eff w l \<longleftrightarrow> (\<exists>handled pending. frames_split eff w l handled pending)"

text \<open>\<open>Run\<close> has left the loop.\<close>

fun left :: "serial_pc \<Rightarrow> bool" where
  "left (SerialCancels ks) = True" | "left SerialLast = True" | "left SerialReturned = True" | "left p = False"

text \<open>A \<open>Close\<close> has set the state.\<close>

definition marked :: "'w serial_life \<Rightarrow> bool" where
  "marked l \<longleftrightarrow> sl_stop l \<or> (\<exists>c\<in>set (sl_closers l). c \<noteq> CloseMarks) \<or> (\<exists>c. sl_run l = SerialCloses c \<and> c \<noteq> CloseMarks) \<or> left (sl_run l)"

definition control_inv :: "'w serial_life \<Rightarrow> bool" where
  "control_inv l \<longleftrightarrow> (\<not> sl_early l \<longrightarrow> (sl_run l = SerialNew \<longrightarrow> \<not> marked l) \<and> (marked l \<longrightarrow> rbState (sr_ring (sl_serial l)) = StateDie))
     \<and> (sl_released l \<longrightarrow> sl_run l = SerialReturned \<and> rbState (sr_ring (sl_serial l)) = StateDie)
     \<and> (left (sl_run l) \<longrightarrow> sl_stop l) \<and> sl_stop l = sl_once l"

lemma die_not_work: "rbState r = StateDie \<Longrightarrow> \<not> HasWork r"
  by (simp add: HasWork_def StateDie_def StateWork_def)

lemma deliver_cases:
  assumes "deliver_frame fs l = Some l'" "served_act eff fuel l (Delivers fs)" "frames_inv eff w l" "\<not> sl_released l"
  obtains "l' = l" | r where "l' = l\<lparr>sl_serial := (sl_serial l)\<lparr>sr_ring := r\<rparr>, sl_accepted := sl_accepted l @ [elems (GetAll fs)]\<rparr>"
    "HasWork (sr_ring (sl_serial l))" "HasWork r" "\<And>pending. ring_inv (sr_ring (sl_serial l)) pending \<Longrightarrow> ring_inv r (pending @ [elems (GetAll fs)])"
proof (cases "HasWork (sr_ring (sl_serial l))")
  case False
  then show ?thesis using assms(1) that(1) by (simp add: deliver_frame_def serialProcessWrapper_def)
next
  case True
  obtain fs0 where inv: "ring_inv (sr_ring (sl_serial l)) fs0" using assms(3,4) by (auto simp: frames_inv_def frames_split_def)
  have v: "valid_msg (elems (GetAll fs))" using assms(2) frame_valid by (auto simp: serves_def)
  show ?thesis
  proof (cases "length (concat fs0) + length (elems (GetAll fs)) < length (ring (sr_ring (sl_serial l)))")
    case room: True
    obtain r where r: "WriteToRingBuffer (sr_ring (sl_serial l)) (elems (GetAll fs)) = Some (None, r)"
      using write_appends [OF True inv v room] assms(2) by auto
    have same: "length (concat p) = length (concat fs0)" if "ring_inv (sr_ring (sl_serial l)) p" for p
      using ring_invD(3) [OF that] ring_invD(3) [OF inv] by simp
    show ?thesis
    proof (rule that(2) [of r])
      show "l' = l\<lparr>sl_serial := (sl_serial l)\<lparr>sr_ring := r\<rparr>, sl_accepted := sl_accepted l @ [elems (GetAll fs)]\<rparr>"
        using assms(1) True r by (simp add: deliver_frame_def serialProcessWrapper_def)
      show "HasWork r" using write_appends [OF True inv v room] assms(2) r by auto
      show "ring_inv r (p @ [elems (GetAll fs)])" if "ring_inv (sr_ring (sl_serial l)) p" for p
        using write_appends [OF True that v] room same [OF that] assms(2) r by auto
    qed (rule True)
  next
    case False
    then show ?thesis using write_overflow [OF True inv v] assms(1) that(1) True by (simp add: deliver_frame_def serialProcessWrapper_def)
  qed
qed

lemma pending_length: "ring_inv r fs \<Longrightarrow> length fs \<le> length (ring r)"
proof -
  assume inv: "ring_inv r fs"
  have "list_all valid_msg fs \<Longrightarrow> length fs \<le> length (concat fs)" by (induction fs) (auto simp: valid_msg_def)
  then show ?thesis using ring_invD(2,4) [OF inv] by linarith
qed

text \<open>A task of \<open>Run\<close>, with the frames it handles.\<close>

lemma task_frames:
  assumes "frames_inv eff w l" "\<not> sl_released l" "length (ring (sr_ring (sl_serial l))) < fuel"
  obtains r w' where "serial_assignmentTask fuel (sl_serial l) (sl_world l) = Some (TaskDone ((sl_serial l)\<lparr>sr_ring := r\<rparr>) w')"
    "rbState r = rbState (sr_ring (sl_serial l))" "ring_inv r []" "w' = fold eff (sl_accepted l) w"
proof -
  obtain handled pending where p: "sl_accepted l = handled @ pending" "sl_world l = fold eff handled w"
    "list_all (serves (sl_serial l) eff) pending" "ring_inv (sr_ring (sl_serial l)) pending" "sr_bags (sl_serial l) = []"
    using assms(1,2) by (auto simp: frames_inv_def frames_split_def)
  show ?thesis using task_in_any_state [OF p(4,3,5), of fuel "sl_world l"] pending_length [OF p(4)] assms(3) p(1,2) that by auto
qed

text \<open>What touches neither the frames nor the handlers.\<close>

lemma frames_cong:
  assumes "frames_inv eff w l" "sl_accepted l' = sl_accepted l" "sl_world l' = sl_world l" "sl_released l' = sl_released l"
    and "globalContextMQHandler (sl_serial l') = globalContextMQHandler (sl_serial l)" "sr_bags (sl_serial l') = sr_bags (sl_serial l)"
    and "ring_inv (sr_ring (sl_serial l')) = ring_inv (sr_ring (sl_serial l))"
    and "sl_run l' \<noteq> SerialCrashed" "sl_run l' = SerialReturned \<Longrightarrow> sl_run l = SerialReturned" "sl_early l \<Longrightarrow> sl_early l'"
  shows "frames_inv eff w l'"
proof -
  obtain handled pending where "frames_split eff w l handled pending" using assms(1) by (auto simp: frames_inv_def)
  then have "frames_split eff w l' handled pending"
    using assms(2-10) serves_handlers [OF assms(5)] unfolding frames_split_def by metis
  then show ?thesis by (auto simp: frames_inv_def)
qed

lemma frames_task:
  assumes "frames_inv eff w l" "ring_inv r []" "w' = fold eff (sl_accepted l) w" "p \<noteq> SerialCrashed"
  shows "frames_inv eff w (l\<lparr>sl_serial := (sl_serial l)\<lparr>sr_ring := r\<rparr>, sl_world := w', sl_run := p\<rparr>)"
proof -
  have "frames_split eff w (l\<lparr>sl_serial := (sl_serial l)\<lparr>sr_ring := r\<rparr>, sl_world := w', sl_run := p\<rparr>) (sl_accepted l) []"
    using assms by (auto simp: frames_inv_def frames_split_def)
  then show ?thesis by (auto simp: frames_inv_def)
qed

lemma frames_delivered:
  assumes "frames_inv eff w l" "serves (sl_serial l) eff f" "\<not> sl_released l" "sl_run l = SerialReturned \<Longrightarrow> sl_early l"
    and "\<And>pending. ring_inv (sr_ring (sl_serial l)) pending \<Longrightarrow> ring_inv r (pending @ [f])"
  shows "frames_inv eff w (l\<lparr>sl_serial := (sl_serial l)\<lparr>sr_ring := r\<rparr>, sl_accepted := sl_accepted l @ [f]\<rparr>)"
proof -
  obtain handled pending where h: "frames_split eff w l handled pending" using assms(1) by (auto simp: frames_inv_def)
  moreover have "serves ((sl_serial l)\<lparr>sr_ring := r\<rparr>) eff = serves (sl_serial l) eff"
    by (simp add: serves_handlers [of "(sl_serial l)\<lparr>sr_ring := r\<rparr>" "sl_serial l"])
  moreover have "ring_inv r (pending @ [f])" using assms(3,5) h by (auto simp: frames_split_def)
  ultimately have "frames_split eff w (l\<lparr>sl_serial := (sl_serial l)\<lparr>sr_ring := r\<rparr>, sl_accepted := sl_accepted l @ [f]\<rparr>) handled (pending @ [f])"
    using assms(2,4) by (auto simp: frames_split_def)
  then show ?thesis by (auto simp: frames_inv_def)
qed

lemma frames_not_crashed: "frames_inv eff w l \<Longrightarrow> sl_run l \<noteq> SerialCrashed"
  by (auto simp: frames_inv_def frames_split_def)

lemma frames_mark: "frames_inv eff w l \<Longrightarrow> frames_inv eff w (close_mark l)"
  by (frule frames_not_crashed, erule frames_cong) (simp_all add: close_mark_def)

lemma frames_stop: "frames_inv eff w l \<Longrightarrow> frames_inv eff w (close_stop l)"
  by (frule frames_not_crashed, erule frames_cong) (simp_all add: close_stop_def split: if_splits)

lemma deliver_inv:
  assumes "deliver_frame fs l = Some l'" "served_act eff fuel l (Delivers fs)" "frames_inv eff w l" "control_inv l"
  shows "frames_inv eff w l' \<and> control_inv l'"
proof (cases "sl_released l")
  case True
  then have "\<not> HasWork (sr_ring (sl_serial l))" using assms(4) by (simp add: control_inv_def die_not_work)
  then have "l' = l" using assms(1) by (simp add: deliver_frame_def serialProcessWrapper_def)
  then show ?thesis using assms(3,4) by simp
next
  case False
  show ?thesis
  proof (rule deliver_cases [OF assms(1-3) False])
    fix r assume r: "l' = l\<lparr>sl_serial := (sl_serial l)\<lparr>sr_ring := r\<rparr>, sl_accepted := sl_accepted l @ [elems (GetAll fs)]\<rparr>"
      "HasWork (sr_ring (sl_serial l))" "\<And>pending. ring_inv (sr_ring (sl_serial l)) pending \<Longrightarrow> ring_inv r (pending @ [elems (GetAll fs)])"
    then have early: "marked l \<Longrightarrow> sl_early l" using assms(4) die_not_work by (auto simp: control_inv_def)
    then have "frames_inv eff w l'" unfolding r(1)
      by (intro frames_delivered [OF assms(3) _ False _ r(3)]) (use assms(2) in \<open>auto simp: marked_def\<close>)
    moreover have "marked l' = marked l" by (simp add: r(1) marked_def)
    then have "control_inv l'" using assms(4) early False by (auto simp: r(1) control_inv_def)
    ultimately show ?thesis ..
  qed (use assms(3,4) in simp)
qed

lemma control_mark:
  assumes "control_inv l"
  shows "control_inv (close_mark l)" "rbState (sr_ring (sl_serial (close_mark l))) = StateDie" "sl_run l = SerialNew \<Longrightarrow> sl_early (close_mark l)"
  using assms by (auto simp: control_inv_def marked_def close_mark_def)

lemma closer_inv:
  assumes "i < length (sl_closers l)" "serial_Close (sl_closers l ! i) l = Some (c, l1)" "frames_inv eff w l" "control_inv l"
  shows "frames_inv eff w (l1\<lparr>sl_closers := (sl_closers l1)[i := c]\<rparr>) \<and> control_inv (l1\<lparr>sl_closers := (sl_closers l1)[i := c]\<rparr>)"
proof -
  have set: "set ((sl_closers l)[i := c]) \<subseteq> insert c (set (sl_closers l))" by (rule set_update_subset_insert)
  have f: "frames_inv eff w l1"
    using assms(2,3) frames_mark frames_stop by (cases "sl_closers l ! i") auto
  then have "frames_inv eff w (l1\<lparr>sl_closers := (sl_closers l1)[i := c]\<rparr>)"
    by (rule frames_cong) (simp_all add: frames_not_crashed [OF f])
  moreover have "control_inv (l1\<lparr>sl_closers := (sl_closers l1)[i := c]\<rparr>)"
  proof (cases "sl_closers l ! i")
    case CloseMarks
    then have l1: "l1 = close_mark l" using assms(2) by simp
    show ?thesis using control_mark [OF assms(4)] by (auto simp: l1 control_inv_def close_mark_def)
  next
    case CloseSleeps
    then have l1: "l1 = close_stop l" using assms(2) by simp
    have "marked l" using CloseSleeps assms(1) nth_mem by (fastforce simp: marked_def)
    then show ?thesis using assms(4) by (auto simp: l1 control_inv_def close_stop_def)
  qed (use assms(2) in simp)
  ultimately show ?thesis ..
qed

text \<open>A step of \<open>Run\<close> that leaves the serial as it is; one that runs a task.\<close>

lemma pc_inv:
  assumes "frames_inv eff w l" "control_inv l" "sl_run l \<noteq> SerialReturned" "p \<notin> {SerialNew, SerialReturned, SerialCrashed}"
    and "\<not> sl_early l \<Longrightarrow> (\<exists>c. p = SerialCloses c \<and> c \<noteq> CloseMarks) \<or> left p \<Longrightarrow> marked l" "left p \<Longrightarrow> sl_stop l"
  shows "frames_inv eff w (l\<lparr>sl_run := p\<rparr>) \<and> control_inv (l\<lparr>sl_run := p\<rparr>)"
proof
  show "frames_inv eff w (l\<lparr>sl_run := p\<rparr>)" using assms(1) by (rule frames_cong) (use assms(4) in auto)
  have "marked (l\<lparr>sl_run := p\<rparr>) \<Longrightarrow> \<not> sl_early l \<Longrightarrow> marked l" using assms(5) by (auto simp: marked_def)
  then show "control_inv (l\<lparr>sl_run := p\<rparr>)" using assms(2,3,4,6) by (auto simp: control_inv_def)
qed

lemma task_inv:
  assumes "frames_inv eff w l" "control_inv l" "sl_run l = SerialSelects \<and> p = SerialSelects \<or> sl_run l = SerialLast \<and> p = SerialReturned"
    and "length (ring (sr_ring (sl_serial l))) < fuel"
  obtains r w' where "serial_assignmentTask fuel (sl_serial l) (sl_world l) = Some (TaskDone ((sl_serial l)\<lparr>sr_ring := r\<rparr>) w')"
    "frames_inv eff w (l\<lparr>sl_serial := (sl_serial l)\<lparr>sr_ring := r\<rparr>, sl_world := w', sl_run := p\<rparr>)"
    "control_inv (l\<lparr>sl_serial := (sl_serial l)\<lparr>sr_ring := r\<rparr>, sl_world := w', sl_run := p\<rparr>)"
proof -
  have "\<not> sl_released l" using assms(2,3) by (auto simp: control_inv_def)
  then obtain r w' where r: "serial_assignmentTask fuel (sl_serial l) (sl_world l) = Some (TaskDone ((sl_serial l)\<lparr>sr_ring := r\<rparr>) w')"
    "rbState r = rbState (sr_ring (sl_serial l))" "ring_inv r []" "w' = fold eff (sl_accepted l) w"
    using task_frames [OF assms(1) _ assms(4)] by blast
  have "frames_inv eff w (l\<lparr>sl_serial := (sl_serial l)\<lparr>sr_ring := r\<rparr>, sl_world := w', sl_run := p\<rparr>)"
    using frames_task [OF assms(1) r(3,4)] assms(3) by blast
  moreover have "control_inv (l\<lparr>sl_serial := (sl_serial l)\<lparr>sr_ring := r\<rparr>, sl_world := w', sl_run := p\<rparr>)"
    using assms(2,3) r(2) by (auto simp: control_inv_def marked_def)
  ultimately show ?thesis using r(1) that by blast
qed

lemma unsubscribe_inv:
  assumes "frames_inv eff w l" "control_inv l"
  shows "frames_inv eff w (l\<lparr>sl_serial := unsubscribe_turn u (sl_serial l)\<rparr>) \<and> control_inv (l\<lparr>sl_serial := unsubscribe_turn u (sl_serial l)\<rparr>)"
proof
  have "sr_bags (sl_serial l) = []" using assms(1) by (auto simp: frames_inv_def frames_split_def)
  then show "frames_inv eff w (l\<lparr>sl_serial := unsubscribe_turn u (sl_serial l)\<rparr>)"
    by (intro frames_cong [OF assms(1)]) (simp_all add: unsubscribe_turn_def frames_not_crashed [OF assms(1)])
  show "control_inv (l\<lparr>sl_serial := unsubscribe_turn u (sl_serial l)\<rparr>)" using assms(2) by (auto simp: control_inv_def marked_def unsubscribe_turn_def)
qed

lemma closes_inv:
  assumes "sl_run l = SerialCloses c" "serial_Close c l = Some (c', l1)" "frames_inv eff w l" "control_inv l"
  shows "frames_inv eff w (l1\<lparr>sl_run := SerialCloses c'\<rparr>) \<and> control_inv (l1\<lparr>sl_run := SerialCloses c'\<rparr>)"
proof (cases c)
  case CloseMarks
  then have l1: "l1 = close_mark l" using assms(2) by simp
  have "frames_inv eff w l1" using frames_mark [OF assms(3)] l1 by simp
  then have "frames_inv eff w (l1\<lparr>sl_run := SerialCloses c'\<rparr>)" by (rule frames_cong) simp_all
  then show ?thesis using assms(1,4) by (auto simp: l1 control_inv_def close_mark_def)
next
  case CloseSleeps
  then have l1: "l1 = close_stop l" using assms(2) by simp
  have "frames_inv eff w l1" using frames_stop [OF assms(3)] l1 by simp
  then have "frames_inv eff w (l1\<lparr>sl_run := SerialCloses c'\<rparr>)" by (rule frames_cong) simp_all
  moreover have "marked l" using CloseSleeps assms(1) by (auto simp: marked_def)
  ultimately show ?thesis using assms(1,4) by (auto simp: l1 control_inv_def close_stop_def)
qed (use assms(2) in simp)

lemma send_channel_inv:
  assumes "send_channel m l = Some l'" "frames_inv eff w l" "control_inv l"
  shows "frames_inv eff w l' \<and> control_inv l' \<and> sl_run l' = sl_run l \<and> sl_stop l' = sl_stop l \<and> marked l' = marked l"
proof -
  have l': "l' = l\<lparr>sl_chan := sl_chan l @ [m]\<rparr>" using assms(1) by (auto simp: send_channel_def split: if_splits)
  have "frames_inv eff w l'" unfolding l' by (rule frames_cong [OF assms(2)]) (simp_all add: frames_not_crashed [OF assms(2)])
  then show ?thesis using assms(3) by (auto simp: l' control_inv_def marked_def)
qed

lemma run_serial_inv:
  assumes "run_serial fuel mid e k l = Some l'" "served_act eff fuel l (RunSerial e k)" "frames_inv eff w l" "control_inv l"
  shows "frames_inv eff w l' \<and> control_inv l'"
proof (cases "sl_run l")
  case SerialNew
  then have l': "l' = l\<lparr>sl_serial := (sl_serial l)\<lparr>sr_ring := SetState (sr_ring (sl_serial l)) StateWork\<rparr>, sl_run := SerialSelects\<rparr>" using assms(1) by simp
  have "frames_inv eff w l'" unfolding l' by (rule frames_cong [OF assms(3)]) simp_all
  then show ?thesis using SerialNew assms(4) by (auto simp: l' control_inv_def marked_def)
next
  case SerialSelects
  note pc = pc_inv [OF assms(3,4)]
  show ?thesis
  proof (cases e)
    case Tick
    then have f: "length (ring (sr_ring (sl_serial l))) < fuel" using assms(2) by simp
    obtain r w' where "serial_assignmentTask fuel (sl_serial l) (sl_world l) = Some (TaskDone ((sl_serial l)\<lparr>sr_ring := r\<rparr>) w')"
      "frames_inv eff w (l\<lparr>sl_serial := (sl_serial l)\<lparr>sr_ring := r\<rparr>, sl_world := w', sl_run := SerialSelects\<rparr>)"
      "control_inv (l\<lparr>sl_serial := (sl_serial l)\<lparr>sr_ring := r\<rparr>, sl_world := w', sl_run := SerialSelects\<rparr>)"
      by (rule task_inv [OF assms(3,4) _ f, of SerialSelects]) (simp_all add: SerialSelects)
    moreover have "l' = l\<lparr>sl_serial := (sl_serial l)\<lparr>sr_ring := r\<rparr>, sl_world := w'\<rparr>"
      using calculation(1) assms(1) SerialSelects Tick by (simp add: select_turn_def)
    moreover have "l\<lparr>sl_serial := (sl_serial l)\<lparr>sr_ring := r\<rparr>, sl_world := w'\<rparr>
        = l\<lparr>sl_serial := (sl_serial l)\<lparr>sr_ring := r\<rparr>, sl_world := w', sl_run := SerialSelects\<rparr>"
      using SerialSelects by (intro serial_life.equality) simp_all
    ultimately show ?thesis by simp
  next
    case (UnsubscribeMsg u)
    then have "l' = l\<lparr>sl_serial := unsubscribe_turn u (sl_serial l)\<rparr>" using assms(1) SerialSelects by (simp add: select_turn_def)
    then show ?thesis using unsubscribe_inv [OF assms(3,4)] by simp
  next
    case CtxDone
    then have "l' = l\<lparr>sl_run := SerialCloses CloseMarks\<rparr>" using assms(1) SerialSelects by (auto split: if_splits)
    then show ?thesis using pc [of "SerialCloses CloseMarks"] SerialSelects by simp
  next
    case StopMsg
    then have "l' = l\<lparr>sl_run := SerialCancels (channelMap (sl_serial l))\<rparr>" "sl_stop l" using assms(1) SerialSelects by (auto split: if_splits)
    then show ?thesis using pc [of "SerialCancels (channelMap (sl_serial l))"] SerialSelects by (simp add: marked_def)
  qed (use assms(2) in simp)
next
  case (SerialCloses c)
  show ?thesis
  proof (cases "serial_Close c l")
    case None
    then have "l' = l\<lparr>sl_run := SerialSelects\<rparr>" using assms(1) SerialCloses by simp
    then show ?thesis using pc_inv [OF assms(3,4), of SerialSelects] SerialCloses by simp
  next
    case (Some x)
    then show ?thesis using closes_inv [OF SerialCloses _ assms(3,4), of "fst x" "snd x"] assms(1) SerialCloses by (cases x) simp
  qed
next
  case (SerialCancels ks)
  have stop: "sl_stop l" using assms(4) SerialCancels by (simp add: control_inv_def)
  show ?thesis
  proof (cases "ks = {}")
    case True
    then have "l' = l\<lparr>sl_run := SerialLast\<rparr>" using assms(1) SerialCancels by simp
    then show ?thesis using pc_inv [OF assms(3,4), of SerialLast] SerialCancels stop by (simp add: marked_def)
  next
    case False
    then obtain l1 where l1: "send_channel (Unsubscribe_msg mid k) l = Some l1" "l' = l1\<lparr>sl_run := SerialCancels (ks - {k})\<rparr>"
      using assms(1) SerialCancels by (auto split: if_splits)
    then show ?thesis using pc_inv [of eff w l1 "SerialCancels (ks - {k})"] send_channel_inv [OF l1(1) assms(3,4)] SerialCancels stop
      by (simp add: marked_def)
  qed
next
  case SerialLast
  have f: "length (ring (sr_ring (sl_serial l))) < fuel" using assms(2) by (cases e) simp_all
  obtain r w' where "serial_assignmentTask fuel (sl_serial l) (sl_world l) = Some (TaskDone ((sl_serial l)\<lparr>sr_ring := r\<rparr>) w')"
    "frames_inv eff w (l\<lparr>sl_serial := (sl_serial l)\<lparr>sr_ring := r\<rparr>, sl_world := w', sl_run := SerialReturned\<rparr>)"
    "control_inv (l\<lparr>sl_serial := (sl_serial l)\<lparr>sr_ring := r\<rparr>, sl_world := w', sl_run := SerialReturned\<rparr>)"
    by (rule task_inv [OF assms(3,4) _ f, of SerialReturned]) (simp_all add: SerialLast)
  then show ?thesis using assms(1) SerialLast by simp
qed (use assms(1) in simp_all)

lemma release_inv:
  assumes "serial_release l = Some l'" "frames_inv eff w l" "control_inv l"
  shows "frames_inv eff w l' \<and> control_inv l'"
proof -
  have l: "sl_run l = SerialReturned" "\<not> sl_released l"
    "l' = l\<lparr>sl_serial := (sl_serial l)\<lparr>channelMap := {}, sr_ring := ReleaseRingBuffer (sr_ring (sl_serial l)), sr_bags := []\<rparr>, sl_released := True\<rparr>"
    using assms(1) by (auto simp: serial_release_def split: if_splits)
  obtain handled pending where h: "frames_split eff w l handled pending" using assms(2) by (auto simp: frames_inv_def)
  have "globalContextMQHandler (sl_serial l') = globalContextMQHandler (sl_serial l)" by (simp add: l(3))
  then have "serves (sl_serial l') = serves (sl_serial l)" by (rule serves_handlers)
  then have "frames_split eff w l' handled pending" using h by (simp add: frames_split_def l(3))
  then show ?thesis using assms(3) l(1,2) by (auto simp: frames_inv_def control_inv_def marked_def l(3) ReleaseRingBuffer_def SetState_def)
qed

lemma life_act_inv:
  assumes "life_act fuel mid a l = Some l'" "served_act eff fuel l a" "frames_inv eff w l" "control_inv l"
  shows "frames_inv eff w l' \<and> control_inv l'"
proof (cases a)
  case (Delivers fs) then show ?thesis using deliver_inv [of fs l l' eff fuel w] assms by simp
next
  case (RunSerial e k) then show ?thesis using run_serial_inv [of fuel mid e k l l' eff w] assms by (simp del: run_serial.simps)
next
  case CallsClose
  then have l': "l' = l\<lparr>sl_closers := sl_closers l @ [CloseMarks]\<rparr>" using assms(1) by simp
  have "frames_inv eff w l'" unfolding l' by (rule frames_cong [OF assms(3)]) (simp_all add: frames_not_crashed [OF assms(3)])
  then show ?thesis using assms(4) by (auto simp: l' control_inv_def marked_def)
next
  case (CloserGoes i) then show ?thesis using closer_inv [of i l _ _ eff w] assms by (auto split: if_splits)
next
  case ContextEnds
  then have l': "l' = l\<lparr>sl_ctx := True\<rparr>" using assms(1) by simp
  have "frames_inv eff w l'" unfolding l' by (rule frames_cong [OF assms(3)]) (simp_all add: frames_not_crashed [OF assms(3)])
  then show ?thesis using assms(4) by (auto simp: l' control_inv_def marked_def)
next
  case (OtherSends m) then show ?thesis using send_channel_inv [of m l l' eff w] assms by simp
next
  case ClusterReads
  then have l': "l' = l\<lparr>sl_chan := tl (sl_chan l)\<rparr>" using assms(1) by (auto split: if_splits)
  have "frames_inv eff w l'" unfolding l' by (rule frames_cong [OF assms(3)]) (simp_all add: frames_not_crashed [OF assms(3)])
  then show ?thesis using assms(4) by (auto simp: l' control_inv_def marked_def)
next
  case ClusterEnds
  then have l': "l' = l\<lparr>sl_cluster := False\<rparr>" using assms(1) by simp
  have "frames_inv eff w l'" unfolding l' by (rule frames_cong [OF assms(3)]) (simp_all add: frames_not_crashed [OF assms(3)])
  then show ?thesis using assms(4) by (auto simp: l' control_inv_def marked_def)
next
  case Releases then show ?thesis using release_inv [of l l' eff w] assms by simp
qed

text \<open>A serial whose \<open>Init\<close> has run, without groups.\<close>

definition ready_serial :: "'w Serial \<Rightarrow> bool" where
  "ready_serial s \<longleftrightarrow> ring_inv (sr_ring s) [] \<and> rbState (sr_ring s) = StatePause \<and> sr_bags s = []"

lemma new_life_inv: "ready_serial s \<Longrightarrow> frames_inv eff w (new_life s w) \<and> control_inv (new_life s w)"
proof -
  assume "ready_serial s"
  then have "frames_split eff w (new_life s w) [] []" by (simp add: frames_split_def new_life_def ready_serial_def)
  then show ?thesis by (auto simp: frames_inv_def control_inv_def marked_def new_life_def)
qed

interpretation serial_lives: step_invariant "\<lambda>l. ready_serial s \<and> l = new_life s w" "life_step eff mid" "\<lambda>l. frames_inv eff w l \<and> control_inv l" for eff mid s w
  by unfold_locales (auto simp: new_life_inv dest: life_act_inv elim!: life_stepE)

section \<open>How \<open>Run\<close> ends\<close>

lemma life_acts_append: "life_acts fuel mid (as @ bs) l = do { l \<leftarrow> life_acts fuel mid as l; life_acts fuel mid bs l }"
  by (induction as arbitrary: l) (auto split: bind_splits)

text \<open>A \<open>Run\<close> that has returned handles nothing any more.\<close>

lemma returned_for_good:
  assumes "life_act fuel mid a l = Some l'" "sl_run l = SerialReturned"
  shows "sl_run l' = SerialReturned \<and> sl_world l' = sl_world l"
proof (cases a)
  case (CloserGoes i)
  then show ?thesis using assms by (cases "sl_closers l ! i") (auto simp: close_mark_def close_stop_def split: if_splits)
qed (use assms in \<open>auto simp: deliver_frame_def send_channel_def serial_release_def split: if_splits bind_splits\<close>)

lemma returned_acts: "life_acts fuel mid as l = Some l' \<Longrightarrow> sl_run l = SerialReturned \<Longrightarrow> sl_run l' = SerialReturned \<and> sl_world l' = sl_world l"
  by (induction as arbitrary: l) (auto dest: returned_for_good split: bind_splits)

text \<open>
  With the cluster gone nobody takes messages out of its channel. \<open>Run\<close> waits in a send as soon as the channel is full.
\<close>

definition too_many :: "'w serial_life \<Rightarrow> bool" where
  "too_many l \<longleftrightarrow> \<not> sl_cluster l \<and> length (sl_chan l) \<le> ChannelChan_cap
     \<and> (\<exists>ks. sl_run l = SerialCancels ks \<and> ChannelChan_cap < length (sl_chan l) + card ks)"

lemma too_many_run:
  assumes "run_serial fuel mid e k l = Some l'" "too_many l"
  shows "too_many l'"
proof -
  obtain ks where ks: "sl_run l = SerialCancels ks" "ChannelChan_cap < length (sl_chan l) + card ks" "length (sl_chan l) \<le> ChannelChan_cap" "\<not> sl_cluster l"
    using assms(2) by (auto simp: too_many_def)
  then have "ks \<noteq> {}" by auto
  then have l': "l' = l\<lparr>sl_chan := sl_chan l @ [Unsubscribe_msg mid k], sl_run := SerialCancels (ks - {k})\<rparr>" "k \<in> ks" "length (sl_chan l) < ChannelChan_cap"
    using assms(1) ks(1) by (auto simp: send_channel_def split: if_splits)
  have "finite ks" by simp
  then have "card (ks - {k}) = card ks - 1" "0 < card ks" using l'(2) by (auto simp: card_gt_0_iff)
  then show ?thesis using ks l'(3) by (simp add: too_many_def l'(1))
qed

lemma too_many_act:
  assumes "life_act fuel mid a l = Some l'" "too_many l"
  shows "too_many l'"
proof (cases a)
  case (RunSerial e k)
  then show ?thesis using too_many_run assms by (simp del: run_serial.simps)
next
  case (CloserGoes i)
  then show ?thesis using assms by (cases "sl_closers l ! i") (auto simp: too_many_def close_mark_def close_stop_def split: if_splits)
qed (use assms in \<open>auto simp: too_many_def deliver_frame_def send_channel_def serial_release_def split: if_splits bind_splits\<close>)

lemma too_many_acts: "life_acts fuel mid as l = Some l' \<Longrightarrow> too_many l \<Longrightarrow> too_many l'"
  by (induction as arbitrary: l) (auto dest: too_many_act split: bind_splits)

text \<open>With room for them the channels are cancelled one after the other.\<close>

lemma cancel_all:
  "sl_run l = SerialCancels (set ks) \<Longrightarrow> distinct ks \<Longrightarrow> length (sl_chan l) + length ks \<le> ChannelChan_cap \<Longrightarrow>
   life_acts fuel mid (map (RunSerial Tick) ks) l = Some (l\<lparr>sl_chan := sl_chan l @ map (Unsubscribe_msg mid) ks, sl_run := SerialCancels {}\<rparr>)"
proof (induction ks arbitrary: l)
  case Nil
  then show ?case by (auto intro!: serial_life.equality)
next
  case (Cons k ks)
  let ?l = "l\<lparr>sl_chan := sl_chan l @ [Unsubscribe_msg mid k], sl_run := SerialCancels (set ks)\<rparr>"
  have "run_serial fuel mid Tick k l = Some ?l"
    using Cons.prems by (auto simp: send_channel_def Diff_insert_absorb)
  then show ?case using Cons.IH [of ?l] Cons.prems by (simp del: run_serial.simps)
qed

lemma chan_bound_act:
  assumes "life_act fuel mid a l = Some l'" "length (sl_chan l) \<le> ChannelChan_cap"
  shows "length (sl_chan l') \<le> ChannelChan_cap"
proof (cases a)
  case (RunSerial e k)
  show ?thesis
  proof (cases "sl_run l")
    case (SerialCloses c)
    then show ?thesis using assms RunSerial by (cases c) (auto simp: close_mark_def close_stop_def)
  qed (use assms RunSerial in \<open>auto simp: send_channel_def select_turn_def split: if_splits option.splits serial_event.splits serial_end.splits task_end.splits\<close>)
next
  case (CloserGoes i)
  then show ?thesis using assms by (cases "sl_closers l ! i") (auto simp: close_mark_def close_stop_def split: if_splits)
qed (use assms in \<open>auto simp: deliver_frame_def send_channel_def serial_release_def split: if_splits bind_splits\<close>)

interpretation channel_bounds: step_invariant "\<lambda>l. l = new_life s w" "life_step eff mid" "\<lambda>l. length (sl_chan l) \<le> ChannelChan_cap" for eff mid s w
  by unfold_locales (auto simp: new_life_def dest: chan_bound_act elim!: life_stepE)

section \<open>Properties\<close>


text \<open>C34: a serial that has left its loop returns if and only if, with the cluster gone before it, its channels and what waits for
  the cluster already fit into the channel to the cluster: with more, \<open>Run\<close> waits for ever in the cancellation of a subscription.\<close>

theorem serial_returns_iff:
  assumes "reach (\<lambda>l. ready_serial s \<and> l = new_life s w) (life_step eff mid) l"
    and "sl_run l = SerialCancels ks" "\<not> sl_cluster l" "length (ring (sr_ring (sl_serial l))) < fuel"
  shows "(\<exists>as l'. life_acts fuel mid as l = Some l' \<and> sl_run l' = SerialReturned) \<longleftrightarrow> length (sl_chan l) + card ks \<le> ChannelChan_cap"
proof
  assume ex: "\<exists>as l'. life_acts fuel mid as l = Some l' \<and> sl_run l' = SerialReturned"
  have "reach (\<lambda>l. l = new_life s w) (life_step eff mid) l"
    using assms(1) by (induction rule: reach.induct) (auto intro: reach_step)
  then have "length (sl_chan l) \<le> ChannelChan_cap" by (rule channel_bounds.reach_inv)
  moreover have "\<not> too_many l" using ex too_many_acts by (fastforce simp: too_many_def)
  ultimately show "length (sl_chan l) + card ks \<le> ChannelChan_cap" using assms(2,3) by (auto simp: too_many_def)
next
  assume room: "length (sl_chan l) + card ks \<le> ChannelChan_cap"
  obtain xs where xs: "set xs = ks" "distinct xs" using finite_distinct_list [of ks] by auto
  let ?l = "l\<lparr>sl_chan := sl_chan l @ map (Unsubscribe_msg mid) xs, sl_run := SerialCancels {}\<rparr>"
  have cancel: "life_acts fuel mid (map (RunSerial Tick) xs) l = Some ?l"
    by (rule cancel_all) (use xs room assms(2) distinct_card [OF xs(2)] in auto)
  have inv: "frames_inv eff w l" "control_inv l" using serial_lives.reach_inv [OF assms(1)] by simp_all
  then have "\<not> sl_released l" using assms(2) by (auto simp: control_inv_def)
  then obtain r w' where "serial_assignmentTask fuel (sl_serial l) (sl_world l) = Some (TaskDone ((sl_serial l)\<lparr>sr_ring := r\<rparr>) w')"
    using task_frames [OF inv(1) _ assms(4)] by blast
  then obtain l' where l': "life_acts fuel mid [RunSerial Tick 0, RunSerial Tick 0] ?l = Some l'" "sl_run l' = SerialReturned" by auto
  have "life_acts fuel mid (map (RunSerial Tick) xs @ [RunSerial Tick 0, RunSerial Tick 0]) l = Some l'"
    using cancel l'(1) life_acts_append [of fuel mid "map (RunSerial Tick) xs" "[RunSerial Tick 0, RunSerial Tick 0]" l] by simp
  then show "\<exists>as l'. life_acts fuel mid as l = Some l' \<and> sl_run l' = SerialReturned" using l'(2) by blast
qed

section \<open>Runs\<close>

text \<open>The functions of the channels stay the same, so that whether frames are served can be seen at the start.\<close>

fun end_serial :: "'w task_end \<Rightarrow> 'w Serial" where
  "end_serial (TaskDone s w) = s" | "end_serial (TaskPanic s w) = s"

lemma drain_handlers: "drain_ring n s w = Some e \<Longrightarrow> globalContextMQHandler (end_serial e) = globalContextMQHandler s"
proof (induction n arbitrary: s w)
  case (Suc n)
  show ?case using Suc.prems by (auto simp: Let_def split: option.splits if_splits dest!: Suc.IH)
qed simp

lemma bags_handlers: "drain_bags n as s w = Some e \<Longrightarrow> globalContextMQHandler (end_serial e) = globalContextMQHandler s"
proof (induction as arbitrary: s w)
  case (Cons a as)
  show ?case using Cons.prems by (auto simp: Let_def split: option.splits if_splits dest!: Cons.IH)
qed auto

lemma task_handlers: "serial_assignmentTask n s w = Some e \<Longrightarrow> globalContextMQHandler (end_serial e) = globalContextMQHandler s"
  using drain_handlers [of n s w] bags_handlers by (fastforce simp: serial_assignmentTask_def split: option.splits task_end.splits)

lemma turn_handlers:
  "serial_turn n mid s w e = Some (Looping s' w') \<Longrightarrow> globalContextMQHandler s' = globalContextMQHandler s"
  "serial_turn n mid s w e = Some (Recovered s' w') \<Longrightarrow> globalContextMQHandler s' = globalContextMQHandler s"
  using task_handlers [of n s w]
  by (cases e; fastforce simp: unsubscribe_turn_def split: option.splits task_end.splits if_splits prod.splits)+

lemma act_handlers:
  assumes "life_act fuel mid a l = Some l'"
  shows "globalContextMQHandler (sl_serial l') = globalContextMQHandler (sl_serial l)"
proof (cases a)
  case (RunSerial e k)
  show ?thesis
  proof (cases "sl_run l")
    case SerialSelects
    then show ?thesis using assms RunSerial turn_handlers
      by (cases e) (auto simp: select_turn_def simp del: serial_turn.simps split: if_splits option.splits serial_end.splits)
  next
    case (SerialCloses c)
    then show ?thesis using assms RunSerial by (cases c) (auto simp: close_mark_def close_stop_def)
  next
    case SerialLast
    then show ?thesis using assms RunSerial task_handlers [of fuel "sl_serial l" "sl_world l"]
      by (auto split: option.splits task_end.splits)
  qed (use assms RunSerial in \<open>auto simp: send_channel_def split: if_splits\<close>)
next
  case (CloserGoes i)
  then show ?thesis using assms by (cases "sl_closers l ! i") (auto simp: close_mark_def close_stop_def split: if_splits)
qed (use assms in \<open>auto simp: deliver_frame_def serialProcessWrapper_def send_channel_def serial_release_def split: if_splits bind_splits\<close>)

text \<open>A run whose sizes are in order.\<close>

fun sized_act :: "nat \<Rightarrow> 'w serial_life \<Rightarrow> 'w life_action \<Rightarrow> bool" where
  "sized_act fuel l (Delivers fs) = (uint (askCursor (sr_ring (sl_serial l))) + int (length (elems (GetAll fs))) < 2 ^ 64)"
| "sized_act fuel l (RunSerial (RejectFunc f) k) = False"
| "sized_act fuel l (RunSerial e k) = (length (ring (sr_ring (sl_serial l))) < fuel)"
| "sized_act fuel l a = True"

fun sized_run :: "nat \<Rightarrow> u16 \<Rightarrow> 'w life_action list \<Rightarrow> 'w serial_life \<Rightarrow> bool" where
  "sized_run fuel mid [] l = True"
| "sized_run fuel mid (a # as) l = (sized_act fuel l a \<and> (case life_act fuel mid a l of None \<Rightarrow> False | Some l \<Rightarrow> sized_run fuel mid as l))"

lemma sized_served:
  assumes "sized_act fuel l a" "\<And>fs. a = Delivers fs \<Longrightarrow> serves (sl_serial l) eff (elems (GetAll fs))"
  shows "served_act eff fuel l a"
proof (cases a)
  case (Delivers fs)
  have "unat x + n < 2 ^ 64" if "uint x + int n < 2 ^ 64" for x :: u64 and n
  proof -
    have "int (unat x + n) < int (2 ^ 64)" using that by simp
    then show ?thesis by (simp only: of_nat_less_iff)
  qed
  then show ?thesis using Delivers assms by simp
next
  case (RunSerial e k)
  then show ?thesis using assms by (cases e) simp_all
qed (simp_all add: assms)

lemma run_reach:
  assumes "reach init (life_step eff mid) l" "sized_run fuel mid as l" "\<And>fs. Delivers fs \<in> set as \<Longrightarrow> serves (sl_serial l) eff (elems (GetAll fs))"
  shows "\<exists>l'. life_acts fuel mid as l = Some l' \<and> reach init (life_step eff mid) l'"
  using assms
proof (induction as arbitrary: l)
  case (Cons a as)
  then obtain l1 where l1: "life_act fuel mid a l = Some l1" "sized_run fuel mid as l1" "sized_act fuel l a" by (auto split: option.splits)
  have "served_act eff fuel l a" by (rule sized_served [OF l1(3)]) (use Cons.prems(3) in auto)
  then have "reach init (life_step eff mid) l1" using Cons.prems(1) l1(1) by (auto intro: reach_step life_step.intros)
  moreover have "serves (sl_serial l1) = serves (sl_serial l)" by (rule serves_handlers [OF act_handlers [OF l1(1)]])
  ultimately show ?case using Cons.IH [of l1] l1 Cons.prems(3) by simp
qed auto

text \<open>A serial for channel 51 with a ring of 32 bytes, and frames for it.\<close>

definition small_serial :: "u16 set \<Rightarrow> u8 list list Serial" where
  "small_serial ks = (log_serial (SetState (InitRingBuffer ring0 32) StatePause))\<lparr>channelMap := ks\<rparr>"

definition small_frame :: "u8 list \<Rightarrow> FrameSlice" where
  "small_frame d = \<lparr>splitLength = 8 + int (length d), base = of_list (frame_bytes 51 d [])\<rparr>"

lemma small_ready: "ready_serial (small_serial ks)"
  using ring_fresh(1) [of 32 ring0] by (simp add: ready_serial_def small_serial_def log_serial_def ring0_def ring_holds_def)

lemma small_serves: "length d < 100 \<Longrightarrow> serves (small_serial ks) log_effect (elems (GetAll (small_frame d)))"
  using log_serves [of "[]" d] serves_handlers [of "small_serial ks" "log_serial (SetState (InitRingBuffer ring0 32) StatePause)"]
  by (simp add: small_serial_def log_serial_def small_frame_def GetAll_def)

text \<open>Two frames around a tick; the second is in the ring when \<open>Close\<close> comes, a third one comes too late.\<close>

definition whole_life :: "u8 list list life_action list" where
  "whole_life = [RunSerial Tick 0, Delivers (small_frame [1]), RunSerial Tick 0, Delivers (small_frame [2, 3]), CallsClose, CloserGoes 0,
     Delivers (small_frame [9]), RunSerial (UnsubscribeMsg [60]) 0, CloserGoes 0, RunSerial StopMsg 0, RunSerial Tick 51, RunSerial Tick 0, RunSerial Tick 0, Releases]"

text \<open>\<open>Close\<close> sets the state before \<open>Run\<close> sets it again: \<open>Run\<close> returns, and the serial goes on accepting frames that nobody handles.\<close>

definition early_close :: "u8 list list life_action list" where
  "early_close = [CallsClose, CloserGoes 0, RunSerial Tick 0, CloserGoes 0, RunSerial StopMsg 0, RunSerial Tick 51, RunSerial Tick 0, RunSerial Tick 0,
     Delivers (small_frame [1])]"

lemma whole_life_run: "sized_run 33 7 whole_life (new_life (small_serial {51}) [])"
  by code_simp

lemma whole_life_end:
  "case life_acts 33 7 whole_life (new_life (small_serial {51}) []) of None \<Rightarrow> False
   | Some l \<Rightarrow> sl_run l = SerialReturned \<and> \<not> sl_early l \<and> sl_world l = [[1], [2, 3]] \<and> sl_chan l = [Unsubscribe_msg 7 51]"
  by code_simp

lemma early_close_undone:
  "case life_acts 33 7 early_close (new_life (small_serial {51}) []) of None \<Rightarrow> False
   | Some l \<Rightarrow> sl_run l = SerialReturned \<and> HasWork (sr_ring (sl_serial l)) \<and> sl_accepted l = [frame_bytes 51 [1] []] \<and> sl_world l = []"
  by code_simp

text \<open>65536 channels to cancel when the cluster has gone.\<close>

definition stranded :: "u8 list list life_action list" where
  "stranded = [RunSerial Tick 0, ContextEnds, RunSerial CtxDone 0, RunSerial Tick 0, RunSerial Tick 0, RunSerial Tick 0, ClusterEnds, RunSerial StopMsg 0]"


lemma stranded_run:
  "\<exists>l. life_acts 33 7 stranded (new_life (small_serial ks) []) = Some l \<and> sized_run 33 7 stranded (new_life (small_serial ks) [])
     \<and> sl_run l = SerialCancels ks \<and> \<not> sl_cluster l \<and> length (ring (sr_ring (sl_serial l))) = 32 \<and> sl_chan l = []"
proof -
  have ring: "length (ring (sr_ring (small_serial ks))) = 32"
    by (simp add: small_serial_def log_serial_def InitRingBuffer_def minQuantity_def)
  have map: "channelMap (small_serial ks) = ks" by (simp add: small_serial_def)
  show ?thesis by (simp add: stranded_def new_life_def ring map close_mark_def close_stop_def)
qed

lemma serial_returns_iff_witness:
  "\<exists>l. life_acts 33 7 stranded (new_life (small_serial UNIV) []) = Some l \<and> sl_run l = SerialCancels UNIV
     \<and> \<not> (\<exists>as l'. life_acts 33 7 as l = Some l' \<and> sl_run l' = SerialReturned)"
proof -
  have init: "reach (\<lambda>l. ready_serial (small_serial UNIV) \<and> l = new_life (small_serial UNIV) []) (life_step log_effect 7) (new_life (small_serial UNIV) [])"
    by (rule reach_init) (simp add: small_ready)
  obtain l where l: "life_acts 33 7 stranded (new_life (small_serial UNIV) []) = Some l" "sized_run 33 7 stranded (new_life (small_serial UNIV) [])"
    "sl_run l = SerialCancels UNIV" "\<not> sl_cluster l" "length (ring (sr_ring (sl_serial l))) = 32" "sl_chan l = []"
    using stranded_run [of UNIV] by blast
  have "fs \<noteq> fs" if "Delivers fs \<in> set stranded" for fs :: FrameSlice using that by (simp add: stranded_def)
  then have "reach (\<lambda>l. ready_serial (small_serial UNIV) \<and> l = new_life (small_serial UNIV) []) (life_step log_effect 7) l"
    using run_reach [OF init l(2)] l(1) by auto
  moreover have "\<not> card (UNIV :: u16 set) \<le> ChannelChan_cap" by (simp add: ChannelChan_cap_def card_word)
  ultimately show ?thesis using serial_returns_iff [of "small_serial UNIV" "[]" log_effect 7 l UNIV 33] l by (intro exI [of _ l]) simp
qed

end
