(* ===== verification/Sessions.thy ===== *)
theory Sessions
  imports SessionWriteSpec
begin

text \<open>
  The sessions of one node and the handler table they share. \<open>NewSessionTCP\<close> stores a closure over its own session
  in the table, so what a frame of type \<open>FrameTypePong\<close> does depends on which session was made last. The state
  is the list of the sending sides of all sessions.
\<close>

section \<open>Model\<close>

text \<open>\<open>s.sessionTCPPong\<close> as the table stores it, for session \<open>a\<close>: it ignores the session it is called with.\<close>

definition pong_handler :: "nat \<Rightarrow> writer list handler_func" where
  "pong_handler a se ws = Returned None (ws[a := sessionTCPPong (ws ! a)])"

definition open_session ::
  "CircuitBreakerConfigure \<Rightarrow> u8 list list \<Rightarrow> nat option list list \<Rightarrow> writer list Handler \<times> writer list
    \<Rightarrow> writer list Handler \<times> writer list" where
  "open_session cbc bp rp hw =
     (HandleFunc (fst hw) FrameTypePong (pong_handler (length (snd hw))), snd hw @ [NewSessionTCP cbc bp rp])"

fun open_sessions ::
  "(CircuitBreakerConfigure \<times> u8 list list \<times> nat option list list) list \<Rightarrow> writer list Handler \<times> writer list
    \<Rightarrow> writer list Handler \<times> writer list" where
  "open_sessions [] hw = hw"
| "open_sessions ((cbc, bp, rp) # cs) hw = open_sessions cs (open_session cbc bp rp hw)"

text \<open>\<open>Heartbeat\<close> of the client whose session is number \<open>a\<close>; \<open>e\<close> is what its connection answers.\<close>

definition Heartbeat :: "(nat \<Rightarrow> io) \<Rightarrow> nat \<Rightarrow> writer list \<Rightarrow> transport_error option \<times> writer list" where
  "Heartbeat e a ws = (let (err, w) = WriteFrameDataPromptly (e a) FrameHeartbeatS (ws ! a) in (err, ws[a := w]))"

section \<open>The table after some sessions\<close>

lemma open_sessions_table:
  assumes "open_sessions cs (h0, ws0) = (h, ws)"
  shows "length ws = length ws0 + length cs"
    and "cs \<noteq> [] \<Longrightarrow> h FrameTypePong = Some (pong_handler (length ws - 1))"
    and "ft \<noteq> FrameTypePong \<Longrightarrow> h ft = h0 ft"
  using assms
proof (induction cs arbitrary: h0 ws0)
  case (Cons c cs)
  obtain cbc bp rp where c: "c = (cbc, bp, rp)" by (cases c)
  {
    case 1 then show ?case using Cons.IH(1) c by (fastforce simp: open_session_def)
  next
    case 2 then show ?case
      using Cons.IH(1,2) c by (cases "cs = []") (auto simp: open_session_def HandleFunc_def)
  next
    case 3 then show ?case using Cons.IH(3) c by (fastforce simp: open_session_def HandleFunc_def)
  }
qed simp_all

text \<open>A heartbeat touches one session only.\<close>

lemma Heartbeat_sent:
  "Heartbeat e a ws =
     (if ws_state (ws ! a) \<noteq> StateWork then (Some ErrConnClose, ws[a := ws ! a])
      else case deadline_error (e a) of
        Some err \<Rightarrow> (Some err, ws[a := ws ! a])
      | None \<Rightarrow> (case write_error (e a) of
          Some err \<Rightarrow> (Some err, ws[a := ws ! a])
        | None \<Rightarrow> (None, ws[a := (ws ! a)\<lparr>sent := sent (ws ! a) @ [frame_bytes FrameTypeHeartbeatS [] []]\<rparr>])))"
proof -
  have "elems (base FrameHeartbeatS) = frame_bytes FrameTypeHeartbeatS [] []" by code_simp
  moreover have "FrameHeadLength \<le> GetFrameLength FrameHeartbeatS" by code_simp
  ultimately show ?thesis by (simp add: Heartbeat_def WriteFrameDataPromptly_def split: option.splits)
qed

section \<open>Properties\<close>

text \<open>an answer to a probe closes the breaker of the session that was made last, whichever session it arrives on and
  whichever had asked: every other breaker keeps its state and its token, and stays open.\<close>

theorem pong_closes_last_breaker:
  assumes "open_sessions cs (NewHandler, []) = (h, ws0)" "cs \<noteq> []" "length ws = length cs"
  shows "route h FrameTypePong se ws = Returned None (butlast ws @ [sessionTCPPong (last ws)])"
proof -
  have "h FrameTypePong = Some (pong_handler (length ws - 1))"
    using open_sessions_table(1,2) [OF assms(1)] assms(2,3) by simp
  moreover have "ws \<noteq> []" using assms(2,3) by auto
  then have "ws[length ws - 1 := sessionTCPPong (ws ! (length ws - 1))] = butlast ws @ [sessionTCPPong (last ws)]"
    by (cases ws rule: rev_cases) (simp_all add: list_update_append)
  ultimately show ?thesis by (simp add: route_def pong_handler_def)
qed

text \<open>Two sessions with their breakers open, the first one with a probe out: its answer closes the second breaker.\<close>

definition probed :: "CircuitBreakerConfigure \<Rightarrow> bool \<Rightarrow> writer" where
  "probed cbc p = (let w = NewSessionTCP cbc [] [] in
     w\<lparr>circuitBreaker := map_option (\<lambda>cb. cb\<lparr>cb_state := StateCircuitBreakerOpen,
        halfOpenToken := if p then StateCircuitBreakerHalfOpen else 0\<rparr>) (circuitBreaker w)\<rparr>)"

lemma pong_closes_last_breaker_witness:
  "let c = NewCircuitBreakerConfigure; (h, ws0) = open_sessions [(c, [], []), (c, [], [])] (NewHandler, []);
       ws = [probed c True, probed c False]
   in \<forall>se. \<exists>ws'. route h FrameTypePong se ws = Returned None ws'
     \<and> map (map_option cb_state \<circ> circuitBreaker) ws' = [Some StateCircuitBreakerOpen, Some StateCircuitBreakerClosed]
     \<and> map (map_option halfOpenToken \<circ> circuitBreaker) ws' = [Some StateCircuitBreakerHalfOpen, Some 0]"
proof -
  define c where "c = NewCircuitBreakerConfigure"
  obtain h ws0 where o: "open_sessions [(c, [], []), (c, [], [])] (NewHandler, []) = (h, ws0)" by fastforce
  have "route h FrameTypePong se [probed c True, probed c False] = Returned None [probed c True, sessionTCPPong (probed c False)]" for se
    using pong_closes_last_breaker [OF o, of "[probed c True, probed c False]"] by simp
  then show ?thesis using o
    by (auto simp: c_def [symmetric] Let_def probed_def sessionTCPPong_def NewSessionTCP_def newSlot_def install_slot_def
        SetCircuitBreakerPass_def)
qed

end
