(* ===== verification/Etcd.thy ===== *)
theory Etcd
  imports ClusterSpec
begin

text \<open>
  \<open>sidecar/etcd.go\<close> and \<open>sidecar/peer.go\<close>: registration of a node in the directory, the choice of its
  machine id, and the translation of the directory's watch events into messages for \<open>Run\<close>. The
  directory itself (the etcd client) is not modelled: its answers are arguments.
\<close>

section \<open>Machine ids\<close>

definition MaxWorkNumber :: int where
  "MaxWorkNumber = 1024"

record Info =
  info_Name :: string
  info_Address :: string
  info_HTTPPort :: string
  info_TCPPort :: string
  info_ID :: i64
  info_MachineID :: int

text \<open>A key and its value, decoded from JSON or not decodable.\<close>

type_synonym kv = "u8 list \<times> Info option"

datatype id_error = GetFailed | BadJson | NoFreeId

text \<open>
  The loop over the registered nodes: it appends each to \<open>initAddress\<close> and collects the ids. The flag is
  false when a value could not be decoded; \<^const>\<open>None\<close> is the panic on a key that is too short.
\<close>

fun collect_ids :: "nat \<Rightarrow> kv list \<Rightarrow> Info list \<Rightarrow> int list \<Rightarrow> (bool \<times> Info list \<times> int list) option" where
  "collect_ids l [] ini queue = Some (True, ini, queue)"
| "collect_ids l ((key, None) # kvs) ini queue = Some (False, ini, queue)"
| "collect_ids l ((key, Some address) # kvs) ini queue = do {
     s \<leftarrow> reslice (of_list key) (int l) (int (length key));
     i \<leftarrow> BytesToUint16 s;
     let m = uint i;
     collect_ids l kvs (ini @ [address]) (if m > -1 \<and> m < MaxWorkNumber then queue @ [m] else queue) }"

text \<open>\<open>for i := range queue\<close>: the first index below its element, or -1.\<close>

fun gap_loop :: "int list \<Rightarrow> int \<Rightarrow> int" where
  "gap_loop [] i = -1"
| "gap_loop (q # qs) i = (if i < q then i else gap_loop qs (i + 1))"

definition free_id :: "int list \<Rightarrow> id_error + int" where
  "free_id queue =
     (if queue = [] then Inr 0
      else
       (let queue = sort queue;
            n = gap_loop queue 0;
            n = (if n = -1 \<and> int (length queue) < MaxWorkNumber then int (length queue) else n)
        in if n = -1 then Inl NoFreeId else Inr n))"

definition getMachineID :: "u8 list \<Rightarrow> kv list option \<Rightarrow> Info list \<Rightarrow> ((id_error + int) \<times> Info list) option" where
  "getMachineID NodePrefix resp ini =
     (case resp of
        None \<Rightarrow> Some (Inl GetFailed, ini)
      | Some kvs \<Rightarrow> do {
          (decoded, ini, queue) \<leftarrow> collect_ids (length NodePrefix) kvs ini [];
          Some (if decoded then free_id queue else Inl BadJson, ini) })"

definition NodePrefix :: "u8 list" where "NodePrefix = ascii ''machine/''"

definition registerKey :: "u16 \<Rightarrow> u8 list" where
  "registerKey i = (let key = NodePrefix @ ascii ''aa'' in overwrite key (length NodePrefix) (bytes16 i))"

text \<open>
  \<open>RegisterServer\<close>: the answers of the directory to the calls in order (connect, session, lock, the
  nodes found, lease, JSON, put, keep-alive), and the result with \<open>initAddress\<close> and the key written.
\<close>

record register_answers =
  ans_connect :: bool
  ans_session :: bool
  ans_lock :: bool
  ans_nodes :: "kv list option"
  ans_grant :: "i64 option"
  ans_json :: bool
  ans_put :: bool
  ans_keepalive :: bool

datatype register_error = ConnectFailed | SessionFailed | LockFailed | IdFailed id_error | GrantFailed | JsonFailed | PutFailed | KeepAliveFailed

definition RegisterServer ::
  "register_answers \<Rightarrow> Info \<Rightarrow> Info list \<Rightarrow> ((register_error + i64 \<times> int) \<times> Info list \<times> u8 list option) option" where
  "RegisterServer a info ini =
     (if \<not> ans_connect a then Some (Inl ConnectFailed, ini, None)
      else (let ini = ini @ [info] in
        if \<not> ans_session a then Some (Inl SessionFailed, ini, None)
        else if \<not> ans_lock a then Some (Inl LockFailed, ini, None)
        else do {
          (r, ini) \<leftarrow> getMachineID NodePrefix (ans_nodes a) ini;
          case r of
            Inl e \<Rightarrow> Some (Inl (IdFailed e), ini[0 := (ini ! 0)\<lparr>info_MachineID := -1\<rparr>], None)
          | Inr n \<Rightarrow>
             (let ini = ini[0 := (ini ! 0)\<lparr>info_MachineID := n\<rparr>] in
              case ans_grant a of
                None \<Rightarrow> Some (Inl GrantFailed, ini, None)
              | Some lease \<Rightarrow>
                 (let ini = ini[0 := (ini ! 0)\<lparr>info_ID := lease\<rparr>];
                      key = registerKey (of_int n)
                  in if \<not> ans_json a then Some (Inl JsonFailed, ini, None)
                     else if \<not> ans_put a then Some (Inl PutFailed, ini, None)
                     else if \<not> ans_keepalive a then Some (Inl KeepAliveFailed, ini, Some key)
                     else Some (Inr (lease, n), ini, Some key))) }))"

section \<open>Watching\<close>

datatype watch_event = EvPut "u8 list" "u8 list" | EvDelete "u8 list"

datatype watch_batch = NodeWatch "watch_event list" | StateWatch "watch_event list" | ChannelWatch "watch_event list"

definition node_event :: "watch_event \<Rightarrow> 's cluster_msg list option" where
  "node_event ev =
     (case ev of
        EvDelete k \<Rightarrow> do { i \<leftarrow> getNodeID k; Some [NodeMsg \<lparr>nm_id = i, nm_ss = None, nm_operation = 2\<rparr>] }
      | EvPut k v \<Rightarrow> Some [])"

definition state_event :: "watch_event \<Rightarrow> 's cluster_msg list option" where
  "state_event ev =
     (case ev of
        EvPut k v \<Rightarrow> do { sm \<leftarrow> bytesTOStateMsg v; Some [StateMsg (sm\<lparr>sm_operation := 1\<rparr>)] }
      | EvDelete k \<Rightarrow> Some [])"

definition channel_event :: "watch_event \<Rightarrow> 's cluster_msg list option" where
  "channel_event ev =
     (case ev of
        EvPut k v \<Rightarrow> do { cm \<leftarrow> valueTOChannelMsg v; Some [ChannelMsg (cm\<lparr>cm_operation := 1\<rparr>)] }
      | EvDelete k \<Rightarrow> do { cm \<leftarrow> keyTOChannelMsg k; Some [ChannelMsg (cm\<lparr>cm_operation := 2\<rparr>)] })"

fun each_event :: "(watch_event \<Rightarrow> 's cluster_msg list option) \<Rightarrow> watch_event list \<Rightarrow> 's cluster_msg list option" where
  "each_event f [] = Some []"
| "each_event f (e # es) = do { ms \<leftarrow> f e; ns \<leftarrow> each_event f es; Some (ms @ ns) }"

text \<open>One turn of \<open>run\<close>: the messages sent for a batch of events.\<close>

definition etcd_run_turn :: "watch_batch \<Rightarrow> 's cluster_msg list option" where
  "etcd_run_turn b =
     (case b of
        NodeWatch es \<Rightarrow> each_event node_event es
      | StateWatch es \<Rightarrow> each_event state_event es
      | ChannelWatch es \<Rightarrow> each_event channel_event es)"

section \<open>The least free id\<close>

lemma gap_loop_spec:
  "sorted qs \<Longrightarrow> distinct qs \<Longrightarrow> \<forall>q\<in>set qs. i \<le> q \<Longrightarrow> 0 \<le> i \<Longrightarrow>
   (if gap_loop qs i = -1 then set qs = {i..<i + int (length qs)}
    else i \<le> gap_loop qs i \<and> gap_loop qs i < i + int (length qs) \<and> gap_loop qs i \<notin> set qs \<and> {i..<gap_loop qs i} \<subseteq> set qs)"
proof (induction qs arbitrary: i)
  case (Cons q qs)
  show ?case
  proof (cases "i < q")
    case True
    then show ?thesis using Cons.prems by auto
  next
    case False
    then have q: "q = i" using Cons.prems(3) by simp
    have "\<forall>q'\<in>set qs. i + 1 \<le> q'"
    proof
      fix q' assume "q' \<in> set qs"
      then have "q \<le> q'" "q' \<noteq> q" using Cons.prems(1,2) by auto
      then show "i + 1 \<le> q'" using q by simp
    qed
    then have IH: "if gap_loop qs (i + 1) = -1 then set qs = {i + 1..<i + 1 + int (length qs)}
      else i + 1 \<le> gap_loop qs (i + 1) \<and> gap_loop qs (i + 1) < i + 1 + int (length qs)
        \<and> gap_loop qs (i + 1) \<notin> set qs \<and> {i + 1..<gap_loop qs (i + 1)} \<subseteq> set qs"
      using Cons by simp
    have ins: "{i..<k} = insert i {i + 1..<k}" if "i < k" for k using that by auto
    have "gap_loop (q # qs) i = gap_loop qs (i + 1)" using False by simp
    moreover have "i < i + int (length (q # qs))" by simp
    ultimately show ?thesis using IH q ins by (auto split: if_splits)
  qed
qed simp

lemma free_id_spec:
  assumes "distinct queue" "\<forall>q\<in>set queue. 0 \<le> q \<and> q < MaxWorkNumber"
  shows "case free_id queue of
      Inr n \<Rightarrow> 0 \<le> n \<and> n < MaxWorkNumber \<and> n \<notin> set queue \<and> {0..<n} \<subseteq> set queue
    | Inl e \<Rightarrow> e = NoFreeId \<and> set queue = {0..<MaxWorkNumber}"
proof (cases "queue = []")
  case True
  then show ?thesis by (simp add: free_id_def MaxWorkNumber_def)
next
  case False
  have sub: "set queue \<subseteq> {0..<MaxWorkNumber}" using assms(2) by auto
  have "card (set queue) \<le> card {0..<MaxWorkNumber}" by (rule card_mono [OF _ sub]) simp
  then have len: "int (length queue) \<le> MaxWorkNumber"
    using assms(1) by (simp add: distinct_card MaxWorkNumber_def)
  let ?g = "gap_loop (sort queue) 0"
  have "if ?g = -1 then set queue = {0..<int (length queue)}
    else 0 \<le> ?g \<and> ?g < int (length queue) \<and> ?g \<notin> set queue \<and> {0..<?g} \<subseteq> set queue"
    using gap_loop_spec [of "sort queue" 0] assms by (simp split: if_splits)
  then show ?thesis using False len by (auto simp: free_id_def Let_def)
qed

lemma registerKey_bytes: "registerKey i = NodePrefix @ bytes16 i"
  by (simp add: registerKey_def NodePrefix_def overwrite_def ascii_def Let_def)

lemma key_id:
  "reslice (of_list (p @ bytes16 i)) (int (length p)) (int (length (p @ bytes16 i))) = Some (Slice (bytes16 i) 2)"
  "BytesToUint16 (Slice (bytes16 i) 2) = Some i"
  using read16(1) [of "p @ bytes16 i" p i "[]" "int (length p)" "2 + int (length p)"]
    read16(2) [OF refl refl refl, of i "[]"] by (simp_all add: add.commute)

text \<open>The table of registered nodes under its own keys.\<close>

definition node_kvs :: "(u16 \<times> Info) list \<Rightarrow> kv list" where
  "node_kvs ns = map (\<lambda>(i, a). (registerKey i, Some a)) ns"

lemma collect_node_kvs:
  assumes "\<forall>n\<in>set ns. uint (fst n) < 1024"
  shows "collect_ids (length NodePrefix) (node_kvs ns) ini q = Some (True, ini @ map snd ns, q @ map (\<lambda>n. uint (fst n)) ns)"
  using assms
proof (induction ns arbitrary: ini q)
  case (Cons n ns)
  then show ?case
    using key_id(1) [of NodePrefix "fst n"] key_id(2) [of "fst n"]
    by (cases n) (auto simp: node_kvs_def registerKey_bytes MaxWorkNumber_def Let_def intro: less_le_trans [of _ 0])
qed (simp add: node_kvs_def)


section \<open>Registrations in turn\<close>

text \<open>
  The registrations are serialised by the lock: each sees the keys of the nodes alive. A node leaves
  when its lease ends.
\<close>

datatype node_ev = Join register_answers Info | Leave u16

definition join_id :: "register_answers \<Rightarrow> Info \<Rightarrow> (u16 \<times> Info) list \<Rightarrow> int option" where
  "join_id a info ns =
     (case RegisterServer (a\<lparr>ans_nodes := Some (node_kvs ns)\<rparr>) info [] of
        Some (Inr (lease, n), ini, key) \<Rightarrow> Some n
      | _ \<Rightarrow> None)"

fun node_step :: "(u16 \<times> Info) list \<Rightarrow> node_ev \<Rightarrow> (u16 \<times> Info) list" where
  "node_step ns (Join a info) = (case join_id a info ns of Some n \<Rightarrow> ns @ [(of_int n, info)] | None \<Rightarrow> ns)"
| "node_step ns (Leave i) = filter (\<lambda>n. fst n \<noteq> i) ns"

definition nodes_inv :: "(u16 \<times> Info) list \<Rightarrow> bool" where
  "nodes_inv ns \<longleftrightarrow> distinct (map fst ns) \<and> (\<forall>n\<in>set ns. uint (fst n) < 1024)"

lemma distinct_ids: "distinct (map fst ns) \<Longrightarrow> distinct (map (\<lambda>n. uint (fst n)) ns)"
  by (induction ns) (auto simp: image_iff word_uint_eq_iff)

lemma getMachineID_nodes:
  assumes "nodes_inv ns"
  shows "getMachineID NodePrefix (Some (node_kvs ns)) ini = Some (free_id (map (\<lambda>n. uint (fst n)) ns), ini @ map snd ns)"
  using assms collect_node_kvs [of ns ini "[]"] by (simp add: getMachineID_def nodes_inv_def)

lemma uint_small: "0 \<le> k \<Longrightarrow> k < 1024 \<Longrightarrow> uint (of_int k :: u16) = k"
  by (simp add: unsigned_of_int take_bit_int_eq_self)

lemma join_id_spec:
  assumes "nodes_inv ns" "join_id a info ns = Some n"
  shows "0 \<le> n \<and> n < 1024 \<and> of_int n \<notin> fst ` set ns \<and> (\<forall>k. 0 \<le> k \<and> k < n \<longrightarrow> of_int k \<in> fst ` set ns)"
proof -
  let ?q = "map (\<lambda>n. uint (fst n)) ns"
  have free: "free_id ?q = Inr n"
    using assms getMachineID_nodes [OF assms(1)]
    by (auto simp: join_id_def RegisterServer_def Let_def split: if_splits option.splits sum.splits bind_splits prod.splits)
  have "distinct ?q" "\<forall>q\<in>set ?q. 0 \<le> q \<and> q < MaxWorkNumber"
    using assms(1) distinct_ids by (auto simp: nodes_inv_def MaxWorkNumber_def)
  from free_id_spec [OF this] free have n: "0 \<le> n" "n < 1024" "n \<notin> set ?q" "{0..<n} \<subseteq> set ?q"
    by (simp_all add: MaxWorkNumber_def)
  have "of_int n \<notin> fst ` set ns" using n(3) uint_small [OF n(1,2)] by force
  moreover have "of_int k \<in> fst ` set ns" if "0 \<le> k" "k < n" for k
  proof -
    have "k \<in> set ?q" using n(4) that by auto
    then obtain m where "m \<in> set ns" "k = uint (fst m)" by auto
    then show ?thesis by force
  qed
  ultimately show ?thesis using n by blast
qed

interpretation nodes: run_invariant node_step nodes_inv "\<lambda>_. True"
proof
  fix ns e assume i: "nodes_inv ns"
  show "nodes_inv (node_step ns e)"
  proof (cases e)
    case (Join a info)
    show ?thesis
    proof (cases "join_id a info ns")
      case (Some n)
      note n = join_id_spec [OF i Some]
      then have "uint (of_int n :: u16) < 1024" by (simp add: uint_small)
      then show ?thesis using n i Join Some by (auto simp: nodes_inv_def)
    qed (use i Join in simp)
  next
    case (Leave j)
    have "distinct (map fst (filter (\<lambda>n. fst n \<noteq> j) ns))" using i by (simp add: nodes_inv_def distinct_map_filter)
    then show ?thesis using i Leave by (simp add: nodes_inv_def)
  qed
qed

section \<open>Subscriptions seen by every node\<close>

text \<open>The directory operations on subscriptions and the event a watcher gets for each.\<close>

datatype dir_op = Sub u16 u16 | Unsub u16 u16

fun dir_event :: "dir_op \<Rightarrow> watch_event" where
  "dir_event (Sub ch i) = EvPut (channelKey i ch) (channelValue i ch)"
| "dir_event (Unsub ch i) = EvDelete (channelKey i ch)"

fun dir_apply :: "dir_op \<Rightarrow> (u16 \<times> u16) set \<Rightarrow> (u16 \<times> u16) set" where
  "dir_apply (Sub ch i) D = insert (ch, i) D"
| "dir_apply (Unsub ch i) D = D - {(ch, i)}"

text \<open>A subscription is put when it is absent.\<close>

fun dir_valid :: "(u16 \<times> u16) set \<Rightarrow> dir_op list \<Rightarrow> bool" where
  "dir_valid D [] = True"
| "dir_valid D (Sub ch i # ops) = ((ch, i) \<notin> D \<and> dir_valid (dir_apply (Sub ch i) D) ops)"
| "dir_valid D (Unsub ch i # ops) = dir_valid (dir_apply (Unsub ch i) D) ops"

definition tracks :: "'s cluster \<Rightarrow> (u16 \<times> u16) set \<Rightarrow> bool" where
  "tracks c D \<longleftrightarrow> (\<forall>ch. distinct (members c ch) \<and> set (members c ch) = {i. (ch, i) \<in> D})"

fun dir_msg :: "dir_op \<Rightarrow> 's cluster_msg" where
  "dir_msg (Sub ch i) = ChannelMsg \<lparr>cm_id = i, cm_channel = ch, cm_operation = 1\<rparr>"
| "dir_msg (Unsub ch i) = ChannelMsg \<lparr>cm_id = i, cm_channel = ch, cm_operation = 2\<rparr>"

lemma watch_dir_events: "etcd_run_turn (ChannelWatch (map dir_event ops)) = Some (map dir_msg ops)"
proof -
  have "each_event channel_event (map dir_event ops) = Some (map dir_msg ops)"
  proof (induction ops)
    case (Cons op ops)
    then show ?case by (cases op) (simp_all add: channel_event_def key_value_decode)
  qed simp
  then show ?thesis by (simp add: etcd_run_turn_def)
qed

lemma tracks_step:
  assumes "tracks c D" "buckets_ok n (cl_channels c)" "Suc n < 2 ^ 32" "dir_valid D (op # ops)"
  shows "\<exists>c'. cluster_step c (dir_msg op) = Some (c', [], False) \<and> tracks c' (dir_apply op D)
    \<and> buckets_ok (Suc n) (cl_channels c') \<and> dir_valid (dir_apply op D) ops"
proof (cases op)
  case (Sub ch i)
  let ?cc = "\<lparr>cm_id = i, cm_channel = ch, cm_operation = 1\<rparr>"
  define c' where "c' = c\<lparr>cl_channels := (cl_channels c)(ch \<mapsto> bucket_add newBucket (members c ch) i)\<rparr>"
  have turn: "channel_turn c ?cc = (c', [])" by (simp add: channel_turn_add c'_def)
  have "members c' k = (if k = ch then members c ch @ [i] else members c k)" for k
    by (simp add: members_def c'_def bucket_add_newBucket)
  then have "tracks c' (dir_apply op D)" using assms(1,4) Sub by (auto simp: tracks_def)
  moreover have "buckets_ok (Suc n) (cl_channels c')" using channel_turn_ok [OF assms(2,3) turn] by simp
  ultimately show ?thesis using Sub turn assms(4) by simp
next
  case (Unsub ch i)
  let ?cc = "\<lparr>cm_id = i, cm_channel = ch, cm_operation = 2\<rparr>"
  obtain t where t: "channel_turn c ?cc = (c\<lparr>cl_channels := t\<rparr>, [])" "buckets_ok n t"
    "members (c\<lparr>cl_channels := t\<rparr>) ch = remove1 i (members c ch)" "\<forall>k. k \<noteq> ch \<longrightarrow> t k = cl_channels c k"
    using channel_turn_remove [of ?cc n c] assms(2,3) by auto
  have "members (c\<lparr>cl_channels := t\<rparr>) k = (if k = ch then remove1 i (members c ch) else members c k)" for k
    using t(3,4) by (simp add: members_def)
  then have "tracks (c\<lparr>cl_channels := t\<rparr>) (dir_apply op D)"
    using assms(1) Unsub by (auto simp: tracks_def set_remove1_eq)
  then show ?thesis using Unsub t(1,2) assms(4) by (auto intro: buckets_ok_Suc)
qed

lemma tracks_run:
  "tracks c D \<Longrightarrow> buckets_ok n (cl_channels c) \<Longrightarrow> n + length ops < 2 ^ 32 \<Longrightarrow> dir_valid D ops \<Longrightarrow>
   \<exists>c'. cluster_run c (map dir_msg ops) = Some (c', []) \<and> tracks c' (fold dir_apply ops D)"
proof (induction ops arbitrary: c D n)
  case (Cons op ops)
  then obtain c1 where c1: "cluster_step c (dir_msg op) = Some (c1, [], False)" "tracks c1 (dir_apply op D)"
    "buckets_ok (Suc n) (cl_channels c1)" "dir_valid (dir_apply op D) ops"
    using tracks_step [of c D n op ops] by auto
  with Cons.IH [OF c1(2,3) _ c1(4)] Cons.prems(3) show ?case by auto
qed simp

section \<open>Properties\<close>

text \<open>
  \<open>getMachineID\<close> gives a new node the least id below 1024 that no registered node has, and an
  error exactly when all 1024 are taken.
\<close>

theorem machine_id_least_free:
  assumes "nodes_inv ns"
  shows "\<exists>r. getMachineID NodePrefix (Some (node_kvs ns)) ini = Some (r, ini @ map snd ns) \<and>
    (case r of
       Inr n \<Rightarrow> 0 \<le> n \<and> n < 1024 \<and> n \<notin> (\<lambda>m. uint (fst m)) ` set ns \<and> {0..<n} \<subseteq> (\<lambda>m. uint (fst m)) ` set ns
     | Inl e \<Rightarrow> e = NoFreeId \<and> (\<lambda>m. uint (fst m)) ` set ns = {0..<1024})"
proof -
  let ?q = "map (\<lambda>n. uint (fst n)) ns"
  have "distinct ?q" "\<forall>q\<in>set ?q. 0 \<le> q \<and> q < MaxWorkNumber"
    using assms distinct_ids by (auto simp: nodes_inv_def MaxWorkNumber_def)
  from free_id_spec [OF this] show ?thesis
    using getMachineID_nodes [OF assms, of ini] by (auto simp: MaxWorkNumber_def split: sum.splits)
qed

lemma machine_id_least_free_witness:
  "\<forall>a b. \<exists>r. getMachineID NodePrefix (Some (node_kvs [(0, a), (2, b)])) [] = Some (r, [a, b])"
  using machine_id_least_free [of "[(0, _), (2, _)]" "[]"] by (auto simp: nodes_inv_def)



text \<open>
  The tables of every node replicate the directory: when each subscription is put only while it is
  absent, the watch events of any history of subscriptions and cancellations, run through \<open>run\<close> and \<open>Run\<close>,
  leave in each channel exactly the machines subscribed to it, once each.
\<close>

theorem directory_replicated:
  assumes "tracks c D" "buckets_ok n (cl_channels c)" "n + length ops < 2 ^ 32" "dir_valid D ops"
  shows "\<exists>ms c'. etcd_run_turn (ChannelWatch (map dir_event ops)) = Some ms \<and> cluster_run c ms = Some (c', [])
    \<and> tracks c' (fold dir_apply ops D)"
  using tracks_run [OF assms] watch_dir_events by blast

lemma directory_replicated_witness:
  "\<exists>ms c'. etcd_run_turn (ChannelWatch (map dir_event [Sub 7 2, Sub 7 3, Unsub 7 2])) = Some ms
     \<and> cluster_run \<lparr>cl_sessions = [], cl_channels = \<lambda>_. None, machineID = 0, cl_state = 2\<rparr> ms = Some (c', [])
     \<and> tracks c' (fold dir_apply [Sub 7 2, Sub 7 3, Unsub 7 2] {})"
  by (rule directory_replicated [where n = 0]) (simp_all add: tracks_def members_def buckets_ok_def)

text \<open>
  The side condition is needed: a subscription put twice (the directory keeps one key, but reports
  two events) adds the machine twice, and one cancellation then leaves it in the table of every node
  although the directory has no such subscription any more.
\<close>

theorem ghost_subscription:
  assumes "tracks c D" "(ch, i) \<notin> D" "buckets_ok n (cl_channels c)" "n + 3 < 2 ^ 32"
  shows "\<exists>ms c'. etcd_run_turn (ChannelWatch (map dir_event [Sub ch i, Sub ch i, Unsub ch i])) = Some ms
    \<and> cluster_run c ms = Some (c', []) \<and> i \<in> set (members c' ch)
    \<and> (ch, i) \<notin> fold dir_apply [Sub ch i, Sub ch i, Unsub ch i] D"
proof -
  let ?p = "\<lparr>cm_id = i, cm_channel = ch, cm_operation = 1\<rparr>" and ?d = "\<lparr>cm_id = i, cm_channel = ch, cm_operation = 2\<rparr>"
  define c1 where "c1 = fst (channel_turn c ?p)"
  define c2 where "c2 = fst (channel_turn c1 ?p)"
  have t1: "channel_turn c ?p = (c1, [])" and m1: "members c1 ch = members c ch @ [i]"
    by (simp_all add: channel_turn_add c1_def members_def [of "_ \<lparr>cl_channels := _\<rparr>"] bucket_add_newBucket)
  have t2: "channel_turn c1 ?p = (c2, [])" and m2: "members c2 ch = members c ch @ [i, i]"
    using m1 by (simp_all add: channel_turn_add c2_def members_def [of "_ \<lparr>cl_channels := _\<rparr>"] bucket_add_newBucket)
  have b1: "buckets_ok (Suc n) (cl_channels c1)" using channel_turn_ok [OF assms(3) _ t1] assms(4) by simp
  have b2: "buckets_ok (Suc (Suc n)) (cl_channels c2)" using channel_turn_ok [OF b1 _ t2] assms(4) by simp
  obtain t where t: "channel_turn c2 ?d = (c2\<lparr>cl_channels := t\<rparr>, [])"
    "members (c2\<lparr>cl_channels := t\<rparr>) ch = remove1 i (members c2 ch)"
    using channel_turn_remove [of ?d "Suc (Suc n)" c2] b2 assms(4) by auto
  have "i \<in> set (remove1 i (members c2 ch))"
    using assms(1,2) by (simp add: m2 tracks_def remove1_append)
  then show ?thesis
    using t1 t2 t watch_dir_events [of "[Sub ch i, Sub ch i, Unsub ch i]"]
    by (intro exI [of _ "map dir_msg [Sub ch i, Sub ch i, Unsub ch i]"] exI [of _ "c2\<lparr>cl_channels := t\<rparr>"]) simp
qed

lemma ghost_subscription_witness:
  "\<exists>ms c'. etcd_run_turn (ChannelWatch (map dir_event [Sub 7 2, Sub 7 2, Unsub 7 2])) = Some ms
     \<and> cluster_run \<lparr>cl_sessions = [], cl_channels = \<lambda>_. None, machineID = 0, cl_state = 2\<rparr> ms = Some (c', [])
     \<and> 2 \<in> set (members c' 7) \<and> (7, 2) \<notin> fold dir_apply [Sub 7 2, Sub 7 2, Unsub 7 2] {}"
  by (rule ghost_subscription [where n = 0]) (simp_all add: tracks_def members_def buckets_ok_def)

end
