(* ===== verification/Connect.thy ===== *)
theory Connect
  imports SessionRead
begin

text \<open>
  How a connection comes about: \<open>NewClientTCP\<close> of \<open>transport/tcp_client.go\<close> on one side, the loop of \<open>Run\<close> of
  \<open>transport/tcp_server.go\<close> on the other. What the network answers is an argument.
\<close>

section \<open>The client\<close>

text \<open>The answers in the order of the calls; \<^const>\<open>None\<close> is a nil error. A connection is \<open>'c\<close>.\<close>

record 'c dial_io =
  io_resolve :: "nat option"
  io_dial :: "nat + 'c"
  io_nodelay :: "nat option"
  io_deadline :: "nat option"
  io_write :: "nat option"

datatype client_error = NoHandler | ResolveFailed nat | DialError nat | NoDelayFailed | DeadlineFailed nat | MagicFailed nat

record 'c ClientTCP =
  cl_conn :: 'c
  cl_url :: string
  cl_wrote :: "u8 list"

text \<open>
  \<^const>\<open>None\<close> is a panic. After a failed \<open>SetNoDelay\<close> the code calls \<open>Error\<close> on the error of \<open>DialTCP\<close>,
  which is nil there. The list are the connections whose session is closed again.
\<close>

definition NewClientTCP :: "string \<Rightarrow> bool \<Rightarrow> 'c dial_io \<Rightarrow> ((client_error + 'c ClientTCP) \<times> 'c list) option" where
  "NewClientTCP url h io =
     (if \<not> h then Some (Inl NoHandler, [])
      else case io_resolve io of
        Some e \<Rightarrow> Some (Inl (ResolveFailed e), [])
      | None \<Rightarrow>
        (case io_dial io of
          Inl e \<Rightarrow> Some (Inl (DialError e), [])
        | Inr conn \<Rightarrow>
          (if io_nodelay io \<noteq> None then None
           else case io_deadline io of
             Some e \<Rightarrow> Some (Inl (DeadlineFailed e), [conn])
           | None \<Rightarrow>
             (let pmn = CopyUint32 (replicate 4 0) ProtocolMagicNumber
              in case io_write io of
                Some e \<Rightarrow> Some (Inl (MagicFailed e), [conn])
              | None \<Rightarrow> Some (Inr \<lparr>cl_conn = conn, cl_url = url, cl_wrote = pmn\<rparr>, [])))))"

section \<open>The server\<close>

datatype 'c accept = Accepted 'c | Temporary | Closed | Permanent nat

text \<open>\<open>server_run\<close>: the connections for which \<open>tcpReceive\<close> is started, and whether the loop has ended.\<close>

fun server_run :: "'c accept list \<Rightarrow> 'c list \<times> bool" where
  "server_run [] = ([], False)"
| "server_run (Accepted conn # as) = (let (cs, e) = server_run as in (conn # cs, e))"
| "server_run (Temporary # as) = server_run as"
| "server_run (Closed # as) = ([], True)"
| "server_run (Permanent n # as) = ([], True)"

section \<open>Both sides\<close>

fun stops :: "'c accept \<Rightarrow> bool" where
  "stops Closed = True" | "stops (Permanent n) = True" | "stops _ = False"

fun conns :: "'c accept \<Rightarrow> 'c list" where
  "conns (Accepted c) = [c]" | "conns _ = []"

lemma server_run_spec:
  "server_run as = (concat (map conns (takeWhile (\<lambda>a. \<not> stops a) as)), list_ex stops as)"
proof (induction as)
  case (Cons a as)
  then show ?case by (cases a) auto
qed simp

lemma read_magic: "readUint32 (ReadBytes (bytes32 n) None) = Inr n"
proof -
  have "overwrite (replicate 4 0) 0 (bytes32 n) = bytes32 n" by (simp add: overwrite_def)
  moreover have "BytesToUint32 (of_list (bytes32 n)) = Some n" by (simp add: u32.dec_enc)
  ultimately show ?thesis
    by (simp add: readUint32_def BytesToUint32_def sl_at_def bytes32_def of_list_def)
qed

section \<open>Properties\<close>

text \<open>what a new client has written, read at once, opens its connection: \<open>tcpReceive\<close> goes on to its loop exactly as if there
  were no opening word.\<close>

theorem client_is_admitted:
  assumes "NewClientTCP url True io = Some (Inr cli, closed)"
  shows "closed = [] \<and> tcpReceive fuel h lim se s l w (ReadBytes (cl_wrote cli) None) cs
    = (case ioLoop fuel h lim se s l w cs of
         None \<Rightarrow> None
       | Some (IoWaiting s' l' w') \<Rightarrow> Some (ClientWaiting s' l' w')
       | Some (IoReturned e l' w') \<Rightarrow> Some (ClientClosed l' (sessClose se w')))"
proof -
  have "cl_wrote cli = bytes32 ProtocolMagicNumber" "closed = []"
    using assms by (auto simp: NewClientTCP_def gocopy_CopyUint split: option.splits sum.splits if_splits)
  then show ?thesis by (simp add: tcpReceive_def read_magic protocolMagic_def)
qed

lemma client_is_admitted_witness:
  "\<exists>cli. NewClientTCP '':9'' True \<lparr>io_resolve = None, io_dial = Inr (1 :: nat), io_nodelay = None, io_deadline = None, io_write = None\<rparr> = Some (Inr cli, [])
    \<and> tcpReceive 9 NewHandler (\<lambda>n l. l) idle_session \<lparr>rBuf = [], rd_w = 0, rd_r = 0\<rparr> () 0 (ReadBytes (cl_wrote cli) None) []
      = Some (ClientWaiting \<lparr>rBuf = [], rd_w = 0, rd_r = 0\<rparr> () 0)"
proof -
  obtain cli where c: "NewClientTCP '':9'' True \<lparr>io_resolve = None, io_dial = Inr (1 :: nat), io_nodelay = None, io_deadline = None, io_write = None\<rparr> = Some (Inr cli, [])"
    by (simp add: NewClientTCP_def Let_def)
  then show ?thesis
    using client_is_admitted [OF c, of 9 NewHandler "\<lambda>n l. l" idle_session "\<lparr>rBuf = [], rd_w = 0, rd_r = 0\<rparr>" "()" 0 "[]"] by simp
qed

text \<open>The client panics exactly when the connection is there and \<open>SetNoDelay\<close> fails on it.\<close>

lemma client_panics_iff:
  "NewClientTCP url h io = None \<longleftrightarrow> h \<and> io_resolve io = None \<and> (\<exists>c. io_dial io = Inr c) \<and> io_nodelay io \<noteq> None"
  by (auto simp: NewClientTCP_def Let_def split: option.splits sum.splits)

end
