(* ===== verification/Sidecar.thy ===== *)
theory Sidecar
  imports Sessions Etcd Limiter Connect
begin

text \<open>
  \<open>sidecar/sidecar.go\<close>: what \<open>NewSidecar\<close> does with the configurations, the connections to the nodes found in the
  directory, the handler for nodes that connect, and the heartbeat of \<open>Run\<close>. \<open>'s\<close> is a client with its
  session. What the network answers is an argument; the HTTP server is left out.
\<close>

section \<open>Configuration\<close>

text \<open>\<^const>\<open>None\<close>: \<open>Fatal\<close> ends the process. The other level is the limiter, if there is one.\<close>

definition sidecar_limiter :: "LimiterConfigure option \<Rightarrow> LimiterConfigure option option" where
  "sidecar_limiter lc =
     (case lc of
        None \<Rightarrow> Some None
      | Some c \<Rightarrow>
         (if 0 <s LimitRate c \<and> 0 <s LimitSize c
          then (if int BytesPoolLenght \<ge> sint (LimitSize c) then None else Some (Some c))
          else Some None))"

definition sidecar_breaker :: "CircuitBreakerConfigure option \<Rightarrow> CircuitBreakerConfigure" where
  "sidecar_breaker cc = (case cc of None \<Rightarrow> NewCircuitBreakerConfigure | Some c \<Rightarrow> c)"

text \<open>A node always hands over its own configuration.\<close>

definition node_breaker :: "CircuitBreakerConfigure \<Rightarrow> CircuitBreakerConfigure" where
  "node_breaker c = sidecar_breaker (Some c)"

section \<open>Connecting to the other nodes\<close>

text \<open>\<open>strings.EqualFold\<close> on ASCII strings.\<close>

definition fold_case :: "char \<Rightarrow> char" where
  "fold_case c = (let n = of_char c :: nat in if 65 \<le> n \<and> n \<le> 90 then char_of (n + 32) else c)"

definition EqualFold :: "string \<Rightarrow> string \<Rightarrow> bool" where
  "EqualFold s t \<longleftrightarrow> map fold_case s = map fold_case t"

definition getURLTCP :: "string \<Rightarrow> Info \<Rightarrow> string" where
  "getURLTCP address u =
     (if EqualFold (info_Address u) address then ''127.0.0.1'' @ info_TCPPort u else info_Address u @ info_TCPPort u)"

text \<open>Writing through the slice that \<open>GetData\<close> gives.\<close>

definition put_data :: "FrameSlice \<Rightarrow> (u8 list \<Rightarrow> u8 list) \<Rightarrow> FrameSlice option" where
  "put_data f g = do {
     xs \<leftarrow> upd_sub (backing (base f)) FrameHeadLength (nat (splitLength f)) g;
     Some (f\<lparr>base := Slice xs (slen (base f))\<rparr>) }"

text \<open>
  One node of the directory and what \<open>NewClientTCP\<close> and the first write answer. \<open>d_run\<close> are the clients
  that run, \<open>d_chan\<close> is the channel \<open>NodeChan\<close>, \<open>d_beats\<close> the slice of the heartbeat, \<open>d_wrote\<close> what was written
  to whom.
\<close>

datatype 's dial_answer = DialFailed | WriteFailed 's transport_error | Reached 's

text \<open>The answer for one node, from what the network answers and what the first write returns.\<close>

definition dial_one :: "string \<Rightarrow> Info \<Rightarrow> 's dial_io \<Rightarrow> transport_error option \<Rightarrow> 's dial_answer option" where
  "dial_one address node io err =
     (case NewClientTCP (getURLTCP address node) True io of
        None \<Rightarrow> None
      | Some (Inl e, _) \<Rightarrow> Some DialFailed
      | Some (Inr cli, _) \<Rightarrow> Some (case err of Some e \<Rightarrow> WriteFailed (cl_conn cli) e | None \<Rightarrow> Reached (cl_conn cli)))"

record 's dialing =
  d_run :: "'s list"
  d_chan :: "'s nodeMsg list"
  d_beats :: "'s option list"
  d_wrote :: "('s \<times> u8 list) list"

definition NodeChan_cap :: nat where "NodeChan_cap = 128"

text \<open>A send on the full channel waits; nobody reads it before \<open>Run\<close> of the cluster has started.\<close>

datatype 'a dialled = Dialled 'a | DialBlocked 'a

fun dial_loop :: "u16 \<Rightarrow> FrameSlice \<Rightarrow> nat \<Rightarrow> (Info \<times> 's dial_answer) list \<Rightarrow> 's dialing \<Rightarrow> 's dialing dialled option" where
  "dial_loop mid fs i [] d = Some (Dialled d)"
| "dial_loop mid fs i ((node, DialFailed) # ns) d = dial_loop mid fs (Suc i) ns d"
| "dial_loop mid fs i ((node, WriteFailed cli err) # ns) d = do {
     fs \<leftarrow> put_data fs (\<lambda>s. CopyUint16 s mid);
     dial_loop mid fs (Suc i) ns (d\<lparr>d_run := d_run d @ [cli]\<rparr>) }"
| "dial_loop mid fs i ((node, Reached cli) # ns) d = do {
     fs \<leftarrow> put_data fs (\<lambda>s. CopyUint16 s mid);
     let d = d\<lparr>d_run := d_run d @ [cli], d_wrote := d_wrote d @ [(cli, elems (base fs))]\<rparr>;
     if length (d_chan d) \<ge> NodeChan_cap then Some (DialBlocked d)
     else do {
       let d = d\<lparr>d_chan := d_chan d @ [\<lparr>nm_id = of_int (info_MachineID node), nm_ss = Some cli, nm_operation = 3\<rparr>]\<rparr>;
       beats \<leftarrow> arr_set (d_beats d) i (Some cli);
       dial_loop mid fs (Suc i) ns (d\<lparr>d_beats := beats\<rparr>) } }"

definition dialNode :: "u16 \<Rightarrow> (Info \<times> 's dial_answer) list \<Rightarrow> 's nodeMsg list \<Rightarrow> 's dialing dialled option" where
  "dialNode mid ns chan = do {
     fs \<leftarrow> NewFrameSlice FrameTypeNodeName [0, 0] [];
     dial_loop mid fs 0 ns \<lparr>d_run = [], d_chan = chan, d_beats = replicate (length ns) None, d_wrote = []\<rparr> }"

section \<open>Nodes that connect\<close>

text \<open>\<open>tcp\<close> is the assertion \<open>se.(*SessionTCP)\<close>; the state of the handler is the content of \<open>NodeChan\<close>.\<close>

definition addSessionTCP :: "('s nodeMsg list Session \<Rightarrow> 's) \<Rightarrow> u16 \<Rightarrow> 's nodeMsg list handler_func" where
  "addSessionTCP tcp mid se w =
     (case do { ft \<leftarrow> sessGetFrameSlice se w; d \<leftarrow> GetData ft; BytesToUint16 d } of
        None \<Rightarrow> Panicked w
      | Some i \<Rightarrow>
          Returned None (if mid \<noteq> i then w @ [\<lparr>nm_id = i, nm_ss = Some (tcp se), nm_operation = 3\<rparr>] else w))"

definition sidecar_handler :: "('s nodeMsg list Session \<Rightarrow> 's) \<Rightarrow> u16 \<Rightarrow> 's nodeMsg list Handler" where
  "sidecar_handler tcp mid = HandleFunc NewHandler FrameTypeNodeName (addSessionTCP tcp mid)"

section \<open>The heartbeat\<close>

text \<open>
  The ticker's case of \<open>Run\<close> from index \<open>i\<close> on; \<open>l\<close> is the length of the slice. A client that fails is cut out by
  shifting the rest. An entry that is \<open>nil\<close> is dereferenced.
\<close>

function heart_loop :: "('s \<Rightarrow> 'w \<Rightarrow> transport_error option \<times> 'w) \<Rightarrow> nat \<Rightarrow> 's option list \<Rightarrow> 'w \<Rightarrow> ('s option list \<times> 'w) ended" where
  "heart_loop beat i hs w =
     (if i < length hs then
        (case hs ! i of
           None \<Rightarrow> Crashed
         | Some c \<Rightarrow>
            (case beat c w of
               (Some err, w) \<Rightarrow> heart_loop beat i (take (length hs - 1) (overwrite hs i (drop (Suc i) hs))) w
             | (None, w) \<Rightarrow> heart_loop beat (Suc i) hs w))
      else Ended (hs, w))"
  by pat_completeness auto
termination
  by (relation "measure (\<lambda>(beat, i, hs, w). length hs - i)") (auto simp: overwrite_def)

declare heart_loop.simps [simp del]

text \<open>The loop of \<open>Run\<close> with both of its cases. The list is the order in which the parts are stopped.\<close>

datatype sidecar_event = HeartTick | CtxDone

datatype stop_effect = SetStateDie | WaitChildren | ShutdownHTTP | CloseDispatcher | CloseLimiter | DisconDistributer

fun sidecar_loop ::
  "('s \<Rightarrow> 'w \<Rightarrow> transport_error option \<times> 'w) \<Rightarrow> bool \<Rightarrow> sidecar_event list \<Rightarrow> 's option list \<Rightarrow> 'w
    \<Rightarrow> ('s option list \<times> 'w \<times> stop_effect list) ended" where
  "sidecar_loop beat lim [] hs w = Ended (hs, w, [])"
| "sidecar_loop beat lim (HeartTick # es) hs w =
     (case heart_loop beat 0 hs w of
        Crashed \<Rightarrow> Crashed
      | Ended (hs, w) \<Rightarrow> sidecar_loop beat lim es hs w)"
| "sidecar_loop beat lim (CtxDone # es) hs w =
     Ended (hs, w, [SetStateDie, WaitChildren, ShutdownHTTP, CloseDispatcher] @ (if lim then [CloseLimiter] else []) @ [DisconDistributer])"

section \<open>The frame with the node's id\<close>

lemma put_data_frame:
  assumes "length d' = length d" "\<And>s. length s = length d \<Longrightarrow> g s = d'"
  shows "put_data \<lparr>splitLength = int (8 + length d), base = of_list (frame_bytes ft d ex)\<rparr> g
    = Some \<lparr>splitLength = int (8 + length d), base = of_list (frame_bytes ft d' ex)\<rparr>"
proof -
  have "take 8 (frame_bytes ft d ex) = take 8 (frame_bytes ft d' ex)" "take 8 (frame_bytes ft d' ex) @ d' @ ex = frame_bytes ft d' ex"
    "drop (8 + length d) (frame_bytes ft d ex) = ex" "g (take (length d) (drop 8 (frame_bytes ft d ex))) = d'"
    using assms by (simp_all add: frame_bytes_def)
  then have "upd_sub (frame_bytes ft d ex) 8 (8 + length d) g = Some (frame_bytes ft d' ex)" by (simp add: upd_sub_def)
  then show ?thesis using assms(1) by (simp add: put_data_def FrameHeadLength_def of_list_def nat_add_distrib)
qed

definition name_frame :: "u8 list \<Rightarrow> FrameSlice" where
  "name_frame d = \<lparr>splitLength = 10, base = of_list (frame_bytes FrameTypeNodeName d [])\<rparr>"

lemma name_frame:
  "NewFrameSlice FrameTypeNodeName [0, 0] [] = Some (name_frame [0, 0])"
  "length d = 2 \<Longrightarrow> put_data (name_frame d) (\<lambda>s. CopyUint16 s mid) = Some (name_frame (bytes16 mid))"
  "elems (base (name_frame d)) = frame_bytes FrameTypeNodeName d []"
  using put_data_frame [of "bytes16 mid" d "\<lambda>s. CopyUint16 s mid" FrameTypeNodeName "[]"]
  by (simp_all add: NewFrameSlice_bytes name_frame_def gocopy_CopyUint)

section \<open>The connections of a new node\<close>

fun reached :: "Info \<times> 's dial_answer \<Rightarrow> 's option" where
  "reached (node, Reached cli) = Some cli"
| "reached (node, _) = None"

fun name_msg :: "Info \<times> 's dial_answer \<Rightarrow> 's nodeMsg list" where
  "name_msg (node, Reached cli) = [\<lparr>nm_id = of_int (info_MachineID node), nm_ss = Some cli, nm_operation = 3\<rparr>]"
| "name_msg (node, _) = []"

lemma dial_loop_spec:
  assumes "length d0 = 2" "i + length ns \<le> length (d_beats d)" "\<forall>j<length ns. d_beats d ! (i + j) = None" "length (d_chan d) \<le> NodeChan_cap"
  shows "if length (d_chan d) + length (concat (map name_msg ns)) \<le> NodeChan_cap
    then \<exists>d'. dial_loop mid (name_frame d0) i ns d = Some (Dialled d') \<and> d_chan d' = d_chan d @ concat (map name_msg ns)
      \<and> d_beats d' = overwrite (d_beats d) i (map reached ns)
      \<and> d_wrote d' = d_wrote d @ map (\<lambda>c. (c, frame_bytes FrameTypeNodeName (bytes16 mid) [])) (List.map_filter reached ns)
    else \<exists>d'. dial_loop mid (name_frame d0) i ns d = Some (DialBlocked d')"
  using assms
proof (induction ns arbitrary: d0 i d)
  case (Cons n ns)
  obtain node a where n: "n = (node, a)" by (cases n)
  have next': "\<forall>j<length ns. b ! (Suc i + j) = None" if "\<forall>j<length ns. b ! (Suc i + j) = d_beats d ! (Suc i + j)" for b
    using Cons.prems(3) that by (auto dest: spec [of _ "Suc _"])
  have step: "overwrite ((d_beats d)[i := x]) (Suc i) ys = overwrite (d_beats d) i (x # ys)" if "length ys = length ns" for x ys
    using Cons.prems(2) that by (simp add: overwrite_def take_Suc_conv_app_nth)
  have same: "(d_beats d)[i := None] = d_beats d"
    using Cons.prems(2,3) by (auto simp: list_update_same_conv)
  note blank = next' [of "d_beats d", simplified]
  show ?case
  proof (cases a)
    case DialFailed
    then show ?thesis
      using Cons.IH [of d0 "Suc i" d] Cons.prems blank step [of "map reached ns" None] n same
      by (simp add: map_filter_simps split: if_split_asm)
  next
    case (WriteFailed cli err)
    then show ?thesis
      using Cons.IH [of "bytes16 mid" "Suc i" "d\<lparr>d_run := d_run d @ [cli]\<rparr>"] Cons.prems blank
        step [of "map reached ns" None] n same name_frame(2) [OF Cons.prems(1), of mid]
      by (simp add: map_filter_simps split: if_split_asm)
  next
    case (Reached cli)
    let ?f = "name_frame (bytes16 mid)"
    show ?thesis
    proof (cases "length (d_chan d) = NodeChan_cap")
      case True
      then show ?thesis using n Reached name_frame(2) [OF Cons.prems(1), of mid] by (simp add: Let_def)
    next
      case False
      let ?d = "d\<lparr>d_run := d_run d @ [cli], d_wrote := d_wrote d @ [(cli, elems (base ?f))],
        d_chan := d_chan d @ [\<lparr>nm_id = of_int (info_MachineID node), nm_ss = Some cli, nm_operation = 3\<rparr>],
        d_beats := (d_beats d)[i := Some cli]\<rparr>"
      have "dial_loop mid (name_frame d0) i (n # ns) d = dial_loop mid ?f (Suc i) ns ?d"
        using n Reached name_frame(2) [OF Cons.prems(1), of mid] False Cons.prems(2,4) by (simp add: Let_def arr_set_def)
      moreover have "\<forall>j<length ns. d_beats ?d ! (Suc i + j) = None" using blank by simp
      ultimately show ?thesis
        using Cons.IH [of "bytes16 mid" "Suc i" ?d] Cons.prems(2,4) False n Reached step [of "map reached ns" "Some cli"] name_frame(3)
        by (simp add: map_filter_simps add.assoc split: if_split_asm)
    qed
  qed
qed (simp add: overwrite_def map_filter_simps)

lemma dialNode_spec:
  assumes "length chan \<le> NodeChan_cap"
  shows "if length chan + length (concat (map name_msg ns)) \<le> NodeChan_cap
    then \<exists>d. dialNode mid ns chan = Some (Dialled d) \<and> d_chan d = chan @ concat (map name_msg ns) \<and> d_beats d = map reached ns
      \<and> d_wrote d = map (\<lambda>c. (c, frame_bytes FrameTypeNodeName (bytes16 mid) [])) (List.map_filter reached ns)
    else \<exists>d. dialNode mid ns chan = Some (DialBlocked d)"
  using dial_loop_spec [of "[0, 0]" 0 ns "\<lparr>d_run = [], d_chan = chan, d_beats = replicate (length ns) None, d_wrote = []\<rparr>" mid] assms
  by (simp add: dialNode_def name_frame(1) overwrite_def split: if_split_asm)

section \<open>Every client in turn\<close>

fun beat_all :: "('s \<Rightarrow> 'w \<Rightarrow> transport_error option \<times> 'w) \<Rightarrow> 's list \<Rightarrow> 'w \<Rightarrow> 's list \<times> 'w" where
  "beat_all beat [] w = ([], w)"
| "beat_all beat (c # cs) w =
     (let (err, w) = beat c w; (ls, w) = beat_all beat cs w in (if err = None then c # ls else ls, w))"

lemma heart_loop_all:
  "heart_loop beat (length pre) (pre @ map Some cs @ rest) w
   = (let (ls, w) = beat_all beat cs w in heart_loop beat (length pre + length ls) (pre @ map Some ls @ rest) w)"
proof (induction cs arbitrary: pre w)
  case (Cons c cs)
  obtain err w1 where b: "beat c w = (err, w1)" by (cases "beat c w")
  have cut: "take (length (pre @ map Some (c # cs) @ rest) - 1)
       (overwrite (pre @ map Some (c # cs) @ rest) (length pre) (drop (Suc (length pre)) (pre @ map Some (c # cs) @ rest)))
     = pre @ map Some cs @ rest"
    by (simp add: overwrite_def)
  show ?case
  proof (cases err)
    case None
    then show ?thesis using b Cons.IH [of "pre @ [Some c]" w1]
      by (subst heart_loop.simps) (simp add: nth_append split: prod.splits)
  next
    case (Some e)
    then show ?thesis using b Cons.IH [of pre w1] cut
      by (subst heart_loop.simps) (simp add: nth_append split: prod.splits)
  qed
qed (simp add: heart_loop.simps)

lemma heart_loop_ends: "heart_loop beat 0 (map Some cs) w = (let (ls, w) = beat_all beat cs w in Ended (map Some ls, w))"
  using heart_loop_all [of beat "[]" cs "[]" w] by (simp add: heart_loop.simps split: prod.splits)

lemma heart_loop_nil: "heart_loop beat 0 (map Some cs @ None # rest) w = Crashed"
  using heart_loop_all [of beat "[]" cs "None # rest" w]
  by (subst (asm) (2) heart_loop.simps) (simp add: nth_append split: prod.splits)

lemma heart_loop_crashes: "heart_loop beat 0 hs w = Crashed \<longleftrightarrow> None \<in> set hs"
proof (cases "None \<in> set hs")
  case True
  then obtain xs rest where hs: "hs = xs @ None # rest" "None \<notin> set xs" by (auto dest: split_list_first)
  then have "xs = map Some (map the xs)" by (auto simp: map_idI intro!: nth_equalityI) (metis nth_mem option.collapse)
  then show ?thesis using heart_loop_nil [of beat "map the xs" rest w] hs(1) True by metis
next
  case False
  then have "hs = map Some (map the hs)" by (auto intro!: nth_equalityI) (metis nth_mem option.collapse)
  then show ?thesis using heart_loop_ends [of beat "map the hs" w] False by (metis (no_types, lifting) case_prod_beta ended.distinct(1))
qed

text \<open>The loop panics on its first tick or never.\<close>

lemma sidecar_loop_safe: "None \<notin> set hs \<Longrightarrow> sidecar_loop beat lim es hs w \<noteq> Crashed"
proof (induction es arbitrary: hs w)
  case (Cons e es)
  then have hs: "hs = map Some (map the hs)" by (auto intro!: nth_equalityI) (metis nth_mem option.collapse)
  obtain ls w1 where b: "heart_loop beat 0 hs w = Ended (map Some ls, w1)"
    using heart_loop_ends [of beat "map the hs" w] hs by (auto split: prod.splits)
  then show ?case using Cons.IH [of "map Some ls" w1] by (cases e) auto
qed simp

section \<open>What a heartbeat sends\<close>

definition beat_ok :: "(nat \<Rightarrow> io) \<Rightarrow> writer list \<Rightarrow> nat \<Rightarrow> bool" where
  "beat_ok e ws a \<longleftrightarrow> ws_state (ws ! a) = StateWork \<and> deadline_error (e a) = None \<and> write_error (e a) = None"

definition beaten :: "writer \<Rightarrow> writer" where
  "beaten w = w\<lparr>sent := sent w @ [frame_bytes FrameTypeHeartbeatS [] []]\<rparr>"

lemma Heartbeat_ok:
  assumes "a < length ws"
  shows "snd (Heartbeat e a ws) = (if beat_ok e ws a then ws[a := beaten (ws ! a)] else ws)"
    and "fst (Heartbeat e a ws) = None \<longleftrightarrow> beat_ok e ws a"
  using assms by (auto simp: Heartbeat_sent beat_ok_def beaten_def split: option.splits)

lemma beat_all_sends:
  assumes "distinct cs" "\<forall>a\<in>set cs. a < length ws"
  shows "beat_all (Heartbeat e) cs ws
    = (filter (beat_ok e ws) cs, map (\<lambda>a. if a \<in> set cs \<and> beat_ok e ws a then beaten (ws ! a) else ws ! a) [0..<length ws])"
  using assms
proof (induction cs arbitrary: ws)
  case Nil
  then show ?case by (simp add: map_nth)
next
  case (Cons c cs)
  obtain err ws1 where b: "Heartbeat e c ws = (err, ws1)" by (cases "Heartbeat e c ws")
  have ws1: "ws1 = (if beat_ok e ws c then ws[c := beaten (ws ! c)] else ws)" "err = None \<longleftrightarrow> beat_ok e ws c"
    using Heartbeat_ok [of c ws e] Cons.prems(2) b by simp_all
  have other: "ws1 ! a = ws ! a" "beat_ok e ws1 a = beat_ok e ws a" if "a \<noteq> c" for a
    using ws1(1) that by (simp_all add: beat_ok_def)
  have len: "length ws1 = length ws" using ws1(1) by simp
  have "filter (beat_ok e ws1) cs = filter (beat_ok e ws) cs"
    using Cons.prems(1) other(2) by (intro filter_cong refl) fastforce
  moreover have "(if a \<in> set cs \<and> beat_ok e ws1 a then beaten (ws1 ! a) else ws1 ! a)
      = (if a \<in> set (c # cs) \<and> beat_ok e ws a then beaten (ws ! a) else ws ! a)" for a
    using Cons.prems other [of a] ws1(1) by (cases "a = c") auto
  ultimately show ?case using Cons.IH [of ws1] Cons.prems b ws1(2) len by simp
qed

section \<open>A connection's first frame\<close>

text \<open>The handler of a node that is connected to, on the frame that \<open>dialNode\<close> sends.\<close>

definition joined :: "'s \<Rightarrow> u16 \<Rightarrow> u16 \<Rightarrow> 's nodeMsg list" where
  "joined a mid i = (if mid \<noteq> i then [\<lparr>nm_id = i, nm_ss = Some a, nm_operation = 3\<rparr>] else [])"

lemma view_frame [simp]: "sessGetFrameSlice (session_view se s) w = GetFrameSlice s"
  by (simp add: session_view_def)

lemma addSessionTCP_frame:
  assumes "sessGetFrameSlice v w = Some g" "DecodeByBytes b = Some g" "wf_slice b"
    and "elems b = frame_bytes FrameTypeNodeName (bytes16 i) []"
  shows "addSessionTCP tcp mid v w = Returned None (w @ joined (tcp v) mid i)"
proof -
  obtain x where x: "GetData g = Some x" "wf_slice x" "elems x = bytes16 i" using frame_parts [OF assms(3,4)] assms(2) by auto
  then have "BytesToUint16 x = Some i" by (simp add: u16.dec_enc)
  then show ?thesis using assms(1) x(1) by (simp add: addSessionTCP_def joined_def)
qed

lemma sidecar_handles:
  assumes "\<forall>s. tcp (session_view se s) = a"
  shows "handles se (sidecar_handler tcp mid) (\<lambda>f w. (None, w @ joined a mid i)) (frame_bytes FrameTypeNodeName (bytes16 i) [])"
  unfolding handles_def
proof (intro exI conjI allI impI)
  show "sidecar_handler tcp mid (frame_type (frame_bytes FrameTypeNodeName (bytes16 i) [])) = Some (addSessionTCP tcp mid)"
    by (simp add: sidecar_handler_def HandleFunc_def)
  fix s w g b
  assume "GetFrameSlice s = Some g \<and> DecodeByBytes b = Some g \<and> wf_slice b \<and> elems b = frame_bytes FrameTypeNodeName (bytes16 i) []"
  then show "addSessionTCP tcp mid (session_view se s) w = Returned (fst (None, w @ joined a mid i)) (snd (None, w @ joined a mid i))"
    using addSessionTCP_frame [of "session_view se s" w g b i tcp mid] assms by simp
qed

lemma sidecar_nil: "sidecar_handler tcp mid FrameTypeNil = Some nil_handler"
  using NewHandler_simps(1) by (simp add: sidecar_handler_def HandleFunc_def frame_type_defs)

lemma plain_name_frame: "plain_frame (frame_bytes FrameTypeNodeName (bytes16 i) [])"
  unfolding plain_frame_def wf_frame_def
  by (intro conjI exI [of _ FrameTypeNodeName] exI [of _ "bytes16 i"] exI [of _ "[]"]) (simp_all add: frame_type_defs)

lemma reached_msgs: "length (concat (map name_msg ns)) = length (List.map_filter reached ns)"
proof (induction ns)
  case (Cons n ns)
  then show ?case by (cases n; cases "snd n") (auto simp: map_filter_simps)
qed (simp add: map_filter_simps)

lemma reached_None: "None \<in> reached ` set ns \<longleftrightarrow> (\<exists>(node, a)\<in>set ns. \<forall>c. a \<noteq> Reached c)"
proof -
  have "reached n = None \<longleftrightarrow> (\<forall>c. snd n \<noteq> Reached c)" for n :: "Info \<times> 'a dial_answer"
    by (cases n; cases "snd n") auto
  then show ?thesis unfolding image_iff Bex_def eq_commute [of None] by (simp add: case_prod_beta)
qed

section \<open>Examples\<close>

definition node_at :: "int \<Rightarrow> Info" where
  "node_at n = \<lparr>info_Name = ''a'', info_Address = ''10.0.0.1'', info_HTTPPort = '':80'', info_TCPPort = '':90'',
    info_ID = 0, info_MachineID = n\<rparr>"

definition msg_session :: "nat nodeMsg list Session" where
  "msg_session = \<lparr>sessGetFrameSlice = \<lambda>_. None, sessWriteFrameDataPromptly = \<lambda>_ w. (None, w),
     sessWriteFrameDataToCache = \<lambda>_ _ w. (None, w), sessClose = \<lambda>w. w\<rparr>"

definition empty_cluster :: "nat cluster" where
  "empty_cluster = \<lparr>cl_sessions = replicate 1024 None, cl_channels = Map.empty, machineID = 3, cl_state = StateWork\<rparr>"

definition open_writer :: writer where
  "open_writer = \<lparr>ws_state = StateWork, wSlot = 0, slots = [], bytesPool = [], rejectPool = [], JobQueue = [], waiting = 0,
     circuitBreaker = None, sent = [], called = []\<rparr>"

section \<open>Properties\<close>

text \<open>C29: the first frame that a new node writes to a node it has reached, cut into reads in any way, makes that node store
  the session under the id of the new node, if the id is one of the table's 1024; any other id, which
  \<open>addSessionTCP\<close> does not check, ends the \<open>Run\<close> of the cluster with a panic.\<close>

theorem handshake_registers:
  assumes "dialNode i ns [] = Some (Dialled d)" "(cli, bs) \<in> set (d_wrote d)"
    and "rd_w s = 0" "rd_r s = 0" "10 \<le> length (rBuf s)" "length (rBuf s) < fuel"
    and "\<forall>s. tcp (session_view se s) = a" "\<forall>k\<in>set sizes. 0 < k" "10 \<le> length sizes"
    and "length (cl_sessions c) = 1024" "mid \<noteq> i"
  shows "\<exists>s' l' q. receive fuel (sidecar_handler tcp mid) lim se s l [] bs sizes = (Some (IoWaiting s' l' q), [])
    \<and> cluster_run c (map NodeMsg q)
      = (if unat i < 1024 then Some (c\<lparr>cl_sessions := (cl_sessions c)[unat i := Some a]\<rparr>, []) else None)"
proof -
  let ?f = "frame_bytes FrameTypeNodeName (bytes16 i) []"
  have bs: "bs = ?f" using dialNode_spec [of "[]" ns i] assms(1,2) by (auto split: if_split_asm)
  have "length ?f = 10" by simp
  then have "\<exists>s' l'. receive fuel (sidecar_handler tcp mid) lim se s l [] (concat [?f]) sizes
      = (Some (IoWaiting s' l' (deliver (\<lambda>f w. (None, w @ joined a mid i)) [?f] [])), []) \<and> pending s' = []"
    using assms(3-9) plain_name_frame [of i] sidecar_handles [OF assms(7), of mid i] sidecar_nil [of tcp mid]
    by (intro receive_all) auto
  moreover have "cluster_run c (map NodeMsg (joined a mid i))
      = (if unat i < 1024 then Some (c\<lparr>cl_sessions := (cl_sessions c)[unat i := Some a]\<rparr>, []) else None)"
    using assms(10,11) by (simp add: joined_def node_turn_def arr_set_def)
  ultimately show ?thesis using bs by (auto simp del: cluster_run.simps)
qed

lemma handshake_registers_witness:
  "\<exists>s' l' q. receive 17 (sidecar_handler (\<lambda>_. 9) 3) (\<lambda>n l. l) msg_session \<lparr>rBuf = replicate 16 0, rd_w = 0, rd_r = 0\<rparr> () []
      (frame_bytes FrameTypeNodeName (bytes16 7) []) (replicate 10 4) = (Some (IoWaiting s' l' q), [])
    \<and> cluster_run empty_cluster (map NodeMsg q) = Some (empty_cluster\<lparr>cl_sessions := (cl_sessions empty_cluster)[7 := Some 9]\<rparr>, [])"
proof -
  obtain d where "dialNode 7 [(node_at 3, Reached (1 :: nat))] [] = Some (Dialled d)"
    "d_wrote d = [(1, frame_bytes FrameTypeNodeName (bytes16 7) [])]"
    using dialNode_spec [of "[]" "[(node_at 3, Reached (1 :: nat))]" 7] by (auto simp: NodeChan_cap_def map_filter_simps)
  then show ?thesis
    using handshake_registers [of 7 "[(node_at 3, Reached (1 :: nat))]" d 1 "frame_bytes FrameTypeNodeName (bytes16 7) []"
        "\<lparr>rBuf = replicate 16 0, rd_w = 0, rd_r = 0\<rparr>" 17 "\<lambda>_. 9" msg_session 9 "replicate 10 4" empty_cluster 3 "\<lambda>n l. l" "()"]
    by (simp add: empty_cluster_def)
qed

text \<open>\<open>NodeChan\<close> holds 128 messages and is read only once the cluster runs, which \<open>Run\<close> starts after
  \<open>dialNode\<close>: a node that reaches more nodes than there is room in the channel never gets further.\<close>

theorem dial_blocks_iff:
  assumes "length chan \<le> 128"
  shows "(\<exists>d. dialNode mid ns chan = Some (DialBlocked d)) \<longleftrightarrow> 128 < length chan + length (List.map_filter reached ns)"
  using dialNode_spec [of chan ns mid] assms by (auto simp: NodeChan_cap_def reached_msgs split: if_split_asm)

lemma dial_blocks_iff_witness:
  "\<exists>d. dialNode 7 [(node_at 3, Reached (1 :: nat)), (node_at 4, DialFailed), (node_at 5, Reached 2)]
     (replicate 127 \<lparr>nm_id = 3, nm_ss = None, nm_operation = 2\<rparr>) = Some (DialBlocked d)"
  using dial_blocks_iff [of "replicate 127 \<lparr>nm_id = 3, nm_ss = None, nm_operation = 2\<rparr>" 7
      "[(node_at 3, Reached (1 :: nat)), (node_at 4, DialFailed), (node_at 5, Reached 2)]"]
  by (simp add: map_filter_simps)

text \<open>the loop of \<open>Run\<close> panics, on its first heartbeat, exactly when one of the nodes found in the directory could not be
  reached: its entry of the slice is still nil. Otherwise no sequence of heartbeats and failing connections
  makes it panic.\<close>

theorem first_heartbeat_crashes_iff:
  assumes "dialNode mid ns [] = Some (Dialled d)"
  shows "sidecar_loop beat lim (HeartTick # es) (d_beats d) w = Crashed \<longleftrightarrow> (\<exists>(node, a)\<in>set ns. \<forall>c. a \<noteq> Reached c)"
proof -
  have d: "d_beats d = map reached ns" using dialNode_spec [of "[]" ns mid] assms by (simp split: if_split_asm)
  show ?thesis
  proof (cases "None \<in> set (d_beats d)")
    case True
    then have "heart_loop beat 0 (d_beats d) w = Crashed" by (simp add: heart_loop_crashes)
    then show ?thesis using True by (simp add: d reached_None)
  next
    case False
    then show ?thesis
      using sidecar_loop_safe [OF False, of beat lim "HeartTick # es" w] by (simp add: d reached_None del: sidecar_loop.simps)
  qed
qed

lemma first_heartbeat_crashes_iff_witness:
  "\<exists>d. dialNode 7 [(node_at 3, Reached (1 :: nat)), (node_at 4, DialFailed)] [] = Some (Dialled d)
     \<and> sidecar_loop (\<lambda>c w. (None, w + c)) False [HeartTick] (d_beats d) 0 = Crashed"
proof -
  obtain d where "dialNode 7 [(node_at 3, Reached (1 :: nat)), (node_at 4, DialFailed)] [] = Some (Dialled d)"
    using dialNode_spec [of "[]" "[(node_at 3, Reached (1 :: nat)), (node_at 4, DialFailed)]" 7] by (auto simp: NodeChan_cap_def map_filter_simps)
  then show ?thesis
    using first_heartbeat_crashes_iff [of 7 "[(node_at 3, Reached (1 :: nat)), (node_at 4, DialFailed)]" d "\<lambda>c w. (None, w + c)" False "[]" 0] by simp
qed

text \<open>a heartbeat sends exactly one frame on each connection that works, keeps these clients in order and drops the
  others; no other session is touched.\<close>

theorem heartbeat_sends:
  assumes "distinct cs" "\<forall>a\<in>set cs. a < length ws"
  shows "heart_loop (Heartbeat e) 0 (map Some cs) ws
    = Ended (map Some (filter (beat_ok e ws) cs),
        map (\<lambda>a. if a \<in> set cs \<and> beat_ok e ws a then beaten (ws ! a) else ws ! a) [0..<length ws])"
  using beat_all_sends [OF assms, of e] by (simp add: heart_loop_ends)

lemma heartbeat_sends_witness:
  "heart_loop (Heartbeat (\<lambda>a. \<lparr>now = 0, deadline_error = None, write_error = if a = 0 then Some ErrEOF else None\<rparr>)) 0 [Some 0, Some 1] [open_writer, open_writer]
    = Ended ([Some 1], [open_writer, beaten open_writer])"
  using heartbeat_sends [of "[0, 1]" "[open_writer, open_writer]" "\<lambda>a. \<lparr>now = 0, deadline_error = None, write_error = if a = 0 then Some ErrEOF else None\<rparr>"]
  by (simp add: beat_ok_def open_writer_def upt_rec)

text \<open>a limiter that \<open>NewSidecar\<close> accepts can serve the receiving loop: whatever \<open>ioRead\<close> returns fits in it, and is
  granted once the ticks have brought enough.\<close>

theorem accepted_limiter_serves:
  assumes "sidecar_limiter (Some c) = Some (Some c')" "limits_ok c" "level_ok c l"
    and "rd_ok s" "length (rBuf s) = BytesPoolLenght" "length bs \<le> free_space s"
    and "ioRead s (ReadBytes bs None) = ((n, None), s')" "int n \<le> int (sum_list ks) * sint (LimitRate c)"
  shows "\<exists>l'. Wait (of_nat n) ks l = Some l' \<and> level_ok c l'"
proof -
  have "rd_w s' \<le> BytesPoolLenght"
    using compact_pending(1,2) [OF assms(4)] assms(5-7)
    by (auto simp: ioRead_def Let_def free_space_def split: if_splits)
  then have n: "n \<le> 32768" using assms(7) by (auto simp: ioRead_def Let_def BytesPoolLenght_def split: if_splits)
  then have "sint (of_nat n :: i64) = int n"
    by (simp add: signed_of_nat signed_take_bit_int_eq_self)
  moreover have "32768 < sint (LimitSize c)" using assms(1) by (auto simp: sidecar_limiter_def BytesPoolLenght_def split: if_splits)
  moreover have "0 \<le> sint (tokens l)" using assms(3) by (simp add: level_ok_def)
  ultimately show ?thesis using n assms(8) by (intro Wait_granted [OF assms(2) _ assms(3)]) auto
qed

lemma accepted_limiter_serves_witness:
  "\<exists>l'. Wait 3 [1, 1] \<lparr>LimitRate = 2, LimitSize = 40000, tokens = 0\<rparr> = Some l'"
  using accepted_limiter_serves [of "\<lparr>LimitRate = 2, LimitSize = 40000\<rparr>" "\<lparr>LimitRate = 2, LimitSize = 40000\<rparr>"
      "\<lparr>LimitRate = 2, LimitSize = 40000, tokens = 0\<rparr>" "\<lparr>rBuf = replicate BytesPoolLenght 0, rd_w = 0, rd_r = 0\<rparr>" "[1, 2, 3]" 3
      "\<lparr>rBuf = overwrite (replicate BytesPoolLenght 0) 0 [1, 2, 3], rd_w = 3, rd_r = 0\<rparr>" "[1, 1]"]
  by (auto simp: sidecar_limiter_def limits_ok_def level_ok_def rd_ok_def ioRead_def compact_def free_space_def BytesPoolLenght_def word_sless_alt)

text \<open>With the configuration left empty in a node the window of the breaker is one bucket, not the two of the default.\<close>

lemma empty_node_window:
  "RollingBucketsNum (NewCircuitBreaker (node_breaker \<lparr>RollingBucketsNum = 0, RequestVolumeThreshold = 0, SleepWindow = 0\<rparr>)) = 1"
  "RollingBucketsNum (NewCircuitBreaker (sidecar_breaker None)) = 2"
  by (simp_all add: NewCircuitBreaker_def node_breaker_def sidecar_breaker_def NewCircuitBreakerConfigure_def)

end
