(* ===== verification/Lifecycle.thy ===== *)
theory Lifecycle
  imports Regions
begin

text \<open>
  \<open>Child\<close> and \<open>WaitGroupWrapper\<close> of \<open>util/wait_group_wrapper.go\<close>. Every component of a running program (node, serial,
  sidecar, server, clients, cluster) is started by \<open>RunAssembly\<close> and ends with a \<open>Done\<close> and a decrement; the two
  counters change in separate steps, and the steps of all components mix.
\<close>

section \<open>Children\<close>

text \<open>How far the assembly of one child is: its count is taken, it is in the wait group, \<open>Init\<close> has returned and \<open>Run\<close> is
  going on, \<open>Done\<close> has been called, its count has been given back.\<close>

datatype phase = Counted | Grouped | Running | Released | Gone

record Child =
  childCount :: i32
  waitGroup :: int
  phases :: "phase list"

definition new_child :: Child where
  "new_child = \<lparr>childCount = 0, waitGroup = 0, phases = []\<rparr>"

inductive child_step :: "Child \<Rightarrow> Child \<Rightarrow> bool" where
  add_count: "child_step c (c\<lparr>childCount := childCount c + 1, phases := phases c @ [Counted]\<rparr>)"
| add_group: "k < length (phases c) \<Longrightarrow> phases c ! k = Counted
    \<Longrightarrow> child_step c (c\<lparr>waitGroup := waitGroup c + 1, phases := (phases c)[k := Grouped]\<rparr>)"
| init_go: "k < length (phases c) \<Longrightarrow> phases c ! k = Grouped \<Longrightarrow> child_step c (c\<lparr>phases := (phases c)[k := Running]\<rparr>)"
| run_done: "k < length (phases c) \<Longrightarrow> phases c ! k = Running
    \<Longrightarrow> child_step c (c\<lparr>waitGroup := waitGroup c - 1, phases := (phases c)[k := Released]\<rparr>)"
| sub_count: "k < length (phases c) \<Longrightarrow> phases c ! k = Released
    \<Longrightarrow> child_step c (c\<lparr>childCount := childCount c - 1, phases := (phases c)[k := Gone]\<rparr>)"

inductive_cases child_stepE: "child_step c d"

text \<open>\<open>Wait\<close> returns when the wait group is at 0.\<close>

definition Wait_returns :: "Child \<Rightarrow> bool" where
  "Wait_returns c \<longleftrightarrow> waitGroup c = 0"

section \<open>Counting phases\<close>

definition counted :: "phase \<Rightarrow> bool" where
  "counted p \<longleftrightarrow> p \<noteq> Gone"

definition grouped :: "phase \<Rightarrow> bool" where
  "grouped p \<longleftrightarrow> p = Grouped \<or> p = Running"

text \<open>Both counters count phases.\<close>

definition child_inv :: "Child \<Rightarrow> bool" where
  "child_inv c \<longleftrightarrow> childCount c = of_int (int (num counted (phases c)))
     \<and> waitGroup c = int (num grouped (phases c))"

interpretation child: step_invariant "\<lambda>c. c = new_child" child_step child_inv
proof
  fix c d assume "child_inv c" "child_step c d"
  then show "child_inv d"
    by (auto simp: child_inv_def num_update counted_def grouped_def elim!: child_stepE simp del: of_int_of_nat_eq)
qed (simp add: child_inv_def new_child_def)

section \<open>Progress\<close>

text \<open>The order of the phases in the life of a child.\<close>

fun phase_rank :: "phase \<Rightarrow> nat" where
  "phase_rank Counted = 0" | "phase_rank Grouped = 1" | "phase_rank Running = 2" | "phase_rank Released = 3" | "phase_rank Gone = 4"

lemma phase_rank_inj: "phase_rank p = phase_rank q \<Longrightarrow> p = q"
  by (cases p; cases q) simp_all

instantiation phase :: linorder
begin

definition less_eq_phase :: "phase \<Rightarrow> phase \<Rightarrow> bool" where
  "less_eq_phase p q \<longleftrightarrow> phase_rank p \<le> phase_rank q"

definition less_phase :: "phase \<Rightarrow> phase \<Rightarrow> bool" where
  "less_phase p q \<longleftrightarrow> phase_rank p < phase_rank q"

instance
  by standard (auto simp: less_eq_phase_def less_phase_def intro: phase_rank_inj)

end

text \<open>No step takes a child back, and no child is forgotten.\<close>

lemma phases_advance:
  assumes "child_step c d" "k < length (phases c)"
  shows "k < length (phases d) \<and> phases c ! k \<le> phases d ! k"
  using assms(1)
proof (cases rule: child_step.cases)
  case add_count
  then show ?thesis using assms(2) by (simp add: nth_append)
qed (use assms(2) in \<open>auto simp: nth_list_update less_eq_phase_def\<close>)

section \<open>Properties\<close>

text \<open>whatever the order of the steps of the components, \<open>Wait\<close> returns exactly when no component that is in the wait
  group still runs, and the count that the guard reads is positive exactly as long as some component has not given
  its count back (for fewer than \<open>2 ^ 31\<close> components).\<close>

theorem counters_of_children:
  assumes "reach (\<lambda>c. c = new_child) child_step c" "length (phases c) < 2 ^ 31"
  shows "(Wait_returns c \<longleftrightarrow> Grouped \<notin> set (phases c) \<and> Running \<notin> set (phases c))
    \<and> (0 <s childCount c \<longleftrightarrow> (\<exists>p\<in>set (phases c). p \<noteq> Gone))"
proof -
  note I = child.reach_inv [OF assms(1), unfolded child_inv_def]
  have "int (num counted (phases c)) < 2 ^ 31" using num_le [of counted "phases c"] assms(2) by simp
  then have "sint (childCount c) = int (num counted (phases c))"
    using I by (simp add: signed_of_int signed_take_bit_int_eq_self del: of_int_of_nat_eq)
  then have "0 <s childCount c \<longleftrightarrow> num counted (phases c) \<noteq> 0" by (simp add: word_sless_alt)
  then show ?thesis using I by (auto simp: Wait_returns_def num_0 counted_def grouped_def)
qed

lemma counters_of_children_witness:
  "\<exists>c. phases c = [Counted] \<and> Wait_returns c \<and> 0 <s childCount c"
proof -
  define c where "c = new_child\<lparr>childCount := childCount new_child + 1, phases := phases new_child @ [Counted]\<rparr>"
  have "reach (\<lambda>c. c = new_child) child_step c"
    unfolding c_def by (rule reach_step, rule reach_init, rule refl, rule add_count)
  then have "(Wait_returns c \<longleftrightarrow> Grouped \<notin> set (phases c) \<and> Running \<notin> set (phases c))
    \<and> (0 <s childCount c \<longleftrightarrow> (\<exists>p\<in>set (phases c). p \<noteq> Gone))"
    by (rule counters_of_children) (simp add: c_def new_child_def)
  moreover have "phases c = [Counted]" by (simp add: c_def new_child_def)
  ultimately show ?thesis by auto
qed

end
