(* ===== verification/Master.thy ===== *)
theory Master
  imports Lifecycle
begin

text \<open>
  \<open>master.go\<close>: a program ends in one of two ways. \<open>Stop\<close> lets \<open>Guard\<close> go on, which cancels the context and waits for the
  components; a signal makes a second goroutine cancel the context, count eight seconds down and end the process.
  The components (\<open>Lifecycle\<close>), \<open>Stop\<close>, signals and the two goroutines mix.
\<close>

section \<open>The countdown\<close>

definition exitWaitTime :: nat where "exitWaitTime = 8"

text \<open>The loop after a signal: \<open>counts k\<close> is what \<open>GetChildCount\<close> gives after \<open>k\<close> seconds. The result is the last \<open>i\<close>.\<close>

fun guard_loop :: "nat \<Rightarrow> nat \<Rightarrow> (nat \<Rightarrow> i32) \<Rightarrow> nat" where
  "guard_loop 0 k counts = 0"
| "guard_loop (Suc i) k counts = (if 0 <s counts k then guard_loop i (Suc k) counts else Suc i)"

definition guard_forced :: "(nat \<Rightarrow> i32) \<Rightarrow> bool" where
  "guard_forced counts \<longleftrightarrow> guard_loop exitWaitTime 0 counts = 0"

lemma guard_loop_0: "guard_loop i k counts = 0 \<longleftrightarrow> (\<forall>j<i. 0 <s counts (k + j))"
proof (induction i arbitrary: k)
  case (Suc i)
  have "(\<forall>j<Suc i. 0 <s counts (k + j)) \<longleftrightarrow> 0 <s counts k \<and> (\<forall>j<i. 0 <s counts (Suc k + j))"
    by (auto simp: less_Suc_eq_0_disj)
  then show ?case using Suc.IH [of "Suc k"] by simp
qed simp

section \<open>Model\<close>

datatype main_pc = MainBlocked | MainCancel | MainWait | MainReturned

datatype signal_pc = SigBlocked | SigCancel | SigLoop nat | SigEnd bool

text \<open>\<open>ms_signals\<close> is the content of the signal channel, of capacity 1. \<open>ms_exit\<close> is the code of \<open>os.Exit\<close>.\<close>

record Master =
  ms_ctx :: bool
  ms_child :: Child
  ms_stopChan :: bool
  ms_signals :: nat
  ms_closeOnce :: bool
  ms_main :: main_pc
  ms_sig :: signal_pc
  ms_exit :: "int option"

definition NewMaster :: Master where
  "NewMaster = \<lparr>ms_ctx = False, ms_child = new_child, ms_stopChan = False, ms_signals = 0, ms_closeOnce = False,
     ms_main = MainBlocked, ms_sig = SigBlocked, ms_exit = None\<rparr>"

text \<open>\<^const>\<open>None\<close>: closing a closed channel panics.\<close>

definition master_Stop :: "Master \<Rightarrow> Master option" where
  "master_Stop m =
     (if ms_closeOnce m then Some m
      else if ms_stopChan m then None
      else Some (m\<lparr>ms_closeOnce := True, ms_stopChan := True\<rparr>))"

text \<open>A signal that finds the channel full is dropped.\<close>

definition raise_signal :: "Master \<Rightarrow> Master" where
  "raise_signal m = m\<lparr>ms_signals := 1\<rparr>"

text \<open>A step of \<open>Guard\<close> itself and of the goroutine it starts; \<^const>\<open>None\<close>: it blocks or is at its end.\<close>

definition Guard :: "Master \<Rightarrow> Master option" where
  "Guard m =
     (case ms_main m of
        MainBlocked \<Rightarrow> if ms_stopChan m then Some (m\<lparr>ms_main := MainCancel\<rparr>) else None
      | MainCancel \<Rightarrow> Some (m\<lparr>ms_ctx := True, ms_main := MainWait\<rparr>)
      | MainWait \<Rightarrow> if Wait_returns (ms_child m) then Some (m\<lparr>ms_main := MainReturned\<rparr>) else None
      | MainReturned \<Rightarrow> None)"

definition Guard_signal :: "Master \<Rightarrow> Master option" where
  "Guard_signal m =
     (case ms_sig m of
        SigBlocked \<Rightarrow> if ms_signals m \<noteq> 0 then Some (m\<lparr>ms_signals := 0, ms_sig := SigCancel\<rparr>) else None
      | SigCancel \<Rightarrow> Some (m\<lparr>ms_ctx := True, ms_sig := SigLoop exitWaitTime\<rparr>)
      | SigLoop i \<Rightarrow>
          (if 0 <s childCount (ms_child m) \<and> 0 < i then Some (m\<lparr>ms_sig := SigLoop (i - 1)\<rparr>) else Some (m\<lparr>ms_sig := SigEnd (i = 0)\<rparr>))
      | SigEnd forced \<Rightarrow> Some (m\<lparr>ms_exit := Some 1\<rparr>))"

datatype master_action = ChildGo | StopCall | RaiseSignal | GuardGo | SignalGo

text \<open>Nothing happens after \<open>os.Exit\<close>.\<close>

inductive master_step :: "master_action \<Rightarrow> Master \<Rightarrow> Master \<Rightarrow> bool" where
  master_child: "ms_exit m = None \<Longrightarrow> child_step (ms_child m) c \<Longrightarrow> master_step ChildGo m (m\<lparr>ms_child := c\<rparr>)"
| master_stop: "ms_exit m = None \<Longrightarrow> master_Stop m = Some m' \<Longrightarrow> master_step StopCall m m'"
| master_signal: "ms_exit m = None \<Longrightarrow> master_step RaiseSignal m (raise_signal m)"
| master_guard: "ms_exit m = None \<Longrightarrow> Guard m = Some m' \<Longrightarrow> master_step GuardGo m m'"
| master_count: "ms_exit m = None \<Longrightarrow> Guard_signal m = Some m' \<Longrightarrow> master_step SignalGo m m'"

inductive_cases master_stepE: "master_step a m m'"

inductive master_path :: "Master \<Rightarrow> master_action list \<Rightarrow> Master \<Rightarrow> bool" where
  path_nil: "master_path m [] m"
| path_step: "master_step a m m' \<Longrightarrow> master_path m' as m'' \<Longrightarrow> master_path m (a # as) m''"

section \<open>The invariant\<close>

definition master_inv :: "Master \<Rightarrow> bool" where
  "master_inv m \<longleftrightarrow> child_inv (ms_child m) \<and> (ms_closeOnce m \<longleftrightarrow> ms_stopChan m)
     \<and> (ms_main m \<noteq> MainBlocked \<longrightarrow> ms_stopChan m) \<and> (ms_main m = MainWait \<or> ms_main m = MainReturned \<longrightarrow> ms_ctx m)
     \<and> (ms_sig m = SigBlocked \<longrightarrow> ms_exit m = None) \<and> (ms_sig m \<noteq> SigBlocked \<and> ms_sig m \<noteq> SigCancel \<longrightarrow> ms_ctx m)
     \<and> (\<forall>i. ms_sig m = SigLoop i \<longrightarrow> i \<le> exitWaitTime) \<and> (ms_exit m = None \<or> ms_exit m = Some 1)"

lemma master_Stop_inv: "master_inv m \<Longrightarrow> master_Stop m = Some (m\<lparr>ms_closeOnce := True, ms_stopChan := True\<rparr>)"
  by (simp add: master_inv_def master_Stop_def)

lemma Guard_cases:
  assumes "Guard m = Some m'"
  obtains "ms_main m = MainBlocked" "ms_stopChan m" "m' = m\<lparr>ms_main := MainCancel\<rparr>"
  | "ms_main m = MainCancel" "m' = m\<lparr>ms_ctx := True, ms_main := MainWait\<rparr>"
  | "ms_main m = MainWait" "Wait_returns (ms_child m)" "m' = m\<lparr>ms_main := MainReturned\<rparr>"
  using assms by (cases "ms_main m") (simp_all add: Guard_def split: if_splits)

lemma Guard_signal_cases:
  assumes "Guard_signal m = Some m'"
  obtains "ms_sig m = SigBlocked" "m' = m\<lparr>ms_signals := 0, ms_sig := SigCancel\<rparr>"
  | "ms_sig m = SigCancel" "m' = m\<lparr>ms_ctx := True, ms_sig := SigLoop exitWaitTime\<rparr>"
  | i where "ms_sig m = SigLoop i" "0 < i" "m' = m\<lparr>ms_sig := SigLoop (i - 1)\<rparr>"
  | i where "ms_sig m = SigLoop i" "m' = m\<lparr>ms_sig := SigEnd (i = 0)\<rparr>"
  | forced where "ms_sig m = SigEnd forced" "m' = m\<lparr>ms_exit := Some 1\<rparr>"
proof (cases "ms_sig m")
  case (SigLoop i)
  show ?thesis
  proof (cases "0 <s childCount (ms_child m) \<and> 0 < i")
    case True
    then show ?thesis using assms SigLoop that(3) by (simp add: Guard_signal_def)
  next
    case False
    then have "Guard_signal m = Some (m\<lparr>ms_sig := SigEnd (i = 0)\<rparr>)" using SigLoop by (auto simp: Guard_signal_def)
    then have "m' = m\<lparr>ms_sig := SigEnd (i = 0)\<rparr>" using assms by simp
    with SigLoop show ?thesis by (rule that(4))
  qed
next
  case SigBlocked
  then have "m' = m\<lparr>ms_signals := 0, ms_sig := SigCancel\<rparr>" using assms by (simp add: Guard_signal_def split: if_splits)
  with SigBlocked show ?thesis by (rule that(1))
next
  case SigCancel
  then have "m' = m\<lparr>ms_ctx := True, ms_sig := SigLoop exitWaitTime\<rparr>" using assms by (simp add: Guard_signal_def)
  with SigCancel show ?thesis by (rule that(2))
next
  case (SigEnd forced)
  then have "m' = m\<lparr>ms_exit := Some 1\<rparr>" using assms by (simp add: Guard_signal_def)
  with SigEnd show ?thesis by (rule that(5))
qed

lemma Guard_inv: "master_inv m \<Longrightarrow> Guard m = Some m' \<Longrightarrow> master_inv m'"
  by (erule Guard_cases) (simp_all add: master_inv_def)

lemma Guard_signal_inv: "master_inv m \<Longrightarrow> Guard_signal m = Some m' \<Longrightarrow> master_inv m'"
  by (erule Guard_signal_cases) (simp_all add: master_inv_def, linarith)

interpretation master: step_invariant "\<lambda>m. m = NewMaster" "\<lambda>m m'. \<exists>a. master_step a m m'" master_inv
proof
  fix m m' assume i: "master_inv m" and "\<exists>a. master_step a m m'"
  then obtain a where "master_step a m m'" by blast
  then show "master_inv m'"
  proof cases
    case (master_child c)
    then show ?thesis using i child.step_inv [of "ms_child m" c] by (simp add: master_inv_def)
  next
    case master_stop
    then have "m' = m\<lparr>ms_closeOnce := True, ms_stopChan := True\<rparr>" using master_Stop_inv [OF i] by simp
    then show ?thesis using i by (simp add: master_inv_def)
  next
    case master_signal
    then show ?thesis using i by (simp add: master_inv_def raise_signal_def)
  qed (use i Guard_inv Guard_signal_inv in blast)+
qed (use child.init_inv in \<open>simp add: master_inv_def NewMaster_def\<close>)

section \<open>The end after a signal\<close>

fun signal_rank :: "signal_pc \<Rightarrow> nat" where
  "signal_rank SigBlocked = 12" | "signal_rank SigCancel = 11" | "signal_rank (SigLoop i) = i + 2" | "signal_rank (SigEnd f) = 1"

text \<open>The steps that are left to the goroutine of the signal.\<close>

definition signal_left :: "Master \<Rightarrow> nat" where
  "signal_left m = (if ms_exit m = None then signal_rank (ms_sig m) else 0)"

lemma signal_goes:
  assumes "Guard_signal m = Some m'" "ms_exit m = None" "ms_sig m \<noteq> SigBlocked"
  shows "signal_left m' + 1 \<le> signal_left m \<and> ms_sig m' \<noteq> SigBlocked"
  using assms(1) by (rule Guard_signal_cases) (use assms(2,3) in \<open>simp_all add: signal_left_def exitWaitTime_def\<close>)

lemma Guard_signal_kept: "Guard m = Some m' \<Longrightarrow> ms_sig m' = ms_sig m \<and> ms_exit m' = ms_exit m"
  by (erule Guard_cases) simp_all

lemma Stop_signal_kept: "master_Stop m = Some m' \<Longrightarrow> ms_sig m' = ms_sig m \<and> ms_exit m' = ms_exit m"
  by (auto simp: master_Stop_def split: if_splits)

lemma signal_step:
  assumes "master_step a m m'" "ms_sig m \<noteq> SigBlocked"
  shows "signal_left m' + (if a = SignalGo then 1 else 0) \<le> signal_left m \<and> ms_sig m' \<noteq> SigBlocked"
  using assms(1)
proof cases
  case master_count
  then show ?thesis using signal_goes assms(2) by simp
next
  case master_guard
  then show ?thesis using Guard_signal_kept [of m m'] assms(2) by (simp add: signal_left_def)
next
  case master_stop
  then show ?thesis using Stop_signal_kept [of m m'] assms(2) by (simp add: signal_left_def)
qed (use assms(2) in \<open>simp_all add: signal_left_def raise_signal_def\<close>)

lemma signal_path:
  "master_path m as m' \<Longrightarrow> ms_sig m \<noteq> SigBlocked \<Longrightarrow> num (\<lambda>a. a = SignalGo) as + signal_left m' \<le> signal_left m \<and> ms_sig m' \<noteq> SigBlocked"
proof (induction rule: master_path.induct)
  case (path_step a m m' as m'')
  then show ?case using signal_step [OF path_step.hyps(1) path_step.prems] by auto
qed simp

section \<open>Properties\<close>

text \<open>C24: \<open>Guard\<close> returns only after \<open>Stop\<close> and after the context has been cancelled, and it gets past its wait only when no component
  of the wait group runs; the process is ended from within only after a signal; \<open>Stop\<close> never panics, however often it
  is called.\<close>

theorem guard_returns:
  assumes "reach (\<lambda>m. m = NewMaster) (\<lambda>m m'. \<exists>a. master_step a m m') m"
  shows "(ms_main m = MainReturned \<longrightarrow> ms_stopChan m \<and> ms_ctx m)
    \<and> (ms_main m = MainWait \<and> Guard m \<noteq> None \<longrightarrow> (\<forall>p\<in>set (phases (ms_child m)). p \<noteq> Grouped \<and> p \<noteq> Running))
    \<and> (ms_exit m \<noteq> None \<longrightarrow> ms_sig m \<noteq> SigBlocked \<and> ms_exit m = Some 1) \<and> master_Stop m \<noteq> None"
proof -
  have i: "master_inv m" using assms by (rule master.reach_inv)
  have "\<forall>p\<in>set (phases (ms_child m)). p \<noteq> Grouped \<and> p \<noteq> Running" if "ms_main m = MainWait" "Guard m \<noteq> None"
    using that i by (auto simp: Guard_def Wait_returns_def master_inv_def child_inv_def num_0 grouped_def split: if_splits)
  then show ?thesis using i master_Stop_inv [OF i] by (auto simp: master_inv_def)
qed

definition stopped_master :: Master where
  "stopped_master = NewMaster\<lparr>ms_closeOnce := True, ms_stopChan := True, ms_main := MainCancel\<rparr>"

lemma stopped_master_reach: "reach (\<lambda>m. m = NewMaster) (\<lambda>m m'. \<exists>a. master_step a m m') stopped_master"
proof -
  let ?m = "NewMaster\<lparr>ms_closeOnce := True, ms_stopChan := True\<rparr>"
  have "master_step StopCall NewMaster ?m" by (rule master_stop) (simp_all add: NewMaster_def master_Stop_def)
  moreover have "master_step GuardGo ?m stopped_master"
    by (rule master_guard) (simp_all add: NewMaster_def stopped_master_def Guard_def)
  moreover have "reach (\<lambda>m. m = NewMaster) (\<lambda>m m'. \<exists>a. master_step a m m') NewMaster" by (rule reach_init) simp
  ultimately show ?thesis by (blast intro: reach_step)
qed

lemma guard_returns_witness: "ms_stopChan stopped_master \<and> master_Stop stopped_master \<noteq> None"
  using guard_returns [OF stopped_master_reach] by (simp add: stopped_master_def)

text \<open>C25: a signal ends the process: from the moment it is received, the goroutine has at most eleven steps left, one of
  them for each of eight seconds, whatever the components and \<open>Stop\<close> do in between; it never blocks, and when it has no
  step left the process has ended with code 1.\<close>

theorem signal_ends_process:
  assumes "ms_sig m \<noteq> SigBlocked" "ms_exit m = None" "\<forall>i. ms_sig m = SigLoop i \<longrightarrow> i \<le> exitWaitTime" "master_path m as m'"
  shows "num (\<lambda>a. a = SignalGo) as \<le> 11 \<and> (ms_exit m' = None \<longrightarrow> (\<exists>m''. master_step SignalGo m' m''))"
proof -
  have "signal_left m \<le> 11" using assms(1-3) by (cases "ms_sig m") (auto simp: signal_left_def exitWaitTime_def)
  moreover have "\<exists>m''. master_step SignalGo m' m''" if "ms_exit m' = None"
  proof -
    have "Guard_signal m' \<noteq> None"
      using signal_path [OF assms(4,1)] by (cases "ms_sig m'") (auto simp: Guard_signal_def)
    then show ?thesis using that master_count by blast
  qed
  ultimately show ?thesis using signal_path [OF assms(4,1)] by auto
qed

definition signalled_master :: Master where
  "signalled_master = NewMaster\<lparr>ms_sig := SigCancel\<rparr>"

lemma signal_ends_process_witness:
  "num (\<lambda>a. a = SignalGo) [SignalGo, RaiseSignal, SignalGo] \<le> 11
   \<and> (\<exists>m' m''. master_path signalled_master [SignalGo, RaiseSignal, SignalGo] m' \<and> master_step SignalGo m' m'')"
proof -
  let ?a = "signalled_master\<lparr>ms_ctx := True, ms_sig := SigLoop 8\<rparr>"
  let ?m = "?a\<lparr>ms_signals := 1, ms_sig := SigEnd False\<rparr>"
  have "master_step SignalGo signalled_master ?a"
    by (rule master_count) (simp_all add: signalled_master_def NewMaster_def Guard_signal_def exitWaitTime_def)
  moreover have "master_step RaiseSignal ?a (raise_signal ?a)"
    by (rule master_signal) (simp add: signalled_master_def NewMaster_def)
  moreover have "master_step SignalGo (raise_signal ?a) ?m"
    by (rule master_count) (simp_all add: signalled_master_def NewMaster_def Guard_signal_def raise_signal_def new_child_def)
  ultimately have p: "master_path signalled_master [SignalGo, RaiseSignal, SignalGo] ?m" by (meson path_nil path_step)
  have "\<forall>i. ms_sig signalled_master = SigLoop i \<longrightarrow> i \<le> exitWaitTime" "ms_exit ?m = None"
    by (simp_all add: signalled_master_def NewMaster_def)
  with signal_ends_process [OF _ _ this(1) p] p show ?thesis by (auto simp: signalled_master_def NewMaster_def)
qed

text \<open>After a signal the guard ends within eight seconds, and calls the exit a forced one exactly when components were left at
  the start of each of these seconds: one that ends during the eighth second is not noticed.\<close>

lemma guard_forced_iff: "guard_forced counts \<longleftrightarrow> (\<forall>k<8. 0 <s counts k)"
  by (simp add: guard_forced_def exitWaitTime_def guard_loop_0)

end
