(* ===== verification/Startup.thy ===== *)
theory Startup
  imports Sidecar Master
begin

text \<open>
  How a node comes up: \<open>util/sys.go\<close>, \<open>newPeer\<close> (\<open>sidecar/peer.go\<close>), \<open>newCluster\<close> (\<open>cluster.go\<close>), \<open>NewServerTCP\<close>
  (\<open>transport/tcp_server.go\<close>), \<open>NewSidecar\<close> and \<open>Run\<close> up to its loop (\<open>sidecar.go\<close>), \<open>Init\<close> and \<open>WaitInit\<close> of \<open>node.go\<close>; and how its
  HTTP page ends it. What the machine, the directory and the network answer is given.
\<close>

section \<open>The local address\<close>

text \<open>An address of an interface: for an \<open>IPNet\<close>, whether it is a loopback, whether it has four bytes, and its text.\<close>

datatype local_addr = IPNet bool bool string | OtherAddr

datatype local_error = InterfaceAddrsFailed | ErrLocalAddressNotfound

fun local_loop :: "local_addr list \<Rightarrow> local_error + string" where
  "local_loop [] = Inl ErrLocalAddressNotfound"
| "local_loop (IPNet loopback four s # as) = (if \<not> loopback \<and> four then Inr s else local_loop as)"
| "local_loop (OtherAddr # as) = local_loop as"

definition GetLocalAddress :: "local_addr list option \<Rightarrow> local_error + string" where
  "GetLocalAddress address = (case address of None \<Rightarrow> Inl InterfaceAddrsFailed | Some as \<Rightarrow> local_loop as)"

section \<open>Peer, cluster and server\<close>

text \<open>\<open>Peer\<close>: its own data and what it found in the directory.\<close>

record Peer =
  pe_Info :: Info
  pe_initAddress :: "Info list"

datatype peer_error = NoLocalAddress local_error | NotRegistered register_error

definition newPeer ::
  "local_addr list option \<Rightarrow> register_answers \<Rightarrow> string \<Rightarrow> string \<Rightarrow> string \<Rightarrow> (peer_error + Peer) option" where
  "newPeer address a name HTTPPort TCPPort =
     (case GetLocalAddress address of
        Inl e \<Rightarrow> Some (Inl (NoLocalAddress e))
      | Inr ip \<Rightarrow>
         (let p = \<lparr>info_Name = name, info_Address = ip, info_HTTPPort = HTTPPort, info_TCPPort = TCPPort, info_ID = 0, info_MachineID = 0\<rparr> in
          case RegisterServer a p [] of
            None \<Rightarrow> None
          | Some (Inl e, _) \<Rightarrow> Some (Inl (NotRegistered e))
          | Some (Inr (i, m), ini, _) \<Rightarrow> Some (Inr \<lparr>pe_Info = p\<lparr>info_ID := i, info_MachineID := m\<rparr>, pe_initAddress = ini\<rparr>)))"

definition newCluster ::
  "local_addr list option \<Rightarrow> register_answers \<Rightarrow> string \<Rightarrow> string \<Rightarrow> string \<Rightarrow> (peer_error + 's cluster \<times> Peer) option" where
  "newCluster address a name HTTPPort TCPPort =
     (case newPeer address a name HTTPPort TCPPort of
        None \<Rightarrow> None
      | Some (Inl e) \<Rightarrow> Some (Inl e)
      | Some (Inr p) \<Rightarrow>
          Some (Inr (\<lparr>cl_sessions = replicate 1024 None, cl_channels = \<lambda>_. None, machineID = of_int (info_MachineID (pe_Info p)), cl_state = 0\<rparr>, p)))"

text \<open>
  \<open>resolve\<close> is the address of the port, \<open>listen\<close> the listener for an address; a nil address stands for any free port. The error of
  \<open>ResolveTCPAddr\<close> is overwritten by the next call. \<^const>\<open>None\<close>: \<open>Fatal\<close> ends the process.
\<close>

definition NewServerTCP :: "bool \<Rightarrow> 'a option \<Rightarrow> ('a option \<Rightarrow> 'l option) \<Rightarrow> 'l option" where
  "NewServerTCP handler resolve listen = (if \<not> handler then None else listen resolve)"

section \<open>The sidecar\<close>

record ('s, 'l) Sidecar =
  sc_cluster :: "'s cluster"
  sc_Peer :: Peer
  sc_limiter :: "LimiterConfigure option"
  sc_breaker :: CircuitBreakerConfigure
  sc_listener :: 'l
  sc_ready :: bool
  sc_once :: bool

datatype fatal = FatalPeer peer_error | FatalLimiter | FatalListen

datatype 'a made = Made 'a | MadeFatal fatal | MadePanic

definition NewSidecar ::
  "local_addr list option \<Rightarrow> register_answers \<Rightarrow> 'a option \<Rightarrow> ('a option \<Rightarrow> 'l option) \<Rightarrow> string \<Rightarrow> string \<Rightarrow> string
    \<Rightarrow> LimiterConfigure option \<Rightarrow> CircuitBreakerConfigure option \<Rightarrow> ('s, 'l) Sidecar made" where
  "NewSidecar address a resolve listen name HTTPPort TCPPort lc cc =
     (case newCluster address a name HTTPPort TCPPort of
        None \<Rightarrow> MadePanic
      | Some (Inl e) \<Rightarrow> MadeFatal (FatalPeer e)
      | Some (Inr (c, p)) \<Rightarrow>
         (case sidecar_limiter lc of
            None \<Rightarrow> MadeFatal FatalLimiter
          | Some lim \<Rightarrow>
             (case NewServerTCP True resolve listen of
                None \<Rightarrow> MadeFatal FatalListen
              | Some l \<Rightarrow> Made \<lparr>sc_cluster = c, sc_Peer = p, sc_limiter = lim, sc_breaker = sidecar_breaker cc,
                  sc_listener = l, sc_ready = False, sc_once = False\<rparr>)))"

text \<open>\<open>Init\<close> of a node hands over its own configurations, never nil.\<close>

definition Node_Init ::
  "local_addr list option \<Rightarrow> register_answers \<Rightarrow> 'a option \<Rightarrow> ('a option \<Rightarrow> 'l option) \<Rightarrow> string \<Rightarrow> string \<Rightarrow> string
    \<Rightarrow> LimiterConfigure \<Rightarrow> CircuitBreakerConfigure \<Rightarrow> ('s, 'l) Sidecar made" where
  "Node_Init address a resolve listen name HTTPPort TCPPort lc cc =
     NewSidecar address a resolve listen name HTTPPort TCPPort (Some lc) (Some cc)"

text \<open>
  \<open>Run\<close> up to its loop. \<open>answers\<close>: what the nodes of the directory answer to being dialled; \<open>chan\<close>, \<open>states\<close>, \<open>channels\<close>: what
  the watchers and other nodes have put into the three channels by then; \<open>cl\<close>: what is found under \<open>channel/\<close>. The state
  \<open>StateWork\<close> is sent to the loop of the cluster.
\<close>

datatype ('s, 'l) started = Started "('s, 'l) Sidecar" "'s dialing" | StartBlocked | StartFatal init_error | StartPanic

definition sidecar_Run_start ::
  "'s dial_answer list \<Rightarrow> 's nodeMsg list \<Rightarrow> stateMsg list \<Rightarrow> channelMsg list \<Rightarrow> u8 list list option \<Rightarrow> ('s, 'l) Sidecar \<Rightarrow> ('s, 'l) started" where
  "sidecar_Run_start answers chan states channels cl s =
     (case dialNode (machineID (sc_cluster s)) (zip (pe_initAddress (sc_Peer s)) answers) chan of
        None \<Rightarrow> StartPanic
      | Some (DialBlocked d) \<Rightarrow> StartBlocked
      | Some (Dialled d) \<Rightarrow>
         (case initStateAndChannels cl states channels (sc_cluster s) of
            None \<Rightarrow> StartPanic
          | Some (Some e, c) \<Rightarrow> StartFatal e
          | Some (None, c) \<Rightarrow> Started (s\<lparr>sc_cluster := c, sc_ready := True\<rparr>) d))"

text \<open>\<open>WaitInit\<close> returns when the channel is closed.\<close>

definition WaitInit_returns :: "('s, 'l) started \<Rightarrow> bool" where
  "WaitInit_returns r = (case r of Started s d \<Rightarrow> sc_ready s | _ \<Rightarrow> False)"

text \<open>The page \<open>exit\<close>: it prints, and the first time it calls the exit function, \<open>Stop\<close> of the master. \<^const>\<open>None\<close> is a panic.\<close>

definition sidecar_echo :: "string list \<Rightarrow> string list" where
  "sidecar_echo w = w @ [''pong'']"

definition sidecar_exit :: "('s, 'l) Sidecar \<Rightarrow> Master \<Rightarrow> string list \<Rightarrow> (('s, 'l) Sidecar \<times> Master \<times> string list) option" where
  "sidecar_exit s m w =
     (if sc_once s then Some (s, m, w @ [''exit''])
      else do { m \<leftarrow> master_Stop m; Some (s\<lparr>sc_once := True\<rparr>, m, w @ [''exit'']) })"


section \<open>When a node comes up\<close>

definition answers_good :: "register_answers \<Rightarrow> bool" where
  "answers_good a \<longleftrightarrow> ans_connect a \<and> ans_session a \<and> ans_lock a \<and> ans_grant a \<noteq> None \<and> ans_json a \<and> ans_put a \<and> ans_keepalive a"

lemma free_id_exists:
  assumes "nodes_inv ns"
  shows "(\<exists>n. free_id (map (\<lambda>n. uint (fst n)) ns) = Inr n) \<longleftrightarrow> length ns < 1024"
proof -
  let ?q = "map (\<lambda>n. uint (fst n)) ns"
  have q: "distinct ?q" "\<forall>q\<in>set ?q. 0 \<le> q \<and> q < MaxWorkNumber"
    using assms distinct_ids by (auto simp: nodes_inv_def MaxWorkNumber_def)
  have card: "card (set ?q) = length ns" using distinct_card [OF q(1)] by simp
  show ?thesis
  proof (cases "free_id ?q")
    case (Inl e)
    then have "set ?q = {0..<1024}" using free_id_spec [OF q] by (simp add: MaxWorkNumber_def)
    then have "card (set ?q) = 1024" by simp
    then show ?thesis using Inl card by simp
  next
    case (Inr n)
    then have n: "n \<notin> set ?q" "n \<in> {0..<1024}" using free_id_spec [OF q] by (simp_all add: MaxWorkNumber_def)
    have "set ?q \<subset> {0..<1024}" using n q(2) by (auto simp: MaxWorkNumber_def)
    then have "card (set ?q) < card {0..<1024 :: int}" by (intro psubset_card_mono) auto
    then show ?thesis using Inr card by simp
  qed
qed

text \<open>A registration among the nodes \<open>ns\<close>: it gives an id, or an error, and never panics.\<close>

lemma RegisterServer_nodes:
  assumes "nodes_inv ns"
  shows "if answers_good a \<and> length ns < 1024
    then \<exists>i n key. RegisterServer (a\<lparr>ans_nodes := Some (node_kvs ns)\<rparr>) p []
        = Some (Inr (i, n), p\<lparr>info_ID := i, info_MachineID := n\<rparr> # map snd ns, Some key) \<and> join_id a p ns = Some n
    else \<exists>e r. RegisterServer (a\<lparr>ans_nodes := Some (node_kvs ns)\<rparr>) p [] = Some (Inl e, r)"
proof (cases "answers_good a")
  case False
  then show ?thesis
    by (auto simp: answers_good_def RegisterServer_def Let_def getMachineID_nodes [OF assms] split: option.splits sum.splits)
next
  case True
  show ?thesis
  proof (cases "free_id (map (\<lambda>n. uint (fst n)) ns)")
    case (Inl e)
    then have "\<not> length ns < 1024" using free_id_exists [OF assms] by auto
    then show ?thesis using True Inl by (auto simp: answers_good_def RegisterServer_def Let_def getMachineID_nodes [OF assms])
  next
    case (Inr n)
    then have "length ns < 1024" using free_id_exists [OF assms] by auto
    then show ?thesis using True Inr
      by (auto simp: answers_good_def RegisterServer_def join_id_def Let_def getMachineID_nodes [OF assms])
  qed
qed

definition limiter_fits :: "LimiterConfigure \<Rightarrow> bool" where
  "limiter_fits lc \<longleftrightarrow> \<not> (0 <s LimitRate lc \<and> 0 <s LimitSize lc \<and> sint (LimitSize lc) \<le> 32768)"

lemma sidecar_limiter_fits: "(\<exists>lim. sidecar_limiter (Some lc) = Some lim) \<longleftrightarrow> limiter_fits lc"
  by (auto simp: sidecar_limiter_def limiter_fits_def BytesPoolLenght_def)

text \<open>The sidecar that \<open>Init\<close> makes, or why it makes none.\<close>

lemma Node_Init_nodes:
  fixes listen :: "'a option \<Rightarrow> 'l option"
  assumes "nodes_inv ns"
  shows "if (\<exists>ip. GetLocalAddress address = Inr ip) \<and> answers_good a \<and> length ns < 1024 \<and> limiter_fits lc \<and> listen resolve \<noteq> None
    then \<exists>ip i n lim l. let p = \<lparr>info_Name = name, info_Address = ip, info_HTTPPort = hp, info_TCPPort = tp, info_ID = 0, info_MachineID = 0\<rparr>
      in GetLocalAddress address = Inr ip \<and> join_id a p ns = Some n
      \<and> Node_Init address (a\<lparr>ans_nodes := Some (node_kvs ns)\<rparr>) resolve listen name hp tp lc cc
        = Made \<lparr>sc_cluster = \<lparr>cl_sessions = replicate 1024 (None :: 's option), cl_channels = \<lambda>_. None, machineID = of_int n, cl_state = 0\<rparr>,
            sc_Peer = \<lparr>pe_Info = p\<lparr>info_ID := i, info_MachineID := n\<rparr>, pe_initAddress = p\<lparr>info_ID := i, info_MachineID := n\<rparr> # map snd ns\<rparr>,
            sc_limiter = lim, sc_breaker = cc, sc_listener = l, sc_ready = False, sc_once = False\<rparr>
    else \<exists>e. Node_Init address (a\<lparr>ans_nodes := Some (node_kvs ns)\<rparr>) resolve listen name hp tp lc cc = (MadeFatal e :: ('s, 'l) Sidecar made)"
proof (cases "GetLocalAddress address")
  case (Inl e)
  then show ?thesis by (simp add: Node_Init_def NewSidecar_def newCluster_def newPeer_def)
next
  case (Inr ip)
  let ?p = "\<lparr>info_Name = name, info_Address = ip, info_HTTPPort = hp, info_TCPPort = tp, info_ID = 0, info_MachineID = 0\<rparr>"
  let ?a = "a\<lparr>ans_nodes := Some (node_kvs ns)\<rparr>"
  note defs = Node_Init_def NewSidecar_def newCluster_def newPeer_def NewServerTCP_def Let_def sidecar_breaker_def
  show ?thesis
  proof (cases "answers_good a \<and> length ns < 1024")
    case False
    then obtain e r where "RegisterServer ?a ?p [] = Some (Inl e, r)" using RegisterServer_nodes [OF assms, of a ?p] by auto
    then show ?thesis using Inr False by (auto simp: defs)
  next
    case True
    then obtain i n key where r: "RegisterServer ?a ?p [] = Some (Inr (i, n), ?p\<lparr>info_ID := i, info_MachineID := n\<rparr> # map snd ns, Some key)"
      "join_id a ?p ns = Some n"
      using RegisterServer_nodes [OF assms, of a ?p] by auto
    show ?thesis
    proof (cases "sidecar_limiter (Some lc)")
      case None
      then have "\<not> limiter_fits lc" using sidecar_limiter_fits [of lc] by simp
      then show ?thesis using Inr r(1) None by (simp add: defs)
    next
      case (Some lim)
      then have "limiter_fits lc" using sidecar_limiter_fits [of lc] by simp
      then show ?thesis using Inr r Some True
        by (cases "listen resolve") (auto simp: defs)
    qed
  qed
qed

lemma init_channels_some: "\<forall>v\<in>set cl. 4 \<le> length v \<Longrightarrow> \<exists>t'. init_channels cl t = Some t'"
proof (induction cl arbitrary: t)
  case (Cons v cl)
  have "4 \<le> length v" using Cons.prems by simp
  then have "\<exists>x i y ch. reslice (of_list v) 0 2 = Some x \<and> BytesToUint16 x = Some i \<and> reslice (of_list v) 2 (int (length v)) = Some y
      \<and> BytesToUint16 y = Some ch"
    by (auto simp: reslice_def of_list_def BytesToUint16_def sl_at_def)
  then show ?case using Cons by auto
qed simp

text \<open>The directory lists the subscriptions \<open>xs\<close>, pairs of channel and machine.\<close>

lemma init_channels_values:
  "init_channels (map (\<lambda>(ch, i). channelValue i ch) xs) t = Some (foldl (\<lambda>t (ch, i). init_bucket t i ch) t xs)"
proof (induction xs arbitrary: t)
  case (Cons x xs)
  obtain ch i where x: "x = (ch, i)" by (cases x)
  show ?case using Cons.IH x channelValue_bytes [of i ch] read16(1) [of "bytes16 i @ bytes16 ch" "[]" i "bytes16 ch" 0 2] read16(1) [of "bytes16 i @ bytes16 ch" "bytes16 i" ch "[]" 2 4]
      read16(2) [OF refl refl refl, of i "bytes16 ch"] read16(2) [OF refl refl refl, of ch "[]"]
    by simp
qed simp


lemma foldl_members:
  "(case foldl (\<lambda>t (ch, i). init_bucket t i ch) t xs ch of None \<Rightarrow> [] | Some b \<Rightarrow> sets b)
    = (case t ch of None \<Rightarrow> [] | Some b \<Rightarrow> sets b) @ map snd (filter (\<lambda>x. fst x = ch) xs)"
proof (induction xs arbitrary: t)
  case (Cons x xs)
  then show ?case by (cases x) (simp add: init_bucket_add bucket_add_newBucket)
qed simp

lemma cluster_run_nodes:
  assumes "\<forall>m\<in>set ms. nm_operation m = 3 \<and> unat (nm_id m) < length (cl_sessions c)"
  shows "cluster_run c (map NodeMsg ms) = Some (c\<lparr>cl_sessions := foldl (\<lambda>ss m. ss[unat (nm_id m) := nm_ss m]) (cl_sessions c) ms\<rparr>, [])"
  using assms
proof (induction ms arbitrary: c)
  case (Cons m ms)
  then show ?case by (simp add: node_turn_def arr_set_def)
qed simp


definition index_of :: "Info \<times> 's dial_answer \<Rightarrow> nat" where
  "index_of p = unat (of_int (info_MachineID (fst p)) :: u16)"

definition put_session :: "Info \<times> 's dial_answer \<Rightarrow> 's option list \<Rightarrow> 's option list" where
  "put_session p ss = (case reached p of Some m \<Rightarrow> ss[index_of p := Some m] | None \<Rightarrow> ss)"

lemma foldl_step:
  "foldl (\<lambda>ss m. ss[unat (nm_id m) := nm_ss m]) ss (concat (map name_msg (p # ps)))
    = foldl (\<lambda>ss m. ss[unat (nm_id m) := nm_ss m]) (put_session p ss) (concat (map name_msg ps))"
  by (cases p; cases "snd p") (simp_all add: put_session_def index_of_def)

lemma put_session: "j \<noteq> index_of p \<Longrightarrow> put_session p ss ! j = ss ! j" "length (put_session p ss) = length ss"
  "index_of p < length ss \<Longrightarrow> put_session p ss ! index_of p = (case reached p of Some m \<Rightarrow> Some m | None \<Rightarrow> ss ! index_of p)"
  by (simp_all add: put_session_def split: option.splits)

lemma foldl_other:
  "j \<notin> set (map index_of ps) \<Longrightarrow> foldl (\<lambda>ss m. ss[unat (nm_id m) := nm_ss m]) ss (concat (map name_msg ps)) ! j = ss ! j"
proof (induction ps arbitrary: ss)
  case (Cons p ps)
  then show ?case unfolding foldl_step by (simp add: put_session)
qed simp

lemma foldl_sessions:
  assumes "distinct (map index_of ps)" "\<forall>p\<in>set ps. index_of p < length ss" "k < length ps"
  shows "foldl (\<lambda>ss m. ss[unat (nm_id m) := nm_ss m]) ss (concat (map name_msg ps)) ! index_of (ps ! k)
    = (case reached (ps ! k) of Some m \<Rightarrow> Some m | None \<Rightarrow> ss ! index_of (ps ! k))"
  using assms
proof (induction ps arbitrary: ss k)
  case (Cons p ps)
  have i: "index_of p < length ss" "index_of p \<notin> set (map index_of ps)" using Cons.prems by simp_all
  show ?case
  proof (cases k)
    case 0
    then show ?thesis using foldl_other [OF i(2), of "put_session p ss"] i(1) unfolding foldl_step 0 nth_Cons_0 by (simp add: put_session)
  next
    case (Suc j)
    then have j: "j < length ps" using Cons.prems(3) by simp
    then have "index_of (ps ! j) \<in> set (map index_of ps)" by simp
    with i(2) have "index_of (ps ! j) \<noteq> index_of p" by metis
    then show ?thesis using Cons.prems(1,2) Cons.IH [OF _ _ j, of "put_session p ss"] unfolding foldl_step Suc nth_Cons_Suc
      by (simp add: put_session cong: option.case_cong)
  qed
qed simp

definition hits :: "'s dial_answer list \<Rightarrow> nat" where
  "hits answers = length (filter (\<lambda>a. case a of Reached m \<Rightarrow> True | _ \<Rightarrow> False) answers)"

lemma hits_reached: "length infos = length answers \<Longrightarrow> length (List.map_filter reached (zip infos answers)) = hits answers"
proof (induction infos answers rule: list_induct2)
  case (Cons i infos a answers)
  then show ?case by (cases a) (simp_all add: hits_def map_filter_simps)
qed (simp add: hits_def map_filter_simps)

section \<open>Properties\<close>

text \<open>C20: how the start of a node ends. \<open>Init\<close> makes a sidecar exactly when the machine has an address, all calls to the
  directory succeed, it has an id left, a limiter in use is larger than the read buffer and the port can be listened
  on; else it ends the process. Then \<open>Run\<close> comes to its loop, and \<open>WaitInit\<close> returns, exactly when at most 128
  nodes are there to be announced and until then no change of a state or of a subscription has arrived from the
  directory: such a change ends the process, too many nodes leave it waiting. Nothing panics.\<close>

theorem node_starts_iff:
  fixes answers :: "'s dial_answer list" and listen :: "'a option \<Rightarrow> 'l option"
  assumes "nodes_inv ns" "length chan \<le> 128" "length answers = Suc (length ns)" "\<forall>vs v. cl = Some vs \<and> v \<in> set vs \<longrightarrow> 4 \<le> length v"
  shows "case Node_Init address (a\<lparr>ans_nodes := Some (node_kvs ns)\<rparr>) resolve listen name hp tp lc cc of
      MadePanic \<Rightarrow> False
    | MadeFatal e \<Rightarrow> \<not> ((\<exists>ip. GetLocalAddress address = Inr ip) \<and> answers_good a \<and> length ns < 1024 \<and> limiter_fits lc \<and> listen resolve \<noteq> None)
    | Made s \<Rightarrow> (\<exists>ip. GetLocalAddress address = Inr ip) \<and> answers_good a \<and> length ns < 1024 \<and> limiter_fits lc \<and> listen resolve \<noteq> None
       \<and> (case sidecar_Run_start answers chan states channels cl s of
            StartPanic \<Rightarrow> False
          | StartBlocked \<Rightarrow> 128 < length chan + hits answers
          | StartFatal e \<Rightarrow> length chan + hits answers \<le> 128 \<and> (cl = None \<or> states \<noteq> [] \<or> channels \<noteq> [])
          | Started s' d \<Rightarrow> WaitInit_returns (Started s' d) \<and> length chan + hits answers \<le> 128 \<and> cl \<noteq> None \<and> states = [] \<and> channels = [])"
proof (cases "(\<exists>ip. GetLocalAddress address = Inr ip) \<and> answers_good a \<and> length ns < 1024 \<and> limiter_fits lc \<and> listen resolve \<noteq> None")
  case False
  then obtain e where "Node_Init address (a\<lparr>ans_nodes := Some (node_kvs ns)\<rparr>) resolve listen name hp tp lc cc = (MadeFatal e :: ('s, 'l) Sidecar made)"
    using Node_Init_nodes [where 's = 's, OF assms(1), of address a lc listen resolve name hp tp cc] by (auto split: if_splits)
  then show ?thesis using False by simp
next
  case True
  then obtain s :: "('s, 'l) Sidecar" and p where s: "Node_Init address (a\<lparr>ans_nodes := Some (node_kvs ns)\<rparr>) resolve listen name hp tp lc cc = Made s"
    "pe_initAddress (sc_Peer s) = p # map snd ns"
    using Node_Init_nodes [where 's = 's, OF assms(1), of address a lc listen resolve name hp tp cc] by (auto simp: Let_def)
  let ?ps = "zip (p # map snd ns) answers"
  have room: "length (concat (map name_msg ?ps)) = hits answers"
    using hits_reached [of "p # map snd ns" answers] assms(3) by (simp add: reached_msgs)
  have dial: "if length chan + hits answers \<le> 128
      then \<exists>d. dialNode (machineID (sc_cluster s)) ?ps chan = Some (Dialled d)
      else \<exists>d. dialNode (machineID (sc_cluster s)) ?ps chan = Some (DialBlocked d)"
    using dialNode_spec [of chan ?ps "machineID (sc_cluster s)"] assms(2) room by (auto simp: NodeChan_cap_def split: if_splits)
  show ?thesis
  proof (cases "length chan + hits answers \<le> 128")
    case False
    then obtain d where "dialNode (machineID (sc_cluster s)) ?ps chan = Some (DialBlocked d)" using dial by auto
    then show ?thesis using True s False by (simp add: sidecar_Run_start_def)
  next
    case fits: True
    then obtain d where d: "dialNode (machineID (sc_cluster s)) ?ps chan = Some (Dialled d)" using dial by auto
    show ?thesis
    proof (cases cl)
      case None
      then show ?thesis using True s d fits by (simp add: sidecar_Run_start_def initStateAndChannels_def)
    next
      case (Some vs)
      then obtain t where "init_channels vs (\<lambda>_. None) = Some t" using init_channels_some assms(4) by blast
      then show ?thesis using True s d fits Some by (simp add: sidecar_Run_start_def initStateAndChannels_def WaitInit_returns_def)
    qed
  qed
qed


definition some_answers :: register_answers where
  "some_answers = \<lparr>ans_connect = True, ans_session = True, ans_lock = True, ans_nodes = None, ans_grant = Some 9, ans_json = True,
     ans_put = True, ans_keepalive = True\<rparr>"

definition no_limit :: LimiterConfigure where "no_limit = \<lparr>LimitRate = 0, LimitSize = 0\<rparr>"

definition some_breaker :: CircuitBreakerConfigure where "some_breaker = NewCircuitBreakerConfigure"

definition peer_info :: Info where
  "peer_info = \<lparr>info_Name = ''a'', info_Address = ''10.0.0.2'', info_HTTPPort = '':1'', info_TCPPort = '':2'', info_ID = 8, info_MachineID = 0\<rparr>"

text \<open>A second node starts while a node subscribes: the process ends.\<close>

lemma node_starts_iff_witness:
  "\<exists>s e. Node_Init (Some [IPNet True True ''127.0.0.1'', IPNet False True ''10.0.0.3'']) (some_answers\<lparr>ans_nodes := Some (node_kvs [(0, peer_info)])\<rparr>)
      (Some 9500) (\<lambda>p. p) ''b'' '':3'' '':4'' no_limit some_breaker = Made s
    \<and> sidecar_Run_start [DialFailed, Reached (5 :: nat)] [] [] [\<lparr>cm_id = 0, cm_channel = 51, cm_operation = 1\<rparr>] (Some []) s = StartFatal e"
proof -
  have "nodes_inv [(0, peer_info)]" by (simp add: nodes_inv_def)
  moreover have "\<exists>ip. GetLocalAddress (Some [IPNet True True ''127.0.0.1'', IPNet False True ''10.0.0.3'']) = Inr ip" by (simp add: GetLocalAddress_def)
  moreover have "answers_good some_answers" "limiter_fits no_limit" by (simp_all add: answers_good_def some_answers_def limiter_fits_def no_limit_def)
  ultimately show ?thesis
    using node_starts_iff [where ns = "[(0, peer_info)]" and chan = "[]" and answers = "[DialFailed, Reached (5 :: nat)]" and cl = "Some []"
        and address = "Some [IPNet True True ''127.0.0.1'', IPNet False True ''10.0.0.3'']" and a = some_answers and resolve = "Some 9500"
        and listen = "\<lambda>p. p" and name = "''b''" and hp = "'':3''" and tp = "'':4''" and lc = no_limit and cc = some_breaker
        and states = "[]" and channels = "[\<lparr>cm_id = 0, cm_channel = 51, cm_operation = 1\<rparr>]"]
    by (auto simp: hits_def split: made.splits started.splits)
qed

text \<open>C21: what a node knows when it has come up: its machine id is the least that no node alive has; when the cluster has taken
  what \<open>dialNode\<close> announced, its table of sessions has, at the id of each node of the directory, the connection
  made to it, if one was made; and each channel lists its subscribers as the directory does.\<close>

theorem started_node_knows:
  fixes answers :: "'s dial_answer list" and s :: "('s, 'l) Sidecar"
  assumes "nodes_inv ns" "\<forall>(i, x)\<in>set ns. info_MachineID x = uint i" "length answers = Suc (length ns)"
    and "Node_Init address (a\<lparr>ans_nodes := Some (node_kvs ns)\<rparr>) resolve listen name hp tp lc cc = Made s"
    and "sidecar_Run_start answers [] [] [] (Some (map (\<lambda>(ch, i). channelValue i ch) xs)) s = Started s' d"
  shows "\<exists>n c. machineID c = of_int n \<and> 0 \<le> n \<and> n < 1024 \<and> of_int n \<notin> fst ` set ns \<and> (\<forall>k. 0 \<le> k \<and> k < n \<longrightarrow> of_int k \<in> fst ` set ns)
    \<and> cluster_run (sc_cluster s') (map NodeMsg (d_chan d)) = Some (c, [])
    \<and> (\<forall>k<length ns. cl_sessions c ! unat (fst (ns ! k)) = (case answers ! Suc k of Reached m \<Rightarrow> Some m | _ \<Rightarrow> None))
    \<and> (\<forall>ch. members c ch = map snd (filter (\<lambda>x. fst x = ch) xs))"
proof -
  obtain ip i n lim l p where made: "join_id a p ns = Some n"
    "s = \<lparr>sc_cluster = \<lparr>cl_sessions = replicate 1024 None, cl_channels = \<lambda>_. None, machineID = of_int n, cl_state = 0\<rparr>,
       sc_Peer = \<lparr>pe_Info = p\<lparr>info_ID := i, info_MachineID := n\<rparr>, pe_initAddress = p\<lparr>info_ID := i, info_MachineID := n\<rparr> # map snd ns\<rparr>,
       sc_limiter = lim, sc_breaker = cc, sc_listener = l, sc_ready = False, sc_once = False\<rparr>"
    using Node_Init_nodes [where 's = 's, OF assms(1), of address a lc listen resolve name hp tp cc] assms(4) by (auto simp: Let_def split: if_splits)
  note n = join_id_spec [OF assms(1) made(1)]
  let ?own = "p\<lparr>info_ID := i, info_MachineID := n\<rparr>"
  let ?ps = "zip (?own # map snd ns) answers"
  have ids: "map index_of ?ps = unat (of_int n :: u16) # map (unat \<circ> fst) ns"
  proof (rule nth_equalityI)
    fix k assume "k < length (map index_of ?ps)"
    then have k: "k < Suc (length ns)" by (simp add: assms(3))
    have "info_MachineID (snd (ns ! j)) = uint (fst (ns ! j))" if "j < length ns" for j
      using assms(2) that by (metis (mono_tags, lifting) case_prod_beta nth_mem)
    then show "map index_of ?ps ! k = (unat (of_int n :: u16) # map (unat \<circ> fst) ns) ! k"
      using k assms(3) by (cases k) (simp_all add: index_of_def)
  qed (simp add: assms(3))
  have small: "\<forall>x\<in>set ns. uint (fst x) < 1024" "distinct (map fst ns)" using assms(1) by (simp_all add: nodes_inv_def)
  have "inj_on unat (set (map fst ns))" by (auto simp: inj_on_def word_unat_eq_iff)
  then have "distinct (map unat (map fst ns))" using small(2) by (simp only: distinct_map)
  moreover have "unat (of_int n :: u16) \<notin> set (map (unat \<circ> fst) ns)"
  proof
    assume "unat (of_int n :: u16) \<in> set (map (unat \<circ> fst) ns)"
    then obtain x where "x \<in> set ns" "unat (of_int n :: u16) = unat (fst x)" by auto
    then have "of_int n = fst x" "fst x \<in> fst ` set ns" by (simp_all add: word_unat_eq_iff)
    then show False using n by simp
  qed
  ultimately have dist: "distinct (map index_of ?ps)" unfolding ids by simp
  have lt: "unat w < 1024" if "uint w < 1024" for w :: u16
    unfolding unat_eq_nat_uint using that by linarith
  have "unat (of_int n :: u16) < 1024" by (rule lt) (use n uint_small [of n] in simp)
  moreover have "\<forall>x\<in>set ns. unat (fst x) < 1024" using small(1) lt by blast
  ultimately have "\<forall>j\<in>set (map index_of ?ps). j < 1024" unfolding ids by simp
  then have room: "\<forall>q\<in>set ?ps. index_of q < 1024" by simp
  obtain d' where d: "dialNode (of_int n) ?ps [] = Some (Dialled d')" "d_chan d' = concat (map name_msg ?ps)"
    using assms(5) made(2) dialNode_spec [of "[]" ?ps "of_int n"]
    by (auto simp: sidecar_Run_start_def split: if_splits)
  let ?t = "foldl (\<lambda>t (ch, i). init_bucket t i ch) (\<lambda>_. None) xs"
  have s': "d = d'" "sc_cluster s' = \<lparr>cl_sessions = replicate 1024 None, cl_channels = ?t, machineID = of_int n, cl_state = 0\<rparr>"
    using assms(5) made(2) d(1) by (auto simp: sidecar_Run_start_def initStateAndChannels_def init_channels_values map_add_def split: option.splits)
  let ?ss = "foldl (\<lambda>ss m. ss[unat (nm_id m) := nm_ss m]) (replicate 1024 None) (d_chan d)"
  let ?c = "(sc_cluster s')\<lparr>cl_sessions := ?ss\<rparr>"
  have "\<forall>m\<in>set (d_chan d). nm_operation m = 3 \<and> unat (nm_id m) < 1024"
  proof
    fix m assume "m \<in> set (d_chan d)"
    then obtain q where q: "q \<in> set ?ps" "m \<in> set (name_msg q)" using s'(1) d(2) by auto
    have "nm_operation m = 3 \<and> unat (nm_id m) = index_of q" using q(2) by (cases q; cases "snd q") (auto simp: index_of_def)
    then show "nm_operation m = 3 \<and> unat (nm_id m) < 1024" using room q(1) by metis
  qed
  then have "cluster_run (sc_cluster s') (map NodeMsg (d_chan d)) = Some (?c, [])"
    using cluster_run_nodes [of "d_chan d" "sc_cluster s'"] s'(2) by simp
  moreover have "?ss ! unat (fst (ns ! k)) = (case answers ! Suc k of Reached m \<Rightarrow> Some m | _ \<Rightarrow> None)" if "k < length ns" for k
  proof -
    have k: "Suc k < length ?ps" using that assms(3) by simp
    have "index_of (?ps ! Suc k) = unat (fst (ns ! k))" using arg_cong [OF ids, of "\<lambda>l. l ! Suc k"] that assms(3) by simp
    moreover have "index_of (?ps ! Suc k) < 1024" using room nth_mem [OF k] by blast
    ultimately show ?thesis
      using foldl_sessions [OF dist _ k, of "replicate 1024 None"] room s'(1) d(2) that assms(3)
      by (cases "answers ! Suc k") simp_all
  qed
  moreover have "members ?c ch = map snd (filter (\<lambda>x. fst x = ch) xs)" for ch
    using foldl_members [of "\<lambda>_. None" xs ch] s'(2) by (simp add: members_def)
  ultimately show ?thesis using n s'(2) by (intro exI [of _ n] exI [of _ ?c]) simp
qed


lemma started_node_knows_witness:
  "\<exists>s s' d c. sidecar_Run_start [DialFailed, Reached (5 :: nat)] [] [] [] (Some [channelValue 0 51, channelValue 0 52]) (s :: (nat, nat) Sidecar) = Started s' d
    \<and> cluster_run (sc_cluster s') (map NodeMsg (d_chan d)) = Some (c, []) \<and> machineID c = 1 \<and> cl_sessions c ! 0 = Some 5 \<and> members c 52 = [0]"
proof -
  let ?ns = "[(0, peer_info)] :: (u16 \<times> Info) list" and ?ad = "Some [IPNet False True ''10.0.0.3'']" and ?xs = "[(51, 0), (52, 0)]"
  have ns: "nodes_inv ?ns" by (simp add: nodes_inv_def)
  have ok: "answers_good some_answers" "limiter_fits no_limit" "GetLocalAddress ?ad = Inr ''10.0.0.3''"
    by (simp_all add: answers_good_def some_answers_def limiter_fits_def no_limit_def GetLocalAddress_def)
  obtain s :: "(nat, nat) Sidecar" and p where made: "Node_Init ?ad (some_answers\<lparr>ans_nodes := Some (node_kvs ?ns)\<rparr>) (Some (9500 :: nat)) (\<lambda>p. p) ''b'' '':3'' '':4'' no_limit some_breaker = Made s"
    "pe_initAddress (sc_Peer s) = [p, peer_info]"
    using Node_Init_nodes [where 's = nat, OF ns, of ?ad some_answers no_limit "\<lambda>p. p" "Some (9500 :: nat)" "''b''" "'':3''" "'':4''" some_breaker] ok
    by (auto simp: Let_def)
  obtain d where "dialNode (machineID (sc_cluster s)) [(p, DialFailed), (peer_info, Reached (5 :: nat))] [] = Some (Dialled d)"
    using dialNode_spec [of "[]" "[(p, DialFailed), (peer_info, Reached 5)]" "machineID (sc_cluster s)"] by (auto simp: NodeChan_cap_def)
  then obtain s' where s: "sidecar_Run_start [DialFailed, Reached 5] [] [] [] (Some (map (\<lambda>(ch, i). channelValue i ch) ?xs)) s = Started s' d"
    using made(2) by (simp add: sidecar_Run_start_def initStateAndChannels_def init_channels_values del: list.map)
  have i: "\<forall>(i, x)\<in>set ?ns. info_MachineID x = uint i" by (simp add: peer_info_def)
  have l: "length [DialFailed, Reached (5 :: nat)] = Suc (length ?ns)" by simp
  obtain n c where c: "machineID c = of_int n" "0 \<le> n" "of_int n \<notin> fst ` set ?ns" "\<forall>k. 0 \<le> k \<and> k < n \<longrightarrow> of_int k \<in> fst ` set ?ns" "n < 1024"
    "cluster_run (sc_cluster s') (map NodeMsg (d_chan d)) = Some (c, [])" "cl_sessions c ! 0 = Some 5" "members c 52 = [0]"
    using started_node_knows [OF ns i l made(1) s] by (auto simp: peer_info_def)
  have "\<not> 1 < n" using c(4) [THEN spec [of _ 1]] by simp
  moreover have "n \<noteq> 0" using c(3) by auto
  ultimately have "n = 1" using c(2) by simp
  then show ?thesis using s c(1,6-8) by auto
qed

text \<open>The page \<open>exit\<close>, called any number of times, makes the master stop once and never panics.\<close>

fun exit_calls :: "nat \<Rightarrow> ('s, 'l) Sidecar \<times> Master \<times> string list \<Rightarrow> (('s, 'l) Sidecar \<times> Master \<times> string list) option" where
  "exit_calls 0 x = Some x"
| "exit_calls (Suc n) (s, m, w) = do { x \<leftarrow> sidecar_exit s m w; exit_calls n x }"

lemma exit_calls_done: "sc_once s \<Longrightarrow> exit_calls n (s, m, w) = Some (s, m, w @ replicate n ''exit'')"
  by (induction n arbitrary: w) (simp_all add: sidecar_exit_def)

lemma exit_stops:
  assumes "master_inv m" "\<not> sc_once s"
  shows "exit_calls (Suc n) (s, m, w)
    = Some (s\<lparr>sc_once := True\<rparr>, m\<lparr>ms_closeOnce := True, ms_stopChan := True\<rparr>, w @ replicate (Suc n) ''exit'')"
  using master_Stop_inv [OF assms(1)] assms(2) exit_calls_done [of "s\<lparr>sc_once := True\<rparr>" n] by (simp add: sidecar_exit_def)

end
