(* ===== verification/Federation.thy ===== *)
theory Federation
  imports Startup "HOL-Library.Sublist" "HOL-Library.AList"
begin

text \<open>
  Nodes and their directory together: the subscriptions that users make at nodes go through the loops of the clusters
  (\<open>sidecar/cluster.go\<close>) and the calls of \<open>sidecar/etcd.go\<close> to the directory, whose events reach every node at its own pace;
  nodes join at any time. The directory is a parameter.
\<close>

section \<open>The directory\<close>

text \<open>
  The client of etcd on a directory \<open>'d\<close>: \<open>Put\<close>, \<open>Delete\<close> and \<open>Get\<close> with \<open>WithPrefix\<close>, each change with the events that watchers see.
\<close>

record 'd etcd_client =
  do_put :: "'d \<Rightarrow> u8 list \<Rightarrow> u8 list \<Rightarrow> 'd \<times> watch_event list"
  do_delete :: "'d \<Rightarrow> u8 list \<Rightarrow> 'd \<times> watch_event list"
  do_get :: "'d \<Rightarrow> u8 list \<Rightarrow> (u8 list \<times> u8 list) list"

definition has_prefix :: "u8 list \<Rightarrow> u8 list \<times> u8 list \<Rightarrow> bool" where
  "has_prefix p kv \<longleftrightarrow> prefix p (fst kv)"

text \<open>What etcd promises: one value per key, a put replaces it, a delete removes the keys with the prefix, a get finds them.\<close>

definition etcd_laws :: "'d etcd_client \<Rightarrow> bool" where
  "etcd_laws C \<longleftrightarrow>
     (\<forall>d. distinct (map fst (do_get C d [])))
   \<and> (\<forall>d p. do_get C d p = filter (has_prefix p) (do_get C d []))
   \<and> (\<forall>d k v. set (do_get C (fst (do_put C d k v)) []) = insert (k, v) {kv \<in> set (do_get C d []). fst kv \<noteq> k}
        \<and> snd (do_put C d k v) = [EvPut k v])
   \<and> (\<forall>d p. set (do_get C (fst (do_delete C d p)) []) = {kv \<in> set (do_get C d []). \<not> has_prefix p kv}
        \<and> snd (do_delete C d p) = map (EvDelete \<circ> fst) (filter (has_prefix p) (do_get C d [])))"

lemma etcd_lawsD:
  assumes "etcd_laws C"
  shows "distinct (map fst (do_get C d []))" "do_get C d p = filter (has_prefix p) (do_get C d [])"
    "set (do_get C (fst (do_put C d k v)) []) = insert (k, v) {kv \<in> set (do_get C d []). fst kv \<noteq> k}" "snd (do_put C d k v) = [EvPut k v]"
    "set (do_get C (fst (do_delete C d p)) []) = {kv \<in> set (do_get C d []). \<not> has_prefix p kv}"
    "snd (do_delete C d p) = map (EvDelete \<circ> fst) (filter (has_prefix p) (do_get C d []))"
proof -
  note l = assms [unfolded etcd_laws_def]
  note l1 = l [THEN conjunct1, THEN spec] and l2 = l [THEN conjunct2, THEN conjunct1, THEN spec, THEN spec]
    and l3 = l [THEN conjunct2, THEN conjunct2, THEN conjunct1, THEN spec, THEN spec, THEN spec]
    and l4 = l [THEN conjunct2, THEN conjunct2, THEN conjunct2, THEN spec, THEN spec]
  show "distinct (map fst (do_get C d []))" by (rule l1)
  show "do_get C d p = filter (has_prefix p) (do_get C d [])" by (rule l2)
  show "set (do_get C (fst (do_put C d k v)) []) = insert (k, v) {kv \<in> set (do_get C d []). fst kv \<noteq> k}" by (rule l3 [THEN conjunct1])
  show "snd (do_put C d k v) = [EvPut k v]" by (rule l3 [THEN conjunct2])
  show "set (do_get C (fst (do_delete C d p)) []) = {kv \<in> set (do_get C d []). \<not> has_prefix p kv}" by (rule l4 [THEN conjunct1])
  show "snd (do_delete C d p) = map (EvDelete \<circ> fst) (filter (has_prefix p) (do_get C d []))" by (rule l4 [THEN conjunct2])
qed

text \<open>\<open>PutKey\<close>, \<open>DeleteKey\<close> and \<open>GetKey\<close>; \<open>ok\<close>: the client returns no error.\<close>

definition etcd_PutKey :: "'d etcd_client \<Rightarrow> bool \<Rightarrow> 'd \<Rightarrow> u8 list \<Rightarrow> u8 list \<Rightarrow> 'd \<times> watch_event list" where
  "etcd_PutKey C ok d key val = (if ok then do_put C d key val else (d, []))"

definition etcd_DeleteKey :: "'d etcd_client \<Rightarrow> bool \<Rightarrow> 'd \<Rightarrow> u8 list \<Rightarrow> 'd \<times> watch_event list" where
  "etcd_DeleteKey C ok d key = (if ok then do_delete C d key else (d, []))"

definition etcd_GetKey :: "'d etcd_client \<Rightarrow> bool \<Rightarrow> 'd \<Rightarrow> u8 list \<Rightarrow> u8 list list option" where
  "etcd_GetKey C ok d key = (if ok then Some (map snd (do_get C d key)) else None)"

text \<open>The calls on the directory among the effects of a turn.\<close>

fun do_effects :: "'d etcd_client \<Rightarrow> bool \<Rightarrow> 's effect list \<Rightarrow> 'd \<Rightarrow> 'd \<times> watch_event list" where
  "do_effects C ok [] d = (d, [])"
| "do_effects C ok (PutKey k v # es) d =
     (let (d, e1) = etcd_PutKey C ok d k v; (d, e2) = do_effects C ok es d in (d, e1 @ e2))"
| "do_effects C ok (DeleteKey k # es) d =
     (let (d, e1) = etcd_DeleteKey C ok d k; (d, e2) = do_effects C ok es d in (d, e1 @ e2))"
| "do_effects C ok (SessSetState m st # es) d = do_effects C ok es d"
| "do_effects C ok (SessClose m # es) d = do_effects C ok es d"

section \<open>The system\<close>

text \<open>
  A member watches from its registration on (\<open>mb_from\<close> events had happened) and reads the tables later (\<open>mb_read\<close> events had
  happened); \<open>mb_seen\<close> events have reached its loop.
\<close>

record 's member =
  mb_cluster :: "'s cluster"
  mb_up :: bool
  mb_from :: nat
  mb_read :: nat
  mb_seen :: nat

record ('s, 'd) system =
  sy_dir :: 'd
  sy_events :: "watch_event list"
  sy_members :: "'s member list"

definition channel_prefix :: "u8 list" where "channel_prefix = ascii ''channel/''"

datatype sys_action =
    Register u16 | ReadTables nat | UserSubscribe nat u16 bool | UserUnsubscribe nat u16 bool | Deliver nat | LeaseEnds u16 u16

definition user_turn :: "'d etcd_client \<Rightarrow> bool \<Rightarrow> channelMsg \<Rightarrow> nat \<Rightarrow> ('s, 'd) system \<Rightarrow> ('s, 'd) system" where
  "user_turn C ok msg j s =
     (let (c, es) = channel_turn (mb_cluster (sy_members s ! j)) msg;
          (d, evs) = do_effects C ok es (sy_dir s)
      in s\<lparr>sy_dir := d, sy_events := sy_events s @ evs, sy_members := (sy_members s)[j := (sy_members s ! j)\<lparr>mb_cluster := c\<rparr>]\<rparr>)"

text \<open>\<open>Subscribe\<close> and \<open>Unsubscribe\<close> of a node, whose loop has started; the events of a watch come one at a time and in order.\<close>

fun sys_act :: "'d etcd_client \<Rightarrow> sys_action \<Rightarrow> ('s, 'd) system \<Rightarrow> ('s, 'd) system option" where
  "sys_act C (Register mid) s =
     Some (s\<lparr>sy_members := sy_members s @ [\<lparr>mb_cluster = \<lparr>cl_sessions = replicate 1024 None, cl_channels = \<lambda>_. None, machineID = mid, cl_state = 0\<rparr>,
       mb_up = False, mb_from = length (sy_events s), mb_read = 0, mb_seen = length (sy_events s)\<rparr>]\<rparr>)"
| "sys_act C (ReadTables j) s =
     (if j < length (sy_members s) \<and> \<not> mb_up (sy_members s ! j) then
        (case initStateAndChannels (etcd_GetKey C True (sy_dir s) channel_prefix) [] [] (mb_cluster (sy_members s ! j)) of
           Some (None, c) \<Rightarrow> Some (s\<lparr>sy_members := (sy_members s)[j := (sy_members s ! j)\<lparr>mb_cluster := c, mb_up := True, mb_read := length (sy_events s)\<rparr>]\<rparr>)
         | _ \<Rightarrow> None)
      else None)"
| "sys_act C (UserSubscribe j ch ok) s =
     (if j < length (sy_members s) \<and> mb_up (sy_members s ! j)
      then Some (user_turn C ok (SetChannel_msg (machineID (mb_cluster (sy_members s ! j))) ch 3) j s) else None)"
| "sys_act C (UserUnsubscribe j ch ok) s =
     (if j < length (sy_members s) \<and> mb_up (sy_members s ! j)
      then Some (user_turn C ok (SetChannel_msg (machineID (mb_cluster (sy_members s ! j))) ch 4) j s) else None)"
| "sys_act C (Deliver j) s =
     (if j < length (sy_members s) \<and> mb_up (sy_members s ! j) \<and> mb_seen (sy_members s ! j) < length (sy_events s) then do {
        ms \<leftarrow> etcd_run_turn (ChannelWatch [sy_events s ! mb_seen (sy_members s ! j)]);
        (c, es) \<leftarrow> cluster_run (mb_cluster (sy_members s ! j)) ms;
        Some (s\<lparr>sy_members := (sy_members s)[j := (sy_members s ! j)\<lparr>mb_cluster := c, mb_seen := Suc (mb_seen (sy_members s ! j))\<rparr>]\<rparr>) }
      else None)"
| "sys_act C (LeaseEnds ch i) s =
     (let (d, evs) = do_delete C (sy_dir s) (channelKey i ch) in Some (s\<lparr>sy_dir := d, sy_events := sy_events s @ evs\<rparr>))"

definition sys_start :: "'d \<Rightarrow> ('s, 'd) system" where
  "sys_start d = \<lparr>sy_dir = d, sy_events = [], sy_members = []\<rparr>"

text \<open>The subscriptions in the directory.\<close>

definition subs :: "'d etcd_client \<Rightarrow> 'd \<Rightarrow> (u16 \<times> u16) set" where
  "subs C d = {(ch, i). channelKey i ch \<in> fst ` set (do_get C d [])}"

text \<open>A subscription is made while it is absent.\<close>

fun orderly :: "'d etcd_client \<Rightarrow> sys_action \<Rightarrow> ('s, 'd) system \<Rightarrow> bool" where
  "orderly C (UserSubscribe j ch ok) s \<longleftrightarrow> (ch, machineID (mb_cluster (sy_members s ! j))) \<notin> subs C (sy_dir s)"
| "orderly C a s \<longleftrightarrow> True"

inductive sys_step :: "'d etcd_client \<Rightarrow> ('s, 'd) system \<Rightarrow> ('s, 'd) system \<Rightarrow> bool" for C where
  sys_step: "orderly C a s \<Longrightarrow> sys_act C a s = Some s' \<Longrightarrow> sys_step C s s'"

inductive_cases sys_stepE: "sys_step C s s'"

section \<open>Keys of subscriptions\<close>

lemma channelKey_inj: "channelKey i ch = channelKey j k \<longleftrightarrow> i = j \<and> ch = k"
  by (auto simp: channelKey_bytes dest: u16.enc_inj)

lemma prefix_channelKey: "prefix channel_prefix (channelKey i ch)"
  by (simp add: channelKey_bytes channel_prefix_def)

lemma prefix_keys: "prefix (channelKey i ch) (channelKey j k) \<longleftrightarrow> i = j \<and> ch = k"
proof
  assume "prefix (channelKey i ch) (channelKey j k)"
  moreover have "length (channelKey i ch) = length (channelKey j k)" by (simp add: channelKey_bytes)
  ultimately have "channelKey i ch = channelKey j k" by (auto simp: prefix_def)
  then show "i = j \<and> ch = k" by (simp add: channelKey_inj)
qed simp

lemma keys_insert: "{(ch', i'). channelKey i' ch' \<in> insert (channelKey i ch) K} = insert (ch, i) {(ch', i'). channelKey i' ch' \<in> K}"
  by (auto simp: channelKey_inj)

lemma keys_remove: "{(ch', i'). channelKey i' ch' \<in> K - {channelKey i ch}} = {(ch', i'). channelKey i' ch' \<in> K} - {(ch, i)}"
  by (auto simp: channelKey_inj)

lemma keys_of_insert: "fst ` insert (k, v) {kv \<in> A. fst kv \<noteq> k} = insert k (fst ` A)"
  by force

lemma keys_of_remove: "fst ` {kv \<in> A. fst kv \<noteq> k} = fst ` A - {k}"
  by force

text \<open>Under \<open>channel/\<close> there are only subscriptions.\<close>

definition dir_ok :: "'d etcd_client \<Rightarrow> 'd \<Rightarrow> bool" where
  "dir_ok C d \<longleftrightarrow> (\<forall>(k, v)\<in>set (do_get C d []). prefix channel_prefix k \<longrightarrow> (\<exists>ch i. k = channelKey i ch \<and> v = channelValue i ch))"

lemma put_ok:
  assumes "etcd_laws C" "dir_ok C d"
  shows "dir_ok C (fst (do_put C d (channelKey i ch) (channelValue i ch)))"
    and "subs C (fst (do_put C d (channelKey i ch) (channelValue i ch))) = insert (ch, i) (subs C d)"
proof -
  have s: "set (do_get C (fst (do_put C d (channelKey i ch) (channelValue i ch))) [])
      = insert (channelKey i ch, channelValue i ch) {kv \<in> set (do_get C d []). fst kv \<noteq> channelKey i ch}"
    by (rule etcd_lawsD(3) [OF assms(1)])
  have "\<forall>kv\<in>set (do_get C (fst (do_put C d (channelKey i ch) (channelValue i ch))) []). kv = (channelKey i ch, channelValue i ch) \<or> kv \<in> set (do_get C d [])"
    unfolding s by blast
  then show "dir_ok C (fst (do_put C d (channelKey i ch) (channelValue i ch)))" using assms(2) unfolding dir_ok_def by fast
  show "subs C (fst (do_put C d (channelKey i ch) (channelValue i ch))) = insert (ch, i) (subs C d)"
    unfolding subs_def s keys_of_insert by (rule keys_insert)
qed

lemma delete_ok:
  assumes "etcd_laws C" "dir_ok C d"
  shows "dir_ok C (fst (do_delete C d (channelKey i ch)))"
    and "subs C (fst (do_delete C d (channelKey i ch))) = subs C d - {(ch, i)}"
    and "snd (do_delete C d (channelKey i ch)) = (if (ch, i) \<in> subs C d then [EvDelete (channelKey i ch)] else [])"
proof -
  let ?k = "channelKey i ch"
  have s: "set (do_get C (fst (do_delete C d ?k)) []) = {kv \<in> set (do_get C d []). \<not> has_prefix ?k kv}"
    and e: "snd (do_delete C d ?k) = map (EvDelete \<circ> fst) (filter (has_prefix ?k) (do_get C d []))"
    and dist: "distinct (map fst (do_get C d []))"
    by (rule etcd_lawsD [OF assms(1)])+
  have key: "has_prefix ?k kv \<longleftrightarrow> fst kv = ?k" if kv: "kv \<in> set (do_get C d [])" for kv
  proof
    assume p: "has_prefix ?k kv"
    then have "prefix channel_prefix (fst kv)" using prefix_channelKey prefix_order.trans unfolding has_prefix_def by blast
    then obtain k j where "fst kv = channelKey j k"
      using bspec [OF assms(2) [unfolded dir_ok_def] kv] by (auto split: prod.splits)
    then show "fst kv = ?k" using p by (simp add: has_prefix_def prefix_keys)
  qed (simp add: has_prefix_def)
  have s': "set (do_get C (fst (do_delete C d ?k)) []) = {kv \<in> set (do_get C d []). fst kv \<noteq> ?k}" using s key by auto
  show "dir_ok C (fst (do_delete C d ?k))" using assms(2) unfolding dir_ok_def s' by fast
  show "subs C (fst (do_delete C d ?k)) = subs C d - {(ch, i)}"
    unfolding subs_def s' keys_of_remove by (rule keys_remove)
  have f: "filter (has_prefix ?k) (do_get C d []) = filter (\<lambda>kv. fst kv = ?k) (do_get C d [])"
    by (rule filter_cong) (simp_all add: key)
  have "map fst (filter (\<lambda>kv. fst kv = ?k) xs) = (if ?k \<in> fst ` set xs then [?k] else [])" if "distinct (map fst xs)" for xs :: "(u8 list \<times> u8 list) list"
    using that by (induction xs) (auto simp: filter_empty_conv image_iff)
  from this [OF dist] show "snd (do_delete C d ?k) = (if (ch, i) \<in> subs C d then [EvDelete ?k] else [])"
    unfolding e f map_map [symmetric] by (simp add: subs_def)
qed


section \<open>What a member reads\<close>

lemma channel_values:
  assumes "etcd_laws C" "dir_ok C d"
  shows "\<exists>xs. etcd_GetKey C True d channel_prefix = Some (map (\<lambda>(ch, i). channelValue i ch) xs) \<and> distinct xs \<and> set xs = subs C d"
proof -
  let ?kvs = "filter (has_prefix channel_prefix) (do_get C d [])"
  have "\<exists>ch i. kv = (channelKey i ch, channelValue i ch)" if kv: "kv \<in> set ?kvs" for kv
    using bspec [OF assms(2) [unfolded dir_ok_def], of kv] kv by (auto simp: has_prefix_def)
  then have "\<forall>kv\<in>set ?kvs. \<exists>x. kv = (channelKey (snd x) (fst x), channelValue (snd x) (fst x))" by (metis fst_conv snd_conv)
  then obtain f where f: "\<forall>kv\<in>set ?kvs. kv = (channelKey (snd (f kv)) (fst (f kv)), channelValue (snd (f kv)) (fst (f kv)))"
    by (rule bchoice [THEN exE])
  define xs where "xs = map f ?kvs"
  have kvs: "map (\<lambda>x. (channelKey (snd x) (fst x), channelValue (snd x) (fst x))) xs = ?kvs"
    unfolding xs_def map_map comp_def by (rule map_idI, rule sym, rule bspec [OF f])
  have "distinct (map fst ?kvs)" using etcd_lawsD(1) [OF assms(1)] by (rule distinct_map_filter)
  then have "distinct (map (\<lambda>x. channelKey (snd x) (fst x)) xs)" unfolding kvs [symmetric] map_map by (simp add: comp_def)
  then have "distinct xs" by (simp add: distinct_map)
  moreover have "map snd ?kvs = map (\<lambda>(ch, i). channelValue i ch) xs" unfolding kvs [symmetric] by (simp add: case_prod_beta comp_def)
  then have "etcd_GetKey C True d channel_prefix = Some (map (\<lambda>(ch, i). channelValue i ch) xs)"
    unfolding etcd_GetKey_def etcd_lawsD(2) [OF assms(1), of d channel_prefix] by simp
  moreover have "set xs = subs C d"
  proof (intro set_eqI iffI)
    fix x assume "x \<in> set xs"
    then have "(channelKey (snd x) (fst x), channelValue (snd x) (fst x)) \<in> set ?kvs" unfolding kvs [symmetric] by auto
    then have "channelKey (snd x) (fst x) \<in> fst ` set (do_get C d [])" by force
    then show "x \<in> subs C d" by (cases x) (simp add: subs_def)
  next
    fix x assume "x \<in> subs C d"
    then obtain v where v: "(channelKey (snd x) (fst x), v) \<in> set (do_get C d [])" by (cases x) (auto simp: subs_def)
    then have "(channelKey (snd x) (fst x), v) \<in> set ?kvs" by (simp add: has_prefix_def prefix_channelKey)
    then obtain y where "y \<in> set xs" "channelKey (snd x) (fst x) = channelKey (snd y) (fst y)" unfolding kvs [symmetric] by auto
    then have "x = y" by (simp add: channelKey_inj prod_eq_iff)
    then show "x \<in> set xs" using \<open>y \<in> set xs\<close> by (simp only:)
  qed
  ultimately show ?thesis by blast
qed

lemma read_tables:
  assumes "distinct xs" "set xs = D" "cl_channels c = (\<lambda>_. None)" "length xs < 2 ^ 32"
    and "initStateAndChannels (Some (map (\<lambda>(ch, i). channelValue i ch) xs)) [] [] c = Some (None, c')"
  shows "tracks c' D \<and> buckets_ok (length xs) (cl_channels c')"
proof -
  let ?t = "foldl (\<lambda>t (ch, i). init_bucket t i ch) (\<lambda>_. None) xs"
  have c': "cl_channels c' = ?t" using assms(3,5) by (auto simp: initStateAndChannels_def init_channels_values map_add_def)
  have m: "members c' ch = map snd (filter (\<lambda>x. fst x = ch) xs)" for ch
    using foldl_members [of "\<lambda>_. None" xs ch] c' by (simp add: members_def)
  have "distinct (map snd (filter (\<lambda>x. fst x = ch) xs))" for ch
    using assms(1) by (induction xs) (auto simp: image_iff)
  then have "tracks c' D" using assms(2) unfolding tracks_def m by (force simp: image_iff)
  moreover have "buckets_ok (0 + length (map (\<lambda>(ch, i). channelValue i ch) xs)) ?t"
    by (rule init_channels_ok [OF init_channels_values]) (use assms(4) in \<open>simp_all add: buckets_ok_def\<close>)
  ultimately show ?thesis using c' by simp
qed

lemma buckets_ok_mono: "buckets_ok n t \<Longrightarrow> n \<le> m \<Longrightarrow> buckets_ok m t"
  by (fastforce simp: buckets_ok_def)

lemma dir_valid_append: "dir_valid D (xs @ ys) \<longleftrightarrow> dir_valid D xs \<and> dir_valid (fold dir_apply xs D) ys"
  by (induction D xs rule: dir_valid.induct) auto

lemma card_dir: "finite (fold dir_apply ops D) \<and> card (fold dir_apply ops D) \<le> card D + length ops" if "finite D"
  using that
proof (induction ops arbitrary: D)
  case (Cons op ops)
  have "finite (dir_apply op D) \<and> card (dir_apply op D) \<le> Suc (card D)"
    using Cons.prems by (cases op) (auto simp: card_insert_if intro: le_trans [OF card_Diff1_le])
  then show ?case using Cons.IH [of "dir_apply op D"] by simp
qed simp


section \<open>The invariant\<close>

text \<open>A member is clean when nothing happened between its registration and its reading of the tables.\<close>

definition clean :: "'s member \<Rightarrow> bool" where
  "clean m \<longleftrightarrow> mb_up m \<and> mb_read m = mb_from m"

definition member_inv :: "dir_op list \<Rightarrow> 's member \<Rightarrow> bool" where
  "member_inv ops m \<longleftrightarrow> mb_seen m \<le> length ops \<and> mb_from m \<le> mb_seen m
     \<and> (\<not> mb_up m \<longrightarrow> mb_seen m = mb_from m \<and> cl_channels (mb_cluster m) = (\<lambda>_. None))
     \<and> (clean m \<and> length ops < 2 ^ 32 \<longrightarrow> tracks (mb_cluster m) (fold dir_apply (take (mb_seen m) ops) {})
          \<and> buckets_ok (mb_seen m) (cl_channels (mb_cluster m)))"

definition sys_inv :: "'d etcd_client \<Rightarrow> ('s, 'd) system \<Rightarrow> bool" where
  "sys_inv C s \<longleftrightarrow> dir_ok C (sy_dir s) \<and> (\<exists>ops. sy_events s = map dir_event ops \<and> dir_valid {} ops
     \<and> subs C (sy_dir s) = fold dir_apply ops {} \<and> (\<forall>m\<in>set (sy_members s). member_inv ops m))"

lemma member_inv_more: "member_inv ops m \<Longrightarrow> member_inv (ops @ later) m"
  by (auto simp: member_inv_def)

lemma member_inv_cong:
  assumes "member_inv ops m" "cl_channels c = cl_channels (mb_cluster m)"
  shows "member_inv ops (m\<lparr>mb_cluster := c\<rparr>)"
proof -
  have "members c = members (mb_cluster m)" using assms(2) by (simp add: members_def fun_eq_iff)
  then have "tracks c D \<longleftrightarrow> tracks (mb_cluster m) D" for D by (simp add: tracks_def)
  then show ?thesis using assms by (simp add: member_inv_def clean_def)
qed

text \<open>A change of the directory with its events, at most one.\<close>

lemma sys_inv_change:
  assumes "sys_inv C s" "dir_ok C d" "evs = map dir_event new" "subs C d = fold dir_apply new (subs C (sy_dir s))"
    and "dir_valid (subs C (sy_dir s)) new" "\<forall>ops. \<forall>m\<in>set ms. (\<forall>m\<in>set (sy_members s). member_inv ops m) \<longrightarrow> member_inv ops m"
  shows "sys_inv C (s\<lparr>sy_dir := d, sy_events := sy_events s @ evs, sy_members := ms\<rparr>)"
proof -
  obtain ops where o: "sy_events s = map dir_event ops" "dir_valid {} ops" "subs C (sy_dir s) = fold dir_apply ops {}"
    "\<forall>m\<in>set (sy_members s). member_inv ops m" using assms(1) by (auto simp: sys_inv_def)
  have "sy_events s @ evs = map dir_event (ops @ new)" "dir_valid {} (ops @ new)" "subs C d = fold dir_apply (ops @ new) {}"
    using o assms(3-5) by (simp_all add: dir_valid_append)
  moreover have "\<forall>m\<in>set ms. member_inv (ops @ new) m" using o(4) assms(6) member_inv_more by blast
  ultimately show ?thesis using assms(2) unfolding sys_inv_def by (intro conjI exI [of _ "ops @ new"]) simp_all
qed

lemma user_turn_inv:
  assumes "etcd_laws C" "sys_inv C s" "j < length (sy_members s)"
    and "cm_operation msg = 3 \<and> (ok \<longrightarrow> (cm_channel msg, cm_id msg) \<notin> subs C (sy_dir s)) \<or> cm_operation msg = 4"
  shows "sys_inv C (user_turn C ok msg j s)"
proof -
  let ?m = "sy_members s ! j" and ?d = "sy_dir s" and ?k = "channelKey (cm_id msg) (cm_channel msg)" and ?v = "channelValue (cm_id msg) (cm_channel msg)"
  have d: "dir_ok C ?d" using assms(2) by (simp add: sys_inv_def)
  obtain d' evs where e: "do_effects C ok (snd (channel_turn (mb_cluster ?m) msg)) ?d = (d', evs)" by fastforce
  have c: "fst (channel_turn (mb_cluster ?m) msg) = mb_cluster ?m" using assms(4) by (auto simp: channel_turn_def)
  then have t: "user_turn C ok msg j s = s\<lparr>sy_dir := d', sy_events := sy_events s @ evs, sy_members := (sy_members s)[j := ?m\<lparr>mb_cluster := mb_cluster ?m\<rparr>]\<rparr>"
    using e by (simp add: user_turn_def case_prod_beta Let_def)
  have "\<exists>new. evs = map dir_event new \<and> dir_ok C d' \<and> subs C d' = fold dir_apply new (subs C ?d) \<and> dir_valid (subs C ?d) new"
  proof (cases ok)
    case False
    then have "d' = ?d" "evs = []" using e assms(4) by (auto simp: channel_turn_def etcd_PutKey_def etcd_DeleteKey_def)
    then show ?thesis using d by (intro exI [of _ "[]"]) simp
  next
    case True
    show ?thesis
    proof (cases "cm_operation msg = 3")
      case op: True
      then have "d' = fst (do_put C ?d ?k ?v)" "evs = [EvPut ?k ?v]"
        using e True etcd_lawsD(4) [OF assms(1), of ?d ?k ?v] by (auto simp: channel_turn_def etcd_PutKey_def case_prod_beta Let_def)
      then show ?thesis
        using put_ok [OF assms(1) d, of "cm_id msg" "cm_channel msg"] assms(4) op True
        by (intro exI [of _ "[Sub (cm_channel msg) (cm_id msg)]"]) simp
    next
      case False
      then have "d' = fst (do_delete C ?d ?k)" "evs = snd (do_delete C ?d ?k)"
        using e True assms(4) by (auto simp: channel_turn_def etcd_DeleteKey_def case_prod_beta Let_def)
      then show ?thesis
        using delete_ok [OF assms(1) d, of "cm_id msg" "cm_channel msg"]
        by (intro exI [of _ "if (cm_channel msg, cm_id msg) \<in> subs C ?d then [Unsub (cm_channel msg) (cm_id msg)] else []"]) auto
    qed
  qed
  then obtain new where "evs = map dir_event new" "dir_ok C d'" "subs C d' = fold dir_apply new (subs C ?d)" "dir_valid (subs C ?d) new"
    by blast
  then show ?thesis unfolding t using assms(2,3)
    by (intro sys_inv_change) auto
qed


text \<open>The next event at a member that has followed so far.\<close>

lemma next_event:
  assumes "tracks c (fold dir_apply (take k ops) {})" "buckets_ok k (cl_channels c)" "k < length ops" "length ops < 2 ^ 32" "dir_valid {} ops"
  shows "\<exists>c'. cluster_run c [dir_msg (ops ! k)] = Some (c', []) \<and> tracks c' (fold dir_apply (take (Suc k) ops) {})
    \<and> buckets_ok (Suc k) (cl_channels c')"
proof -
  have "ops = take k ops @ ops ! k # drop (Suc k) ops" using assms(3) by (rule id_take_nth_drop)
  then have valid: "dir_valid (fold dir_apply (take k ops) {}) (ops ! k # drop (Suc k) ops)"
    using assms(5) dir_valid_append [of "{}" "take k ops"] by metis
  have "Suc k < 2 ^ 32" using assms(3,4) by simp
  then obtain c' where "cluster_step c (dir_msg (ops ! k)) = Some (c', [], False)"
    "tracks c' (dir_apply (ops ! k) (fold dir_apply (take k ops) {}))" "buckets_ok (Suc k) (cl_channels c')"
    using tracks_step [OF assms(1,2) _ valid] by blast
  then show ?thesis using assms(3) by (simp add: take_Suc_conv_app_nth)
qed

lemma sys_act_inv:
  assumes "etcd_laws C" "sys_inv C s" "orderly C a s" "sys_act C a s = Some s'"
  shows "sys_inv C s'"
proof (cases a)
  case (Register mid)
  let ?m = "\<lparr>mb_cluster = \<lparr>cl_sessions = replicate 1024 None, cl_channels = \<lambda>_. None, machineID = mid, cl_state = 0\<rparr>,
       mb_up = False, mb_from = length (sy_events s), mb_read = 0, mb_seen = length (sy_events s)\<rparr>"
  obtain ops where o: "sy_events s = map dir_event ops" "dir_valid {} ops" "subs C (sy_dir s) = fold dir_apply ops {}"
    "\<forall>m\<in>set (sy_members s). member_inv ops m" "dir_ok C (sy_dir s)" using assms(2) by (auto simp: sys_inv_def)
  have "member_inv ops ?m" using o(1) by (simp add: member_inv_def clean_def)
  then show ?thesis using assms(4) Register o by (auto simp: sys_inv_def)
next
  case (ReadTables j)
  let ?m = "sy_members s ! j"
  obtain ops where o: "sy_events s = map dir_event ops" "dir_valid {} ops" "subs C (sy_dir s) = fold dir_apply ops {}"
    "\<forall>m\<in>set (sy_members s). member_inv ops m" "dir_ok C (sy_dir s)" using assms(2) by (auto simp: sys_inv_def)
  obtain xs where xs: "etcd_GetKey C True (sy_dir s) channel_prefix = Some (map (\<lambda>(ch, i). channelValue i ch) xs)"
    "distinct xs" "set xs = subs C (sy_dir s)" using channel_values [OF assms(1) o(5)] by blast
  obtain c where j: "j < length (sy_members s)" "\<not> mb_up ?m"
    and c: "initStateAndChannels (Some (map (\<lambda>(ch, i). channelValue i ch) xs)) [] [] (mb_cluster ?m) = Some (None, c)"
    and s': "s' = s\<lparr>sy_members := (sy_members s)[j := ?m\<lparr>mb_cluster := c, mb_up := True, mb_read := length (sy_events s)\<rparr>]\<rparr>"
    using assms(4) ReadTables xs(1) by (auto split: if_splits option.splits prod.splits)
  have m: "member_inv ops ?m" using o(4) j(1) by simp
  have "length xs \<le> length ops"
    using card_dir [of "{}" ops] o(3) xs(3) distinct_card [OF xs(2)] by simp
  then have "tracks c (fold dir_apply ops {}) \<and> buckets_ok (length ops) (cl_channels c)" if "length ops < 2 ^ 32"
    using read_tables [OF xs(2) refl _ _ c] m j(2) xs(3) o(3) that buckets_ok_mono by (simp add: member_inv_def) blast
  then have "member_inv ops (?m\<lparr>mb_cluster := c, mb_up := True, mb_read := length (sy_events s)\<rparr>)"
    using m j(2) o(1) by (auto simp: member_inv_def clean_def)
  then have "\<forall>m\<in>set (sy_members s'). member_inv ops m" unfolding s' using o(4) by (auto dest: set_update_subset_insert [THEN subsetD])
  then show ?thesis using o s' by (auto simp: sys_inv_def)
next
  case (UserSubscribe j ch ok)
  then show ?thesis using assms user_turn_inv [OF assms(1,2), of j] by (auto simp: SetChannel_msg_def split: if_splits)
next
  case (UserUnsubscribe j ch ok)
  then show ?thesis using assms user_turn_inv [OF assms(1,2), of j] by (auto simp: SetChannel_msg_def split: if_splits)
next
  case (Deliver j)
  let ?m = "sy_members s ! j"
  obtain ops where o: "sy_events s = map dir_event ops" "dir_valid {} ops" "subs C (sy_dir s) = fold dir_apply ops {}"
    "\<forall>m\<in>set (sy_members s). member_inv ops m" "dir_ok C (sy_dir s)" using assms(2) by (auto simp: sys_inv_def)
  let ?op = "ops ! mb_seen ?m"
  obtain c es where j: "j < length (sy_members s)" "mb_up ?m" "mb_seen ?m < length ops"
    and c: "cluster_run (mb_cluster ?m) [dir_msg ?op] = Some (c, es)"
    and s': "s' = s\<lparr>sy_members := (sy_members s)[j := ?m\<lparr>mb_cluster := c, mb_seen := Suc (mb_seen ?m)\<rparr>]\<rparr>"
  proof -
    have j: "j < length (sy_members s)" "mb_up ?m" "mb_seen ?m < length ops"
      using assms(4) Deliver o(1) by (auto split: if_splits)
    have t: "etcd_run_turn (ChannelWatch [dir_event ?op]) = Some [dir_msg ?op]" using watch_dir_events [of "[?op]"] by simp
    show thesis
      using assms(4) Deliver o(1) j that by (auto simp: t simp del: cluster_run.simps split: Option.bind_splits)
  qed
  have m: "member_inv ops ?m" using o(4) j(1) by simp
  have "tracks c (fold dir_apply (take (Suc (mb_seen ?m)) ops) {}) \<and> buckets_ok (Suc (mb_seen ?m)) (cl_channels c)"
    if "clean ?m" "length ops < 2 ^ 32"
    using next_event [of "mb_cluster ?m" "mb_seen ?m" ops] m that o(2) j(3) c by (auto simp: member_inv_def simp del: cluster_run.simps)
  then have "member_inv ops (?m\<lparr>mb_cluster := c, mb_seen := Suc (mb_seen ?m)\<rparr>)"
    using m j(2,3) by (auto simp: member_inv_def clean_def)
  then have "\<forall>m\<in>set (sy_members s'). member_inv ops m" unfolding s' using o(4) by (auto dest: set_update_subset_insert [THEN subsetD])
  then show ?thesis using o s' by (auto simp: sys_inv_def)
next
  case (LeaseEnds ch i)
  have d: "dir_ok C (sy_dir s)" using assms(2) by (simp add: sys_inv_def)
  have s': "s' = s\<lparr>sy_dir := fst (do_delete C (sy_dir s) (channelKey i ch)), sy_events := sy_events s @ snd (do_delete C (sy_dir s) (channelKey i ch)),
      sy_members := sy_members s\<rparr>"
    using assms(4) LeaseEnds by (auto simp: case_prod_beta Let_def)
  have "\<exists>new. snd (do_delete C (sy_dir s) (channelKey i ch)) = map dir_event new
      \<and> subs C (fst (do_delete C (sy_dir s) (channelKey i ch))) = fold dir_apply new (subs C (sy_dir s)) \<and> dir_valid (subs C (sy_dir s)) new"
    using delete_ok(2,3) [OF assms(1) d, of i ch]
    by (intro exI [of _ "if (ch, i) \<in> subs C (sy_dir s) then [Unsub ch i] else []"]) auto
  then obtain new where "snd (do_delete C (sy_dir s) (channelKey i ch)) = map dir_event new"
    "subs C (fst (do_delete C (sy_dir s) (channelKey i ch))) = fold dir_apply new (subs C (sy_dir s))" "dir_valid (subs C (sy_dir s)) new" by blast
  then show ?thesis unfolding s' using delete_ok(1) [OF assms(1) d] assms(2) by (intro sys_inv_change) auto
qed


definition no_subs :: "'d etcd_client \<Rightarrow> 'd \<Rightarrow> bool" where
  "no_subs C d \<longleftrightarrow> (\<forall>kv\<in>set (do_get C d []). \<not> has_prefix channel_prefix kv)"

lemma no_subs_inv:
  assumes "no_subs C d"
  shows "sys_inv C (sys_start d)"
proof -
  have no: "\<not> prefix channel_prefix (fst kv)" if "kv \<in> set (do_get C d [])" for kv
    using bspec [OF assms [unfolded no_subs_def] that] unfolding has_prefix_def .
  have "dir_ok C d" unfolding dir_ok_def
  proof (intro ballI, clarify)
    fix k v assume "(k, v) \<in> set (do_get C d [])" "prefix channel_prefix k"
    then show "\<exists>ch i. k = channelKey i ch \<and> v = channelValue i ch" using no [of "(k, v)"] by simp
  qed
  moreover have "x \<notin> subs C d" for x
  proof
    assume "x \<in> subs C d"
    then obtain kv where "kv \<in> set (do_get C d [])" "fst kv = channelKey (snd x) (fst x)" by (cases x) (auto simp: subs_def)
    then show False using no prefix_channelKey by metis
  qed
  then have "subs C d = {}" by blast
  ultimately show ?thesis by (simp add: sys_inv_def sys_start_def)
qed

interpretation federation: step_invariant "\<lambda>s. etcd_laws C \<and> no_subs C d \<and> s = sys_start d" "sys_step C" "\<lambda>s. etcd_laws C \<and> sys_inv C s" for C d
proof
  fix s assume "etcd_laws C \<and> no_subs C d \<and> s = sys_start d"
  then show "etcd_laws C \<and> sys_inv C s" by (simp add: no_subs_inv)
next
  fix s t assume i: "etcd_laws C \<and> sys_inv C s" and "sys_step C s t"
  then obtain a where "orderly C a s" "sys_act C a s = Some t" by (auto elim: sys_stepE)
  then show "etcd_laws C \<and> sys_inv C t" using sys_act_inv [of C s a t] i by simp
qed

section \<open>A directory for the witnesses\<close>

definition alist_client :: "(u8 list \<times> u8 list) list etcd_client" where
  "alist_client = \<lparr>do_put = \<lambda>d k v. ((k, v) # d, [EvPut k v]),
     do_delete = \<lambda>d p. (filter (\<lambda>kv. \<not> has_prefix p kv) (AList.clearjunk d), map (EvDelete \<circ> fst) (filter (has_prefix p) (AList.clearjunk d))),
     do_get = \<lambda>d p. filter (has_prefix p) (AList.clearjunk d)\<rparr>"

lemma has_prefix_Nil: "has_prefix [] kv"
  by (simp add: has_prefix_def)

lemma clearjunk_filter: "AList.clearjunk (filter P (AList.clearjunk d)) = filter P (AList.clearjunk d)"
  by (rule distinct_clearjunk_id) (rule distinct_map_filter, rule distinct_clearjunk)

lemma alist_laws: "etcd_laws alist_client"
  unfolding etcd_laws_def
proof (intro conjI allI)
  fix d :: "(u8 list \<times> u8 list) list" and k v p
  have all: "filter (has_prefix []) (AList.clearjunk d) = AList.clearjunk d" for d :: "(u8 list \<times> u8 list) list"
    by (rule filter_True) (simp add: has_prefix_Nil)
  show "distinct (map fst (do_get alist_client d []))" by (simp add: alist_client_def all)
  show "do_get alist_client d p = filter (has_prefix p) (do_get alist_client d [])" by (simp add: alist_client_def all)
  have "set (AList.delete k xs) = {kv \<in> set xs. fst kv \<noteq> k}" for xs :: "(u8 list \<times> u8 list) list" by (auto simp: AList.delete_eq)
  then show "set (do_get alist_client (fst (do_put alist_client d k v)) []) = insert (k, v) {kv \<in> set (do_get alist_client d []). fst kv \<noteq> k}"
    by (simp add: alist_client_def all AList.clearjunk_delete has_prefix_Nil)
  show "snd (do_put alist_client d k v) = [EvPut k v]" by (simp add: alist_client_def)
  show "set (do_get alist_client (fst (do_delete alist_client d p)) []) = {kv \<in> set (do_get alist_client d []). \<not> has_prefix p kv}"
    by (simp add: alist_client_def all clearjunk_filter has_prefix_Nil)
  show "snd (do_delete alist_client d p) = map (EvDelete \<circ> fst) (filter (has_prefix p) (do_get alist_client d []))"
    by (simp add: alist_client_def all)
qed


section \<open>Delivering what is left\<close>

fun deliver_n :: "'d etcd_client \<Rightarrow> nat \<Rightarrow> nat \<Rightarrow> ('s, 'd) system \<Rightarrow> ('s, 'd) system option" where
  "deliver_n C j 0 s = Some s"
| "deliver_n C j (Suc n) s = do { s \<leftarrow> sys_act C (Deliver j) s; deliver_n C j n s }"

lemma deliver_act:
  fixes s :: "('s, 'd) system"
  assumes "j < length (sy_members s)" "mb_up (sy_members s ! j)" "mb_seen (sy_members s ! j) < length (sy_events s)"
    and "sy_events s ! mb_seen (sy_members s ! j) = dir_event op" "cluster_run (mb_cluster (sy_members s ! j)) [dir_msg op] = Some (c, es)"
  shows "sys_act C (Deliver j) s
    = Some (s\<lparr>sy_members := (sy_members s)[j := (sy_members s ! j)\<lparr>mb_cluster := c, mb_seen := Suc (mb_seen (sy_members s ! j))\<rparr>]\<rparr>)"
proof -
  have t: "etcd_run_turn (ChannelWatch [dir_event op]) = Some [dir_msg op :: 's cluster_msg]" using watch_dir_events [of "[op]"] by simp
  show ?thesis using assms t by (simp del: cluster_run.simps)
qed

lemma deliver_one:
  fixes s :: "('s, 'd) system"
  assumes "sy_events s = map dir_event ops" "dir_valid {} ops" "length ops < 2 ^ 32" "j < length (sy_members s)"
    and "member_inv ops (sy_members s ! j)" "clean (sy_members s ! j)" "mb_seen (sy_members s ! j) < length ops"
  shows "\<exists>m. sys_act C (Deliver j) s = Some (s\<lparr>sy_members := (sy_members s)[j := m]\<rparr>) \<and> member_inv ops m \<and> clean m
    \<and> mb_seen m = Suc (mb_seen (sy_members s ! j))"
proof -
  let ?m = "sy_members s ! j"
  let ?op = "ops ! mb_seen ?m"
  obtain c where c: "cluster_run (mb_cluster ?m) [dir_msg ?op] = Some (c, [])"
    "tracks c (fold dir_apply (take (Suc (mb_seen ?m)) ops) {})" "buckets_ok (Suc (mb_seen ?m)) (cl_channels c)"
    using next_event [of "mb_cluster ?m" "mb_seen ?m" ops] assms by (auto simp: member_inv_def simp del: cluster_run.simps)
  have up: "mb_up ?m" using assms(6) by (simp add: clean_def)
  let ?n = "?m\<lparr>mb_cluster := c, mb_seen := Suc (mb_seen ?m)\<rparr>"
  have "sys_act C (Deliver j) s = Some (s\<lparr>sy_members := (sy_members s)[j := ?n]\<rparr>)"
    by (rule deliver_act [OF assms(4) up _ _ c(1)]) (use assms(1,7) in simp_all)
  moreover have "member_inv ops ?n" "clean ?n" using assms(5-7) c(2,3) by (simp_all add: member_inv_def clean_def)
  ultimately show ?thesis by (intro exI [of _ ?n]) simp
qed

lemma deliver_rest:
  assumes "sy_events s = map dir_event ops" "dir_valid {} ops" "length ops < 2 ^ 32" "j < length (sy_members s)"
    and "member_inv ops (sy_members s ! j)" "clean (sy_members s ! j)" "mb_seen (sy_members s ! j) + n = length ops"
  shows "\<exists>m. deliver_n C j n s = Some (s\<lparr>sy_members := (sy_members s)[j := m]\<rparr>) \<and> member_inv ops m \<and> clean m \<and> mb_seen m = length ops"
  using assms
proof (induction n arbitrary: s)
  case 0
  then show ?case by (intro exI [of _ "sy_members s ! j"]) simp
next
  case (Suc n)
  have "mb_seen (sy_members s ! j) < length ops" using Suc.prems(7) by simp
  then obtain m where m: "sys_act C (Deliver j) s = Some (s\<lparr>sy_members := (sy_members s)[j := m]\<rparr>)" "member_inv ops m" "clean m"
    "mb_seen m = Suc (mb_seen (sy_members s ! j))"
    using deliver_one [OF Suc.prems(1-6), of C] by blast
  let ?s = "s\<lparr>sy_members := (sy_members s)[j := m]\<rparr>"
  have "\<exists>m'. deliver_n C j n ?s = Some (?s\<lparr>sy_members := (sy_members ?s)[j := m']\<rparr>) \<and> member_inv ops m' \<and> clean m' \<and> mb_seen m' = length ops"
    by (rule Suc.IH) (use Suc.prems m in simp_all)
  then show ?case using m(1) by (simp del: sys_act.simps)
qed

section \<open>Properties\<close>


lemma user_sub:
  assumes "etcd_laws C" "k < length (sy_members s)" "mb_up (sy_members s ! k)" "machineID (mb_cluster (sy_members s ! k)) = i"
  shows "sys_act C (UserSubscribe k ch True) s
    = Some (s\<lparr>sy_dir := fst (do_put C (sy_dir s) (channelKey i ch) (channelValue i ch)), sy_events := sy_events s @ [dir_event (Sub ch i)]\<rparr>)"
  using assms etcd_lawsD(4) [OF assms(1), of "sy_dir s" "channelKey i ch" "channelValue i ch"]
  by (simp add: user_turn_def SetChannel_msg_def channel_turn_def etcd_PutKey_def case_prod_beta Let_def)

lemma user_unsub:
  assumes "etcd_laws C" "k < length (sy_members s)" "mb_up (sy_members s ! k)" "machineID (mb_cluster (sy_members s ! k)) = i"
    and "dir_ok C (sy_dir s)" "(ch, i) \<in> subs C (sy_dir s)"
  shows "sys_act C (UserUnsubscribe k ch True) s
    = Some (s\<lparr>sy_dir := fst (do_delete C (sy_dir s) (channelKey i ch)), sy_events := sy_events s @ [dir_event (Unsub ch i)]\<rparr>)"
  using assms(2-4,6) delete_ok(3) [OF assms(1,5), of i ch]
  by (simp add: user_turn_def SetChannel_msg_def channel_turn_def etcd_DeleteKey_def case_prod_beta Let_def)

text \<open>A node that reads the tables has what the directory has, in whatever order.\<close>

lemma reads:
  assumes "etcd_laws C" "dir_ok C (sy_dir s)" "j < length (sy_members s)" "\<not> mb_up (sy_members s ! j)"
    and "cl_channels (mb_cluster (sy_members s ! j)) = (\<lambda>_. None)" "card (subs C (sy_dir s)) \<le> n" "n < 2 ^ 32"
  shows "\<exists>c. sys_act C (ReadTables j) s
      = Some (s\<lparr>sy_members := (sy_members s)[j := (sy_members s ! j)\<lparr>mb_cluster := c, mb_up := True, mb_read := length (sy_events s)\<rparr>]\<rparr>)
    \<and> tracks c (subs C (sy_dir s)) \<and> buckets_ok n (cl_channels c)"
proof -
  obtain xs where xs: "etcd_GetKey C True (sy_dir s) channel_prefix = Some (map (\<lambda>(ch, i). channelValue i ch) xs)"
    "distinct xs" "set xs = subs C (sy_dir s)" using channel_values [OF assms(1,2)] by blast
  let ?c = "mb_cluster (sy_members s ! j)"
  obtain c where c: "initStateAndChannels (Some (map (\<lambda>(ch, i). channelValue i ch) xs)) [] [] ?c = Some (None, c)"
    by (simp add: initStateAndChannels_def init_channels_values)
  have l: "length xs \<le> n" using assms(6) xs(3) distinct_card [OF xs(2)] by simp
  then have "tracks c (subs C (sy_dir s)) \<and> buckets_ok (length xs) (cl_channels c)"
    using read_tables [OF xs(2,3) assms(5) _ c] assms(7) by simp
  then show ?thesis using c xs(1) assms(3,4) buckets_ok_mono [OF _ l] by (intro exI [of _ c]) simp
qed

lemma once: "distinct xs \<Longrightarrow> i \<in> set xs \<Longrightarrow> count_list xs i = 1"
  by (induction xs) (auto simp: count_notin)

text \<open>One node that registers, reads the empty tables and subscribes to channel 51.\<close>

definition one_node :: "(nat, (u8 list \<times> u8 list) list) system" where
  "one_node = the (sys_act alist_client (ReadTables 0) (the (sys_act alist_client (Register 3) (sys_start []))))"

lemma one_node:
  "sy_dir one_node = []" "sy_events one_node = []" "\<exists>m. sy_members one_node = [m] \<and> clean m \<and> machineID (mb_cluster m) = 3 \<and> mb_seen m = 0"
  "reach (\<lambda>s. etcd_laws alist_client \<and> no_subs alist_client [] \<and> s = sys_start []) (sys_step alist_client) one_node"
proof -
  let ?r = "the (sys_act alist_client (Register 3) (sys_start [])) :: (nat, (u8 list \<times> u8 list) list) system" let ?c = alist_client
  have r: "sys_act ?c (Register 3) (sys_start []) = Some ?r" by simp
  have one: "sys_act ?c (ReadTables 0) ?r = Some one_node"
    unfolding one_node_def by (simp add: sys_start_def alist_client_def etcd_GetKey_def initStateAndChannels_def)
  show "sy_dir one_node = []" "sy_events one_node = []" "\<exists>m. sy_members one_node = [m] \<and> clean m \<and> machineID (mb_cluster m) = 3 \<and> mb_seen m = 0"
    unfolding one_node_def by (simp_all add: sys_start_def alist_client_def etcd_GetKey_def initStateAndChannels_def clean_def)
  have "no_subs ?c []" by (simp add: no_subs_def alist_client_def)
  then have "reach (\<lambda>s. etcd_laws ?c \<and> no_subs ?c [] \<and> s = sys_start []) (sys_step ?c) (sys_start [] :: (nat, (u8 list \<times> u8 list) list) system)"
    by (intro reach_init) (simp add: alist_laws)
  then have "reach (\<lambda>s. etcd_laws ?c \<and> no_subs ?c [] \<and> s = sys_start []) (sys_step ?c) ?r" by (rule reach_step) (rule sys_step [OF _ r], simp)
  then show "reach (\<lambda>s. etcd_laws ?c \<and> no_subs ?c [] \<and> s = sys_start []) (sys_step ?c) one_node" by (rule reach_step) (rule sys_step [OF _ one], simp)
qed


definition subscribed :: "(nat, (u8 list \<times> u8 list) list) system" where
  "subscribed = the (sys_act alist_client (UserSubscribe 0 51 True) one_node)"

lemma subscribed:
  "sys_act alist_client (UserSubscribe 0 51 True) one_node = Some subscribed"
  "sy_events subscribed = [EvPut (channelKey 3 51) (channelValue 3 51)]" "sy_dir subscribed = [(channelKey 3 51, channelValue 3 51)]"
  "\<exists>m. sy_members subscribed = [m] \<and> clean m \<and> mb_seen m = 0"
  "reach (\<lambda>s. etcd_laws alist_client \<and> no_subs alist_client [] \<and> s = sys_start []) (sys_step alist_client) subscribed"
proof -
  obtain m where m: "sy_members one_node = [m]" "clean m" "machineID (mb_cluster m) = 3" "mb_seen m = 0" using one_node(3) by blast
  show a: "sys_act alist_client (UserSubscribe 0 51 True) one_node = Some subscribed"
    using m by (simp add: subscribed_def clean_def)
  have s: "subscribed = one_node\<lparr>sy_dir := [(channelKey 3 51, channelValue 3 51)], sy_events := [EvPut (channelKey 3 51) (channelValue 3 51)],
      sy_members := [m]\<rparr>"
    using a m one_node(1,2) by (simp add: clean_def user_turn_def SetChannel_msg_def channel_turn_def etcd_PutKey_def alist_client_def)
  show "sy_events subscribed = [EvPut (channelKey 3 51) (channelValue 3 51)]" "sy_dir subscribed = [(channelKey 3 51, channelValue 3 51)]"
    "\<exists>m. sy_members subscribed = [m] \<and> clean m \<and> mb_seen m = 0"
    using m by (simp_all add: s)
  have "orderly alist_client (UserSubscribe 0 51 True) one_node" using one_node(1) by (simp add: subs_def alist_client_def)
  then show "reach (\<lambda>s. etcd_laws alist_client \<and> no_subs alist_client [] \<and> s = sys_start []) (sys_step alist_client) subscribed"
    using a one_node(4) by (blast intro: reach_step sys_step)
qed



text \<open>A node that reads its tables after a subscription has been made and before it has seen the event.\<close>

lemma late_read:
  assumes "etcd_laws C" "sys_inv C s" "length (sy_events s) + 3 < 2 ^ 32"
    and "k < length (sy_members s)" "mb_up (sy_members s ! k)" "machineID (mb_cluster (sy_members s ! k)) = i"
    and "j < length (sy_members s)" "\<not> mb_up (sy_members s ! j)" "mb_from (sy_members s ! j) = length (sy_events s)" "(ch, i) \<notin> subs C (sy_dir s)"
    and s1_def: "s1 = s\<lparr>sy_dir := fst (do_put C (sy_dir s) (channelKey i ch) (channelValue i ch)), sy_events := sy_events s @ [dir_event (Sub ch i)]\<rparr>"
  obtains c where "sys_act C (UserSubscribe k ch True) s = Some s1"
    "sys_act C (ReadTables j) s1
      = Some (s1\<lparr>sy_members := (sy_members s1)[j := (sy_members s1 ! j)\<lparr>mb_cluster := c, mb_up := True, mb_read := length (sy_events s1)\<rparr>]\<rparr>)"
    "distinct (members c ch)" "i \<in> set (members c ch)" "buckets_ok (Suc (length (sy_events s))) (cl_channels c)"
    "mb_seen (sy_members s ! j) = length (sy_events s)" "dir_ok C (sy_dir s1)" "(ch, i) \<in> subs C (sy_dir s1)"
proof -
  obtain ops where o: "sy_events s = map dir_event ops" "subs C (sy_dir s) = fold dir_apply ops {}" "\<forall>m\<in>set (sy_members s). member_inv ops m"
    and dok: "dir_ok C (sy_dir s)" using assms(2) unfolding sys_inv_def by blast
  have m: "mb_seen (sy_members s ! j) = length (sy_events s)" "cl_channels (mb_cluster (sy_members s ! j)) = (\<lambda>_. None)"
    using o(3) assms(7-9) by (simp_all add: member_inv_def)
  have s1: "sys_act C (UserSubscribe k ch True) s = Some s1" using user_sub [OF assms(1,4-6)] by (simp add: s1_def)
  note put = put_ok [OF assms(1) dok, of i ch]
  have card: "card (subs C (sy_dir s1)) \<le> Suc (length (sy_events s))" "finite (subs C (sy_dir s))"
    using card_dir [of "{}" ops] o(1,2) put(2) by (auto simp: s1_def card_insert_if)
  obtain c where c: "sys_act C (ReadTables j) s1
      = Some (s1\<lparr>sy_members := (sy_members s1)[j := (sy_members s1 ! j)\<lparr>mb_cluster := c, mb_up := True, mb_read := length (sy_events s1)\<rparr>]\<rparr>)"
    "tracks c (subs C (sy_dir s1))" "buckets_ok (Suc (length (sy_events s))) (cl_channels c)"
    using reads [OF assms(1) _ _ _ _ card(1), of j] put(1) m(2) assms(3,7,8) by (auto simp: s1_def)
  have "distinct (members c ch)" "i \<in> set (members c ch)" using c(2) put(2) by (simp_all add: tracks_def s1_def)
  then show ?thesis using that s1 c(1,3) m(1) put by (simp add: s1_def)
qed

text \<open>C37: a node that reads its tables after a change counts it twice: when a subscription is put after the node has begun to
  watch and before it reads the tables, the tables have it already and its event adds it again; the cancellation
  then takes away one of the two, and the node goes on sending to a machine that is no longer subscribed.\<close>

theorem late_reader_counts_twice:
  assumes "reach (\<lambda>s. etcd_laws C \<and> no_subs C d \<and> s = sys_start d) (sys_step C) s" "length (sy_events s) + 3 < 2 ^ 32"
    and "k < length (sy_members s)" "mb_up (sy_members s ! k)" "machineID (mb_cluster (sy_members s ! k)) = i"
    and "j < length (sy_members s)" "\<not> mb_up (sy_members s ! j)" "mb_from (sy_members s ! j) = length (sy_events s)" "(ch, i) \<notin> subs C (sy_dir s)"
  shows "\<exists>s1 s2 s3 s4 s5. sys_act C (UserSubscribe k ch True) s = Some s1 \<and> sys_act C (ReadTables j) s1 = Some s2
    \<and> sys_act C (Deliver j) s2 = Some s3 \<and> count_list (members (mb_cluster (sy_members s3 ! j)) ch) i = 2
    \<and> sys_act C (UserUnsubscribe k ch True) s3 = Some s4 \<and> sys_act C (Deliver j) s4 = Some s5
    \<and> i \<in> set (members (mb_cluster (sy_members s5 ! j)) ch) \<and> (ch, i) \<notin> subs C (sy_dir s5)"
proof -
  have C: "etcd_laws C" and inv: "sys_inv C s" using federation.reach_inv [OF assms(1)] by simp_all
  let ?e = "length (sy_events s)" and ?d1 = "fst (do_put C (sy_dir s) (channelKey i ch) (channelValue i ch))"
  have jk: "j \<noteq> k" using assms(4,7) by auto
  define s1 where "s1 = s\<lparr>sy_dir := ?d1, sy_events := sy_events s @ [dir_event (Sub ch i)]\<rparr>"
  obtain c where s1: "sys_act C (UserSubscribe k ch True) s = Some s1"
    and c: "sys_act C (ReadTables j) s1
      = Some (s1\<lparr>sy_members := (sy_members s1)[j := (sy_members s1 ! j)\<lparr>mb_cluster := c, mb_up := True, mb_read := length (sy_events s1)\<rparr>]\<rparr>)"
    "distinct (members c ch)" "i \<in> set (members c ch)" "buckets_ok (Suc ?e) (cl_channels c)"
    and m: "mb_seen (sy_members s ! j) = ?e" and put: "dir_ok C (sy_dir s1)" "(ch, i) \<in> subs C (sy_dir s1)"
    by (rule late_read [OF C inv assms(2-9) s1_def])
  define s2 where "s2 = s1\<lparr>sy_members := (sy_members s1)[j := (sy_members s1 ! j)\<lparr>mb_cluster := c, mb_up := True, mb_read := length (sy_events s1)\<rparr>]\<rparr>"
  let ?p = "\<lparr>cm_id = i, cm_channel = ch, cm_operation = 1\<rparr>" and ?x = "\<lparr>cm_id = i, cm_channel = ch, cm_operation = 2\<rparr>"
  define c1 where "c1 = fst (channel_turn c ?p)"
  have t1: "channel_turn c ?p = (c1, [])" and m1: "members c1 ch = members c ch @ [i]"
    by (simp_all add: channel_turn_add c1_def members_def [of "_ \<lparr>cl_channels := _\<rparr>"] bucket_add_newBucket)
  have b1: "buckets_ok (Suc (Suc ?e)) (cl_channels c1)" using channel_turn_ok [OF c(4) _ t1] assms(2) by simp
  have i2: "count_list (members c1 ch) i = 2" using c(2,3) unfolding m1 by (simp add: once)
  let ?m2 = "sy_members s2 ! j"
  have m2: "mb_cluster ?m2 = c" "mb_up ?m2" "mb_seen ?m2 = ?e" "j < length (sy_members s2)" "sy_members s2 ! k = sy_members s ! k"
    using assms(6) m jk by (simp_all add: s2_def s1_def)
  define s3 where "s3 = s2\<lparr>sy_members := (sy_members s2)[j := ?m2\<lparr>mb_cluster := c1, mb_seen := Suc ?e\<rparr>]\<rparr>"
  have s3: "sys_act C (Deliver j) s2 = Some s3"
    using deliver_act [OF m2(4,2), of "Sub ch i" c1 "[]" C] t1 m2(1,3) by (simp add: s2_def s1_def s3_def nth_append)
  have d3: "sy_dir s3 = ?d1" "sy_events s3 = sy_events s @ [dir_event (Sub ch i)]" "sy_members s3 ! k = sy_members s ! k" "k < length (sy_members s3)"
    using m2(5) jk assms(3) by (simp_all add: s3_def s2_def s1_def)
  define s4 where "s4 = s3\<lparr>sy_dir := fst (do_delete C ?d1 (channelKey i ch)), sy_events := sy_events s3 @ [dir_event (Unsub ch i)]\<rparr>"
  have s4: "sys_act C (UserUnsubscribe k ch True) s3 = Some s4"
    using user_unsub [OF C d3(4), of i ch] d3 assms(4,5) put by (simp add: s4_def s1_def)
  obtain t where t: "channel_turn c1 ?x = (c1\<lparr>cl_channels := t\<rparr>, [])" "members (c1\<lparr>cl_channels := t\<rparr>) ch = remove1 i (members c1 ch)"
    using channel_turn_remove [of ?x "Suc (Suc ?e)" c1] b1 assms(2) by auto
  let ?m4 = "sy_members s4 ! j"
  have m4: "mb_cluster ?m4 = c1" "mb_up ?m4" "mb_seen ?m4 = Suc ?e" "j < length (sy_members s4)"
    using assms(6) m2 by (simp_all add: s4_def s3_def)
  define s5 where "s5 = s4\<lparr>sy_members := (sy_members s4)[j := ?m4\<lparr>mb_cluster := c1\<lparr>cl_channels := t\<rparr>, mb_seen := Suc (Suc ?e)\<rparr>]\<rparr>"
  have s5: "sys_act C (Deliver j) s4 = Some s5"
    using deliver_act [OF m4(4,2), of "Unsub ch i" "c1\<lparr>cl_channels := t\<rparr>" "[]" C] t(1) m4(1,3) d3(2) by (simp add: s4_def s5_def nth_append)
  have "i \<in> set (remove1 i (members c1 ch))" using c(3) unfolding m1 by (simp add: remove1_append)
  then have "i \<in> set (members (mb_cluster (sy_members s5 ! j)) ch)" using m4(4) t(2) by (simp add: s5_def)
  moreover have "(ch, i) \<notin> subs C (sy_dir s5)" using delete_ok(2) [OF C put(1), of i ch] by (simp add: s5_def s4_def s1_def)
  moreover have "mb_cluster (sy_members s3 ! j) = c1" using m2(4) by (simp add: s3_def)
  ultimately show ?thesis using s1 c(1) s3 s4 s5 i2 by (auto simp: s2_def [symmetric])
qed


lemma late_reader_counts_twice_witness:
  "\<exists>s2 s3 :: (nat, (u8 list \<times> u8 list) list) system. sys_act alist_client (Deliver 1) s2 = Some s3
    \<and> count_list (members (mb_cluster (sy_members s3 ! 1)) 51) 3 = 2"
proof -
  obtain m where m: "sy_members one_node = [m]" "clean m" "machineID (mb_cluster m) = 3" using one_node(3) by blast
  obtain s where s: "sys_act alist_client (Register 4) one_node = Some s" by simp
  then have r: "reach (\<lambda>s. etcd_laws alist_client \<and> no_subs alist_client [] \<and> s = sys_start []) (sys_step alist_client) s"
    by (intro reach_step [OF one_node(4)] sys_step [of _ "Register 4"]) simp_all
  have l: "length (sy_events s) + 3 < 2 ^ 32" "0 < length (sy_members s)" "mb_up (sy_members s ! 0)" "machineID (mb_cluster (sy_members s ! 0)) = 3"
    "1 < length (sy_members s)" "\<not> mb_up (sy_members s ! 1)" "mb_from (sy_members s ! 1) = length (sy_events s)"
    "(51, 3) \<notin> subs alist_client (sy_dir s)"
    using s m one_node(1,2) by (auto simp: clean_def subs_def alist_client_def)
  from late_reader_counts_twice [OF r l] show ?thesis by (elim exE conjE) (intro exI conjI; assumption)
qed

end
