(* ===== verification/WireTypes.thy ===== *)
theory WireTypes
  imports Wire
begin

text \<open>
  What can be on the wire: every frame that \<open>Notify\<close>, \<open>Call\<close>, \<open>Publish\<close> and \<open>Reply\<close> (\<open>node.go\<close>) hand to a session is the well-formed
  frame of an operation, for a session that is in the table; a channel below the reserved types keeps it from being
  taken for a frame of the transport.
\<close>

section \<open>The frame of an operation\<close>

fun op_frame :: "u16 \<Rightarrow> 's node_op \<Rightarrow> (u16 \<times> u8 list \<times> u8 list) option" where
  "op_frame mid (DoNotify ch d) = Some (ch, d, [])"
| "op_frame mid (DoCall ch d r) = Some (ch, d, bytes16 mid @ bytes16 r)"
| "op_frame mid (DoPublish ch d) = Some (ch, d, [])"
| "op_frame mid (DoReply ctx d) =
     (case ctx_ex ctx of
        Some [p, q, r, s] \<Rightarrow> Some (ucast r OR push_bit 8 (ucast s), d, [])
      | _ \<Rightarrow> None)"
| "op_frame mid (DoWork m) = None"

definition typed :: "'s set \<Rightarrow> u16 \<Rightarrow> 's node_op set \<Rightarrow> 's \<times> u8 list \<Rightarrow> bool" where
  "typed S mid X mf \<longleftrightarrow> fst mf \<in> S \<and> (\<exists>x\<in>X. \<exists>ch d ex. op_frame mid x = Some (ch, d, ex) \<and> snd mf = frame_bytes ch d ex)"

lemma ask_loop_typed:
  assumes "ask_loop n wire ss b ch f (\<lambda>_ w. w) w = Some (Ended (b', w'))"
  shows "w' = w \<or> (\<exists>m. Some m \<in> set ss \<and> w' = w @ [(m, elems (base f))])"
  using assms
proof (induction n arbitrary: b)
  case (Suc n)
  obtain i l b1 where next': "bucket_next b = Some ((i, l), b1)" using Suc.prems by (auto simp: Let_def split: option.splits)
  obtain m where m: "arr_get ss (unat i) = Some m" using Suc.prems next' by (auto simp: Let_def split: option.splits)
  then have s: "m \<in> set ss" by (auto simp: arr_get_def split: if_splits)
  show ?case
  proof (cases m)
    case None
    then have "w' = w \<or> ask_loop n wire ss b1 ch f (\<lambda>_ w. w) w = Some (Ended (b', w'))"
      using Suc.prems next' m by (simp add: Let_def split: if_splits)
    then show ?thesis using Suc.IH by blast
  next
    case (Some a)
    have "ask_loop (Suc n) wire ss b ch f (\<lambda>_ w. w) w = Some (Ended (b1, w @ [(a, elems (base f))]))"
      using next' m Some by (simp add: Let_def wire_def)
    then show ?thesis using Suc.prems s Some by auto
  qed
qed simp

lemma AskOne_typed:
  assumes "AskOne n wire c ch f (\<lambda>_ w. w) w = Some (Ended (c', w'))"
  shows "cl_sessions c' = cl_sessions c \<and> machineID c' = machineID c \<and> (w' = w \<or> (\<exists>m\<in>sessions_of c. w' = w @ [(m, elems (base f))]))"
proof (cases "cl_channels c ch")
  case (Some b)
  then obtain b' where "ask_loop n wire (cl_sessions c) b ch f (\<lambda>_ w. w) w = Some (Ended (b', w'))"
    "c' = c\<lparr>cl_channels := (cl_channels c)(ch \<mapsto> b')\<rparr>"
    using assms by (auto simp: AskOne_def split: option.splits ended.splits)
  then show ?thesis using ask_loop_typed [of n "cl_sessions c" b ch f w b' w'] by (auto simp: sessions_of_def)
qed (use assms in \<open>auto simp: AskOne_def\<close>)

lemma ask_all_typed:
  "ask_all_loop wire ss ids f E w = Ended w' \<Longrightarrow> \<exists>ms. (\<forall>m\<in>set ms. Some m \<in> set ss) \<and> w' = w @ map (\<lambda>m. (m, elems (base f))) ms"
proof (induction ids arbitrary: w)
  case Nil
  then show ?case by (intro exI [of _ "[]"]) simp
next
  case (Cons i ids)
  then obtain m where m: "arr_get ss (unat i) = Some m" by (auto split: option.splits)
  then have s: "m \<in> set ss" by (auto simp: arr_get_def split: if_splits)
  show ?case
  proof (cases m)
    case None
    then show ?thesis using Cons m by simp
  next
    case (Some a)
    then have "ask_all_loop wire ss (i # ids) f E w = ask_all_loop wire ss ids f E (w @ [(a, elems (base f))])" using m by (simp add: wire_def)
    then have "ask_all_loop wire ss ids f E (w @ [(a, elems (base f))]) = Ended w'" using Cons.prems by simp
    from Cons.IH [OF this] obtain ms where ms: "\<forall>m\<in>set ms. Some m \<in> set ss" "w' = (w @ [(a, elems (base f))]) @ map (\<lambda>m. (m, elems (base f))) ms" by blast
    then show ?thesis using s Some by (intro exI [of _ "a # ms"]) simp
  qed
qed


definition adds :: "'s cluster \<Rightarrow> 's node_op \<Rightarrow> 's wire_log \<Rightarrow> 's cluster \<Rightarrow> 's wire_log \<Rightarrow> bool" where
  "adds c x w c' w' \<longleftrightarrow> cl_sessions c' = cl_sessions c \<and> machineID c' = machineID c
     \<and> (\<exists>new. w' = w @ new \<and> (\<forall>mf\<in>set new. typed (sessions_of c) (machineID c) {x} mf))"

lemma adds_none: "adds c x w c w"
  by (simp add: adds_def)

lemma ignore_errors: "(\<lambda>_ w. w) \<circ> NodeSend = (\<lambda>_ w. w)"
  by (simp add: comp_def)

lemma sends_one:
  assumes "NewFrameSlice ch d ex = Some f" "op_frame (machineID c) x = Some (ch, d, ex)"
    and "AskOne n wire c ch f (\<lambda>_ w. w) w = Some (Ended (c', w'))"
  shows "adds c x w c' w'"
proof -
  have "elems (base f) = frame_bytes ch d ex" using assms(1) by (auto simp: NewFrameSlice_bytes)
  then have t: "typed (sessions_of c) (machineID c) {x} (m, elems (base f))" if "m \<in> sessions_of c" for m
    using that assms(2) by (simp add: typed_def)
  from AskOne_typed [OF assms(3)] have c: "cl_sessions c' = cl_sessions c" "machineID c' = machineID c"
    and "w' = w \<or> (\<exists>m\<in>sessions_of c. w' = w @ [(m, elems (base f))])" by blast+
  then obtain new where "w' = w @ new" "\<forall>mf\<in>set new. typed (sessions_of c) (machineID c) {x} mf"
    using t by (metis append_Nil2 empty_iff empty_set set_ConsD)
  then show ?thesis using c unfolding adds_def by blast
qed

lemma node_do_typed:
  assumes "node_do fuel wire (\<lambda>_ w. w) (\<lambda>_ w. w) x c w = Some (Ended (c', w'))"
  shows "adds c x w c' w'"
proof (cases x)
  case (DoNotify ch d)
  obtain f where f: "NewFrameSlice ch d [] = Some f" by (simp add: NewFrameSlice_bytes)
  show ?thesis by (rule sends_one [OF f]) (use assms DoNotify f in \<open>simp_all add: Notify_def ignore_errors\<close>)
next
  case (DoCall ch d r)
  obtain f where f: "NewFrameSlice ch d (bytes16 (machineID c) @ bytes16 r) = Some f" by (simp add: NewFrameSlice_bytes)
  show ?thesis by (rule sends_one [OF f]) (use assms DoCall f in \<open>simp_all add: Call_def call_ex_bytes ignore_errors\<close>)
next
  case (DoPublish ch d)
  obtain f where f: "NewFrameSlice ch d [] = Some f" "elems (base f) = frame_bytes ch d []" by (simp add: NewFrameSlice_bytes)
  have a: "AskAll wire c ch f (\<lambda>_ w. w) w = Ended w'" and c': "c' = c"
    using assms DoPublish f(1) by (auto simp: Publish_def keep_def ignore_errors split: ended.splits)
  have "\<exists>ms. (\<forall>m\<in>set ms. m \<in> sessions_of c) \<and> w' = w @ map (\<lambda>m. (m, elems (base f))) ms"
  proof (cases "cl_channels c ch")
    case None
    then show ?thesis using a by (intro exI [of _ "[]"]) (simp add: AskAll_def)
  next
    case (Some b)
    then show ?thesis using a ask_all_typed [of "cl_sessions c" "sets b" f "\<lambda>_ w. w" w w'] by (simp add: AskAll_def sessions_of_def)
  qed
  then obtain ms where ms: "\<forall>m\<in>set ms. m \<in> sessions_of c" "w' = w @ map (\<lambda>m. (m, frame_bytes ch d [])) ms" using f(2) by auto
  then have "\<forall>mf\<in>set (map (\<lambda>m. (m, frame_bytes ch d [])) ms). typed (sessions_of c) (machineID c) {x} mf"
    using DoPublish by (auto simp: typed_def)
  then show ?thesis using ms(2) c' unfolding adds_def by blast
next
  case (DoReply ctx d)
  have r: "Reply wire c ctx d (\<lambda>_ w. w) w = Ended w'" and c': "c' = c"
    using assms DoReply by (auto simp: keep_def split: ended.splits)
  show ?thesis
  proof (cases "\<exists>ex. ctx_ex ctx = Some ex \<and> length ex = 4")
    case False
    then have "w' = w" using r by (auto simp: Reply_def split: option.splits if_splits)
    then show ?thesis using c' adds_none by simp
  next
    case True
    then obtain ex where ex: "ctx_ex ctx = Some ex" "length ex = 4" by blast
    then have "ex = [ex ! 0, ex ! 1, ex ! 2, ex ! 3]" using take_nths4 [of ex] by simp
    then obtain p q r s where e: "ex = [p, q] @ [r, s]" by (metis append_Cons append_Nil)
    let ?mid = "ucast p OR push_bit 8 (ucast q) :: u16" and ?ch = "ucast r OR push_bit 8 (ucast s) :: u16"
    have "ctx_ex ctx = Some (bytes16 ?mid @ bytes16 ?ch)" using ex(1) unfolding e by (simp only: bytes16_join)
    from reply_specify [OF this, of d wire c "\<lambda>_ w. w" w] obtain f where f: "elems (GetAll f) = frame_bytes ?ch d []"
      "Specify wire c ?mid ?ch f ((\<lambda>_ w. w) \<circ> NodeSend) w = Ended w'" using r by auto
    have "op_frame (machineID c) x = Some (?ch, d, [])" using DoReply ex(1) e by simp
    then have t: "typed (sessions_of c) (machineID c) {x} (m, elems (base f))" if "m \<in> sessions_of c" for m
      using that f(1) by (simp add: typed_def GetAll_def)
    have "w' = w \<or> (\<exists>m\<in>sessions_of c. w' = w @ [(m, elems (base f))])"
    proof (cases "arr_get (cl_sessions c) (unat ?mid)")
      case None
      then show ?thesis using f(2) by (simp add: Specify_def)
    next
      case (Some found)
      then have i: "found \<in> set (cl_sessions c)" by (auto simp: arr_get_def split: if_splits)
      show ?thesis
      proof (cases found)
        case None
        then show ?thesis using f(2) Some by (simp add: Specify_def)
      next
        case (Some a)
        then have "w' = w @ [(a, elems (base f))]"
          using f(2) \<open>arr_get (cl_sessions c) (unat ?mid) = Some found\<close> by (simp add: Specify_def wire_def)
        then show ?thesis using i Some unfolding sessions_of_def by blast
      qed
    qed
    then obtain new where "w' = w @ new" "\<forall>mf\<in>set new. typed (sessions_of c) (machineID c) {x} mf"
      using t by (metis append_Nil2 empty_iff empty_set set_ConsD)
    then show ?thesis using c' unfolding adds_def by blast
  qed
qed (use assms adds_none in simp)

lemma node_run_typed:
  "node_run fuel wire (\<lambda>_ w. w) (\<lambda>_ w. w) xs c w = Some (Ended (c', w'))
    \<Longrightarrow> \<exists>new. w' = w @ new \<and> (\<forall>mf\<in>set new. typed (sessions_of c) (machineID c) (set xs) mf)"
proof (induction xs arbitrary: c w)
  case (Cons x xs)
  obtain c1 w1 where d: "node_do fuel wire (\<lambda>_ w. w) (\<lambda>_ w. w) x c w = Some (Ended (c1, w1))"
    "node_run fuel wire (\<lambda>_ w. w) (\<lambda>_ w. w) xs c1 w1 = Some (Ended (c', w'))"
    using Cons.prems by (auto split: option.splits ended.splits)
  from node_do_typed [OF d(1)] obtain new where n: "w1 = w @ new" "\<forall>mf\<in>set new. typed (sessions_of c) (machineID c) {x} mf"
    "cl_sessions c1 = cl_sessions c" "machineID c1 = machineID c" unfolding adds_def by blast
  from Cons.IH [OF d(2)] obtain new' where "w' = w1 @ new'" "\<forall>mf\<in>set new'. typed (sessions_of c1) (machineID c1) (set xs) mf" by blast
  then have "w' = w @ new @ new'" "\<forall>mf\<in>set (new @ new'). typed (sessions_of c) (machineID c) (set (x # xs)) mf"
    using n by (auto simp: typed_def sessions_of_def)
  then show ?case by blast
qed simp

section \<open>Properties\<close>

text \<open>C11: what is on the wire is well typed: whatever a node notifies, calls, publishes and replies, every frame it hands over is the
  frame of one of these operations, for a session that is in its table; the receiver decodes it to the channel, the
  data and the extension of that operation; and with a channel below the reserved types it is no frame of the
  transport, and goes to the handler of its channel.\<close>

theorem wire_well_typed:
  assumes "node_run fuel wire (\<lambda>_ w. w) (\<lambda>_ w. w) xs c [] = Some (Ended (c', log))" "\<forall>x\<in>set xs. op_size x < 2 ^ 32"
    and "(m, f) \<in> set log"
  shows "m \<in> sessions_of c \<and> wf_frame f \<and> (\<exists>x\<in>set xs. \<exists>ch d ex. op_frame (machineID c) x = Some (ch, d, ex) \<and> f = frame_bytes ch d ex
      \<and> context_of f = \<lparr>Request = d, ctx_ex = Some ex\<rparr> \<and> frame_type f = ch \<and> (ch < FrameTypeNil \<longrightarrow> plain_frame f))"
proof -
  obtain x ch d ex where x: "m \<in> sessions_of c" "x \<in> set xs" "op_frame (machineID c) x = Some (ch, d, ex)" "f = frame_bytes ch d ex"
    using node_run_typed [OF assms(1)] assms(3) by (auto simp: typed_def)
  have ex: "length ex < 2 ^ 16" "8 + length d + length ex = op_size x"
    using x(3) by (cases x; auto split: option.splits list.splits)+
  then have size: "8 + length d + length ex < 2 ^ 32" using assms(2) x(2) by simp
  have "wf_frame f" using ex(1) size x(4) unfolding wf_frame_def by blast
  then show ?thesis using x plain_frame_bytes [OF _ ex(1) size] context_of_frame [OF ex(1)]
    by (intro conjI bexI [of _ x] exI [of _ ch] exI [of _ d] exI [of _ ex]) simp_all
qed

lemma wire_well_typed_witness:
  "\<exists>c' log. node_run 2 wire (\<lambda>_ w. w) (\<lambda>_ w. w) [DoCall 51 [7] 52, DoWork 0] one_session [] = Some (Ended (c', log))
    \<and> log \<noteq> [] \<and> (\<forall>(m, f)\<in>set log. plain_frame f \<and> Request (context_of f) = [7])"
proof -
  have l: "bucket_next (bucket_add newBucket [] 1) = Some ((1, 1), bucket_add newBucket [] 1)" by code_simp
  obtain c' log where r: "node_run 2 wire (\<lambda>_ w. w) (\<lambda>_ w. w) [DoCall 51 [7] 52, DoWork 0] one_session [] = Some (Ended (c', log))" "log \<noteq> []"
    using l by (simp add: one_session_def Call_def call_ex_bytes NewFrameSlice_bytes AskOne_def arr_get_def wire_def numeral_2_eq_2)
  have "plain_frame f \<and> Request (context_of f) = [7]" if "(m, f) \<in> set log" for m f
    using wire_well_typed [OF r(1) _ that] by (auto simp: FrameTypeNil_def)
  then show ?thesis using r by blast
qed

end
