(* ===== verification/EndToEnd.thy ===== *)
theory EndToEnd
  imports Calls
begin

text \<open>
  Calls from one node to another and their answers over sessions with their slots and jobs on both sides: what the jobs of the
  caller's session have sent is cut into reads at the subscriber, whose function answers over its own sessions.
\<close>

section \<open>The caller\<close>

text \<open>What the caller does: calls on one channel, jobs in between.\<close>

fun only_calls :: "u16 \<Rightarrow> 's node_op \<Rightarrow> bool" where
  "only_calls ch (DoCall ch' d r) = (ch' = ch)"
| "only_calls ch (DoWork m) = True"
| "only_calls ch x = False"

fun calls_made :: "'s node_op list \<Rightarrow> (u8 list \<times> u16) list" where
  "calls_made (DoCall ch d r # xs) = (d, r) # calls_made xs"
| "calls_made (x # xs) = calls_made xs"
| "calls_made [] = []"

lemma Call_one_more:
  assumes "cl_channels c ch = Some b" "cursor_at b p" "sets b = [j]" "unat j < length (cl_sessions c)" "cl_sessions c ! unat j = Some m" "0 < n"
  shows "\<exists>b' p'. Call n wire c ch d r reject w
      = Some (Ended (c\<lparr>cl_channels := (cl_channels c)(ch \<mapsto> b')\<rparr>, w @ [(m, call_frame (machineID c) ch (d, r))]))
    \<and> cursor_at b' p' \<and> sets b' = [j]"
proof -
  obtain k where n: "n = Suc k" using assms(6) by (cases n) auto
  obtain b' where "bucket_next b = Some ((j, 1), b')" "cursor_at b' 0" "sets b' = [j]"
    using cursor_next [OF assms(2)] assms(3) by auto
  then show ?thesis using assms(1,4,5) n
    by (intro exI [of _ b'] exI [of _ 0])
      (simp add: Call_def call_ex_bytes NewFrameSlice_bytes AskOne_def wire_def arr_get_def Let_def call_frame_def)
qed

lemma calls_logged:
  assumes "cl_channels c ch = Some b" "cursor_at b p" "sets b = [j]" "unat j < length (cl_sessions c)" "cl_sessions c ! unat j = Some m" "0 < n"
    and "\<forall>x\<in>set xs. only_calls ch x"
  shows "\<exists>c'. node_run n wire (\<lambda>_ w. w) rej xs c w
      = Some (Ended (c', w @ map (\<lambda>x. (m, call_frame (machineID c) ch x)) (calls_made xs)))"
  using assms
proof (induction xs arbitrary: c b p w)
  case (Cons x xs)
  show ?case
  proof (cases x)
    case (DoCall ch' d r)
    then have ch: "ch' = ch" using Cons.prems(7) by simp
    obtain b' p' where call: "Call n wire c ch d r rej w
        = Some (Ended (c\<lparr>cl_channels := (cl_channels c)(ch \<mapsto> b')\<rparr>, w @ [(m, call_frame (machineID c) ch (d, r))]))"
      "cursor_at b' p'" "sets b' = [j]"
      using Call_one_more [OF Cons.prems(1-6), of d r rej w] by blast
    then show ?thesis
      using Cons.IH [of "c\<lparr>cl_channels := (cl_channels c)(ch \<mapsto> b')\<rparr>" b' p' "w @ [(m, call_frame (machineID c) ch (d, r))]"] Cons.prems DoCall ch by simp
  next
    case (DoWork m')
    then show ?thesis using Cons.IH [OF Cons.prems(1-6), of w] Cons.prems(7) by simp
  qed (use Cons.prems(7) in simp_all)
qed simp

section \<open>Jobs\<close>

text \<open>All jobs of session \<open>m\<close> are run.\<close>

definition drain_session :: "(nat \<Rightarrow> io) \<Rightarrow> nat \<Rightarrow> nat \<times> writer list \<Rightarrow> nat \<times> writer list" where
  "drain_session clock m iw = (cached_work clock m ^^ length (JobQueue (snd iw ! m))) iw"

lemma work_counts:
  assumes "cached_holds fuel clock t0 n iw out" "m < n"
  shows "length (JobQueue (snd (cached_work clock m iw) ! m)) = length (JobQueue (snd iw ! m)) - 1"
proof -
  obtain w' where "run_job (clock (fst iw)) (snd iw ! m) = Some w'" "length (JobQueue w') = length (JobQueue (snd iw ! m)) - 1"
    using assms writer_holds_work [of t0 "snd iw ! m" "out m" "clock (fst iw)"] by (auto simp: cached_holds_def)
  then show ?thesis using assms by (simp add: cached_work_def cached_holds_def)
qed

lemma drain_holds:
  assumes "cached_holds fuel clock t0 n iw out" "m < n"
  shows "cached_holds fuel clock t0 n ((cached_work clock m ^^ k) iw) out
    \<and> length (JobQueue (snd ((cached_work clock m ^^ k) iw) ! m)) = length (JobQueue (snd iw ! m)) - k"
proof (induction k)
  case (Suc k)
  then have h: "cached_holds fuel clock t0 n ((cached_work clock m ^^ k) iw) out"
    and l: "length (JobQueue (snd ((cached_work clock m ^^ k) iw) ! m)) = length (JobQueue (snd iw ! m)) - k" by simp_all
  show ?case using cached.work_holds [OF h, of m] work_counts [OF h assms(2)] l by simp
qed (use assms in simp)

lemma drained:
  assumes "cached_holds fuel clock t0 n iw out" "m < n"
  shows "concat (sent (snd (drain_session clock m iw) ! m)) = out m"
proof -
  have "cached_holds fuel clock t0 n (drain_session clock m iw) out" "JobQueue (snd (drain_session clock m iw) ! m) = []"
    using drain_holds [OF assms, of "length (JobQueue (snd iw ! m))"] by (simp_all add: drain_session_def)
  then show ?thesis using assms(2) writer_holds_end unfolding cached_holds_def by blast
qed

lemma fresh_sessions:
  assumes "\<forall>i. quiet t0 (clock i)" "0 \<le> t0" "t0 < 2 ^ 62" "2 \<le> fuel"
    and "\<forall>(cbc, bp, rp)\<in>set cfgs. (\<forall>b\<in>set bp. length b = 32768) \<and> (\<forall>r\<in>set rp. length r = 4096 \<and> r ! 0 = None)"
  shows "cached_holds fuel clock t0 (length cfgs) (0, map (\<lambda>(cbc, bp, rp). NewSessionTCP cbc bp rp) cfgs) (\<lambda>_. [])"
  using assms writer_holds_new by (force simp: cached_holds_def list_all_iff split: prod.splits dest: nth_mem)

section \<open>The subscriber\<close>

text \<open>
  A function that answers over a carrier, after the jobs \<open>before ctx\<close> of the sessions named there.
\<close>

definition serving ::
  "('s, 'w) write_frame \<Rightarrow> ('s \<Rightarrow> 'w \<Rightarrow> 'w) \<Rightarrow> (ContextMQ \<Rightarrow> 's list) \<Rightarrow> 's cluster \<Rightarrow> (u8 list \<Rightarrow> u8 list) \<Rightarrow> ContextMQ \<Rightarrow> 'w \<Rightarrow> bool \<times> 'w" where
  "serving wr work before c g ctx w =
     (let w = fold work (before ctx) w
      in case Reply wr c ctx (g (Request ctx)) (\<lambda>_ w. w) w of Ended w \<Rightarrow> (True, w) | Crashed \<Rightarrow> (False, w))"

context frame_carrier
begin

lemma works_hold: "holds w out \<Longrightarrow> holds (fold work ms w) out"
  by (induction ms arbitrary: w) (auto intro: work_holds)

lemma serve_call:
  assumes "holds w out" "unat mid < length (cl_sessions c)" "cl_sessions c ! unat mid = Some a" "fits a (8 + length (g d))"
  shows "holds (snd (serving wr work before c g (context_of (call_frame mid ch (d, r))) w)) (out(a := out a @ frame_bytes r (g d) []))"
proof -
  let ?ctx = "\<lparr>Request = d, ctx_ex = Some (bytes16 mid @ bytes16 r)\<rparr>" and ?w = "fold work (before \<lparr>Request = d, ctx_ex = Some (bytes16 mid @ bytes16 r)\<rparr>) w"
  have ctx: "context_of (call_frame mid ch (d, r)) = ?ctx" by (simp add: call_frame_def context_of_frame)
  obtain f where f: "elems (GetAll f) = frame_bytes r (g d) []" "wf_slice (GetAll f)"
    "Reply wr c ?ctx (g d) (\<lambda>_ w. w) ?w = Specify wr c mid r f ((\<lambda>_ w. w) \<circ> NodeSend) ?w"
    using reply_specify [of ?ctx mid r "g d" wr c "\<lambda>_ w. w" ?w] by auto
  have "slen (base f) = length (elems (base f))" using f(2) by (simp add: GetAll_def)
  then have "slen (base f) = 8 + length (g d)" using f(1) by (simp add: GetAll_def)
  then have fit: "fits a (slen (base f))" "wf_slice (base f)" using assms(4) f(2) by (simp_all add: GetAll_def)
  obtain w' where "wr a f (((\<lambda>_ w. w) \<circ> NodeSend) \<circ> SendFailed) ?w = (None, w')" "holds w' (out(a := out a @ elems (base f)))"
    using takes [OF works_hold [OF assms(1)] fit(2,1)] by blast
  then show ?thesis using f(1,3) assms(2,3) ctx by (simp add: serving_def Specify_def arr_get_def GetAll_def Let_def)
qed

lemma serve_calls:
  assumes "holds w out" "unat mid < length (cl_sessions c)" "cl_sessions c ! unat mid = Some a" "\<forall>(d, r)\<in>set xs. fits a (8 + length (g d))"
  shows "holds (deliver (\<lambda>f w. (None, snd (serving wr work before c g (context_of f) w))) (map (call_frame mid ch) xs) w)
    (out(a := out a @ concat (map (\<lambda>(d, r). frame_bytes r (g d) []) xs)))"
  using assms
proof (induction xs arbitrary: w out)
  case (Cons x xs)
  obtain d r where x: "x = (d, r)" by (cases x)
  have "holds (snd (serving wr work before c g (context_of (call_frame mid ch (d, r))) w)) (out(a := out a @ frame_bytes r (g d) []))"
    by (rule serve_call) (use Cons.prems x in auto)
  then have "holds (deliver (\<lambda>f w. (None, snd (serving wr work before c g (context_of f) w))) (map (call_frame mid ch) xs)
      (snd (serving wr work before c g (context_of (call_frame mid ch (d, r))) w)))
    ((out(a := out a @ frame_bytes r (g d) []))(a := (out(a := out a @ frame_bytes r (g d) [])) a @ concat (map (\<lambda>(d, r). frame_bytes r (g d) []) xs)))"
    by (rule Cons.IH) (use Cons.prems(2-4) in auto)
  then show ?case using x by (simp add: fun_upd_def if_distrib [where f = "\<lambda>x. x @ _"] cong: if_cong)
qed simp

end

section \<open>Both together\<close>

definition new_sessions :: "(CircuitBreakerConfigure \<times> u8 list list \<times> nat option list list) list \<Rightarrow> nat \<times> writer list" where
  "new_sessions cfgs = (0, map (\<lambda>(cbc, bp, rp). NewSessionTCP cbc bp rp) cfgs)"

definition good_setting :: "nat \<Rightarrow> int \<Rightarrow> (nat \<Rightarrow> io) \<Rightarrow> (CircuitBreakerConfigure \<times> u8 list list \<times> nat option list list) list \<Rightarrow> bool" where
  "good_setting fuel t0 clock cfgs \<longleftrightarrow> (\<forall>i. quiet t0 (clock i)) \<and> 0 \<le> t0 \<and> t0 < 2 ^ 62 \<and> 2 \<le> fuel
     \<and> (\<forall>(cbc, bp, rp)\<in>set cfgs. (\<forall>b\<in>set bp. length b = 32768) \<and> (\<forall>r\<in>set rp. length r = 4096 \<and> r ! 0 = None))"

lemma new_sessions_hold: "good_setting fuel t0 clock cfgs \<Longrightarrow> cached_holds fuel clock t0 (length cfgs) (new_sessions cfgs) (\<lambda>_. [])"
  unfolding good_setting_def new_sessions_def by (rule fresh_sessions) simp_all

lemma call_made: "DoCall ch d r \<in> set ops \<Longrightarrow> (d, r) \<in> set (calls_made ops)"
  by (induction ops rule: calls_made.induct) auto

text \<open>What the caller's session has sent when its jobs have run.\<close>

lemma calls_sent:
  assumes caller: "cl_channels c ch = Some b" "cursor_at b p" "sets b = [j]" "unat j < length (cl_sessions c)" "cl_sessions c ! unat j = Some m"
    and n: "\<forall>m\<in>sessions_of c. m < length cfgs" and ops: "\<forall>x\<in>set ops. only_calls ch x" "\<forall>(d, r)\<in>set (calls_made ops). 12 + length d < 32768"
    and set: "good_setting fuel t0 clock cfgs"
  shows "\<exists>c1 iw. node_run fuel (cached_write fuel bl clock x) (cached_work clock) (\<lambda>_ w. w) ops c (new_sessions cfgs) = Some (Ended (c1, iw))
    \<and> concat (sent (snd (drain_session clock m iw) ! m)) = concat (map (call_frame (machineID c) ch) (calls_made ops))"
proof -
  have fuel: "0 < fuel" using set by (simp add: good_setting_def)
  have start: "cached_holds fuel clock t0 (length cfgs) (new_sessions cfgs) (streams [])"
    using new_sessions_hold [OF set] by (simp add: streams_def [abs_def] stream_to_def)
  have fit: "\<forall>x\<in>set ops. is_work x \<or> (\<forall>m\<in>sessions_of c. m < length cfgs \<and> 9 \<le> op_size x \<and> op_size x < 32768)"
  proof
    fix x assume x: "x \<in> set ops"
    then have only: "only_calls ch x" using ops(1) by blast
    show "is_work x \<or> (\<forall>m\<in>sessions_of c. m < length cfgs \<and> 9 \<le> op_size x \<and> op_size x < 32768)"
    proof (cases x)
      case (DoCall ch' d r)
      then have "(d, r) \<in> set (calls_made ops)" using x call_made by simp
      then have "12 + length d < 32768" using ops(2) by blast
      then show ?thesis using DoCall n by simp
    qed (use only in simp_all)
  qed
  let ?log = "map (\<lambda>x. (m, call_frame (machineID c) ch x)) (calls_made ops)"
  obtain c1 where log: "node_run fuel wire (\<lambda>_ w. w) (\<lambda>_ w. w) ops c [] = Some (Ended (c1, ?log))"
    using calls_logged [OF caller fuel ops(1), of "\<lambda>_ w. w" "[]"] by auto
  have "rel_option (rel_ended (rel_prod (=) (\<lambda>w log. cached_holds fuel clock t0 (length cfgs) w (streams log))))
    (node_run fuel (cached_write fuel bl clock x) (cached_work clock) (\<lambda>_ w. w) ops c (new_sessions cfgs))
    (node_run fuel wire (\<lambda>_ w. w) (\<lambda>_ w. w) ops c [])"
    by (rule cached.node_run_sim [OF start fit])
  then obtain iw where iw: "node_run fuel (cached_write fuel bl clock x) (cached_work clock) (\<lambda>_ w. w) ops c (new_sessions cfgs) = Some (Ended (c1, iw))"
    "cached_holds fuel clock t0 (length cfgs) iw (streams ?log)"
    unfolding log by (auto simp: option_rel_Some2 elim!: ended.rel_cases)
  have "Some m \<in> set (cl_sessions c)" using caller(4,5) by (metis nth_mem)
  then have "m < length cfgs" using n by (simp add: sessions_of_def)
  then have "concat (sent (snd (drain_session clock m iw) ! m)) = streams ?log m" by (rule drained [OF iw(2)])
  also have "\<dots> = concat (map (call_frame (machineID c) ch) (calls_made ops))" by (simp add: streams_def stream_to_def comp_def filter_map)
  finally show ?thesis using iw(1) by blast
qed

text \<open>What the subscriber makes of it, in any cuts, and what its session has sent then.\<close>

lemma calls_served:
  assumes "unat mid < length (cl_sessions c)" "cl_sessions c ! unat mid = Some a" "a < length cfgs"
    and "h FrameTypeNil = Some nil_handler" "ch < FrameTypeNil" "fresh_reader s rf n"
    and "\<forall>(d, r)\<in>set xs. 12 + length d \<le> n \<and> g d \<noteq> [] \<and> 8 + length (g d) < 32768" "good_setting fuel t0 clock cfgs"
    and "\<forall>k\<in>set sizes. 0 < k" "length (concat (map (call_frame mid ch) xs)) \<le> length sizes"
  shows "\<exists>t l' iw. receive rf (fst (node_Subscribe i (serving (cached_write fuel bl clock x) (cached_work clock) before c g) ch h)) lim se s l
      (new_sessions cfgs) (concat (map (call_frame mid ch) xs)) sizes = (Some (IoWaiting t l' iw), [])
    \<and> concat (sent (snd (drain_session clock a iw) ! a)) = concat (map (\<lambda>(d, r). frame_bytes r (g d) []) xs)"
proof -
  let ?F = "serving (cached_write fuel bl clock x) (cached_work clock) before c g"
  let ?iw = "deliver (\<lambda>f w. (None, snd (?F (context_of f) w))) (map (call_frame mid ch) xs) (new_sessions cfgs)"
  have small: "\<forall>(d, r)\<in>set xs. 12 + length d \<le> length (rBuf s)" using assms(6,7) by (fastforce simp: fresh_reader_def)
  have "\<exists>t l'. receive rf (fst (node_Subscribe i ?F ch h)) lim se s l (new_sessions cfgs) (concat (map (call_frame mid ch) xs)) sizes
      = (Some (IoWaiting t l' ?iw), [])"
    by (rule calls_routed [where xs = xs and ch = ch and cm = mid and s = s and h = h, OF _ _ _ _ _ small assms(4,5,9,10)]) (use assms(6) in \<open>simp_all add: fresh_reader_def\<close>)
  moreover have "cached_holds fuel clock t0 (length cfgs) ?iw ((\<lambda>_. [])(a := [] @ concat (map (\<lambda>(d, r). frame_bytes r (g d) []) xs)))"
    by (rule cached.serve_calls [OF new_sessions_hold [OF assms(8)] assms(1,2)]) (use assms(3,7) in \<open>auto simp: Suc_le_eq\<close>)
  then have "concat (sent (snd (drain_session clock a ?iw) ! a)) = concat (map (\<lambda>(d, r). frame_bytes r (g d) []) xs)"
    using drained [OF _ assms(3)] by simp
  ultimately show ?thesis by blast
qed

text \<open>What the caller makes of the answers.\<close>

lemma answers_received:
  assumes "fresh_reader s rf n" "h FrameTypeNil = Some nil_handler"
    and "\<forall>(d, r)\<in>set xs. r < FrameTypeNil \<and> 8 + length (g d) \<le> n \<and> handles se h eff (frame_bytes r (g d) [])"
    and "\<forall>k\<in>set sizes. 0 < k" "length (concat (map (\<lambda>(d, r). frame_bytes r (g d) []) xs)) \<le> length sizes"
  shows "\<exists>t l'. receive rf h lim se s l w (concat (map (\<lambda>(d, r). frame_bytes r (g d) []) xs)) sizes
    = (Some (IoWaiting t l' (deliver eff (map (\<lambda>(d, r). frame_bytes r (g d) []) xs) w)), [])"
proof (rule receive_fresh [where fs = "map (\<lambda>(d, r). frame_bytes r (g d) []) xs" and s = s and n = n and h = h, OF assms(1) _ assms(2,4,5)])
  have "n < 2 ^ 32" using assms(1) by (simp add: fresh_reader_def)
  then show "\<forall>f\<in>set (map (\<lambda>(d, r). frame_bytes r (g d) []) xs). plain_frame f \<and> length f \<le> n \<and> handles se h eff f"
    using assms(3) by (fastforce intro!: plain_frame_bytes)
qed

end
