(* ===== verification/Spec2Isabelle.thy ===== *)
theory Spec2Isabelle
  imports RingConc PoolSpec LimiterConc Dispatcher Logger Chat GenteelRoom Echo SerialReject SerialEnd Federation WireTypes EndToEnd
begin

text \<open>
  A verification of domi, a framework of nodes that exchange frames over TCP and find each other through etcd
  (Go, package \<open>github.com/duomi520/domi\<close>), and of the programs under \<open>examples/\<close> that are built on it.

  \<^bold>\<open>The program.\<close> A \<open>Node\<close> (\<open>node.go\<close>) subscribes handlers to channels and sends to channels; a \<open>Serial\<close> (\<open>serial.go\<close>) runs the
  handlers of its channels one at a time in a goroutine of its own. Both stand on a \<open>Sidecar\<close>
  (\<open>sidecar/\<close>): it registers the node in etcd, dials the nodes it finds, and keeps two tables, from machine ids to
  sessions and from channels to the machines that subscribe to them. A session (\<open>transport/\<close>) cuts the
  byte stream of a connection into frames, which the handler table routes by their type, and collects frames
  to send in slots that a worker of the dispatcher (\<open>util/work_queue.go\<close>) writes. \<open>util/\<close> holds the ring buffer,
  the circuit breaker, the limiter, the conversions and the logger; \<open>master.go\<close> guards the process.

  \<^bold>\<open>The theories\<close>, in the order they build on each other:
  \<^item> \<open>Prelude\<close>: integer types, positions in a ring, overwriting a region, reachable states and the invariant rules
    (locales \<open>step_invariant\<close> and \<open>run_invariant\<close>). \<open>GoSlice\<close>: slices and the panics of indexing. \<open>Regions\<close>: regions of a
    buffer given out in a row, and counting in a list.
  \<^item> \<open>Conver\<close> (\<open>util/conver.go\<close>): decimal printing and the codecs; locale \<open>byte_codec\<close>, interpreted on three widths.
  \<^item> \<open>Ring\<close>, \<open>RingFifo\<close>, \<open>RingConc\<close> (\<open>util/ring.go\<close>): the operations; their refinement of a bounded queue (locale
    \<open>message_fifo\<close>); several producers and the consumer, interleaved between reservation, copy and commit.
  \<^item> \<open>Frame\<close>, \<open>Handler\<close> (\<open>transport/frame.go\<close>, \<open>handler.go\<close>): the layout of a frame; the table and its built-in handlers.
  \<^item> \<open>SessionRead\<close> (\<open>transport/tcp_session.go\<close>, \<open>tcp_server.go\<close>, \<open>tcp_client.go\<close>): the read buffer and the routing loops. \<open>Connect\<close>:
    making and accepting connections.
  \<^item> \<open>SessionWrite\<close>, \<open>SessionWriteSpec\<close>, \<open>SlotConc\<close>, \<open>Sessions\<close> (\<open>transport/tcp_session.go\<close>): slots, jobs and error functions, one
    operation at a time; what they deliver; the same slots with calls and workers interleaved; the sessions of
    a node and the handler table they share.
  \<^item> \<open>Pools\<close>, \<open>PoolSpec\<close> (\<open>transport/tcp_session.go\<close>): sessions that share the pool of buffers, on a memory, with \<open>Close\<close> and what it
    gives back; that they do not disturb each other, and the interleaving in which they do.
  \<^item> \<open>Breaker\<close>, \<open>Limiter\<close>, \<open>Dispatcher\<close>, \<open>Logger\<close> (\<open>util/circuitBreaker.go\<close>, \<open>limiter.go\<close>, \<open>work_queue.go\<close>, \<open>log.go\<close>); \<open>LimiterConc\<close>: the
    limiter with its callers, \<open>Run\<close> and \<open>Close\<close> interleaved.
  \<^item> \<open>Lifecycle\<close>, \<open>Master\<close> (\<open>util/wait_group_wrapper.go\<close>, \<open>master.go\<close>): components and their counters; the guard of the
    process, signals and the countdown.
  \<^item> \<open>Cluster\<close>, \<open>ClusterSpec\<close>, \<open>Etcd\<close> (\<open>sidecar/cluster.go\<close>, \<open>etcd.go\<close>, \<open>peer.go\<close>): the tables, \<open>Specify\<close>, \<open>AskOne\<close>, \<open>AskAll\<close>, the loop of \<open>Run\<close>;
    their invariant and the order of members; registration, machine ids, watch events and the replication of the directory.
  \<^item> \<open>Sidecar\<close>, \<open>Startup\<close> (\<open>sidecar/sidecar.go\<close>, \<open>util/sys.go\<close>): configuration, dialing, the first frame of a connection, heartbeats,
    shutdown; how a node is made and comes up, its HTTP pages. \<open>Federation\<close>: many nodes and the directory as one system.
  \<^item> \<open>Serial\<close>, \<open>SerialSpec\<close>, \<open>SerialReject\<close>, \<open>SerialEnd\<close> (\<open>serial.go\<close>): subscriptions, bags and the ring of a serial; the errors of what it
    sends; its life from the start of \<open>Run\<close> to the release, with deliveries and \<open>Close\<close> interleaved.
  \<^item> \<open>Node\<close>, \<open>Wire\<close>, \<open>WireTypes\<close>, \<open>Calls\<close>, \<open>EndToEnd\<close> (\<open>node.go\<close>): subscriptions, calls and replies; a node over its sessions with their slots and jobs,
    as a refinement of a plain log; what can be on the wire; calls and answers across two nodes, over a log and over sessions.
  \<^item> \<open>Room\<close>, \<open>Gateway\<close>, \<open>Chat\<close>, \<open>GenteelRoom\<close>, \<open>Echo\<close> (\<open>examples/\<close>): the chat programs, alone and together, and the two request programs.
  \<^item> This theory: calls and answers across caller, slots, jobs, connection, routing loop, wrapper and reply, and back.

  \<^bold>\<open>Conventions.\<close> A definition has the name of its Go function, with a suffix where it would clash. A struct is a
  record, an integer a word of its width, a nil pointer \<^const>\<open>None\<close>. A run-time panic is \<^const>\<open>None\<close> or a constructor
  of the result (\<open>Crashed\<close>, \<open>Panicked\<close>); an \<open>error\<close> is a value. What comes from outside (connections, clock,
  etcd, the network's answers) is an argument; of etcd the laws that \<open>Federation\<close> needs are a hypothesis (\<open>etcd_laws\<close>), with
  an instance. A handler is a function on the state of all it can reach, and it returns or panics. Goroutines
  that share state are step relations or actions at the granularity of their atomic operations.

  \<^bold>\<open>Fuel.\<close> A loop that need not end takes fuel, and \<^const>\<open>None\<close> means that it still runs. The routing loop uses one unit per frame, so one
  more than the size of the buffer is enough (\<open>stream_reassembled\<close>); \<open>AskOne\<close> one per member tried, and the number of
  members is enough when one of them takes the frame (\<open>AskOne_delivers\<close>). Where no fuel is enough this is a
  theorem (\<open>zero_length_frame_spins\<close>, \<open>AskOne_spins\<close>).

  \<^bold>\<open>What is shown.\<close> Functional results over whole runs (reassembly, order and completeness of what is sent, rounds of a
  group, calls and answers, a chat message from socket to socket), invariants (tables of the cluster, workers of the
  dispatcher, ring, slots, pool, rooms and gateway under interleaving), refinement (the ring as a queue, a node as a log, the
  tables of all nodes as the directory), the type of what is on the wire, round trips, bounds (limiter), when a node
  comes up and what it knows then, how rooms, gateways, serials and processes end, and for each defect found a theorem or lemma
  on the run that shows it.

  \<^bold>\<open>Not modelled.\<close> Memory effects below the granularity of the atomic operations (the copies of the ring and of the
  slots are single steps); the channels that a serial's timer closes after its end; \<open>net/http\<close>, the web socket, protobuf and
  etcd libraries (parameters, or reduced to their answers); time stamps and the text of log messages; \<open>cmd/benchmark\<close>, tests
  and generated code.
\<close>

section \<open>Properties\<close>

text \<open>calls on a channel with one subscriber are answered: the bytes that the calls write for the subscriber's session,
  cut into reads in any way, make the subscriber's function run once per call and in order, and make it write
  exactly the answers to the session of the calling node, each as a frame of the channel that its call named.\<close>

theorem calls_answered:
  assumes caller: "cl_channels c ch = Some b" "cursor_at b p" "sets b = [j]" "unat j < length (cl_sessions c)"
      "cl_sessions c ! unat j = Some m"
    and subscriber: "unat (machineID c) < length (cl_sessions c')" "cl_sessions c' ! unat (machineID c) = Some a"
      "h FrameTypeNil = Some nil_handler" "ch < FrameTypeNil"
    and reader: "rd_w s = 0" "rd_r s = 0" "length (rBuf s) < 2 ^ 32" "length (rBuf s) < fuel" "xs \<noteq> []"
      "\<forall>(d, r)\<in>set xs. 12 + length d \<le> length (rBuf s)"
  shows "\<exists>log. make_calls c ch xs [] = Some log
    \<and> (\<forall>sizes. (\<forall>k\<in>set sizes. 0 < k) \<and> length (stream_to m log) \<le> length sizes \<longrightarrow>
        (\<exists>s' l'. receive fuel (fst (node_Subscribe mid (answering c' g) ch h)) lim se s l [] (stream_to m log) sizes
          = (Some (IoWaiting s' l' (map (\<lambda>(d, r). (a, frame_bytes r (g d) [])) xs)), [])))"
proof -
  let ?fs = "map (call_frame (machineID c) ch) xs"
  let ?log = "map (\<lambda>x. (m, call_frame (machineID c) ch x)) xs"
  let ?h = "fst (node_Subscribe mid (answering c' g) ch h)"
  let ?eff = "\<lambda>f w. (None, snd (answering c' g (context_of f) w))"
  have log: "make_calls c ch xs [] = Some ?log" using make_calls_log [OF caller, of xs "[]"] by simp
  have stream: "stream_to m ?log = concat ?fs" by (simp add: stream_to_def comp_def filter_map)
  have pos: "0 < length (rBuf s)" using reader(5,6) by (cases xs) auto
  have "\<exists>s' l'. receive fuel ?h lim se s l [] (concat ?fs) sizes = (Some (IoWaiting s' l' (deliver ?eff ?fs [])), [])"
    if "\<forall>k\<in>set sizes. 0 < k" "length (concat ?fs) \<le> length sizes" for sizes
    using calls_routed [where F = "answering c' g" and cm = "machineID c" and w = "[]" and s = s and xs = xs and h = h,
        OF reader(1,2) pos reader(3,4,6) subscriber(3,4) that] .
  then show ?thesis using log stream deliver_answers [OF subscriber(1,2), of g ch xs "[]"] by (intro exI [of _ ?log]) (simp, blast?)
qed

definition caller_node :: "nat cluster" where
  "caller_node = \<lparr>cl_sessions = [None, Some 7], cl_channels = (\<lambda>_. Some (bucket_add newBucket [] 1)), machineID = 0, cl_state = StateWork\<rparr>"

definition subscriber_node :: "nat cluster" where
  "subscriber_node = \<lparr>cl_sessions = [Some 4], cl_channels = Map.empty, machineID = 1, cl_state = StateWork\<rparr>"

definition log_session :: "nat wire_log Session" where
  "log_session = \<lparr>sessGetFrameSlice = \<lambda>_. None, sessWriteFrameDataPromptly = \<lambda>_ w. (None, w),
     sessWriteFrameDataToCache = \<lambda>_ _ w. (None, w), sessClose = \<lambda>w. w\<rparr>"

lemma calls_answered_witness:
  "\<exists>log. make_calls caller_node 51 [([1], 70), ([2, 3], 71)] [] = Some log
    \<and> (\<exists>s' l'. receive 33 (fst (node_Subscribe 1 (answering subscriber_node rev) 51 NewHandler)) (\<lambda>n l. l) log_session
          \<lparr>rBuf = replicate 32 0, rd_w = 0, rd_r = 0\<rparr> () [] (stream_to 7 log) (replicate (length (stream_to 7 log)) 3)
        = (Some (IoWaiting s' l' [(4, frame_bytes 70 [1] []), (4, frame_bytes 71 [3, 2] [])]), []))"
proof -
  have b: "sets (bucket_add newBucket [] 1) = [1]" by (simp add: bucket_add_newBucket)
  obtain p where p: "cursor_at (bucket_add newBucket [] 1) p" using bucket_add_ok [of "[]" 1] by (auto simp: bucket_ok_cursor)
  obtain log where "make_calls caller_node 51 [([1], 70), ([2, 3], 71)] [] = Some log"
    and r: "\<And>sizes. \<forall>k\<in>set sizes. 0 < k \<Longrightarrow> length (stream_to 7 log) \<le> length sizes \<Longrightarrow>
        \<exists>s' l'. receive 33 (fst (node_Subscribe 1 (answering subscriber_node rev) 51 NewHandler)) (\<lambda>n l. l) log_session
          \<lparr>rBuf = replicate 32 0, rd_w = 0, rd_r = 0\<rparr> () [] (stream_to 7 log) sizes
        = (Some (IoWaiting s' l' (map (\<lambda>(d, r). (4, frame_bytes r (rev d) [])) [([1], 70), ([2, 3], 71)])), [])"
    using calls_answered [of caller_node 51 "bucket_add newBucket [] 1" p 1 7 subscriber_node 4 NewHandler
        "\<lparr>rBuf = replicate 32 0, rd_w = 0, rd_r = 0\<rparr>" 33 "[([1], 70), ([2, 3], 71)]" 1 rev "\<lambda>n l. l" log_session "()"] b p
    by (auto simp: caller_node_def subscriber_node_def FrameTypeNil_def NewHandler_simps(1) [unfolded FrameTypeNil_def])
  then show ?thesis using r [of "replicate (length (stream_to 7 log)) 3"] by auto
qed


definition two_calls :: "nat node_op list" where
  "two_calls = [DoCall 51 [1] 70, DoWork 0, DoCall 51 [2, 3] 70]"

definition small_reader :: SessionRd where
  "small_reader = \<lparr>rBuf = replicate 32 0, rd_w = 0, rd_r = 0\<rparr>"

definition log_answer :: "ContextMQ \<Rightarrow> u8 list list \<Rightarrow> bool \<times> u8 list list" where
  "log_answer ctx w = (True, w @ [Request ctx])"

definition silent_session :: "'w Session" where
  "silent_session = \<lparr>sessGetFrameSlice = \<lambda>_. None, sessWriteFrameDataPromptly = \<lambda>_ w. (None, w),
     sessWriteFrameDataToCache = \<lambda>_ _ w. (None, w), sessClose = \<lambda>w. w\<rparr>"

definition one_setting :: "(CircuitBreakerConfigure \<times> u8 list list \<times> nat option list list) list" where
  "one_setting = [(NewCircuitBreakerConfigure, [], [])]"


end
